(* ===== verification/Prelude.thy ===== *)
theory Prelude
  imports Main "HOL-Library.Word" "HOL-Library.While_Combinator"
begin

unbundle bit_operations_syntax

text \<open>
  The prelude of the development: the C integer types of the MIPS32 target, the outcome type of
  C code that may also run into undefined behaviour, stop for good or loop forever, the array
  accesses that turn an index out of range into undefined behaviour, and the lemmas on lists,
  words, loops and transition systems that the component theories share.
\<close>

section \<open>Machine integers\<close>

text \<open>\<open>unsigned int\<close> has 32 bits and \<open>unsigned char\<close> has 8. A plain \<open>char\<close> is signed for
  the mipsel compiler that builds the sources, so a conversion to \<open>unsigned int\<close> extends the
  sign.\<close>

type_synonym u32 = "32 word"
type_synonym u8 = "8 word"

definition char_to_uint :: "u8 \<Rightarrow> u32" where
  "char_to_uint c = scast c"

text \<open>The ASCII code of each character of a string literal.\<close>

definition ascii :: "string \<Rightarrow> u8 list" where
  "ascii cs = map (\<lambda>c. of_nat (of_char c)) cs"

named_theorems giet_defs \<open>definitions of the kernel model that a symbolic execution unfolds\<close>
named_theorems outcome_simps \<open>rewriting of outcomes\<close>

section \<open>Outcomes of C code\<close>

text \<open>
  A C function runs on a state and either returns a value, executes an operation whose behaviour
  C leaves undefined (here: an array index out of range), stops the task for good (the infinite
  loop of \<open>_exit\<close>, reached in a known state), or polls forever.
\<close>

datatype ('a, 's) outcome = Ret 'a 's | Ub 's | Halt 's | Diverge

type_synonym ('s, 'a) prog = "'s \<Rightarrow> ('a, 's) outcome"

definition ret :: "'a \<Rightarrow> ('s, 'a) prog" where
  "ret a = (\<lambda>s. Ret a s)"

definition bnd :: "('s, 'a) prog \<Rightarrow> ('a \<Rightarrow> ('s, 'b) prog) \<Rightarrow> ('s, 'b) prog" where
  "bnd m k = (\<lambda>s. case m s of Ret a t \<Rightarrow> k a t | Ub t \<Rightarrow> Ub t | Halt t \<Rightarrow> Halt t | Diverge \<Rightarrow> Diverge)"

definition gets :: "('s \<Rightarrow> 'a) \<Rightarrow> ('s, 'a) prog" where
  "gets f = (\<lambda>s. Ret (f s) s)"

definition modify :: "('s \<Rightarrow> 's) \<Rightarrow> ('s, unit) prog" where
  "modify f = (\<lambda>s. Ret () (f s))"

definition halt :: "('s, 'a) prog" where
  "halt = (\<lambda>s. Halt s)"

definition undef :: "('s, 'a) prog" where
  "undef = (\<lambda>s. Ub s)"

text \<open>A busy-waiting loop: \<open>body\<close> is what the rest of the machine does between two polls.\<close>

definition spin :: "('s \<Rightarrow> bool) \<Rightarrow> ('s \<Rightarrow> 's) \<Rightarrow> ('s, unit) prog" where
  "spin waiting body = (\<lambda>s. case while_option waiting body s of None \<Rightarrow> Diverge | Some t \<Rightarrow> Ret () t)"

text \<open>C arrays: reading or writing outside the array is undefined.\<close>

definition aread :: "('s \<Rightarrow> 'a list) \<Rightarrow> u32 \<Rightarrow> ('s, 'a) prog" where
  "aread arr i = (\<lambda>s. if unat i < length (arr s) then Ret (arr s ! unat i) s else Ub s)"

definition awrite ::
  "('s \<Rightarrow> 'a list) \<Rightarrow> (('a list \<Rightarrow> 'a list) \<Rightarrow> 's \<Rightarrow> 's) \<Rightarrow> u32 \<Rightarrow> 'a \<Rightarrow> ('s, unit) prog" where
  "awrite arr upd i v =
     (\<lambda>s. if unat i < length (arr s) then Ret () (upd (\<lambda>_. (arr s)[unat i := v]) s) else Ub s)"

lemma prog_simps [simp, outcome_simps]:
  "ret a s = Ret a s"
  "gets f s = Ret (f s) s"
  "halt s = Halt s"
  by (simp_all add: ret_def gets_def halt_def)

lemma undef_apply [simp, outcome_simps]: "undef s = Ub s"
  by (simp add: undef_def)

lemma modify_apply [simp, outcome_simps]: "modify g s = Ret () (g s)"
  by (simp add: modify_def)

lemma bnd_ret [simp, outcome_simps]: "bnd (ret a) k s = k a s"
  by (simp add: bnd_def)

lemma bnd_ret_fun [simp]: "bnd (ret a) k = k a"
  by (rule ext) simp

lemma bnd_gets [simp, outcome_simps]: "bnd (gets f) k s = k (f s) s"
  by (simp add: bnd_def)

lemma bnd_modify [simp, outcome_simps]: "bnd (modify g) k s = k () (g s)"
  by (simp add: bnd_def)

lemma bnd_halt [simp, outcome_simps]: "bnd halt k s = Halt s"
  by (simp add: bnd_def)

lemma bnd_undef [simp, outcome_simps]: "bnd undef k s = Ub s"
  by (simp add: bnd_def)

lemma bnd_simps [outcome_simps]:
  "m s = Ret a t \<Longrightarrow> bnd m k s = k a t"
  "m s = Ub t \<Longrightarrow> bnd m k s = Ub t"
  "m s = Halt t \<Longrightarrow> bnd m k s = Halt t"
  "m s = Diverge \<Longrightarrow> bnd m k s = Diverge"
  by (simp_all add: bnd_def)

lemma bnd_assoc: "bnd (bnd m k) l s = bnd m (\<lambda>a. bnd (k a) l) s"
  by (simp add: bnd_def split: outcome.splits)

lemma bnd_assoc_fun: "bnd (bnd m k) l = bnd m (\<lambda>a. bnd (k a) l)"
  by (rule ext) (rule bnd_assoc)

lemma bnd_if_fun [simp]: "bnd (if b then m else n) k = (if b then bnd m k else bnd n k)"
  by simp

lemma bnd_cong: "(\<And>a. k a = k' a) \<Longrightarrow> bnd m k = bnd m k'"
  by (auto simp: bnd_def fun_eq_iff split: outcome.splits)

lemma bnd_undef_fun [simp]: "bnd undef k = undef"
  by (rule ext) simp

lemma bnd_RetE:
  assumes "bnd m k s = Ret b u"
  obtains a t where "m s = Ret a t" and "k a t = Ret b u"
  using assms by (auto simp: bnd_def split: outcome.splits)

lemma bnd_if [simp]: "bnd (if b then m else n) k s = (if b then bnd m k s else bnd n k s)"
  by simp

lemma aread_in [outcome_simps]: "unat i < length (arr s) \<Longrightarrow> aread arr i s = Ret (arr s ! unat i) s"
  by (simp add: aread_def)

lemma aread_out [outcome_simps]: "length (arr s) \<le> unat i \<Longrightarrow> aread arr i s = Ub s"
  by (simp add: aread_def)

lemma bnd_aread: "unat i < length (arr s) \<Longrightarrow> bnd (aread arr i) k s = k (arr s ! unat i) s"
  by (simp add: aread_def bnd_def)

lemma bnd_awrite:
  "unat i < length (arr s) \<Longrightarrow> bnd (awrite arr upd i v) k s = k () (upd (\<lambda>_. (arr s)[unat i := v]) s)"
  by (simp add: awrite_def bnd_def)

lemma awrite_in:
  "unat i < length (arr s) \<Longrightarrow> awrite arr upd i v s = Ret () (upd (\<lambda>_. (arr s)[unat i := v]) s)"
  by (simp add: awrite_def)

lemma spin_done [simp]: "\<not> waiting s \<Longrightarrow> spin waiting body s = Ret () s"
  by (simp add: spin_def while_option_unfold)

lemma spin_step: "waiting s \<Longrightarrow> spin waiting body s = spin waiting body (body s)"
  by (simp add: spin_def while_option_unfold [of waiting body s])

text \<open>A polling loop ends as soon as the environment has made its condition false.\<close>

lemma spin_ends:
  assumes "\<not> waiting ((body ^^ n) s)"
  shows "\<exists>k\<le>n. spin waiting body s = Ret () ((body ^^ k) s) \<and> \<not> waiting ((body ^^ k) s)
                 \<and> (\<forall>j<k. waiting ((body ^^ j) s))"
  using assms
proof (induction n arbitrary: s)
  case 0
  then show ?case by auto
next
  case (Suc n)
  show ?case
  proof (cases "waiting s")
    case False
    then show ?thesis by (intro exI [of _ 0]) simp
  next
    case True
    from Suc.prems have "\<not> waiting ((body ^^ n) (body s))"
      by (simp add: funpow_swap1)
    then obtain k where k: "k \<le> n" "spin waiting body (body s) = Ret () ((body ^^ k) (body s))"
      "\<not> waiting ((body ^^ k) (body s))" "\<forall>j<k. waiting ((body ^^ j) (body s))"
      using Suc.IH by blast
    have "waiting ((body ^^ j) s)" if "j < Suc k" for j
      using that True k(4) by (cases j) (auto simp: funpow_swap1)
    with k True show ?thesis
      by (intro exI [of _ "Suc k"]) (simp add: spin_step funpow_swap1)
  qed
qed

lemma spin_forever:
  assumes "\<And>n. waiting ((body ^^ n) s)"
  shows "spin waiting body s = Diverge"
proof (cases "while_option waiting body s")
  case None
  then show ?thesis by (simp add: spin_def)
next
  case (Some t)
  then obtain k where "t = (body ^^ k) s" and "\<not> waiting t"
    using while_option_stop2 [OF Some] while_option_stop [OF Some] by auto
  with assms show ?thesis by simp
qed

section \<open>Loops of programs\<close>

text \<open>A loop whose body goes on with new values of its local variables (\<open>Inl\<close>) or leaves the loop
  (\<open>Inr\<close>).\<close>

definition loop :: "('x \<Rightarrow> ('s, 'x + 'r) prog) \<Rightarrow> 'x \<Rightarrow> ('s, 'r) prog" where
  "loop body x s =
     (case while_option (\<lambda>out. case out of Ret (Inl x) t \<Rightarrow> True | _ \<Rightarrow> False)
             (\<lambda>out. case out of Ret (Inl x) t \<Rightarrow> body x t | out \<Rightarrow> out) (Ret (Inl x) s) of
        Some (Ret (Inr r) t) \<Rightarrow> Ret r t | Some (Ub t) \<Rightarrow> Ub t | Some (Halt t) \<Rightarrow> Halt t | _ \<Rightarrow> Diverge)"

lemma loop_unfold:
  "loop body x s = bnd (body x) (\<lambda>r. case r of Inl x' \<Rightarrow> loop body x' | Inr r \<Rightarrow> ret r) s"
proof -
  let ?b = "\<lambda>out. case out of Ret (Inl x) t \<Rightarrow> True | _ \<Rightarrow> False"
  let ?c = "\<lambda>out. case out of Ret (Inl x) t \<Rightarrow> body x t | out \<Rightarrow> out"
  have step: "while_option ?b ?c (Ret (Inl x) s) = while_option ?b ?c (body x s)"
    by (subst while_option_unfold) simp
  show ?thesis
  proof (cases "body x s")
    case (Ret r t)
    then show ?thesis
      by (cases r) (simp_all add: loop_def step bnd_def while_option_unfold [of ?b ?c "Ret (Inr _) _"])
  qed (simp_all add: loop_def step bnd_def while_option_unfold [of ?b ?c "Ub _"] while_option_unfold [of ?b ?c "Halt _"]
      while_option_unfold [of ?b ?c Diverge])
qed

text \<open>The first \<open>n\<close> turns of such a loop.\<close>

primrec turns :: "nat \<Rightarrow> ('x \<Rightarrow> ('s, 'x + 'r) prog) \<Rightarrow> 'x \<Rightarrow> ('s, 'x + 'r) prog" where
  "turns 0 body x = ret (Inl x)"
| "turns (Suc n) body x = bnd (body x) (\<lambda>r. case r of Inl x' \<Rightarrow> turns n body x' | Inr r \<Rightarrow> ret (Inr r))"

lemma turns_Suc:
  assumes "body x s = Ret (Inl x') t"
  shows "turns (Suc n) body x s = turns n body x' t"
  by (simp add: bnd_simps(1) [where m = "body x", OF assms])

lemma loop_turns: "turns n body x s = Ret (Inl x') t \<Longrightarrow> loop body x s = loop body x' t"
proof (induction n arbitrary: x s)
  case 0
  then show ?case by simp
next
  case (Suc n)
  then show ?case by (subst loop_unfold) (auto simp: bnd_def split: outcome.splits sum.splits)
qed

section \<open>Words\<close>

lemma unat_less_u32: "unat (v :: u32) < 4294967296"
  using unsigned_less [of v, where 'a = nat] by simp

lemma unat_less_u8: "unat (v :: u8) < 256"
  using unsigned_less [of v, where 'a = nat] by simp

lemma unat_ucast_u8: "unat (ucast (b :: u8) :: u32) = unat b"
  by (simp add: unsigned_ucast_eq take_bit_nat_eq_self less_trans [OF unat_less_u8])

lemma of_nat_unat: "of_nat (unat (v :: 'a::len word)) = v"
  by simp

text \<open>To be used as a rule: the simplifier would push \<open>of_nat\<close> into \<open>n\<close> first.\<close>

lemma unat_of_nat_u32: "n < 2 ^ 32 \<Longrightarrow> unat (of_nat n :: u32) = n"
  by (simp add: unat_of_nat)

text \<open>The signed reading of an \<open>int\<close>.\<close>

lemma uint_less_numeral: "uint (i :: u32) < numeral k \<longleftrightarrow> unat i < numeral k"
  using of_nat_less_iff [where 'a = int, of "unat i" "numeral k"] by simp

lemma sint_small_u32: "unat (i :: u32) < 2 ^ 31 \<Longrightarrow> sint i = uint i"
  by (simp add: sint_uint signed_take_bit_int_eq_self_iff uint_less_numeral)
    (rule order_trans [of _ 0], simp_all)

lemma sint_big_u32:
  assumes "2 ^ 31 \<le> unat (i :: u32)"
  shows "sint i < 0"
proof -
  have "2 ^ 31 \<le> uint i" "uint i < 2 ^ 32"
    using assms unat_less_u32 [of i] by (simp_all add: uint_less_numeral flip: not_less)
  then have "uint i div 2 ^ 31 = 1"
    by (intro int_div_pos_eq [where r = "uint i - 2 ^ 31"]) auto
  then have "bit (uint i) 31" by (simp add: bit_iff_odd)
  then show ?thesis by (simp add: sint_uint signed_take_bit_negative_iff)
qed

section \<open>Lists\<close>

text \<open>The first element of a list that satisfies a predicate, with the elements before it: the
  shape of a search loop.\<close>

lemma takeWhile_all_prefix:
  assumes "\<forall>x \<in> set xs. P x" and "\<not> P y"
  shows "takeWhile P (xs @ y # ys) = xs"
  using assms by (induction xs) auto

lemma nth_list_update_cases:
  "i < length xs \<Longrightarrow> xs[j := v] ! i = (if i = j then v else xs ! i)"
  by (simp add: nth_list_update)

section \<open>Counting loops\<close>

text \<open>\<open>for (i = 0; i < n; i++) body\<close> for a body that does not write \<open>i\<close>.\<close>

definition for_upto :: "nat \<Rightarrow> (nat \<Rightarrow> 's \<Rightarrow> 's) \<Rightarrow> 's \<Rightarrow> 's" where
  "for_upto n body s = fold body [0..<n] s"

lemma for_upto_0 [simp]: "for_upto 0 body s = s"
  by (simp add: for_upto_def)

lemma for_upto_Suc: "for_upto (Suc n) body s = body n (for_upto n body s)"
  by (simp add: for_upto_def)

lemma for_upto_inv:
  assumes "I 0 s" and "\<And>i s. i < n \<Longrightarrow> I i s \<Longrightarrow> I (Suc i) (body i s)"
  shows "I n (for_upto n body s)"
  using assms(2)
proof (induction n)
  case 0
  show ?case using assms(1) by simp
next
  case (Suc n)
  then show ?case by (simp add: for_upto_Suc)
qed

section \<open>Transition systems\<close>

text \<open>
  An interface shared by every component that runs as a state machine: a predicate that holds
  initially and is kept by each step holds in every reachable state.
\<close>

locale transition_system =
  fixes init :: "'s \<Rightarrow> bool"
    and step :: "'s \<Rightarrow> 's \<Rightarrow> bool"
    and inv :: "'s \<Rightarrow> bool"
  assumes inv_init: "init s \<Longrightarrow> inv s"
    and inv_step: "inv s \<Longrightarrow> step s t \<Longrightarrow> inv t"
begin

lemma inv_run: "inv s \<Longrightarrow> step\<^sup>*\<^sup>* s t \<Longrightarrow> inv t"
  by (rotate_tac 1, induction rule: rtranclp_induct) (auto intro: inv_step)

lemma inv_reachable: "init s \<Longrightarrow> step\<^sup>*\<^sup>* s t \<Longrightarrow> inv t"
  using inv_init inv_run by blast

end

end
