(* ===== verification/Positional.thy ===== *)
theory Positional
  imports Prelude
begin

text \<open>
  Positional notation: the digits of a number in a base, most significant first, as the reference
  against which the conversion loops of the kernel (\<open>_itoa_dec\<close>, \<open>_itoa_hex\<close>) and of the
  application library (\<open>tty_putw\<close>, \<open>tty_printf\<close>, \<open>tty_getw_irq\<close>) are verified.
  The locale \<open>positional\<close> is the interface of a digit table.
\<close>

fun to_digits :: "nat \<Rightarrow> (nat \<Rightarrow> 'c) \<Rightarrow> nat \<Rightarrow> 'c list" where
  "to_digits b dg n = (if b \<le> 1 \<or> n < b then [dg n] else to_digits b dg (n div b) @ [dg (n mod b)])"

declare to_digits.simps [simp del]

definition of_digits :: "nat \<Rightarrow> ('c \<Rightarrow> nat) \<Rightarrow> 'c list \<Rightarrow> nat" where
  "of_digits b vl ds = foldl (\<lambda>acc d. acc * b + vl d) 0 ds"

text \<open>The \<open>k\<close> low digits, with leading zeros.\<close>

definition fixed_digits :: "nat \<Rightarrow> (nat \<Rightarrow> 'c) \<Rightarrow> nat \<Rightarrow> nat \<Rightarrow> 'c list" where
  "fixed_digits b dg k n = map (\<lambda>i. dg (n div b ^ (k - 1 - i) mod b)) [0..<k]"

lemma of_digits_Nil [simp]: "of_digits b vl [] = 0"
  by (simp add: of_digits_def)

lemma of_digits_snoc [simp]: "of_digits b vl (ds @ [d]) = of_digits b vl ds * b + vl d"
  by (simp add: of_digits_def)

lemma to_digits_nonempty [simp]: "to_digits b dg n \<noteq> []"
  by (subst to_digits.simps) simp

lemma length_fixed_digits [simp]: "length (fixed_digits b dg k n) = k"
  by (simp add: fixed_digits_def)

lemma fixed_digits_nth: "j < k \<Longrightarrow> fixed_digits b dg k n ! (k - 1 - j) = dg (n div b ^ j mod b)"
  by (simp add: fixed_digits_def)

lemma fixed_digits_Suc:
  "fixed_digits b dg (Suc k) n = fixed_digits b dg k (n div b) @ [dg (n mod b)]"
proof (rule nth_equalityI)
  fix i assume "i < length (fixed_digits b dg (Suc k) n)"
  then have i: "i < Suc k" by simp
  show "fixed_digits b dg (Suc k) n ! i = (fixed_digits b dg k (n div b) @ [dg (n mod b)]) ! i"
  proof (cases "i = k")
    case True
    then show ?thesis by (simp add: fixed_digits_def nth_append)
  next
    case False
    with i have "i < k" by simp
    then have "k - i = Suc (k - 1 - i)" by simp
    with \<open>i < k\<close> show ?thesis
      by (simp add: fixed_digits_def nth_append div_mult2_eq del: upt_Suc)
  qed
qed simp

locale positional =
  fixes base :: nat
    and digit :: "nat \<Rightarrow> 'c"
    and val_of :: "'c \<Rightarrow> nat"
  assumes base: "1 < base"
    and val_digit: "d < base \<Longrightarrow> val_of (digit d) = d"
begin

lemma of_to_digits: "of_digits base val_of (to_digits base digit n) = n"
proof (induction n rule: less_induct)
  case (less n)
  show ?case
  proof (cases "n < base")
    case True
    then show ?thesis
      by (subst to_digits.simps) (simp add: of_digits_def val_digit)
  next
    case False
    with base have "n div base < n" by (simp add: div_less_dividend)
    then have "of_digits base val_of (to_digits base digit (n div base)) = n div base"
      by (rule less.IH)
    with False base show ?thesis
      by (subst to_digits.simps) (simp add: val_digit)
  qed
qed

lemma of_fixed_digits: "of_digits base val_of (fixed_digits base digit k n) = n mod base ^ k"
proof (induction k arbitrary: n)
  case 0
  then show ?case by (simp add: fixed_digits_def)
next
  case (Suc k)
  have "n mod base < base" using base by simp
  with Suc show ?case
    by (simp add: fixed_digits_Suc val_digit mod_mult2_eq)
qed

lemma less_length_to_digits:
  "j < length (to_digits base digit n) \<longleftrightarrow> j = 0 \<or> n div base ^ j \<noteq> 0"
proof (induction n arbitrary: j rule: less_induct)
  case (less n)
  show ?case
  proof (cases "n < base")
    case True
    then have "n div base ^ j = 0" if "0 < j"
      using that base by (cases j) (auto simp: div_mult2_eq)
    with True show ?thesis by (subst to_digits.simps) (cases j; auto)
  next
    case False
    with base have smaller: "n div base < n" by (simp add: div_less_dividend)
    show ?thesis
    proof (cases j)
      case 0
      then show ?thesis by simp
    next
      case (Suc i)
      have "j < length (to_digits base digit n) \<longleftrightarrow> i < length (to_digits base digit (n div base))"
        using False base Suc by (subst to_digits.simps) simp
      also have "\<dots> \<longleftrightarrow> i = 0 \<or> n div base div base ^ i \<noteq> 0"
        using less.IH [OF smaller] by simp
      also have "\<dots> \<longleftrightarrow> n div base ^ j \<noteq> 0"
        using False Suc base by (auto simp: div_mult2_eq div_eq_0_iff)
      finally show ?thesis using Suc by simp
    qed
  qed
qed

lemma length_to_digits_le: "n < base ^ k \<Longrightarrow> 0 < k \<Longrightarrow> length (to_digits base digit n) \<le> k"
  using less_length_to_digits [of k n] by (metis div_less leI less_irrefl)

lemma to_digits_nth:
  "j < length (to_digits base digit n) \<Longrightarrow>
   to_digits base digit n ! (length (to_digits base digit n) - 1 - j) = digit (n div base ^ j mod base)"
proof (induction n arbitrary: j rule: less_induct)
  case (less n)
  show ?case
  proof (cases "n < base")
    case True
    then have eq: "to_digits base digit n = [digit n]" by (simp add: to_digits.simps)
    from less.prems eq have "j = 0" by simp
    with eq True show ?thesis by simp
  next
    case False
    with base have smaller: "n div base < n" by (simp add: div_less_dividend)
    from False base have eq: "to_digits base digit n
        = to_digits base digit (n div base) @ [digit (n mod base)]"
      by (subst to_digits.simps) simp
    show ?thesis
    proof (cases j)
      case 0
      with eq show ?thesis by (simp add: nth_append)
    next
      case (Suc i)
      with less.prems eq have i: "i < length (to_digits base digit (n div base))" by simp
      from less.IH [OF smaller i] Suc eq i show ?thesis
        by (simp add: nth_append div_mult2_eq)
    qed
  qed
qed

text \<open>The variable-length and the fixed-width notation agree on the digits they share.\<close>

lemma fixed_digits_drop:
  assumes "n < base ^ k" and "0 < k"
  shows "drop (k - length (to_digits base digit n)) (fixed_digits base digit k n)
    = to_digits base digit n"
proof -
  let ?ds = "to_digits base digit n" and ?l = "length (to_digits base digit n)"
  from assms have l: "?l \<le> k" by (rule length_to_digits_le)
  have pos: "0 < ?l" by simp
  show ?thesis
  proof (rule nth_equalityI)
    show "length (drop (k - ?l) (fixed_digits base digit k n)) = length ?ds" using l by simp
  next
    fix i assume "i < length (drop (k - ?l) (fixed_digits base digit k n))"
    then have i: "i < ?l" using l by simp
    define j where "j = ?l - 1 - i"
    from i pos l have j: "j < ?l" "i = ?l - 1 - j" "k - ?l + i = k - 1 - j" "j < k"
      by (auto simp: j_def)
    have "drop (k - ?l) (fixed_digits base digit k n) ! i = fixed_digits base digit k n ! (k - 1 - j)"
      using l i j(3) by simp
    also have "\<dots> = digit (n div base ^ j mod base)"
      by (rule fixed_digits_nth [OF j(4)])
    also have "\<dots> = ?ds ! i"
      using to_digits_nth [OF j(1)] j(2) by simp
    finally show "drop (k - ?l) (fixed_digits base digit k n) ! i = ?ds ! i" .
  qed
qed

end

end
