(* ===== verification/Itoa.thy ===== *)
theory Itoa
  imports Positional
begin

text \<open>
  The number conversions of the kernel, \<open>_itoa_dec\<close> and \<open>_itoa_hex\<close> of
  \<open>giet_2011/sys/common.c\<close>, against positional notation. A character buffer is the list of its
  bytes; the hexadecimal conversion is partial, because its digit table is too short.
\<close>

section \<open>The conversions\<close>

definition dectab :: "u8 list" where
  "dectab = ascii ''0123456789''"

definition k_itoa_dec :: "u32 \<Rightarrow> u8 list \<Rightarrow> u8 list" where
  "k_itoa_dec val buf = snd (for_upto 10 (\<lambda>i (val, buf).
     (val div 10,
      buf[9 - i := (if val \<noteq> 0 \<or> i = 0 then dectab ! unat (val mod 10) else 0x20)])) (val, buf))"

text \<open>\<open>hexatab\<close> is a C array initialised by a literal of fourteen characters, so it has fifteen
  elements, the last one the terminating NUL.\<close>

definition hexatab :: "u8 list" where
  "hexatab = ascii ''0123456789ABCD'' @ [0]"

definition k_itoa_hex_step :: "nat \<Rightarrow> (u32 \<times> u8 list) option \<Rightarrow> (u32 \<times> u8 list) option" where
  "k_itoa_hex_step i st = (case st of None \<Rightarrow> None | Some (val, buf) \<Rightarrow>
     if unat (val mod 16) < length hexatab
     then Some (val div 16, buf[7 - i := hexatab ! unat (val mod 16)]) else None)"

definition k_itoa_hex :: "u32 \<Rightarrow> u8 list \<Rightarrow> u8 list option" where
  "k_itoa_hex val buf = map_option snd (for_upto 8 k_itoa_hex_step (Some (val, buf)))"

section \<open>Decimal and hexadecimal digits\<close>

definition dec_digit :: "nat \<Rightarrow> u8" where
  "dec_digit d = 0x30 + of_nat d"

definition dec_val :: "u8 \<Rightarrow> nat" where
  "dec_val c = unat (c - 0x30)"

definition hex_digits :: "u8 list" where
  "hex_digits = ascii ''0123456789ABCDEF''"

definition hex_digit :: "nat \<Rightarrow> u8" where
  "hex_digit d = hex_digits ! d"

definition hex_val :: "u8 \<Rightarrow> nat" where
  "hex_val c = length (takeWhile (\<lambda>x. x \<noteq> c) hex_digits)"

text \<open>The decimal representation that \<open>_itoa_dec\<close> is meant to produce: right-justified in a
  field of ten characters.\<close>

definition dec_field :: "nat \<Rightarrow> u8 list" where
  "dec_field n = replicate (10 - length (to_digits 10 dec_digit n)) 0x20 @ to_digits 10 dec_digit n"

lemma less_10_cases:
  assumes "(d::nat) < 10"
  obtains "d = 0" | "d = 1" | "d = 2" | "d = 3" | "d = 4" | "d = 5" | "d = 6" | "d = 7" | "d = 8" | "d = 9"
  using assms by atomize_elim arith

lemma less_8_cases:
  assumes "(d::nat) < 8"
  obtains "d = 0" | "d = 1" | "d = 2" | "d = 3" | "d = 4" | "d = 5" | "d = 6" | "d = 7"
  using assms by atomize_elim arith

lemma less_16_cases:
  assumes "(d::nat) < 16"
  obtains "d < 10" | "d = 10" | "d = 11" | "d = 12" | "d = 13" | "d = 14" | "d = 15"
  using assms by atomize_elim arith

lemma dectab_nth: "d < 10 \<Longrightarrow> dectab ! d = dec_digit d"
  by (erule less_10_cases) (simp_all add: dectab_def ascii_def dec_digit_def)

lemma length_tables [simp]: "length hexatab = 15" "length hex_digits = 16" "length dectab = 10"
  by (simp_all add: hexatab_def hex_digits_def dectab_def ascii_def)

lemma hexatab_nth: "d < 14 \<Longrightarrow> hexatab ! d = hex_digit d"
  by (rule less_16_cases [of d], simp, erule less_10_cases)
    (simp_all add: hexatab_def hex_digit_def hex_digits_def ascii_def)

lemma hexatab_14: "hexatab ! 14 = 0"
  by (simp add: hexatab_def ascii_def)

interpretation dec: positional 10 dec_digit dec_val
proof unfold_locales
  fix d :: nat assume "d < 10"
  then show "dec_val (dec_digit d) = d"
    by (simp add: dec_val_def dec_digit_def unat_of_nat)
qed simp

interpretation hex: positional 16 hex_digit hex_val
proof unfold_locales
  fix d :: nat assume "d < 16"
  then show "hex_val (hex_digit d) = d"
    by (cases d rule: less_16_cases, simp_all add: hex_val_def hex_digit_def hex_digits_def ascii_def)
      (erule less_10_cases, simp_all add: hex_val_def hex_digit_def hex_digits_def ascii_def)
qed simp

text \<open>The digits are no spaces, so a right-justified field is unambiguous.\<close>

lemma dec_digit_not_space: "d < 10 \<Longrightarrow> dec_digit d \<noteq> 0x20"
  by (erule less_10_cases) (simp_all add: dec_digit_def)

lemma to_digits_dec_hd: "hd (to_digits 10 dec_digit n) \<noteq> 0x20"
proof (induction n rule: less_induct)
  case (less n)
  show ?case
  proof (cases "n < 10")
    case True
    then show ?thesis by (subst to_digits.simps) (simp add: dec_digit_not_space)
  next
    case False
    then have "n div 10 < n" by simp
    from less.IH [OF this] False show ?thesis by (subst to_digits.simps) simp
  qed
qed

section \<open>The decimal conversion is correct\<close>

lemma unat_u32_less_10_pow_10: "unat (v :: u32) < 10 ^ 10"
  using unat_less_u32 [of v] by simp

lemma itoa_dec_loop:
  fixes val :: u32
  assumes "10 \<le> length buf" and "k \<le> 10"
  shows "case for_upto k (\<lambda>i (val, buf).
     (val div 10, buf[9 - i := (if val \<noteq> 0 \<or> i = 0 then dectab ! unat (val mod 10) else 0x20)]))
       (val, buf) of (v, b) \<Rightarrow>
     unat v = unat val div 10 ^ k \<and> length b = length buf \<and>
     (\<forall>j<k. b ! (9 - j) = (if unat val div 10 ^ j \<noteq> 0 \<or> j = 0
                           then dec_digit (unat val div 10 ^ j mod 10) else 0x20)) \<and>
     drop 10 b = drop 10 buf"
  using assms(2)
proof (induction k)
  case 0
  show ?case by simp
next
  case (Suc k)
  let ?body = "\<lambda>i (val :: u32, buf).
     (val div 10, buf[9 - i := (if val \<noteq> 0 \<or> i = 0 then dectab ! unat (val mod 10) else 0x20)])"
  obtain v b where vb: "for_upto k ?body (val, buf) = (v, b)" by fastforce
  from Suc vb have IH: "unat v = unat val div 10 ^ k" "length b = length buf"
    "\<forall>j<k. b ! (9 - j) = (if unat val div 10 ^ j \<noteq> 0 \<or> j = 0
                           then dec_digit (unat val div 10 ^ j mod 10) else 0x20)"
    "drop 10 b = drop 10 buf"
    by auto
  have digit: "dectab ! unat (v mod 10) = dec_digit (unat val div 10 ^ k mod 10)"
    by (simp add: unat_mod_distrib IH(1) dectab_nth)
  have zero: "v = 0 \<longleftrightarrow> unat val div 10 ^ k = 0"
    using IH(1) unat_eq_zero by metis
  have quot: "unat (v div 10) = unat val div 10 ^ Suc k"
    by (simp add: unat_div_distrib IH(1) div_mult2_eq [symmetric] mult.commute)
  have "9 - k < length b" using IH(2) assms(1) by simp
  then show ?case
    using Suc.prems vb IH digit zero quot
    by (auto simp: for_upto_Suc less_Suc_eq nth_list_update drop_update_cancel)
qed

lemma nth_dec_field:
  assumes "n < 10 ^ 10" and "j < 10"
  shows "dec_field n ! (9 - j) =
    (if n div 10 ^ j \<noteq> 0 \<or> j = 0 then dec_digit (n div 10 ^ j mod 10) else 0x20)"
proof -
  let ?ds = "to_digits 10 dec_digit n" and ?l = "length (to_digits 10 dec_digit n)"
  have l: "?l \<le> 10" using assms(1) by (intro dec.length_to_digits_le) auto
  show ?thesis
  proof (cases "j < ?l")
    case True
    then have pos: "\<not> 9 - j < 10 - ?l" "9 - j - (10 - ?l) = ?l - 1 - j"
      using l by auto
    then have "dec_field n ! (9 - j) = ?ds ! (?l - 1 - j)"
      unfolding dec_field_def nth_append length_replicate by (simp only: if_False)
    with True show ?thesis
      using dec.to_digits_nth [OF True] dec.less_length_to_digits [of j n] by auto
  next
    case False
    then have "9 - j < 10 - ?l" using assms(2) by simp
    then have "dec_field n ! (9 - j) = 0x20" by (simp add: dec_field_def nth_append)
    with False show ?thesis
      using dec.less_length_to_digits [of j n] by auto
  qed
qed

lemma length_dec_field: "n < 10 ^ 10 \<Longrightarrow> length (dec_field n) = 10"
  using dec.length_to_digits_le [of n 10] by (simp add: dec_field_def)

lemma itoa_dec_is_field:
  assumes "10 \<le> length buf"
  shows "k_itoa_dec val buf = dec_field (unat val) @ drop 10 buf"
proof -
  let ?b = "k_itoa_dec val buf"
  note loop = itoa_dec_loop [OF assms order.refl, of val]
  have len: "length ?b = length buf" and rest: "drop 10 ?b = drop 10 buf"
    and nth: "j < 10 \<Longrightarrow> ?b ! (9 - j) = dec_field (unat val) ! (9 - j)" for j
    using loop by (auto simp: k_itoa_dec_def nth_dec_field [OF unat_u32_less_10_pow_10] split: prod.splits)
  have "take 10 ?b = dec_field (unat val)"
  proof (rule nth_equalityI)
    show "length (take 10 ?b) = length (dec_field (unat val))"
      using len assms length_dec_field [OF unat_u32_less_10_pow_10] by simp
    fix i assume "i < length (take 10 ?b)"
    then have "i < 10" by simp
    with nth [of "9 - i"] show "take 10 ?b ! i = dec_field (unat val) ! i" by simp
  qed
  then show ?thesis using rest by (metis append_take_drop_id)
qed

section \<open>The hexadecimal conversion\<close>

text \<open>The \<open>j\<close>-th hexadecimal digit of a number.\<close>

definition nibble :: "nat \<Rightarrow> nat \<Rightarrow> nat" where
  "nibble n j = n div 16 ^ j mod 16"

lemma itoa_hex_loop:
  assumes "8 \<le> length buf" and "k \<le> 8"
  shows "if \<exists>j<k. nibble (unat val) j = 15 then for_upto k k_itoa_hex_step (Some (val, buf)) = None
    else (\<exists>v b. for_upto k k_itoa_hex_step (Some (val, buf)) = Some (v, b) \<and>
       unat v = unat val div 16 ^ k \<and> length b = length buf \<and> drop 8 b = drop 8 buf \<and>
       (\<forall>j<k. b ! (7 - j) = hexatab ! nibble (unat val) j))"
  using assms(2)
proof (induction k)
  case 0
  show ?case by simp
next
  case (Suc k)
  show ?case
  proof (cases "\<exists>j<k. nibble (unat val) j = 15")
    case True
    with Suc have "for_upto k k_itoa_hex_step (Some (val, buf)) = None" by simp
    moreover from True have "\<exists>j<Suc k. nibble (unat val) j = 15" using less_SucI by blast
    ultimately show ?thesis by (simp add: for_upto_Suc k_itoa_hex_step_def [of _ None])
  next
    case False
    with Suc obtain v b where vb: "for_upto k k_itoa_hex_step (Some (val, buf)) = Some (v, b)"
      and v: "unat v = unat val div 16 ^ k" and b: "length b = length buf" "drop 8 b = drop 8 buf"
      and nth: "\<forall>j<k. b ! (7 - j) = hexatab ! nibble (unat val) j"
      by auto
    have nib: "unat (v mod 16) = nibble (unat val) k"
      by (simp add: unat_mod_distrib v nibble_def)
    have "nibble (unat val) k < 16" by (simp add: nibble_def)
    then have fits: "unat (v mod 16) < length hexatab \<longleftrightarrow> nibble (unat val) k \<noteq> 15"
      using nib by auto
    have quot: "unat (v div 16) = unat val div 16 ^ Suc k"
      by (simp add: unat_div_distrib v div_mult2_eq [symmetric] mult.commute)
    have "7 - k < length b" using b assms(1) by simp
    then show ?thesis
      using Suc.prems vb b nth False fits quot nib
      by (auto simp: for_upto_Suc k_itoa_hex_step_def [of k "Some (v, b)"] less_Suc_eq nth_list_update drop_update_cancel)
  qed
qed

lemma itoa_hex_eq:
  assumes "8 \<le> length buf"
  shows "k_itoa_hex val buf =
    (if \<exists>j<8. nibble (unat val) j = 15 then None
     else Some (fixed_digits 16 ((!) hexatab) 8 (unat val) @ drop 8 buf))"
proof (cases "\<exists>j<8. nibble (unat val) j = 15")
  case True
  then show ?thesis
    using itoa_hex_loop [OF assms order.refl, of val] by (simp add: k_itoa_hex_def)
next
  case False
  with itoa_hex_loop [OF assms order.refl, of val] obtain v b where
    vb: "for_upto 8 k_itoa_hex_step (Some (val, buf)) = Some (v, b)" "length b = length buf"
      "drop 8 b = drop 8 buf" "\<forall>j<8. b ! (7 - j) = hexatab ! nibble (unat val) j"
    by auto
  have "take 8 b = fixed_digits 16 ((!) hexatab) 8 (unat val)"
  proof (rule nth_equalityI)
    show "length (take 8 b) = length (fixed_digits 16 ((!) hexatab) 8 (unat val))"
      using vb(2) assms by simp
    fix i assume "i < length (take 8 b)"
    then have "i < 8" by simp
    then have "7 - i < 8" and "7 - (7 - i) = i" by auto
    with vb(4) have "b ! i = hexatab ! nibble (unat val) (7 - i)" by metis
    with \<open>i < 8\<close> show "take 8 b ! i = fixed_digits 16 ((!) hexatab) 8 (unat val) ! i"
      by (simp add: fixed_digits_def nibble_def)
  qed
  with vb(1,3) False show ?thesis
    by (auto simp: k_itoa_hex_def) (metis append_take_drop_id)
qed

lemma fixed_digits_hexatab:
  assumes "\<forall>j<8. nibble n j < 14"
  shows "fixed_digits 16 ((!) hexatab) 8 n = fixed_digits 16 hex_digit 8 n"
  using assms by (auto simp: fixed_digits_def nibble_def intro!: hexatab_nth)

section \<open>Properties\<close>

lemma dropWhile_dec_field: "dropWhile ((=) 0x20) (dec_field n) = to_digits 10 dec_digit n"
proof -
  have "dropWhile ((=) 0x20) (replicate k (0x20::u8) @ to_digits 10 dec_digit n)
      = dropWhile ((=) 0x20) (to_digits 10 dec_digit n)" for k
    by (induction k) auto
  moreover have "dropWhile ((=) 0x20) (to_digits 10 dec_digit n) = to_digits 10 dec_digit n"
    using to_digits_dec_hd [of n] by (cases "to_digits 10 dec_digit n") auto
  ultimately show ?thesis by (simp add: dec_field_def)
qed

text \<open>C30. For every 32-bit value and every buffer of at least ten characters, \<open>_itoa_dec\<close> writes
  the decimal notation of the value right-justified in the first ten characters, leaves the rest of
  the buffer alone, and reading the digits back gives the value.\<close>

theorem itoa_dec_correct:
  assumes "10 \<le> length buf"
  shows "k_itoa_dec val buf = dec_field (unat val) @ drop 10 buf \<and>
    of_digits 10 dec_val (dropWhile ((=) 0x20) (take 10 (k_itoa_dec val buf))) = unat val"
  using itoa_dec_is_field [OF assms, of val] length_dec_field [OF unat_u32_less_10_pow_10, of val]
  by (simp add: dropWhile_dec_field dec.of_to_digits)

theorem itoa_dec_correct_witness:
  "k_itoa_dec 2023 (replicate 11 0) = dec_field (unat (2023::u32)) @ drop 10 (replicate 11 0) \<and>
   of_digits 10 dec_val (dropWhile ((=) 0x20) (take 10 (k_itoa_dec 2023 (replicate 11 0))))
     = unat (2023::u32)"
  by (rule itoa_dec_correct) simp

text \<open>C39. \<open>_itoa_hex\<close> converts a value correctly when all its hexadecimal digits are below E:
  eight characters that read back as the value. Its table lacks E and F: a digit E is written as
  NUL, and a digit F reads past the end of the table, which is undefined behaviour.\<close>

theorem itoa_hex_correct:
  assumes "8 \<le> length buf"
  shows "(k_itoa_hex val buf = None \<longleftrightarrow> (\<exists>j<8. nibble (unat val) j = 15)) \<and>
    ((\<forall>j<8. nibble (unat val) j < 14) \<longrightarrow>
       (\<exists>ds. k_itoa_hex val buf = Some (ds @ drop 8 buf) \<and> length ds = 8 \<and>
             of_digits 16 hex_val ds = unat val)) \<and>
    (\<forall>b j. k_itoa_hex val buf = Some b \<longrightarrow> j < 8 \<longrightarrow> nibble (unat val) j = 14 \<longrightarrow> b ! (7 - j) = 0)"
proof (intro conjI impI allI)
  show "k_itoa_hex val buf = None \<longleftrightarrow> (\<exists>j<8. nibble (unat val) j = 15)"
    by (simp add: itoa_hex_eq [OF assms])
next
  assume small: "\<forall>j<8. nibble (unat val) j < 14"
  then have "k_itoa_hex val buf = Some (fixed_digits 16 hex_digit 8 (unat val) @ drop 8 buf)"
    using fixed_digits_hexatab [OF small] by (auto simp: itoa_hex_eq [OF assms])
  moreover have "of_digits 16 hex_val (fixed_digits 16 hex_digit 8 (unat val)) = unat val"
    using unat_less_u32 [of val] by (simp add: hex.of_fixed_digits)
  ultimately show "\<exists>ds. k_itoa_hex val buf = Some (ds @ drop 8 buf) \<and> length ds = 8 \<and>
      of_digits 16 hex_val ds = unat val"
    by (intro exI [of _ "fixed_digits 16 hex_digit 8 (unat val)"]) simp
next
  fix b and j :: nat
  assume "k_itoa_hex val buf = Some b" and j: "j < 8" and e: "nibble (unat val) j = 14"
  then have "b = fixed_digits 16 ((!) hexatab) 8 (unat val) @ drop 8 buf"
    by (simp add: itoa_hex_eq [OF assms] split: if_splits)
  moreover have "7 - j < 8" by simp
  ultimately have "b ! (7 - j) = fixed_digits 16 ((!) hexatab) 8 (unat val) ! (8 - 1 - j)"
    by (simp only: nth_append length_fixed_digits if_True) simp
  also have "\<dots> = hexatab ! nibble (unat val) j"
    using fixed_digits_nth [OF j] by (simp add: nibble_def)
  finally show "b ! (7 - j) = 0" using e hexatab_14 by simp
qed

theorem itoa_hex_correct_witness:
  "k_itoa_hex 0x80001F00 (replicate 8 0) = None \<and>
   (\<exists>ds. k_itoa_hex 0x80001234 (replicate 8 0) = Some (ds @ drop 8 (replicate 8 0)) \<and> length ds = 8 \<and>
         of_digits 16 hex_val ds = 0x80001234)"
proof -
  have "nibble (unat (0x80001F00::u32)) 2 = 15" by (simp add: nibble_def)
  then have ex: "\<exists>j<8. nibble (unat (0x80001F00::u32)) j = 15" by (intro exI [of _ 2]) simp
  have all: "\<forall>j<8. nibble (unat (0x80001234::u32)) j < 14"
    by (auto simp: nibble_def elim!: less_8_cases)
  show ?thesis
    using itoa_hex_correct [of "replicate 8 0" "0x80001F00"] ex
      itoa_hex_correct [of "replicate 8 0" "0x80001234"] all
    by simp
qed

end
