(* ===== verification/Machine.thy ===== *)
theory Machine
  imports Prelude
begin

text \<open>
  The machine the GIET runs on, as one processor sees it: byte-addressed memory, the coprocessor 0
  and general registers of the MIPS32, the global variables of the kernel, and the devices behind
  the bus. A platform fixes the parameters of \<open>config.h\<close> and of the linker script and the
  behaviour of the devices, which are SoCLib components outside the repository: what a load and a
  store on the bus do to them, and what the rest of the system (devices, interrupts, the other
  processors) does to the machine between two polls of a busy-waiting loop. What the toolchain
  fixes is a parameter too: \<open>label\<close> is the address the linker gives to a symbol, and \<open>clobbers\<close> is
  what a compiled C function leaves in the registers that the calling convention lets it use.
  Every access to a device register is recorded in the trace.
\<close>

section \<open>Register maps of the peripherals (hwr\_mapping.h)\<close>

datatype IOC_registers = BLOCK_DEVICE_BUFFER | BLOCK_DEVICE_LBA | BLOCK_DEVICE_COUNT
  | BLOCK_DEVICE_OP | BLOCK_DEVICE_STATUS | BLOCK_DEVICE_IRQ_ENABLE | BLOCK_DEVICE_SIZE
  | BLOCK_DEVICE_BLOCK_SIZE

primrec ioc_reg :: "IOC_registers \<Rightarrow> u32" where
  "ioc_reg BLOCK_DEVICE_BUFFER = 0"
| "ioc_reg BLOCK_DEVICE_LBA = 1"
| "ioc_reg BLOCK_DEVICE_COUNT = 2"
| "ioc_reg BLOCK_DEVICE_OP = 3"
| "ioc_reg BLOCK_DEVICE_STATUS = 4"
| "ioc_reg BLOCK_DEVICE_IRQ_ENABLE = 5"
| "ioc_reg BLOCK_DEVICE_SIZE = 6"
| "ioc_reg BLOCK_DEVICE_BLOCK_SIZE = 7"

definition BLOCK_DEVICE_NOOP :: u32 where [simp]: "BLOCK_DEVICE_NOOP = 0"
definition BLOCK_DEVICE_READ :: u32 where [simp]: "BLOCK_DEVICE_READ = 1"
definition BLOCK_DEVICE_WRITE :: u32 where [simp]: "BLOCK_DEVICE_WRITE = 2"

definition BLOCK_DEVICE_READ_SUCCESS :: u8 where [simp]: "BLOCK_DEVICE_READ_SUCCESS = 2"
definition BLOCK_DEVICE_WRITE_SUCCESS :: u8 where [simp]: "BLOCK_DEVICE_WRITE_SUCCESS = 3"

definition DMA_SRC :: u32 where [simp]: "DMA_SRC = 0"
definition DMA_DST :: u32 where [simp]: "DMA_DST = 1"
definition DMA_LEN :: u32 where [simp]: "DMA_LEN = 2"
definition DMA_RESET :: u32 where [simp]: "DMA_RESET = 3"
definition DMA_IRQ_DISABLE :: u32 where [simp]: "DMA_IRQ_DISABLE = 4"
definition DMA_SPAN :: u32 where [simp]: "DMA_SPAN = 8"

definition GCD_OPA :: u32 where [simp]: "GCD_OPA = 0"
definition GCD_OPB :: u32 where [simp]: "GCD_OPB = 1"
definition GCD_START :: u32 where [simp]: "GCD_START = 2"
definition GCD_STATUS :: u32 where [simp]: "GCD_STATUS = 3"
definition GCD_END :: u32 where [simp]: "GCD_END = 4"

definition ICU_IT_VECTOR :: u32 where [simp]: "ICU_IT_VECTOR = 4"
definition ICU_END :: u32 where [simp]: "ICU_END = 5"
definition ICU_SPAN :: u32 where [simp]: "ICU_SPAN = 8"

definition TIMER_VALUE :: u32 where [simp]: "TIMER_VALUE = 0"
definition TIMER_MODE :: u32 where [simp]: "TIMER_MODE = 1"
definition TIMER_PERIOD :: u32 where [simp]: "TIMER_PERIOD = 2"
definition TIMER_RESETIRQ :: u32 where [simp]: "TIMER_RESETIRQ = 3"
definition TIMER_SPAN :: u32 where [simp]: "TIMER_SPAN = 4"

definition TTY_WRITE :: u32 where [simp]: "TTY_WRITE = 0"
definition TTY_STATUS :: u32 where [simp]: "TTY_STATUS = 1"
definition TTY_READ :: u32 where [simp]: "TTY_READ = 2"
definition TTY_SPAN :: u32 where [simp]: "TTY_SPAN = 4"

section \<open>The machine\<close>

text \<open>The interrupt service routines that the boot code can install in \<open>_interrupt_vector\<close>.\<close>

datatype isr = Isr_default | Isr_dma | Isr_ioc | Isr_timer | Isr_tty_get
  | Isr_tty_get_task0 | Isr_tty_get_task1 | Isr_tty_get_task2 | Isr_tty_get_task3 | Isr_switch

text \<open>An access to a device register: the address and the value read or written.\<close>

datatype bus_event = Rd u32 u32 | Wr u32 u32

record cpu =
  gpr :: "nat \<Rightarrow> u32"          \<comment> \<open>\<open>$1\<close> to \<open>$31\<close>\<close>
  reg_hi :: u32                 \<comment> \<open>HI\<close>
  reg_lo :: u32                 \<comment> \<open>LO\<close>
  cp0_sr :: u32                 \<comment> \<open>\<open>$12\<close>\<close>
  cp0_cr :: u32                 \<comment> \<open>\<open>$13\<close>\<close>
  cp0_epc :: u32                \<comment> \<open>\<open>$14\<close>\<close>
  cp0_bar :: u32                \<comment> \<open>\<open>$8\<close>\<close>
  cp0_count :: u32              \<comment> \<open>\<open>$9\<close>\<close>
  cp0_procid :: u32             \<comment> \<open>\<open>$15\<close>, select 1\<close>
  cp0_config1 :: u32            \<comment> \<open>\<open>$16\<close>, select 1\<close>

record 'd machine =
  core :: cpu
  mem :: "u32 \<Rightarrow> u8"
  dev :: 'd
  trace :: "bus_event list"
  invalidated :: "u32 list"     \<comment> \<open>operands of the cache invalidations, in order\<close>
  dma_status :: "u32 list"
  dma_busy :: "u8 list"
  ioc_status :: u8
  ioc_done :: u8
  ioc_lock :: u32
  tty_get_buf :: "u8 list"
  tty_get_full :: "u8 list"
  task_context_array :: "u32 list"
  current_task_array :: "u8 list"
  task_number_array :: "u8 list"
  barrier_initial_value :: "u32 list"
  barrier_count :: "u32 list"
  interrupt_vector :: "isr list"

record 'd platform =
  NB_PROCS :: u32
  NB_MAXTASKS :: u32
  NO_HARD_CC :: bool
  seg_icu_base :: u32
  seg_timer_base :: u32
  seg_tty_base :: u32
  seg_gcd_base :: u32
  seg_dma_base :: u32
  seg_fb_base :: u32
  seg_ioc_base :: u32
  label :: "string \<Rightarrow> u32"
  clobbers :: "cpu \<Rightarrow> cpu"
  bus_read :: "u32 \<Rightarrow> 'd \<Rightarrow> u32 \<times> 'd"
  bus_write :: "u32 \<Rightarrow> u32 \<Rightarrow> 'd \<Rightarrow> 'd"
  others :: "'d machine \<Rightarrow> 'd machine"

text \<open>The preprocessor checks of drivers.c on the parameters of \<open>config.h\<close>.\<close>

definition config_ok :: "'d platform \<Rightarrow> bool" where
  "config_ok P \<longleftrightarrow> \<not> NB_PROCS P > 8 \<and> \<not> NB_MAXTASKS P > 4"

text \<open>The sizes with which drivers.c, ctx\_handler.c, common.c and irq\_handler.c declare their
  arrays.\<close>

definition TASK_CTXT_SIZE :: u32 where [simp]: "TASK_CTXT_SIZE = 64"
definition MAX_BARRIER_COUNT :: u32 where [simp]: "MAX_BARRIER_COUNT = 8"

definition arrays_ok :: "'d platform \<Rightarrow> 'd machine \<Rightarrow> bool" where
  "arrays_ok P s \<longleftrightarrow>
     length (dma_status s) = unat (NB_PROCS P) \<and>
     length (dma_busy s) = unat (NB_PROCS P) \<and>
     length (tty_get_buf s) = unat (NB_PROCS P * NB_MAXTASKS P) \<and>
     length (tty_get_full s) = unat (NB_PROCS P * NB_MAXTASKS P) \<and>
     length (task_context_array s) = unat (NB_PROCS P * NB_MAXTASKS P * TASK_CTXT_SIZE) \<and>
     length (current_task_array s) = unat (NB_PROCS P) \<and>
     length (task_number_array s) = unat (NB_PROCS P) \<and>
     length (barrier_initial_value s) = unat MAX_BARRIER_COUNT \<and>
     length (barrier_count s) = unat MAX_BARRIER_COUNT \<and>
     length (interrupt_vector s) = 32"

section \<open>Device registers and memory\<close>

text \<open>\<open>base[i]\<close> for a base address of type \<open>unsigned int *\<close>.\<close>

definition word_at :: "u32 \<Rightarrow> u32 \<Rightarrow> u32" where
  "word_at base i = base + 4 * i"

definition dev_load :: "'d platform \<Rightarrow> u32 \<Rightarrow> ('d machine, u32) prog" where
  "dev_load P a = (\<lambda>s. let (v, d) = bus_read P a (dev s)
                        in Ret v (s\<lparr>dev := d, trace := trace s @ [Rd a v]\<rparr>))"

definition dev_store :: "'d platform \<Rightarrow> u32 \<Rightarrow> u32 \<Rightarrow> ('d machine, unit) prog" where
  "dev_store P a v = modify (\<lambda>s. s\<lparr>dev := bus_write P a v (dev s), trace := trace s @ [Wr a v]\<rparr>)"

text \<open>A little-endian word in memory (the software is built for mipsel).\<close>

definition load_word :: "(u32 \<Rightarrow> u8) \<Rightarrow> u32 \<Rightarrow> u32" where
  "load_word m a = ucast (m a) OR push_bit 8 (ucast (m (a + 1)))
     OR push_bit 16 (ucast (m (a + 2))) OR push_bit 24 (ucast (m (a + 3)))"

definition store_word :: "u32 \<Rightarrow> u32 \<Rightarrow> (u32 \<Rightarrow> u8) \<Rightarrow> (u32 \<Rightarrow> u8)" where
  "store_word a w m = m(a := ucast w, a + 1 := ucast (drop_bit 8 w),
     a + 2 := ucast (drop_bit 16 w), a + 3 := ucast (drop_bit 24 w))"

text \<open>The bytes \<open>p[0]\<close>, \<dots>, \<open>p[n-1]\<close> of a buffer.\<close>

fun read_bytes :: "(u32 \<Rightarrow> u8) \<Rightarrow> u32 \<Rightarrow> nat \<Rightarrow> u8 list" where
  "read_bytes m p 0 = []"
| "read_bytes m p (Suc n) = m p # read_bytes m (p + 1) n"

lemma length_read_bytes [simp]: "length (read_bytes m p n) = n"
  by (induction n arbitrary: p) auto

lemma nth_read_bytes: "i < n \<Longrightarrow> read_bytes m p n ! i = m (p + of_nat i)"
proof (induction n arbitrary: p i)
  case 0
  then show ?case by simp
next
  case (Suc n)
  then show ?case by (cases i) (auto simp: algebra_simps)
qed

text \<open>The bits of a word that a little-endian store and load move around.\<close>

lemma word_bytes_split:
  fixes w :: u32
  shows "ucast (ucast w :: u8) OR push_bit 8 (ucast (ucast (drop_bit 8 w) :: u8))
     OR push_bit 16 (ucast (ucast (drop_bit 16 w) :: u8))
     OR push_bit 24 (ucast (ucast (drop_bit 24 w) :: u8)) = w"
proof (rule bit_word_eqI)
  fix n assume n: "n < LENGTH(32)"
  show "bit (ucast (ucast w :: u8) OR push_bit 8 (ucast (ucast (drop_bit 8 w) :: u8))
     OR push_bit 16 (ucast (ucast (drop_bit 16 w) :: u8))
     OR push_bit 24 (ucast (ucast (drop_bit 24 w) :: u8)) :: u32) n \<longleftrightarrow> bit w n"
    using n by (cases "n < 8"; cases "n < 16"; cases "n < 24") (auto simp: bit_simps)
qed


lemma load_store_word: "load_word (store_word a w m) a = w"
  by (simp add: load_word_def store_word_def word_bytes_split)

lemma store_word_other:
  "\<forall>i<4. c \<noteq> a + of_nat i \<Longrightarrow> store_word a w m c = m c"
proof -
  assume other: "\<forall>i<4. c \<noteq> a + of_nat i"
  from other have "c \<noteq> a" "c \<noteq> a + 1" "c \<noteq> a + 2" "c \<noteq> a + 3"
    by (auto dest: spec [of _ 0] spec [of _ 1] spec [of _ 2] spec [of _ 3])
  then show ?thesis by (simp add: store_word_def)
qed

section \<open>Start-up\<close>

text \<open>The values with which the kernel's global variables are declared.\<close>

definition boot_machine :: "'d platform \<Rightarrow> cpu \<Rightarrow> (u32 \<Rightarrow> u8) \<Rightarrow> 'd \<Rightarrow> 'd machine" where
  "boot_machine P c m d =
     \<lparr>core = c, mem = m, dev = d, trace = [], invalidated = [],
      dma_status = replicate (unat (NB_PROCS P)) 0,
      dma_busy = replicate (unat (NB_PROCS P)) 0,
      ioc_status = 0, ioc_done = 0, ioc_lock = 0,
      tty_get_buf = replicate (unat (NB_PROCS P * NB_MAXTASKS P)) 0,
      tty_get_full = replicate (unat (NB_PROCS P * NB_MAXTASKS P)) 0,
      task_context_array = replicate (unat (NB_PROCS P * NB_MAXTASKS P * TASK_CTXT_SIZE)) 0,
      current_task_array = replicate (unat (NB_PROCS P)) 0,
      task_number_array = replicate (unat (NB_PROCS P)) 1,
      barrier_initial_value = replicate (unat MAX_BARRIER_COUNT) 0,
      barrier_count = replicate (unat MAX_BARRIER_COUNT) 0,
      interrupt_vector = replicate 32 Isr_default\<rparr>"

lemma arrays_ok_boot: "arrays_ok P (boot_machine P c m d)"
  by (simp add: arrays_ok_def boot_machine_def)

text \<open>The platform of \<open>TP3\<close>: the parameters of \<open>soft/config.h\<close> and the segments of
  \<open>soft/seg.ld\<close>, over given devices.\<close>

definition tp3_platform ::
  "(u32 \<Rightarrow> 'd \<Rightarrow> u32 \<times> 'd) \<Rightarrow> (u32 \<Rightarrow> u32 \<Rightarrow> 'd \<Rightarrow> 'd) \<Rightarrow> ('d machine \<Rightarrow> 'd machine) \<Rightarrow> 'd platform" where
  "tp3_platform rd wr oth =
     \<lparr>NB_PROCS = 1, NB_MAXTASKS = 1, NO_HARD_CC = False,
      seg_icu_base = 0x9F000000, seg_timer_base = 0x91000000, seg_tty_base = 0x90000000,
      seg_gcd_base = 0x95000000, seg_dma_base = 0x93000000, seg_fb_base = 0x96000000,
      seg_ioc_base = 0x92000000, label = (\<lambda>_. 0), clobbers = id, bus_read = rd, bus_write = wr, others = oth\<rparr>"

lemma config_ok_tp3: "config_ok (tp3_platform rd wr oth)"
  by (simp add: config_ok_def tp3_platform_def)

text \<open>A four-processor, four-task configuration of the same memory map, for the examples that need
  several tasks; a processor with a given identifier whose other registers are zero; and devices
  that are a memory of 32-bit registers.\<close>

definition smp_platform ::
  "(u32 \<Rightarrow> 'd \<Rightarrow> u32 \<times> 'd) \<Rightarrow> (u32 \<Rightarrow> u32 \<Rightarrow> 'd \<Rightarrow> 'd) \<Rightarrow> ('d machine \<Rightarrow> 'd machine) \<Rightarrow> 'd platform" where
  "smp_platform rd wr oth = (tp3_platform rd wr oth)\<lparr>NB_PROCS := 4, NB_MAXTASKS := 4, NO_HARD_CC := True\<rparr>"

lemma config_ok_smp: "config_ok (smp_platform rd wr oth)"
  by (simp add: config_ok_def smp_platform_def tp3_platform_def)

definition cpu_of :: "u32 \<Rightarrow> cpu" where
  "cpu_of i = \<lparr>gpr = (\<lambda>_. 0), reg_hi = 0, reg_lo = 0, cp0_sr = 0, cp0_cr = 0, cp0_epc = 0, cp0_bar = 0, cp0_count = 0,
     cp0_procid = i, cp0_config1 = 0\<rparr>"

definition regs_read :: "u32 \<Rightarrow> (u32 \<Rightarrow> u32) \<Rightarrow> u32 \<times> (u32 \<Rightarrow> u32)" where
  "regs_read a d = (d a, d)"

definition regs_write :: "u32 \<Rightarrow> u32 \<Rightarrow> (u32 \<Rightarrow> u32) \<Rightarrow> (u32 \<Rightarrow> u32)" where
  "regs_write a v d = d(a := v)"

abbreviation "tp3_regs \<equiv> tp3_platform regs_read regs_write id"
abbreviation "smp_regs \<equiv> smp_platform regs_read regs_write id"
abbreviation "tp3_start \<equiv> boot_machine tp3_regs (cpu_of 0) (\<lambda>_. 0) (\<lambda>_. 0)"
abbreviation "smp_start i \<equiv> boot_machine smp_regs (cpu_of i) (\<lambda>_. 0) (\<lambda>_. 0)"

end
