(* ===== verification/Memcpy.thy ===== *)
theory Memcpy
  imports Machine
begin

text \<open>
  The \<open>memcpy\<close> of \<open>giet_2011/sys/common.h\<close> and \<open>giet_2011/app/stdio.h\<close>: a copy word by word
  while both pointers are aligned, then byte by byte. The model keeps the two loops and the address
  arithmetic on 32 bits; the theorem is that the optimised copy is the plain byte copy.
\<close>

section \<open>The two loops\<close>

text \<open>The state of the loops: destination and source pointers, remaining size and memory.\<close>

type_synonym copy_state = "u32 \<times> u32 \<times> u32 \<times> (u32 \<Rightarrow> u8)"

function memcpy_words :: "u32 \<Rightarrow> u32 \<Rightarrow> u32 \<Rightarrow> (u32 \<Rightarrow> u8) \<Rightarrow> copy_state" where
  "memcpy_words dst src sz m =
     (if sz > 3 then memcpy_words (dst + 4) (src + 4) (sz - 4) (store_word dst (load_word m src) m)
      else (dst, src, sz, m))"
  by pat_completeness auto
termination
proof (relation "measure (\<lambda>(dst, src, sz, m). unat sz)")
  fix dst src sz :: u32 and m :: "u32 \<Rightarrow> u8"
  assume "sz > 3"
  then have "4 \<le> sz" by (simp add: word_le_nat_alt word_less_nat_alt)
  then have "unat (sz - 4) = unat sz - 4" and "4 \<le> unat sz"
    by (simp_all add: unat_sub word_le_nat_alt)
  then show "((dst + 4, src + 4, sz - 4, store_word dst (load_word m src) m), dst, src, sz, m)
      \<in> measure (\<lambda>(dst, src, sz, m). unat sz)"
    by simp
qed simp

text \<open>\<open>while (size--) *cdst++ = *csrc++\<close>.\<close>

function memcpy_bytes :: "u32 \<Rightarrow> u32 \<Rightarrow> u32 \<Rightarrow> (u32 \<Rightarrow> u8) \<Rightarrow> (u32 \<Rightarrow> u8)" where
  "memcpy_bytes cdst csrc sz m =
     (if sz \<noteq> 0 then memcpy_bytes (cdst + 1) (csrc + 1) (sz - 1) (m(cdst := m csrc)) else m)"
  by pat_completeness auto
termination
proof (relation "measure (\<lambda>(cdst, csrc, sz, m). unat sz)")
  fix cdst csrc sz :: u32 and m :: "u32 \<Rightarrow> u8"
  assume "sz \<noteq> 0"
  then have "unat (sz - 1) < unat sz" by (metis measure_unat)
  then show "((cdst + 1, csrc + 1, sz - 1, m(cdst := m csrc)), cdst, csrc, sz, m)
      \<in> measure (\<lambda>(cdst, csrc, sz, m). unat sz)"
    by simp
qed simp

declare memcpy_words.simps [simp del]
declare memcpy_bytes.simps [simp del]

definition memcpy :: "u32 \<Rightarrow> u32 \<Rightarrow> u32 \<Rightarrow> (u32 \<Rightarrow> u8) \<Rightarrow> (u32 \<Rightarrow> u8)" where
  "memcpy dst src sz m =
     (let (cdst, csrc, left, m') =
        (if dst AND 3 = 0 \<and> src AND 3 = 0 then memcpy_words dst src sz m else (dst, src, sz, m))
      in memcpy_bytes cdst csrc left m')"

section \<open>Block copies\<close>

text \<open>The memory after \<open>n\<close> bytes at \<open>src\<close> have been copied to \<open>dst\<close>, and the condition that the
  two areas share no address.\<close>

definition blk :: "u32 \<Rightarrow> u32 \<Rightarrow> nat \<Rightarrow> (u32 \<Rightarrow> u8) \<Rightarrow> (u32 \<Rightarrow> u8)" where
  "blk dst src n m = (\<lambda>a. if unat (a - dst) < n then m (src + (a - dst)) else m a)"

definition areas_disjoint :: "u32 \<Rightarrow> u32 \<Rightarrow> nat \<Rightarrow> bool" where
  "areas_disjoint dst src n \<longleftrightarrow> (\<forall>i<n. \<forall>j<n. dst + of_nat i \<noteq> src + of_nat j)"

lemma blk_0 [simp]: "blk d s 0 m = m"
  by (simp add: blk_def)

lemma areas_disjoint_mono: "areas_disjoint d s n \<Longrightarrow> k \<le> n \<Longrightarrow> areas_disjoint d s k"
  by (auto simp: areas_disjoint_def)

lemma areas_disjoint_shift:
  "areas_disjoint d s (n + k) \<Longrightarrow> areas_disjoint (d + of_nat n) (s + of_nat n) k"
proof -
  assume dis: "areas_disjoint d s (n + k)"
  have "d + of_nat n + of_nat i \<noteq> s + of_nat n + of_nat j" if "i < k" "j < k" for i j
  proof -
    have "d + of_nat (n + i) \<noteq> s + of_nat (n + j)"
      using dis that by (simp only: areas_disjoint_def) (meson add_strict_left_mono)
    then show ?thesis by (simp add: add.assoc)
  qed
  then show ?thesis by (simp add: areas_disjoint_def)
qed

text \<open>The distance between two addresses, measured from a later starting point.\<close>

lemma unat_minus_of_nat:
  fixes x :: u32
  assumes "n \<le> 2 ^ 32"
  shows "unat (x - of_nat n) = (if n \<le> unat x then unat x - n else unat x + 2 ^ 32 - n)"
proof (cases "n \<le> unat x")
  case True
  moreover from this have "unat (of_nat n :: u32) = n"
    using unat_of_nat [of n, where 'a = 32] unsigned_less [of x, where 'a = nat] by simp
  ultimately show ?thesis by (simp add: unat_sub word_le_nat_alt)
next
  case False
  show ?thesis
  proof (cases "n = 2 ^ 32")
    case True
    then have "x - of_nat n = x" using of_nat_power [of 2 32, where 'a = u32] by simp
    then have "unat (x - of_nat n) = unat x" by (rule arg_cong)
    also have "\<dots> = unat x + 2 ^ 32 - n" using True by simp
    finally show ?thesis using False by (simp only: if_False)
  next
    case n: False
    with assms have "n < 2 ^ 32" by simp
    then have u: "unat (of_nat n :: u32) = n" by (simp add: unat_of_nat)
    with False show ?thesis
      by (simp add: unat_sub_if_size word_le_nat_alt word_size)
  qed
qed

lemma blk_blk:
  assumes "n + k \<le> 2 ^ 32" and "areas_disjoint d s (n + k)"
  shows "blk (d + of_nat n) (s + of_nat n) k (blk d s n m) = blk d s (n + k) m"
proof
  fix a
  define x where "x = a - d"
  have dist: "a - (d + of_nat n) = x - of_nat n" by (simp add: x_def)
  have n: "n \<le> 2 ^ 32" using assms(1) by simp
  note u = unat_minus_of_nat [OF n, of x]
  have later: "unat (x - of_nat n) < k \<longleftrightarrow> n \<le> unat x \<and> unat x < n + k"
    using u assms(1) by auto
  have src: "s + of_nat n + (x - of_nat n) = s + x" by simp
  have apart: "\<not> unat (s + x - d) < n" if "n \<le> unat x" "unat x < n + k"
  proof
    assume "unat (s + x - d) < n"
    then have "d + of_nat (unat (s + x - d)) \<noteq> s + of_nat (unat x)"
      using assms(2) that by (simp only: areas_disjoint_def) (meson trans_less_add1)
    then show False by simp
  qed
  show "blk (d + of_nat n) (s + of_nat n) k (blk d s n m) a = blk d s (n + k) m a"
    using later src apart
    by (auto simp: blk_def [of "d + of_nat n"] dist) (auto simp: blk_def x_def)
qed

section \<open>One word\<close>

lemma byte_of_word:
  "ucast (load_word m a) = m a"
  "ucast (drop_bit 8 (load_word m a)) = m (a + 1)"
  "ucast (drop_bit 16 (load_word m a)) = m (a + 2)"
  "ucast (drop_bit 24 (load_word m a)) = m (a + 3)"
  by (rule bit_word_eqI, auto simp: load_word_def bit_simps dest: bit_imp_le_length)+

lemma less_4_word:
  fixes x :: u32
  shows "unat x < 4 \<longleftrightarrow> x = 0 \<or> x = 1 \<or> x = 2 \<or> x = 3"
  by (auto simp: word_unat_eq_iff)

lemma store_load_word_blk: "store_word d (load_word m s) m = blk d s 4 m"
proof
  fix a
  have "a - d = 0 \<longleftrightarrow> a = d" "a - d = 1 \<longleftrightarrow> a = d + 1" "a - d = 2 \<longleftrightarrow> a = d + 2" "a - d = 3 \<longleftrightarrow> a = d + 3"
    by (auto simp: algebra_simps)
  then show "store_word d (load_word m s) m a = blk d s 4 m a"
    by (auto simp: blk_def less_4_word store_word_def byte_of_word)
qed

section \<open>The loops copy blocks\<close>

lemma memcpy_words_blk:
  "areas_disjoint d s (unat sz) \<Longrightarrow> \<exists>q. 4 * q \<le> unat sz \<and>
     memcpy_words d s sz m = (d + of_nat (4 * q), s + of_nat (4 * q), sz - of_nat (4 * q), blk d s (4 * q) m)"
proof (induction d s sz m rule: memcpy_words.induct)
  case (1 d s sz m)
  show ?case
  proof (cases "sz > 3")
    case False
    then show ?thesis by (intro exI [of _ 0]) (simp add: memcpy_words.simps [of d s sz m])
  next
    case True
    then have sz: "4 \<le> unat sz" by (simp add: word_less_nat_alt)
    then have left: "unat (sz - 4) = unat sz - 4"
      using unat_minus_of_nat [of 4 sz] by simp
    have "areas_disjoint d s (4 + (unat sz - 4))" using "1.prems" sz by simp
    from areas_disjoint_shift [OF this] left have "areas_disjoint (d + 4) (s + 4) (unat (sz - 4))"
      by simp
    from "1.IH" [OF True this] obtain q where q: "4 * q \<le> unat (sz - 4)"
      "memcpy_words (d + 4) (s + 4) (sz - 4) (store_word d (load_word m s) m)
        = (d + 4 + of_nat (4 * q), s + 4 + of_nat (4 * q), sz - 4 - of_nat (4 * q),
           blk (d + 4) (s + 4) (4 * q) (store_word d (load_word m s) m))"
      by blast
    have le: "4 + 4 * q \<le> unat sz" using q(1) left sz by simp
    then have "blk (d + of_nat 4) (s + of_nat 4) (4 * q) (blk d s 4 m) = blk d s (4 + 4 * q) m"
      using "1.prems" unsigned_less [of sz, where 'a = nat]
      by (intro blk_blk) (auto intro: areas_disjoint_mono)
    with q True le show ?thesis
      by (intro exI [of _ "Suc q"])
        (simp add: memcpy_words.simps [of d s sz m] store_load_word_blk algebra_simps)
  qed
qed

lemma memcpy_bytes_blk:
  "areas_disjoint d s (unat sz) \<Longrightarrow> memcpy_bytes d s sz m = blk d s (unat sz) m"
proof (induction d s sz m rule: memcpy_bytes.induct)
  case (1 d s sz m)
  show ?case
  proof (cases "sz = 0")
    case True
    then show ?thesis by (simp add: memcpy_bytes.simps [of d s 0 m])
  next
    case False
    then have sz: "1 \<le> unat sz" using unat_gt_0 [of sz] by linarith
    then have left: "unat (sz - 1) = unat sz - 1"
      using unat_minus_of_nat [of 1 sz] by simp
    have dis: "areas_disjoint d s (1 + (unat sz - 1))" using "1.prems" sz by simp
    from areas_disjoint_shift [OF dis] left have "areas_disjoint (d + 1) (s + 1) (unat (sz - 1))"
      by simp
    from "1.IH" [OF False this] have "memcpy_bytes (d + 1) (s + 1) (sz - 1) (m(d := m s))
        = blk (d + of_nat 1) (s + of_nat 1) (unat sz - 1) (m(d := m s))"
      using left by (simp add: fun_upd_def)
    also have one: "m(d := m s) = blk d s 1 m"
      by (auto simp: blk_def fun_eq_iff unat_eq_zero)
    also have "blk (d + of_nat 1) (s + of_nat 1) (unat sz - 1) (blk d s 1 m) = blk d s (1 + (unat sz - 1)) m"
      using dis sz unsigned_less [of sz, where 'a = nat] by (intro blk_blk) auto
    finally show ?thesis using False sz one by (simp add: memcpy_bytes.simps [of d s sz m])
  qed
qed

section \<open>The copy\<close>

lemma memcpy_blk:
  assumes "areas_disjoint dst src (unat sz)"
  shows "memcpy dst src sz m = blk dst src (unat sz) m"
proof (cases "dst AND 3 = 0 \<and> src AND 3 = 0")
  case False
  then show ?thesis by (auto simp: memcpy_def memcpy_bytes_blk [OF assms])
next
  case True
  obtain q where q: "4 * q \<le> unat sz" "memcpy_words dst src sz m
      = (dst + of_nat (4 * q), src + of_nat (4 * q), sz - of_nat (4 * q), blk dst src (4 * q) m)"
    using memcpy_words_blk [OF assms] by blast
  define k where "k = unat sz - 4 * q"
  have sz: "unat sz = 4 * q + k" using q(1) by (simp add: k_def)
  have bound: "unat sz < 2 ^ 32" using unsigned_less [of sz, where 'a = nat] by simp
  have left: "unat (sz - of_nat (4 * q)) = k"
    using unat_minus_of_nat [of "4 * q" sz] q(1) bound by (simp add: k_def)
  have "memcpy dst src sz m
      = memcpy_bytes (dst + of_nat (4 * q)) (src + of_nat (4 * q)) (sz - of_nat (4 * q)) (blk dst src (4 * q) m)"
    using True q(2) by (simp add: memcpy_def)
  also have "\<dots> = blk (dst + of_nat (4 * q)) (src + of_nat (4 * q)) k (blk dst src (4 * q) m)"
    using memcpy_bytes_blk areas_disjoint_shift [of dst src "4 * q" k] assms sz left by metis
  also have "\<dots> = blk dst src (unat sz) m"
    using blk_blk [of "4 * q" k dst src m] assms sz bound by simp
  finally show ?thesis .
qed

section \<open>Properties\<close>

text \<open>C6. For areas that do not overlap, \<open>memcpy\<close> copies exactly \<open>size\<close> bytes from the source to
  the destination and leaves every other byte of memory alone, whatever the alignment: the
  word-by-word fast path and its byte-by-byte tail are together the plain byte copy.\<close>

theorem memcpy_correct:
  assumes "areas_disjoint dst src (unat sz)"
  shows "memcpy dst src sz m = blk dst src (unat sz) m"
  by (rule memcpy_blk [OF assms])

theorem memcpy_correct_witness:
  "memcpy 0x100 0x200 6 (\<lambda>a. ucast a) = blk 0x100 0x200 (unat (6::u32)) (\<lambda>a. ucast a)"
proof (rule memcpy_correct)
  have "(0x100 :: u32) + of_nat i \<noteq> 0x200 + of_nat j" if "i < 6" "j < 6" for i j :: nat
  proof
    assume "(0x100 :: u32) + of_nat i = 0x200 + of_nat j"
    then have "unat ((0x100 :: u32) + of_nat i) = unat ((0x200 :: u32) + of_nat j)" by simp
    then show False using that by (simp add: unat_word_ariths unat_of_nat)
  qed
  then show "areas_disjoint 0x100 0x200 (unat (6::u32))" by (simp add: areas_disjoint_def)
qed

end
