(* ===== verification/Drivers.thy ===== *)
theory Drivers
  imports Machine Itoa
begin

text \<open>
  The drivers of \<open>giet_2011/sys/drivers.c\<close> for the processor registers, the timers, the
  terminals, the interrupt controllers and the GCD coprocessor, with \<open>_putk\<close> and \<open>_exit\<close> of
  \<open>common.c\<close>. A name \<open>_f\<close> of the source is \<open>k_f\<close> here. Output parameters (\<open>*buffer = ...\<close>)
  are returned next to the result code.
\<close>

section \<open>Processor registers\<close>

definition k_procid :: "'d machine \<Rightarrow> u32" where
  "k_procid s = cp0_procid (core s) AND 0x3FF"

definition k_proctime :: "'d machine \<Rightarrow> u32" where
  "k_proctime s = cp0_count (core s)"

definition k_get_epc :: "'d machine \<Rightarrow> u32" where
  "k_get_epc s = cp0_epc (core s)"

definition k_get_bar :: "'d machine \<Rightarrow> u32" where
  "k_get_bar s = cp0_bar (core s)"

definition k_get_cause :: "'d machine \<Rightarrow> u32" where
  "k_get_cause s = cp0_cr (core s)"

section \<open>Timers\<close>

definition k_timer_write :: "'d platform \<Rightarrow> u32 \<Rightarrow> u32 \<Rightarrow> ('d machine, u32) prog" where
  "k_timer_write P register_index value =
     (if register_index \<ge> TIMER_SPAN then ret 1
      else bnd (gets k_procid) (\<lambda>proc_id.
        let timer_address = word_at (seg_timer_base P) (proc_id * TIMER_SPAN)
        in bnd (dev_store P (word_at timer_address register_index) value) (\<lambda>_. ret 0)))"

text \<open>The value stored in \<open>*buffer\<close> is \<open>None\<close> when the code does not write it.\<close>

definition k_timer_read :: "'d platform \<Rightarrow> u32 \<Rightarrow> ('d machine, u32 \<times> u32 option) prog" where
  "k_timer_read P register_index =
     (if register_index \<ge> TIMER_SPAN then ret (1, None)
      else bnd (gets k_procid) (\<lambda>proc_id.
        let timer_address = word_at (seg_timer_base P) (proc_id * TIMER_SPAN)
        in bnd (dev_load P (word_at timer_address register_index)) (\<lambda>v. ret (0, Some v))))"

section \<open>Terminals\<close>

text \<open>The slot of the context of task \<open>task_id\<close> on processor \<open>proc_id\<close> that holds its terminal.\<close>

definition tty_slot :: "'d platform \<Rightarrow> u32 \<Rightarrow> u32 \<Rightarrow> u32" where
  "tty_slot P proc_id task_id = (proc_id * NB_MAXTASKS P + task_id) * 64 + 34"

definition k_tty_config :: "'d platform \<Rightarrow> u32 \<Rightarrow> u32 \<Rightarrow> u32 \<Rightarrow> ('d machine, u32) prog" where
  "k_tty_config P tty_id proc_id task_id =
     (if task_id \<ge> NB_MAXTASKS P then ret 0
      else if proc_id \<ge> NB_PROCS P then ret 0
      else bnd (awrite task_context_array task_context_array_update
                 (tty_slot P proc_id task_id) (tty_id + 0x80000000)) (\<lambda>_. ret 1))"

text \<open>The computation of the terminal index that opens \<open>_tty_write\<close>, \<open>_tty_read_irq\<close> and
  \<open>_tty_read\<close>.\<close>

definition k_tty_id :: "'d platform \<Rightarrow> ('d machine, u32) prog" where
  "k_tty_id P =
     bnd (gets k_procid) (\<lambda>proc_id.
     bnd (aread current_task_array proc_id) (\<lambda>task.
     let task_id = ucast task :: u32 in
     bnd (aread task_context_array (tty_slot P proc_id task_id)) (\<lambda>tty_id.
     ret (if tty_id = 0 then proc_id * NB_MAXTASKS P + task_id else tty_id - 0x80000000))))"

text \<open>The loop of \<open>_tty_write\<close>: one status read, and one write if the terminal accepts it, per
  character.\<close>

fun tty_write_loop :: "'d platform \<Rightarrow> u32 \<Rightarrow> u8 list \<Rightarrow> u32 \<Rightarrow> ('d machine, u32) prog" where
  "tty_write_loop P tty_address [] nwritten = ret nwritten"
| "tty_write_loop P tty_address (c # cs) nwritten =
     bnd (dev_load P (word_at tty_address TTY_STATUS)) (\<lambda>status.
     if status AND 0x2 = 0x2 then ret nwritten
     else bnd (dev_store P (word_at tty_address TTY_WRITE) (char_to_uint c))
            (\<lambda>_. tty_write_loop P tty_address cs (nwritten + 1)))"

definition k_tty_write :: "'d platform \<Rightarrow> u8 list \<Rightarrow> ('d machine, u32) prog" where
  "k_tty_write P buffer =
     bnd (k_tty_id P) (\<lambda>tty_id.
     tty_write_loop P (word_at (seg_tty_base P) (tty_id * TTY_SPAN)) buffer 0)"

definition k_tty_read_irq :: "'d platform \<Rightarrow> ('d machine, u32 \<times> u8 option) prog" where
  "k_tty_read_irq P =
     bnd (k_tty_id P) (\<lambda>tty_id.
     bnd (aread tty_get_full tty_id) (\<lambda>full.
     if full = 0 then ret (0, None)
     else bnd (aread tty_get_buf tty_id) (\<lambda>c.
          bnd (awrite tty_get_full tty_get_full_update tty_id 0) (\<lambda>_.
          ret (1, Some c)))))"

definition k_tty_read :: "'d platform \<Rightarrow> ('d machine, u32 \<times> u8 option) prog" where
  "k_tty_read P =
     bnd (k_tty_id P) (\<lambda>tty_id.
     let tty_address = word_at (seg_tty_base P) (tty_id * TTY_SPAN) in
     bnd (dev_load P (word_at tty_address TTY_STATUS)) (\<lambda>status.
     if status AND 0x1 \<noteq> 0x1 then ret (0, None)
     else bnd (dev_load P (word_at tty_address TTY_READ)) (\<lambda>v. ret (1, Some (ucast v)))))"

section \<open>Interrupt controllers\<close>

definition k_icu_write :: "'d platform \<Rightarrow> u32 \<Rightarrow> u32 \<Rightarrow> ('d machine, u32) prog" where
  "k_icu_write P register_index value =
     (if register_index \<ge> ICU_END then ret 1
      else bnd (gets k_procid) (\<lambda>proc_id.
        let icu_address = word_at (seg_icu_base P) (proc_id * ICU_SPAN)
        in bnd (dev_store P (word_at icu_address register_index) value) (\<lambda>_. ret 0)))"

definition k_icu_read :: "'d platform \<Rightarrow> u32 \<Rightarrow> ('d machine, u32 \<times> u32 option) prog" where
  "k_icu_read P register_index =
     (if register_index \<ge> ICU_END then ret (1, None)
      else bnd (gets k_procid) (\<lambda>proc_id.
        let icu_address = word_at (seg_icu_base P) (proc_id * ICU_SPAN)
        in bnd (dev_load P (word_at icu_address register_index)) (\<lambda>v. ret (0, Some v))))"

section \<open>GCD coprocessor\<close>

definition k_gcd_write :: "'d platform \<Rightarrow> u32 \<Rightarrow> u32 \<Rightarrow> ('d machine, u32) prog" where
  "k_gcd_write P register_index value =
     (if register_index \<ge> GCD_END then ret 1
      else bnd (dev_store P (word_at (seg_gcd_base P) register_index) value) (\<lambda>_. ret 0))"

definition k_gcd_read :: "'d platform \<Rightarrow> u32 \<Rightarrow> ('d machine, u32 \<times> u32 option) prog" where
  "k_gcd_read P register_index =
     (if register_index \<ge> GCD_END then ret (1, None)
      else bnd (dev_load P (word_at (seg_gcd_base P) register_index)) (\<lambda>v. ret (0, Some v)))"

section \<open>Kernel messages\<close>

text \<open>\<open>_putk\<close> counts the characters before the NUL; a message is the list of its bytes, whose end
  stands for the terminating NUL of the literal.\<close>

definition k_putk :: "'d platform \<Rightarrow> u8 list \<Rightarrow> ('d machine, u32) prog" where
  "k_putk P msg = k_tty_write P (takeWhile (\<lambda>c. c \<noteq> 0) msg)"

definition newline :: u8 where [simp]: "newline = 0x0A"

text \<open>The message buffer of \<open>_exit\<close>, and the three characters it overwrites.\<close>

definition exit_message :: "u32 \<Rightarrow> u8 list" where
  "exit_message proc_id =
     (newline # newline # ascii ''!!! Exit Processor 0x___ !!!'' @ [newline])
       [23 := ucast (drop_bit 8 proc_id AND 0xF) + 0x30,
        24 := ucast (drop_bit 4 proc_id AND 0xF) + 0x30,
        25 := ucast (drop_bit 0 proc_id AND 0xF) + 0x30]"

definition k_exit :: "'d platform \<Rightarrow> ('d machine, 'a) prog" where
  "k_exit P = bnd (gets k_procid) (\<lambda>proc_id. bnd (k_putk P (exit_message proc_id)) (\<lambda>_. halt))"

lemmas register_driver_defs [giet_defs] =
  k_timer_write_def k_timer_read_def k_icu_write_def k_icu_read_def k_gcd_write_def k_gcd_read_def

section \<open>Device accesses\<close>

lemma bnd_dev_store [simp]:
  "bnd (dev_store P a v) k s = k () (s\<lparr>dev := bus_write P a v (dev s), trace := trace s @ [Wr a v]\<rparr>)"
  by (simp add: dev_store_def)

lemma dev_store_Ret [simp]:
  "dev_store P a v s = Ret () (s\<lparr>dev := bus_write P a v (dev s), trace := trace s @ [Wr a v]\<rparr>)"
  by (simp add: dev_store_def)

lemma bnd_dev_load [simp]:
  "bnd (dev_load P a) k s = k (fst (bus_read P a (dev s)))
     (s\<lparr>dev := snd (bus_read P a (dev s)), trace := trace s @ [Rd a (fst (bus_read P a (dev s)))]\<rparr>)"
  by (simp add: dev_load_def bnd_def Let_def split_beta)

lemma dev_load_Ret [simp]:
  "dev_load P a s = Ret (fst (bus_read P a (dev s)))
     (s\<lparr>dev := snd (bus_read P a (dev s)), trace := trace s @ [Rd a (fst (bus_read P a (dev s)))]\<rparr>)"
  by (simp add: dev_load_def Let_def split_beta)

section \<open>Indices of tasks and contexts\<close>

lemma unat_le_numeral: "\<not> (x::u32) > numeral k \<Longrightarrow> unat x \<le> unat (numeral k :: u32)"
  by (simp add: not_less word_le_nat_alt)

lemma config_bounds:
  assumes "config_ok P"
  shows "unat (NB_PROCS P) \<le> 8" and "unat (NB_MAXTASKS P) \<le> 4"
  using assms by (auto simp: config_ok_def dest: unat_le_numeral)

lemma index_less_product:
  fixes p t n m :: nat
  assumes "p < n" and "t < m"
  shows "p * m + t < n * m"
proof -
  have "p * m + t < p * m + m" using assms(2) by simp
  also have "\<dots> = Suc p * m" by simp
  also have "\<dots> \<le> n * m" using assms(1) by (intro mult_le_mono1) simp
  finally show ?thesis .
qed

text \<open>No index into the task tables wraps around on a supported configuration.\<close>

lemma unat_task_index:
  assumes "config_ok P" and "proc < NB_PROCS P" and "task < NB_MAXTASKS P"
  shows "unat (proc * NB_MAXTASKS P + task) = unat proc * unat (NB_MAXTASKS P) + unat task"
    and "unat proc * unat (NB_MAXTASKS P) + unat task < unat (NB_PROCS P) * unat (NB_MAXTASKS P)"
    and "unat (NB_PROCS P * NB_MAXTASKS P) = unat (NB_PROCS P) * unat (NB_MAXTASKS P)"
    and "unat (NB_PROCS P) * unat (NB_MAXTASKS P) \<le> 32"
proof -
  note b = config_bounds [OF assms(1)]
  have p: "unat proc < unat (NB_PROCS P)" and t: "unat task < unat (NB_MAXTASKS P)"
    using assms(2,3) by (simp_all add: word_less_nat_alt)
  show small: "unat (NB_PROCS P) * unat (NB_MAXTASKS P) \<le> 32"
    using mult_le_mono [OF b] by simp
  show lt: "unat proc * unat (NB_MAXTASKS P) + unat task < unat (NB_PROCS P) * unat (NB_MAXTASKS P)"
    by (rule index_less_product [OF p t])
  show "unat (NB_PROCS P * NB_MAXTASKS P) = unat (NB_PROCS P) * unat (NB_MAXTASKS P)"
    using small by (simp add: unat_word_ariths)
  from lt small have "unat proc * unat (NB_MAXTASKS P) + unat task < 2 ^ 32" by simp
  then show "unat (proc * NB_MAXTASKS P + task) = unat proc * unat (NB_MAXTASKS P) + unat task"
    by (simp add: unat_word_ariths)
qed

lemma unat_ctx_slot:
  assumes "config_ok P" and "proc < NB_PROCS P" and "task < NB_MAXTASKS P" and "k < 64"
  shows "unat ((proc * NB_MAXTASKS P + task) * 64 + of_nat k)
      = (unat proc * unat (NB_MAXTASKS P) + unat task) * 64 + k"
    and "(unat proc * unat (NB_MAXTASKS P) + unat task) * 64 + k
      < unat (NB_PROCS P * NB_MAXTASKS P * TASK_CTXT_SIZE)"
proof -
  note i = unat_task_index [OF assms(1,2,3)]
  let ?i = "unat proc * unat (NB_MAXTASKS P) + unat task"
  have u: "unat (of_nat k :: u32) = k" using assms(4) by (simp add: unat_of_nat)
  from i assms(4) have "?i * 64 + k < 2 ^ 32" by simp
  then show "unat ((proc * NB_MAXTASKS P + task) * 64 + of_nat k) = ?i * 64 + k"
    using i u by (simp add: unat_word_ariths)
  from i(4) have "unat (NB_PROCS P) * unat (NB_MAXTASKS P) * 64 < 2 ^ 32"
    using mult_le_mono1 [of _ 32 64] by fastforce
  then have "unat (NB_PROCS P * NB_MAXTASKS P * TASK_CTXT_SIZE) = unat (NB_PROCS P) * unat (NB_MAXTASKS P) * 64"
    using i(3) unat_word_ariths(2) [of "NB_PROCS P * NB_MAXTASKS P" TASK_CTXT_SIZE] by simp
  with i assms(4) show "?i * 64 + k < unat (NB_PROCS P * NB_MAXTASKS P * TASK_CTXT_SIZE)"
    using index_less_product [of ?i "unat (NB_PROCS P) * unat (NB_MAXTASKS P)" k 64] by simp
qed

lemma unat_tty_slot:
  assumes "config_ok P" and "proc < NB_PROCS P" and "task < NB_MAXTASKS P"
  shows "unat (tty_slot P proc task) = (unat proc * unat (NB_MAXTASKS P) + unat task) * 64 + 34"
    and "arrays_ok P s \<Longrightarrow> unat (tty_slot P proc task) < length (task_context_array s)"
  using unat_ctx_slot [OF assms, of 34] by (auto simp: tty_slot_def arrays_ok_def)

text \<open>Different tasks have different slots.\<close>

lemma task_index_inj:
  fixes p q t u m :: nat
  assumes "t < m" and "u < m" and "p * m + t = q * m + u"
  shows "p = q \<and> t = u"
proof -
  have "(p * m + t) div m = (q * m + u) div m" using assms(3) by simp
  then have "p = q" using assms(1,2) by simp
  with assms(3) show ?thesis by simp
qed

lemma tty_slot_inj:
  assumes "config_ok P" and "proc < NB_PROCS P" and "task < NB_MAXTASKS P"
    and "proc' < NB_PROCS P" and "task' < NB_MAXTASKS P"
    and "unat (tty_slot P proc task) = unat (tty_slot P proc' task')"
  shows "proc = proc' \<and> task = task'"
proof -
  have "unat proc * unat (NB_MAXTASKS P) + unat task = unat proc' * unat (NB_MAXTASKS P) + unat task'"
    using assms(6) unat_tty_slot(1) [OF assms(1,2,3)] unat_tty_slot(1) [OF assms(1,4,5)] by simp
  then have "unat proc = unat proc' \<and> unat task = unat task'"
    using assms(3,5) by (intro task_index_inj) (auto simp: word_less_nat_alt)
  then show ?thesis by (simp add: word_unat_eq_iff)
qed

text \<open>The running task of the processor, and the assumption under which the drivers address the
  task tables inside their bounds: the processor is one of the platform's and its current task one
  of those it can run.\<close>

definition current_task :: "'d machine \<Rightarrow> u32" where
  "current_task s = ucast (current_task_array s ! unat (k_procid s))"

definition running_ok :: "'d platform \<Rightarrow> 'd machine \<Rightarrow> bool" where
  "running_ok P s \<longleftrightarrow> config_ok P \<and> arrays_ok P s \<and> k_procid s < NB_PROCS P
     \<and> current_task s < NB_MAXTASKS P"

text \<open>The terminal of the running task.\<close>

definition terminal :: "'d platform \<Rightarrow> 'd machine \<Rightarrow> u32" where
  "terminal P s =
     (let t = task_context_array s ! unat (tty_slot P (k_procid s) (current_task s))
      in if t = 0 then k_procid s * NB_MAXTASKS P + current_task s else t - 0x80000000)"

lemma k_tty_id_running:
  assumes "running_ok P s"
  shows "k_tty_id P s = Ret (terminal P s) s"
proof -
  from assms have "unat (k_procid s) < length (current_task_array s)"
    by (simp add: running_ok_def arrays_ok_def word_less_nat_alt)
  moreover from assms
  have "unat (tty_slot P (k_procid s) (current_task s)) < length (task_context_array s)"
    by (auto simp: running_ok_def intro: unat_tty_slot)
  ultimately show ?thesis
    by (simp add: k_tty_id_def bnd_aread terminal_def current_task_def Let_def)
qed

lemma running_ok_cong:
  assumes "core t = core s" and "current_task_array t = current_task_array s"
    and "arrays_ok P t = arrays_ok P s"
  shows "running_ok P t = running_ok P s"
  using assms by (simp add: running_ok_def current_task_def k_procid_def)

section \<open>The terminal write loop\<close>

text \<open>What a write to a terminal looks like on the bus: for each character a read of the status
  register \<open>S\<close> and a write of the character to the register \<open>W\<close>.\<close>

fun tty_session :: "u32 \<Rightarrow> u32 \<Rightarrow> u32 list \<Rightarrow> u8 list \<Rightarrow> bus_event list" where
  "tty_session S W (st # sts) (c # cs) = Rd S st # Wr W (char_to_uint c) # tty_session S W sts cs"
| "tty_session S W _ _ = []"

definition tty_accepts :: "u32 \<Rightarrow> bool" where
  "tty_accepts status \<longleftrightarrow> status AND 0x2 \<noteq> 0x2"

definition tty_wrote :: "u32 \<Rightarrow> u8 list \<Rightarrow> nat \<Rightarrow> bus_event list \<Rightarrow> bool" where
  "tty_wrote tty_address buffer n es \<longleftrightarrow>
     n \<le> length buffer \<and>
     (\<exists>sts. length sts = n \<and> (\<forall>st\<in>set sts. tty_accepts st) \<and>
        (let session = tty_session (word_at tty_address TTY_STATUS) (word_at tty_address TTY_WRITE)
                         sts (take n buffer)
         in if n = length buffer then es = session
            else \<exists>full. \<not> tty_accepts full \<and> es = session @ [Rd (word_at tty_address TTY_STATUS) full]))"

lemma tty_wrote_Nil: "tty_wrote a [] 0 []"
  by (simp add: tty_wrote_def)

lemma tty_wrote_full: "\<not> tty_accepts st \<Longrightarrow> tty_wrote a (c # cs) 0 [Rd (word_at a TTY_STATUS) st]"
  by (auto simp: tty_wrote_def)

lemma tty_wrote_Cons:
  assumes "tty_accepts st" and "tty_wrote a cs n es"
  shows "tty_wrote a (c # cs) (Suc n)
    (Rd (word_at a TTY_STATUS) st # Wr (word_at a TTY_WRITE) (char_to_uint c) # es)"
proof -
  from assms(2) obtain sts where sts: "n \<le> length cs" "length sts = n" "\<forall>st\<in>set sts. tty_accepts st"
    and es: "let session = tty_session (word_at a TTY_STATUS) (word_at a TTY_WRITE) sts (take n cs)
       in if n = length cs then es = session
          else \<exists>full. \<not> tty_accepts full \<and> es = session @ [Rd (word_at a TTY_STATUS) full]"
    by (auto simp: tty_wrote_def)
  from sts assms(1) es show ?thesis
    unfolding tty_wrote_def by (intro conjI exI [of _ "st # sts"]) (auto simp: Let_def)
qed

lemma tty_write_loop_correct:
  "\<exists>n es d. tty_write_loop P a cs k s = Ret (k + of_nat n) (s\<lparr>dev := d, trace := trace s @ es\<rparr>)
     \<and> tty_wrote a cs n es"
proof (induction cs arbitrary: k s)
  case Nil
  show ?case by (intro exI [of _ 0] exI [of _ "[]"] exI [of _ "dev s"]) (simp add: tty_wrote_Nil)
next
  case (Cons c cs)
  define st where "st = fst (bus_read P (word_at a TTY_STATUS) (dev s))"
  define s1 where "s1 = s\<lparr>dev := snd (bus_read P (word_at a TTY_STATUS) (dev s)),
    trace := trace s @ [Rd (word_at a TTY_STATUS) st]\<rparr>"
  show ?case
  proof (cases "tty_accepts st")
    case False
    then have "tty_write_loop P a (c # cs) k s = Ret (k + of_nat 0) s1"
      by (simp add: st_def s1_def tty_accepts_def)
    with tty_wrote_full [OF False, of a c cs] show ?thesis
      unfolding s1_def by blast
  next
    case True
    define s2 where "s2 = s1\<lparr>dev := bus_write P (word_at a TTY_WRITE) (char_to_uint c) (dev s1),
      trace := trace s1 @ [Wr (word_at a TTY_WRITE) (char_to_uint c)]\<rparr>"
    from True have step: "tty_write_loop P a (c # cs) k s = tty_write_loop P a cs (k + 1) s2"
      by (simp add: st_def s1_def s2_def tty_accepts_def)
    obtain n es d where IH: "tty_write_loop P a cs (k + 1) s2
        = Ret (k + 1 + of_nat n) (s2\<lparr>dev := d, trace := trace s2 @ es\<rparr>)" "tty_wrote a cs n es"
      using Cons.IH by blast
    let ?es = "Rd (word_at a TTY_STATUS) st # Wr (word_at a TTY_WRITE) (char_to_uint c) # es"
    have "tty_write_loop P a (c # cs) k s
        = Ret (k + of_nat (Suc n)) (s\<lparr>dev := d, trace := trace s @ ?es\<rparr>)"
      using step IH(1) by (simp add: s1_def s2_def add.assoc)
    with tty_wrote_Cons [OF True IH(2), of c] show ?thesis by blast
  qed
qed

section \<open>Properties\<close>

text \<open>C8. On a processor of the platform running one of its tasks, \<open>_tty_write\<close> always returns; it
  sends the first \<open>n\<close> characters of the buffer, in order and each one after reading a status word
  whose WRITE bit is clear, to the terminal of the running task; it stops early only after reading a
  status word with the bit set; it returns \<open>n\<close>, and changes nothing else of the kernel.\<close>

theorem tty_write_correct:
  assumes "running_ok P s"
  shows "\<exists>n es d. k_tty_write P buffer s = Ret (of_nat n) (s\<lparr>dev := d, trace := trace s @ es\<rparr>) \<and>
     tty_wrote (word_at (seg_tty_base P) (terminal P s * TTY_SPAN)) buffer n es"
  using tty_write_loop_correct [of P _ buffer 0 s]
  by (simp add: k_tty_write_def bnd_simps(1) [where m = "k_tty_id P", OF k_tty_id_running [OF assms]])

lemma neg_top_bit: "- 0x80000000 = (0x80000000 :: u32)"
  by (subst neg_eq_iff_add_eq_0) simp

lemma running_ok_tp3_start: "running_ok tp3_regs tp3_start"
  by (simp add: running_ok_def arrays_ok_boot config_ok_tp3)
    (simp add: current_task_def k_procid_def boot_machine_def tp3_platform_def cpu_of_def)

theorem tty_write_correct_witness:
  "\<exists>n es d. k_tty_write tp3_regs (ascii ''hello'') tp3_start
       = Ret (of_nat n) (tp3_start\<lparr>dev := d, trace := trace tp3_start @ es\<rparr>) \<and>
     tty_wrote (word_at (seg_tty_base tp3_regs) (terminal tp3_regs tp3_start * TTY_SPAN)) (ascii ''hello'') n es"
  by (rule tty_write_correct [OF running_ok_tp3_start])

text \<open>\<open>_tty_config\<close> gives a terminal to a task: it fails, returning 0 and changing nothing,
  exactly when the task or the processor does not exist; otherwise it returns 1, and from then on
  the terminal of the configured task is the given one (unless the stored mark
  \<open>tty_id + 0x80000000\<close> wraps to 0) while every other task keeps its terminal.\<close>

theorem tty_config_correct:
  assumes "running_ok P s"
  shows "if NB_MAXTASKS P \<le> task \<or> NB_PROCS P \<le> proc then k_tty_config P tty proc task s = Ret 0 s
    else \<exists>t. k_tty_config P tty proc task s = Ret 1 t \<and> running_ok P t \<and> terminal P t =
      (if proc = k_procid s \<and> task = current_task s
       then (if tty = 0x80000000 then k_procid s * NB_MAXTASKS P + current_task s else tty)
       else terminal P s)"
proof (cases "NB_MAXTASKS P \<le> task \<or> NB_PROCS P \<le> proc")
  case True
  then show ?thesis by (auto simp: k_tty_config_def)
next
  case False
  then have ok: "task < NB_MAXTASKS P" "proc < NB_PROCS P" by auto
  from assms have run: "config_ok P" "arrays_ok P s" "k_procid s < NB_PROCS P"
    "current_task s < NB_MAXTASKS P"
    by (auto simp: running_ok_def)
  let ?slot = "unat (tty_slot P proc task)"
  define t where "t = s\<lparr>task_context_array := (task_context_array s)[?slot := tty + 0x80000000]\<rparr>"
  have slot: "?slot < length (task_context_array s)"
    by (rule unat_tty_slot(2) [OF run(1) ok(2,1) run(2)])
  then have "k_tty_config P tty proc task s = Ret 1 t"
    using ok by (simp add: k_tty_config_def bnd_awrite t_def not_le)
  moreover have "running_ok P t"
    using assms by (subst running_ok_cong [of t s]) (simp_all add: t_def arrays_ok_def)
  moreover have same: "k_procid t = k_procid s" "current_task t = current_task s"
    by (simp_all add: t_def k_procid_def current_task_def)
  have "terminal P t = (if proc = k_procid s \<and> task = current_task s
       then (if tty = 0x80000000 then k_procid s * NB_MAXTASKS P + current_task s else tty)
       else terminal P s)"
  proof (cases "proc = k_procid s \<and> task = current_task s")
    case True
    then have "task_context_array t ! unat (tty_slot P (k_procid t) (current_task t)) = tty + 0x80000000"
      using slot by (simp add: t_def k_procid_def current_task_def)
    moreover have "tty + 0x80000000 = 0 \<longleftrightarrow> tty = 0x80000000"
      by (simp only: eq_neg_iff_add_eq_0 [symmetric] neg_top_bit)
    ultimately show ?thesis using True same by (simp add: terminal_def Let_def)
  next
    case False
    then have "?slot \<noteq> unat (tty_slot P (k_procid s) (current_task s))"
      using tty_slot_inj [OF run(1) ok(2,1) run(3,4)] by blast
    then have "task_context_array t ! unat (tty_slot P (k_procid t) (current_task t))
        = task_context_array s ! unat (tty_slot P (k_procid s) (current_task s))"
      by (simp add: t_def k_procid_def current_task_def)
    with False same show ?thesis by (auto simp: terminal_def Let_def)
  qed
  ultimately show ?thesis using False by auto
qed

theorem tty_config_correct_witness:
  "\<exists>t. k_tty_config tp3_regs 7 0 0 tp3_start = Ret 1 t \<and> terminal tp3_regs t = 7"
proof -
  have "\<not> (NB_MAXTASKS tp3_regs \<le> 0 \<or> NB_PROCS tp3_regs \<le> 0)" "k_procid tp3_start = 0" "current_task tp3_start = 0"
    by (simp_all add: tp3_platform_def k_procid_def current_task_def boot_machine_def cpu_of_def)
  then show ?thesis using tty_config_correct [OF running_ok_tp3_start, of 0 0 7] by auto
qed

end
