(* ===== verification/Block.thy ===== *)
theory Block
  imports Drivers Memcpy
begin

text \<open>
  The transfer drivers of \<open>giet_2011/sys/drivers.c\<close>: block device (IOC), frame buffer with
  \<open>memcpy\<close> and with the DMA, and the data cache invalidation of \<open>common.c\<close>. The frame buffer is
  byte-addressed memory at \<open>seg_fb_base\<close>. A busy-waiting loop polls while the rest of the system
  (\<open>others\<close>) runs.
\<close>

section \<open>Data cache\<close>

definition dcache_line_size :: "'d machine \<Rightarrow> u32" where
  "dcache_line_size s = push_bit (unat (drop_bit 10 (cp0_config1 (core s)) AND 0x7)) 2"

definition k_dcache_buf_invalidate :: "u32 \<Rightarrow> u32 \<Rightarrow> ('d machine, unit) prog" where
  "k_dcache_buf_invalidate buffer sz = (\<lambda>s.
     let line_size = dcache_line_size s in
     case while_option (\<lambda>(i, acc). i < sz) (\<lambda>(i, acc). (i + line_size, acc @ [buffer + i]))
            (0, invalidated s) of
       None \<Rightarrow> Diverge
     | Some (_, acc) \<Rightarrow> Ret () (s\<lparr>invalidated := acc\<rparr>))"

section \<open>Block device\<close>

text \<open>The check that a transfer of \<open>len\<close> bytes at \<open>buffer\<close> stays in user space.\<close>

definition user_range_ok :: "u32 \<Rightarrow> u32 \<Rightarrow> bool" where
  "user_range_ok buffer len \<longleftrightarrow> \<not> (buffer \<ge> 0x80000000 \<or> buffer + len \<ge> 0x80000000)"

definition k_ioc_get_lock :: "'d platform \<Rightarrow> ('d machine, unit) prog" where
  "k_ioc_get_lock P =
     bnd (spin (\<lambda>s. ioc_lock s \<noteq> 0) (others P)) (\<lambda>_. modify (\<lambda>s. s\<lparr>ioc_lock := 1\<rparr>))"

definition ioc_store :: "'d platform \<Rightarrow> IOC_registers \<Rightarrow> u32 \<Rightarrow> ('d machine, unit) prog" where
  "ioc_store P r v = dev_store P (word_at (seg_ioc_base P) (ioc_reg r)) v"

definition k_ioc_write :: "'d platform \<Rightarrow> u32 \<Rightarrow> u32 \<Rightarrow> u32 \<Rightarrow> ('d machine, u32) prog" where
  "k_ioc_write P lba buffer count =
     bnd (dev_load P (word_at (seg_ioc_base P) (ioc_reg BLOCK_DEVICE_BLOCK_SIZE))) (\<lambda>block_size.
     if \<not> user_range_ok buffer (block_size * count) then ret 1
     else
       bnd (k_ioc_get_lock P) (\<lambda>_.
       bnd (ioc_store P BLOCK_DEVICE_BUFFER buffer) (\<lambda>_.
       bnd (ioc_store P BLOCK_DEVICE_COUNT count) (\<lambda>_.
       bnd (ioc_store P BLOCK_DEVICE_LBA lba) (\<lambda>_.
       bnd (ioc_store P BLOCK_DEVICE_IRQ_ENABLE 1) (\<lambda>_.
       bnd (ioc_store P BLOCK_DEVICE_OP BLOCK_DEVICE_WRITE) (\<lambda>_.
       ret 0)))))))"

definition k_ioc_read :: "'d platform \<Rightarrow> u32 \<Rightarrow> u32 \<Rightarrow> u32 \<Rightarrow> ('d machine, u32) prog" where
  "k_ioc_read P lba buffer count =
     bnd (dev_load P (word_at (seg_ioc_base P) (ioc_reg BLOCK_DEVICE_BLOCK_SIZE))) (\<lambda>block_size.
     if \<not> user_range_ok buffer (block_size * count) then ret 1
     else
       bnd (k_ioc_get_lock P) (\<lambda>_.
       bnd (if NO_HARD_CC P then k_dcache_buf_invalidate buffer (block_size * count) else ret ()) (\<lambda>_.
       bnd (ioc_store P BLOCK_DEVICE_BUFFER buffer) (\<lambda>_.
       bnd (ioc_store P BLOCK_DEVICE_COUNT count) (\<lambda>_.
       bnd (ioc_store P BLOCK_DEVICE_LBA lba) (\<lambda>_.
       bnd (ioc_store P BLOCK_DEVICE_IRQ_ENABLE 1) (\<lambda>_.
       bnd (ioc_store P BLOCK_DEVICE_OP BLOCK_DEVICE_READ) (\<lambda>_.
       ret 0))))))))"

definition k_ioc_completed :: "'d platform \<Rightarrow> ('d machine, u32) prog" where
  "k_ioc_completed P =
     bnd (spin (\<lambda>s. ioc_done s = 0) (others P)) (\<lambda>_.
     bnd (gets (\<lambda>s. if ioc_status s \<noteq> BLOCK_DEVICE_READ_SUCCESS \<and> ioc_status s \<noteq> BLOCK_DEVICE_WRITE_SUCCESS
                    then 1 else 0)) (\<lambda>r.
     bnd (modify (\<lambda>s. s\<lparr>ioc_done := 0\<rparr>)) (\<lambda>_.
     bnd (modify (\<lambda>s. s\<lparr>ioc_lock := 0\<rparr>)) (\<lambda>_.
     ret r))))"

section \<open>Frame buffer\<close>

definition k_fb_sync_write :: "'d platform \<Rightarrow> u32 \<Rightarrow> u32 \<Rightarrow> u32 \<Rightarrow> ('d machine, u32) prog" where
  "k_fb_sync_write P offset buffer len =
     (if \<not> user_range_ok buffer len then ret 1
      else let fb_address = seg_fb_base P + offset
        in bnd (modify (\<lambda>s. s\<lparr>mem := memcpy fb_address buffer len (mem s)\<rparr>)) (\<lambda>_. ret 0))"

definition k_fb_sync_read :: "'d platform \<Rightarrow> u32 \<Rightarrow> u32 \<Rightarrow> u32 \<Rightarrow> ('d machine, u32) prog" where
  "k_fb_sync_read P offset buffer len =
     (if \<not> user_range_ok buffer len then ret 1
      else let fb_address = seg_fb_base P + offset
        in bnd (modify (\<lambda>s. s\<lparr>mem := memcpy buffer fb_address len (mem s)\<rparr>)) (\<lambda>_. ret 0))"

text \<open>The programming of the DMA of processor \<open>proc_id\<close> that \<open>_fb_write\<close> and \<open>_fb_read\<close>
  share: wait until it is free, take it, and write its registers, the length last. The random delay
  between two polls has no effect on the state.\<close>

definition dma_start :: "'d platform \<Rightarrow> u32 \<Rightarrow> u32 \<Rightarrow> u32 \<Rightarrow> u32 \<Rightarrow> ('d machine, u32) prog" where
  "dma_start P proc_id src dst len =
     (let dma = word_at (seg_dma_base P) (proc_id * DMA_SPAN) in
      bnd (aread dma_busy proc_id) (\<lambda>_.
      bnd (spin (\<lambda>s. dma_busy s ! unat proc_id \<noteq> 0) (others P)) (\<lambda>_.
      bnd (awrite dma_busy dma_busy_update proc_id 1) (\<lambda>_.
      bnd (dev_store P (word_at dma DMA_IRQ_DISABLE) 0) (\<lambda>_.
      bnd (dev_store P (word_at dma DMA_SRC) src) (\<lambda>_.
      bnd (dev_store P (word_at dma DMA_DST) dst) (\<lambda>_.
      bnd (dev_store P (word_at dma DMA_LEN) len) (\<lambda>_.
      ret 0))))))))"

definition k_fb_write :: "'d platform \<Rightarrow> u32 \<Rightarrow> u32 \<Rightarrow> u32 \<Rightarrow> ('d machine, u32) prog" where
  "k_fb_write P offset buffer len =
     (if \<not> user_range_ok buffer len then ret 1
      else bnd (gets k_procid) (\<lambda>proc_id.
        dma_start P proc_id buffer (seg_fb_base P + offset) len))"

definition k_fb_read :: "'d platform \<Rightarrow> u32 \<Rightarrow> u32 \<Rightarrow> u32 \<Rightarrow> ('d machine, u32) prog" where
  "k_fb_read P offset buffer len =
     (if \<not> user_range_ok buffer len then ret 1
      else bnd (gets k_procid) (\<lambda>proc_id.
        dma_start P proc_id (seg_fb_base P + offset) buffer len))"

definition k_fb_completed :: "'d platform \<Rightarrow> ('d machine, u32) prog" where
  "k_fb_completed P =
     bnd (gets k_procid) (\<lambda>proc_id.
     bnd (aread dma_busy proc_id) (\<lambda>_.
     bnd (spin (\<lambda>s. dma_busy s ! unat proc_id \<noteq> 0) (others P)) (\<lambda>_.
     bnd (aread dma_status proc_id) (\<lambda>status.
     if status \<noteq> 0 then ret 1 else ret 0))))"

section \<open>The invalidation loop\<close>

lemma dcache_line_size_pow2: "\<exists>k\<le>7. unat (dcache_line_size s) = 2 ^ (k + 1)"
proof -
  define k where "k = unat (drop_bit 10 (cp0_config1 (core s)) AND 0x7)"
  have "k \<le> 7"
    unfolding k_def by (rule word_and_le1 [THEN word_le_nat_alt [THEN iffD1], THEN order_trans]) simp
  then have "(2::nat) ^ k \<le> 2 ^ 7" by (intro power_increasing) auto
  then have small: "(2::nat) ^ (k + 1) < 2 ^ 32" by simp
  have "dcache_line_size s = of_nat (2 ^ (k + 1))"
    by (simp add: dcache_line_size_def k_def push_bit_eq_mult)
  then have "unat (dcache_line_size s) = 2 ^ (k + 1)"
    using unat_of_nat_u32 [OF small] by simp
  with \<open>k \<le> 7\<close> show ?thesis by blast
qed

lemma dcache_line_size_bounds: "2 \<le> unat (dcache_line_size s)" "unat (dcache_line_size s) \<le> 256"
proof -
  obtain k where k: "k \<le> 7" "unat (dcache_line_size s) = 2 ^ (k + 1)"
    using dcache_line_size_pow2 by blast
  have "(2::nat) ^ 1 \<le> 2 ^ (k + 1)" by (rule power_increasing) auto
  with k(2) show "2 \<le> unat (dcache_line_size s)" by simp
  have "(2::nat) ^ (k + 1) \<le> 2 ^ 8" using k(1) by (intro power_increasing) auto
  with k(2) show "unat (dcache_line_size s) \<le> 256" by simp
qed

text \<open>The number of lines the loop visits.\<close>

definition ceil_div :: "nat \<Rightarrow> nat \<Rightarrow> nat" where
  "ceil_div n k = (n + k - 1) div k"

lemma less_ceil_div: "0 < k \<Longrightarrow> q < ceil_div n k \<longleftrightarrow> q * k < n"
proof -
  assume "0 < k"
  then have "q < ceil_div n k \<longleftrightarrow> Suc q * k \<le> n + k - 1"
    unfolding ceil_div_def by (metis Suc_le_eq less_eq_div_iff_mult_less_eq)
  with \<open>0 < k\<close> show ?thesis by auto
qed

lemma invalidate_loop:
  fixes line sz buffer :: u32
  assumes line: "0 < unat line" and fits: "unat sz + unat line \<le> 2 ^ 32"
    and "q \<le> ceil_div (unat sz) (unat line)"
  shows "while_option (\<lambda>(i, acc). i < sz) (\<lambda>(i, acc). (i + line, acc @ [buffer + i]))
      (of_nat (q * unat line), acc @ map (\<lambda>q. buffer + of_nat (q * unat line)) [0..<q])
    = Some (of_nat (ceil_div (unat sz) (unat line) * unat line),
        acc @ map (\<lambda>q. buffer + of_nat (q * unat line)) [0..<ceil_div (unat sz) (unat line)])"
    (is "while_option ?b ?c _ = Some (of_nat (?n * _), _)")
  using assms(3)
proof (induction q rule: inc_induct)
  case base
  have "?n = 0 \<or> (?n - 1) * unat line < unat sz"
    using less_ceil_div [OF line, of "?n - 1" "unat sz"] by auto
  then have "?n * unat line < 2 ^ 32"
    using fits line by (cases ?n) (auto simp: algebra_simps)
  then have "unat (of_nat (?n * unat line) :: u32) = ?n * unat line"
    by (rule unat_of_nat_u32)
  moreover have "\<not> ?n * unat line < unat sz" using less_ceil_div [OF line, of ?n "unat sz"] by simp
  ultimately have "\<not> (of_nat (?n * unat line) :: u32) < sz"
    by (simp only: word_less_nat_alt not_False_eq_True)
  then show ?case by (subst while_option_unfold) simp
next
  case (step q)
  have lt: "q * unat line < unat sz" using step.hyps less_ceil_div [OF line] by blast
  then have "unat (of_nat (q * unat line) :: u32) = q * unat line"
    using unat_less_u32 [of sz] by (intro unat_of_nat_u32) simp
  with lt have "(of_nat (q * unat line) :: u32) < sz" by (simp only: word_less_nat_alt)
  moreover have "of_nat (q * unat line) + line = of_nat (Suc q * unat line)" by simp
  ultimately show ?case
    using step.IH by (subst while_option_unfold) (simp add: add.commute)
qed

text \<open>The addresses the loop invalidates.\<close>

definition line_starts :: "u32 \<Rightarrow> nat \<Rightarrow> nat \<Rightarrow> u32 list" where
  "line_starts buffer sz line = map (\<lambda>q. buffer + of_nat (q * line)) [0..<ceil_div sz line]"

lemma dcache_buf_invalidate_eq:
  assumes "unat sz + 256 \<le> 2 ^ 32"
  shows "k_dcache_buf_invalidate buffer sz s = Ret ()
    (s\<lparr>invalidated := invalidated s @ line_starts buffer (unat sz) (unat (dcache_line_size s))\<rparr>)"
proof -
  note b = dcache_line_size_bounds [of s]
  have "0 < unat (dcache_line_size s)" "unat sz + unat (dcache_line_size s) \<le> 2 ^ 32"
    using b assms by linarith+
  from invalidate_loop [OF this, of 0 buffer "invalidated s"] show ?thesis
    by (simp add: k_dcache_buf_invalidate_def line_starts_def Let_def)
qed

text \<open>Which lines a list of addresses covers, for a buffer that does not wrap around.\<close>

definition same_line :: "nat \<Rightarrow> u32 \<Rightarrow> u32 \<Rightarrow> bool" where
  "same_line line a b \<longleftrightarrow> unat a div line = unat b div line"

lemma line_starts_cover:
  assumes line: "0 < line" and "0 < sz" and fits: "unat buffer + sz + line \<le> 2 ^ 32"
  shows "(\<forall>j < sz. \<exists>a\<in>set (line_starts buffer sz line). same_line line a (buffer + of_nat j))
    \<longleftrightarrow> unat buffer mod line + sz \<le> ceil_div sz line * line"
proof -
  let ?b = "unat buffer" and ?n = "ceil_div sz line"
  have off: "unat (buffer + of_nat k) = ?b + k" if "k < sz + line" for k
    using that fits by (simp add: unat_word_ariths unat_of_nat)
  have start: "q * line < sz" if "q < ?n" for q using that less_ceil_div [OF line] by blast
  have div_eq: "(?b + k) div line = ?b div line + (?b mod line + k) div line" for k
    by (metis add.assoc div_mult_mod_eq div_mult_self3 line not_gr_zero mult.commute)
  have "(\<exists>a\<in>set (line_starts buffer sz line). same_line line a (buffer + of_nat j))
      \<longleftrightarrow> ?b mod line + j < ?n * line" if "j < sz" for j
  proof -
    have "same_line line (buffer + of_nat (q * line)) (buffer + of_nat j)
        \<longleftrightarrow> (?b + q * line) div line = (?b + j) div line" if "q < ?n" for q
      using off [of "q * line"] off [of j] start [OF that] \<open>j < sz\<close> by (simp only: same_line_def)
    then have "(\<exists>a\<in>set (line_starts buffer sz line). same_line line a (buffer + of_nat j))
      \<longleftrightarrow> (\<exists>q<?n. (?b + q * line) div line = (?b + j) div line)"
      unfolding line_starts_def set_map bex_simps set_upt atLeast0LessThan by blast
    also have "\<dots> \<longleftrightarrow> (\<exists>q<?n. q = (?b mod line + j) div line)"
      using line by (simp add: div_eq [of j])
    also have "\<dots> \<longleftrightarrow> ?b mod line + j < ?n * line"
      using line by (simp add: div_less_iff_less_mult)
    finally show ?thesis .
  qed
  then have "(\<forall>j < sz. \<exists>a\<in>set (line_starts buffer sz line). same_line line a (buffer + of_nat j))
      \<longleftrightarrow> (\<forall>j < sz. ?b mod line + j < ?n * line)"
    by simp
  also have "\<dots> \<longleftrightarrow> ?b mod line + (sz - 1) < ?n * line"
    using assms(2) by (metis Suc_pred' add_le_cancel_left diff_Suc_1 diff_less le_less_trans less_Suc_eq_le zero_less_one)
  also have "\<dots> \<longleftrightarrow> ?b mod line + sz \<le> ?n * line" using assms(2) by linarith
  finally show ?thesis .
qed

section \<open>User space checks\<close>

lemma user_range_ok_iff:
  "user_range_ok buffer len \<longleftrightarrow> unat buffer < 2 ^ 31 \<and>
     (unat buffer + unat len < 2 ^ 31 \<or> 2 ^ 32 \<le> unat buffer + unat len)"
proof -
  have "unat (buffer + len) = (unat buffer + unat len) mod 2 ^ 32" by (simp add: unat_word_ariths)
  then have "unat (buffer + len) < 2 ^ 31 \<longleftrightarrow>
      unat buffer + unat len < 2 ^ 31 \<or> 2 ^ 32 \<le> unat buffer + unat len" if "unat buffer < 2 ^ 31"
    using that unat_less_u32 [of len] by (auto simp: mod_if)
  then show ?thesis by (auto simp: user_range_ok_def word_le_nat_alt not_le)
qed

text \<open>A user buffer and a frame buffer area in kernel space are disjoint.\<close>

lemma user_kernel_disjoint:
  assumes "unat usr + n \<le> 2 ^ 31" and "2 ^ 31 \<le> unat kern" and "unat kern + n \<le> 2 ^ 32"
  shows "areas_disjoint kern usr n" and "areas_disjoint usr kern n"
proof -
  have u: "unat (usr + of_nat i) < 2 ^ 31" if "i < n" for i
    using that assms(1) by (simp add: unat_word_ariths unat_of_nat)
  have k: "2 ^ 31 \<le> unat (kern + of_nat i)" if "i < n" for i
    using that assms(2,3) by (simp add: unat_word_ariths unat_of_nat)
  show "areas_disjoint kern usr n" "areas_disjoint usr kern n"
    unfolding areas_disjoint_def using u k by (metis not_le)+
qed

text \<open>The accesses of a block device request, in program order.\<close>

definition ioc_request :: "'d platform \<Rightarrow> u32 \<Rightarrow> u32 \<Rightarrow> u32 \<Rightarrow> u32 \<Rightarrow> bus_event list" where
  "ioc_request P op lba buffer count =
     [Wr (word_at (seg_ioc_base P) (ioc_reg BLOCK_DEVICE_BUFFER)) buffer,
      Wr (word_at (seg_ioc_base P) (ioc_reg BLOCK_DEVICE_COUNT)) count,
      Wr (word_at (seg_ioc_base P) (ioc_reg BLOCK_DEVICE_LBA)) lba,
      Wr (word_at (seg_ioc_base P) (ioc_reg BLOCK_DEVICE_IRQ_ENABLE)) 1,
      Wr (word_at (seg_ioc_base P) (ioc_reg BLOCK_DEVICE_OP)) op]"

text \<open>What the device makes of a list of writes.\<close>

fun apply_writes :: "'d platform \<Rightarrow> bus_event list \<Rightarrow> 'd \<Rightarrow> 'd" where
  "apply_writes P [] d = d"
| "apply_writes P (Wr a v # es) d = apply_writes P es (bus_write P a v d)"
| "apply_writes P (Rd a v # es) d = apply_writes P es d"

text \<open>The block size the device reports, with the access that asks for it.\<close>

definition ioc_block_size :: "'d platform \<Rightarrow> 'd machine \<Rightarrow> u32" where
  "ioc_block_size P s = fst (bus_read P (word_at (seg_ioc_base P) (ioc_reg BLOCK_DEVICE_BLOCK_SIZE)) (dev s))"

definition asked_block_size :: "'d platform \<Rightarrow> 'd machine \<Rightarrow> 'd machine" where
  "asked_block_size P s =
     (let a = word_at (seg_ioc_base P) (ioc_reg BLOCK_DEVICE_BLOCK_SIZE)
      in s\<lparr>dev := snd (bus_read P a (dev s)), trace := trace s @ [Rd a (ioc_block_size P s)]\<rparr>)"

lemma asked_block_size_simps [simp]:
  "ioc_lock (asked_block_size P s) = ioc_lock s" "ioc_done (asked_block_size P s) = ioc_done s"
  "invalidated (asked_block_size P s) = invalidated s" "core (asked_block_size P s) = core s"
  by (simp_all add: asked_block_size_def Let_def)

lemma ioc_get_lock_free: "ioc_lock s = 0 \<Longrightarrow> k_ioc_get_lock P s = Ret () (s\<lparr>ioc_lock := 1\<rparr>)"
  by (simp add: k_ioc_get_lock_def bnd_simps(1) [OF spin_done])

lemma ioc_write_free:
  assumes "ioc_lock s = 0" and "user_range_ok buffer (ioc_block_size P s * count)"
  shows "k_ioc_write P lba buffer count s =
    (let r = asked_block_size P s; es = ioc_request P BLOCK_DEVICE_WRITE lba buffer count
     in Ret 0 (r\<lparr>ioc_lock := 1, dev := apply_writes P es (dev r), trace := trace r @ es\<rparr>))"
  using assms
  by (simp add: k_ioc_write_def ioc_block_size_def asked_block_size_def ioc_store_def ioc_request_def Let_def
      bnd_simps(1) [OF ioc_get_lock_free])

lemma ioc_read_free:
  assumes "ioc_lock s = 0" and "user_range_ok buffer (ioc_block_size P s * count)"
    and "unat (ioc_block_size P s * count) + 256 \<le> 2 ^ 32"
  shows "k_ioc_read P lba buffer count s =
    (let r = asked_block_size P s; es = ioc_request P BLOCK_DEVICE_READ lba buffer count
     in Ret 0 (r\<lparr>ioc_lock := 1, dev := apply_writes P es (dev r), trace := trace r @ es,
          invalidated := invalidated r @ (if NO_HARD_CC P
            then line_starts buffer (unat (ioc_block_size P s * count)) (unat (dcache_line_size s)) else [])\<rparr>))"
proof -
  have "dcache_line_size (asked_block_size P s\<lparr>ioc_lock := 1\<rparr>) = dcache_line_size s"
    by (simp add: dcache_line_size_def)
  then show ?thesis
    using assms
    by (simp add: k_ioc_read_def ioc_block_size_def asked_block_size_def ioc_store_def ioc_request_def Let_def
        bnd_simps(1) [OF ioc_get_lock_free] bnd_simps(1) [OF dcache_buf_invalidate_eq])
qed

section \<open>Properties\<close>

text \<open>C40. \<open>_dcache_buf_invalidate\<close> returns, and it invalidates every cache line of the buffer
  exactly when the offset of the buffer in its first line plus its size fits in the number of lines
  that the size alone needs: always for a buffer that starts on a line boundary, but not for every
  other one, although the function is described as invalidating all the lines of the buffer.\<close>

theorem dcache_invalidate_covers:
  assumes "0 < sz" and "unat buffer + unat sz + 256 \<le> 2 ^ 32"
  shows "\<exists>as. k_dcache_buf_invalidate buffer sz s = Ret () (s\<lparr>invalidated := invalidated s @ as\<rparr>) \<and>
    ((\<forall>j < unat sz. \<exists>a\<in>set as. same_line (unat (dcache_line_size s)) a (buffer + of_nat j)) \<longleftrightarrow>
      unat buffer mod unat (dcache_line_size s) + unat sz
        \<le> ceil_div (unat sz) (unat (dcache_line_size s)) * unat (dcache_line_size s))"
proof -
  note b = dcache_line_size_bounds [of s]
  have "0 < unat (dcache_line_size s)" "0 < unat sz"
    "unat buffer + unat sz + unat (dcache_line_size s) \<le> 2 ^ 32"
    using b assms by (auto simp: word_less_nat_alt)
  note cover = line_starts_cover [OF this]
  from assms(2) have "unat sz + 256 \<le> 2 ^ 32" by simp
  note eq = dcache_buf_invalidate_eq [OF this]
  show ?thesis
    by (intro exI [of _ "line_starts buffer (unat sz) (unat (dcache_line_size s))"] conjI eq cover)
qed

text \<open>A line of 4 bytes and a buffer of 4 bytes that starts in the middle of one: the second line
  is missed.\<close>

theorem dcache_invalidate_covers_witness:
  "\<exists>as. k_dcache_buf_invalidate 0x1002 4 (tp3_start\<lparr>core := (cpu_of 0)\<lparr>cp0_config1 := 0x400\<rparr>\<rparr>)
     = Ret () (tp3_start\<lparr>core := (cpu_of 0)\<lparr>cp0_config1 := 0x400\<rparr>, invalidated := as\<rparr>) \<and>
   \<not> (\<forall>j < unat (4::u32). \<exists>a\<in>set as. same_line 4 a (0x1002 + of_nat j))"
proof -
  let ?s = "tp3_start\<lparr>core := (cpu_of 0)\<lparr>cp0_config1 := 0x400\<rparr>\<rparr>"
  have "dcache_line_size ?s = 4" "invalidated ?s = []"
    by (simp_all add: dcache_line_size_def boot_machine_def push_bit_eq_mult drop_bit_eq_div)
  then show ?thesis
    using dcache_invalidate_covers [of 4 "0x1002" ?s] by (auto simp: ceil_div_def simp del: split_paired_Ex)
qed

text \<open>The user space check of the transfer drivers, on \<open>_fb_sync_read\<close>: the call is refused with
  code 1 and no effect, or performed with code 0. It is performed for every buffer that ends below
  0x80000000, refused for every buffer that starts above it, and refused for a buffer that crosses
  into kernel space unless its end wraps around 32 bits: those are accepted.\<close>

theorem fb_sync_read_check:
  "k_fb_sync_read P offset buffer len s =
    (if unat buffer < 2 ^ 31 \<and> (unat buffer + unat len < 2 ^ 31 \<or> 2 ^ 32 \<le> unat buffer + unat len)
     then Ret 0 (s\<lparr>mem := memcpy buffer (seg_fb_base P + offset) len (mem s)\<rparr>)
     else Ret 1 s)"
  unfolding k_fb_sync_read_def user_range_ok_iff [symmetric] by (simp add: Let_def)

text \<open>The synchronous frame buffer calls are inverse: what \<open>_fb_sync_write\<close> stores from one user
  buffer, \<open>_fb_sync_read\<close> brings back into another, byte for byte and whatever the alignments, both
  calls succeed, and outside the second buffer and the frame buffer area no byte changes.\<close>

theorem fb_sync_roundtrip:
  assumes "unat src + unat len < 2 ^ 31" and "unat dst + unat len < 2 ^ 31"
    and "2 ^ 31 \<le> unat (seg_fb_base P + offset)" and "unat (seg_fb_base P + offset) + unat len \<le> 2 ^ 32"
  shows "\<exists>m. bnd (k_fb_sync_write P offset src len) (\<lambda>r. bnd (k_fb_sync_read P offset dst len)
      (\<lambda>r'. ret (r, r'))) s = Ret (0, 0) (s\<lparr>mem := m\<rparr>) \<and>
    (\<forall>i<unat len. m (dst + of_nat i) = mem s (src + of_nat i)) \<and>
    (\<forall>a. unat len \<le> unat (a - dst) \<longrightarrow> unat len \<le> unat (a - (seg_fb_base P + offset)) \<longrightarrow> m a = mem s a)"
proof -
  let ?fb = "seg_fb_base P + offset" and ?n = "unat len"
  have ok: "user_range_ok src len" "user_range_ok dst len"
    using assms(1,2) by (auto simp: user_range_ok_iff)
  have dis: "areas_disjoint ?fb src ?n" "areas_disjoint dst ?fb ?n"
    using user_kernel_disjoint [of _ ?n ?fb] assms by auto
  define m where "m = blk dst ?fb ?n (blk ?fb src ?n (mem s))"
  have "bnd (k_fb_sync_write P offset src len) (\<lambda>r. bnd (k_fb_sync_read P offset dst len)
      (\<lambda>r'. ret (r, r'))) s = Ret (0, 0) (s\<lparr>mem := m\<rparr>)"
    using ok by (simp add: k_fb_sync_write_def k_fb_sync_read_def bnd_assoc memcpy_blk dis m_def)
  moreover have "m (dst + of_nat i) = mem s (src + of_nat i)" if "i < ?n" for i
    using that unat_less_u32 [of len] by (simp add: m_def blk_def unat_of_nat)
  ultimately show ?thesis by (intro exI [of _ m]) (auto simp: m_def blk_def)
qed

theorem fb_sync_roundtrip_witness:
  "\<exists>m. bnd (k_fb_sync_write tp3_regs 0x10 0x400 9) (\<lambda>r. bnd (k_fb_sync_read tp3_regs 0x10 0x801 9)
      (\<lambda>r'. ret (r, r'))) tp3_start = Ret (0, 0) (tp3_start\<lparr>mem := m\<rparr>) \<and>
    (\<forall>i<unat (9::u32). m (0x801 + of_nat i) = mem tp3_start (0x400 + of_nat i))"
  using fb_sync_roundtrip [of "0x400" 9 "0x801" tp3_regs "0x10" tp3_start]
  by (auto simp: tp3_platform_def)

end
