(* ===== verification/Context.thy ===== *)
theory Context
  imports Drivers
begin

text \<open>
  Task switching: \<open>_ctx_switch\<close> of \<open>giet_2011/sys/ctx_handler.c\<close> and the assembly routine
  \<open>_task_switch\<close> of \<open>giet_2011/sys/giet.s\<close>. A context is a block of 64 words of
  \<open>_task_context_array\<close>; a pointer into that array is its word index. The registers of \<open>core\<close>
  are those at the entry of \<open>_task_switch\<close>.
\<close>

section \<open>Saving and restoring a context\<close>

text \<open>The general registers that \<open>_task_switch\<close> saves at the index of their number: all but
  \<open>$0\<close>, \<open>$26\<close> and \<open>$27\<close>.\<close>

definition saved_gprs :: "nat list" where
  "saved_gprs = [1..<26] @ [28..<32]"

definition save_context :: "nat \<Rightarrow> cpu \<Rightarrow> u32 list \<Rightarrow> u32 list" where
  "save_context base c ctx =
     (fold (\<lambda>k ctx. ctx[base + k := gpr c k]) saved_gprs (ctx[base + 0 := cp0_sr c]))
       [base + 32 := cp0_epc c, base + 33 := cp0_cr c]"

text \<open>Restoring from the context at word index \<open>base\<close> and address \<open>a\<close>: \<open>$27\<close> holds the address
  throughout, and \<open>$26\<close> is left with the last word that went through it, CR.\<close>

definition restore_context :: "u32 \<Rightarrow> nat \<Rightarrow> u32 list \<Rightarrow> cpu \<Rightarrow> cpu" where
  "restore_context a base ctx c =
     c\<lparr>cp0_sr := ctx ! (base + 0),
       gpr := (fold (\<lambda>k g. g(k := ctx ! (base + k))) saved_gprs ((gpr c)(27 := a)))(26 := ctx ! (base + 33)),
       cp0_epc := ctx ! (base + 32), cp0_cr := ctx ! (base + 33)\<rparr>"

text \<open>The address of the word with index \<open>i\<close> of \<open>_task_context_array\<close>.\<close>

definition ctx_address :: "'d platform \<Rightarrow> u32 \<Rightarrow> u32" where
  "ctx_address P i = word_at (label P ''_task_context_array'') i"

definition k_task_switch :: "'d platform \<Rightarrow> u32 \<Rightarrow> u32 \<Rightarrow> ('d machine, unit) prog" where
  "k_task_switch P curr_ctx next_ctx = (\<lambda>s.
     if unat curr_ctx + 33 < length (task_context_array s) \<and> unat next_ctx + 33 < length (task_context_array s)
     then let ctx = save_context (unat curr_ctx) (core s) (task_context_array s)
          in Ret () (s\<lparr>task_context_array := ctx, core := restore_context (ctx_address P next_ctx) (unat next_ctx) ctx (core s)\<rparr>)
     else Ub s)"

definition ctx_index :: "'d platform \<Rightarrow> u32 \<Rightarrow> u32 \<Rightarrow> u32" where
  "ctx_index P proc_id task = (proc_id * NB_MAXTASKS P + task) * TASK_CTXT_SIZE"

definition next_task :: "u8 \<Rightarrow> u8 \<Rightarrow> u8" where
  "next_task curr_task n = of_nat ((unat curr_task + 1) mod unat n)"

definition k_ctx_switch :: "'d platform \<Rightarrow> ('d machine, unit) prog" where
  "k_ctx_switch P =
     bnd (gets k_procid) (\<lambda>proc_id.
     bnd (aread task_number_array proc_id) (\<lambda>n.
     if n \<le> 1 then ret ()
     else
       bnd (aread current_task_array proc_id) (\<lambda>curr_task_index.
       let next_task_index = next_task curr_task_index n in
       bnd (awrite current_task_array current_task_array_update proc_id next_task_index) (\<lambda>_.
       k_task_switch P (ctx_index P proc_id (ucast curr_task_index))
                       (ctx_index P proc_id (ucast next_task_index))))))"

section \<open>Contexts\<close>

lemma set_saved_gprs: "k \<in> set saved_gprs \<longleftrightarrow> (1 \<le> k \<and> k < 26) \<or> (28 \<le> k \<and> k < 32)"
  by (auto simp: saved_gprs_def)

lemma fold_update_length: "length (fold (\<lambda>k ctx. ctx[base + k := f k]) ks ctx) = length ctx"
  by (induction ks arbitrary: ctx) auto

lemma fold_update_nth:
  assumes "i < length ctx"
  shows "fold (\<lambda>k ctx. ctx[base + k := f k]) ks ctx ! i
    = (if base \<le> i \<and> i - base \<in> set ks then f (i - base) else ctx ! i)"
  using assms
proof (induction ks arbitrary: ctx)
  case Nil
  then show ?case by simp
next
  case (Cons k ks)
  then show ?case by (auto simp: nth_list_update)
qed

lemma fold_fun_upd:
  "fold (\<lambda>k g. g(k := f k)) ks g = (\<lambda>i. if i \<in> set ks then f i else g i)"
  by (induction ks arbitrary: g) auto

lemma length_save_context [simp]: "length (save_context base c ctx) = length ctx"
  by (simp add: save_context_def fold_update_length)

text \<open>What the saved context holds, slot by slot; every slot outside it is unchanged, and so is
  slot 34, which holds the terminal of the task.\<close>

lemma nth_save_context:
  assumes "i < length ctx"
  shows "save_context base c ctx ! i =
    (if i = base + 33 then cp0_cr c else if i = base + 32 then cp0_epc c
     else if base \<le> i \<and> i - base \<in> set saved_gprs then gpr c (i - base)
     else if i = base then cp0_sr c else ctx ! i)"
  using assms by (simp add: save_context_def fold_update_nth fold_update_length nth_list_update)

lemma save_context_other:
  assumes "i < length ctx" and "i < base \<or> base + 33 < i"
  shows "save_context base c ctx ! i = ctx ! i"
  using assms by (auto simp: nth_save_context set_saved_gprs)

text \<open>The part of the processor state that belongs to the task.\<close>

definition same_context :: "cpu \<Rightarrow> cpu \<Rightarrow> bool" where
  "same_context c c' \<longleftrightarrow> (\<forall>k\<in>set saved_gprs. gpr c k = gpr c' k) \<and> cp0_sr c = cp0_sr c'
     \<and> cp0_epc c = cp0_epc c' \<and> cp0_cr c = cp0_cr c'"

text \<open>The context at \<open>base\<close> holds the registers of \<open>c\<close>.\<close>

definition holds_context :: "u32 list \<Rightarrow> nat \<Rightarrow> cpu \<Rightarrow> bool" where
  "holds_context ctx base c \<longleftrightarrow> ctx ! base = cp0_sr c \<and> (\<forall>k\<in>set saved_gprs. ctx ! (base + k) = gpr c k)
     \<and> ctx ! (base + 32) = cp0_epc c \<and> ctx ! (base + 33) = cp0_cr c"

lemma holds_save_context:
  assumes "base + 33 < length ctx"
  shows "holds_context (save_context base c ctx) base c"
  using assms by (auto simp: holds_context_def nth_save_context set_saved_gprs)

lemma restore_holds: "holds_context ctx base c \<Longrightarrow> same_context (restore_context a base ctx c') c"
  by (auto simp: holds_context_def same_context_def restore_context_def fold_fun_upd set_saved_gprs)

text \<open>What a switch leaves alone in the processor: all but SR, EPC, CR, the saved registers and the two
  system registers.\<close>

lemma restore_context_frame:
  "restore_context a base ctx c = c\<lparr>gpr := gpr (restore_context a base ctx c),
     cp0_sr := cp0_sr (restore_context a base ctx c), cp0_epc := cp0_epc (restore_context a base ctx c),
     cp0_cr := cp0_cr (restore_context a base ctx c)\<rparr>"
  "k \<notin> set saved_gprs \<union> {26, 27} \<Longrightarrow> gpr (restore_context a base ctx c) k = gpr c k"
  "gpr (restore_context a base ctx c) 26 = ctx ! (base + 33)" "gpr (restore_context a base ctx c) 27 = a"
  by (auto simp: restore_context_def fold_fun_upd set_saved_gprs)

lemma holds_context_other:
  assumes "holds_context ctx base c" and "base + 33 < length ctx"
    and "base + 63 < base' \<or> base' + 63 < base"
  shows "holds_context (save_context base' c' ctx) base c"
proof -
  have "save_context base' c' ctx ! (base + k) = ctx ! (base + k)" if "k \<le> 33" for k
    using assms(2,3) that by (intro save_context_other) auto
  from this [of 0] this [of 32] this [of 33] this assms(1) show ?thesis
    by (auto simp: holds_context_def set_saved_gprs)
qed

section \<open>The scheduler\<close>

text \<open>The number of tasks of the running processor, and the condition on the task tables under
  which a switch is meaningful: a processor of the platform with between one and
  \<open>NB_MAXTASKS\<close> tasks, one of which is current.\<close>

definition task_number :: "'d machine \<Rightarrow> nat" where
  "task_number s = unat (task_number_array s ! unat (k_procid s))"

definition current_index :: "'d machine \<Rightarrow> nat" where
  "current_index s = unat (current_task_array s ! unat (k_procid s))"

definition sched_ok :: "'d platform \<Rightarrow> 'd machine \<Rightarrow> bool" where
  "sched_ok P s \<longleftrightarrow> config_ok P \<and> arrays_ok P s \<and> k_procid s < NB_PROCS P \<and>
     current_index s < task_number s \<and> task_number s \<le> unat (NB_MAXTASKS P)"

text \<open>The word index of the context of task number \<open>t\<close> of the running processor.\<close>

definition ctx_base :: "'d platform \<Rightarrow> 'd machine \<Rightarrow> nat \<Rightarrow> nat" where
  "ctx_base P s t = (unat (k_procid s) * unat (NB_MAXTASKS P) + t) * 64"

lemma unat_ctx_index:
  assumes "sched_ok P s" and "unat t < task_number s"
  shows "unat (ctx_index P (k_procid s) (ucast (t :: u8))) = ctx_base P s (unat t)"
    and "ctx_base P s (unat t) + 63 < length (task_context_array s)"
proof -
  have t: "unat (ucast t :: u32) = unat t" by (rule unat_ucast_u8)
  with assms have task: "(ucast t :: u32) < NB_MAXTASKS P" and p: "k_procid s < NB_PROCS P" and c: "config_ok P"
    by (auto simp: sched_ok_def word_less_nat_alt)
  show "unat (ctx_index P (k_procid s) (ucast t)) = ctx_base P s (unat t)"
    using unat_ctx_slot(1) [OF c p task, of 0] t by (simp add: ctx_index_def ctx_base_def)
  show "ctx_base P s (unat t) + 63 < length (task_context_array s)"
    using unat_ctx_slot(2) [OF c p task, of 63] t assms(1)
    by (simp add: sched_ok_def arrays_ok_def ctx_base_def)
qed

lemma ctx_base_apart: "t \<noteq> u \<Longrightarrow> ctx_base P s t + 63 < ctx_base P s u \<or> ctx_base P s u + 63 < ctx_base P s t"
  unfolding ctx_base_def by auto

lemma unat_next_task: "0 < unat n \<Longrightarrow> unat (next_task c n) = (unat c + 1) mod unat n"
proof -
  assume "0 < unat n"
  then have "(unat c + 1) mod unat n < 2 ^ 8"
    using less_trans [OF mod_less_divisor unat_less_u8] by simp
  then show ?thesis by (simp add: next_task_def unat_of_nat)
qed

text \<open>The state after a switch: the current task is the next one in the round, the context of the
  old task holds the registers, and the registers are those of the next context.\<close>

definition switched :: "'d platform \<Rightarrow> 'd machine \<Rightarrow> 'd machine" where
  "switched P s =
     (let p = unat (k_procid s); nxt = (current_index s + 1) mod task_number s;
          ctx = save_context (ctx_base P s (current_index s)) (core s) (task_context_array s)
      in s\<lparr>current_task_array := (current_task_array s)[p := of_nat nxt], task_context_array := ctx,
           core := restore_context (ctx_address P (of_nat (ctx_base P s nxt))) (ctx_base P s nxt) ctx (core s)\<rparr>)"

lemma ctx_switch_eq:
  assumes "sched_ok P s"
  shows "k_ctx_switch P s = (if task_number s \<le> 1 then Ret () s else Ret () (switched P s))"
proof -
  let ?p = "unat (k_procid s)"
  let ?n = "task_number_array s ! ?p" and ?c = "current_task_array s ! ?p"
  from assms have p: "?p < length (task_number_array s)" "?p < length (current_task_array s)"
    by (auto simp: sched_ok_def arrays_ok_def word_less_nat_alt)
  have le1: "?n \<le> 1 \<longleftrightarrow> task_number s \<le> 1"
    by (simp add: task_number_def word_le_nat_alt)
  show ?thesis
  proof (cases "task_number s \<le> 1")
    case True
    with le1 p show ?thesis by (simp add: k_ctx_switch_def bnd_aread)
  next
    case False
    then have n: "0 < unat ?n" by (simp add: task_number_def)
    let ?nxt = "next_task ?c ?n"
    have nxt: "unat ?nxt = (current_index s + 1) mod task_number s"
      using unat_next_task [OF n] by (simp add: current_index_def task_number_def)
    then have nxt': "?nxt = of_nat ((current_index s + 1) mod task_number s)"
      by (metis of_nat_unat)
    with nxt have idx: "unat (of_nat (Suc (current_index s) mod task_number s) :: u8)
        = Suc (current_index s) mod task_number s"
      by simp
    have in_n: "unat ?c < task_number s" "unat ?nxt < task_number s"
      using assms nxt False by (auto simp: sched_ok_def current_index_def)
    note c = unat_ctx_index [OF assms in_n(1)] and x = unat_ctx_index [OF assms in_n(2)]
    have addr: "ctx_index P (k_procid s) (ucast ?nxt) = of_nat (ctx_base P s (unat ?nxt))"
      using x(1) by (metis of_nat_unat)
    from False le1 have "\<not> ?n \<le> 1" by simp
    with p c x addr show ?thesis
      using False
      by (simp add: k_ctx_switch_def bnd_aread bnd_awrite k_task_switch_def Let_def switched_def
          nxt' idx current_index_def [symmetric])
  qed
qed

lemma switched_simps [simp]:
  "k_procid (switched P s) = k_procid s"
  "task_number_array (switched P s) = task_number_array s"
  "length (task_context_array (switched P s)) = length (task_context_array s)"
  "length (current_task_array (switched P s)) = length (current_task_array s)"
  "task_number (switched P s) = task_number s"
  "arrays_ok P (switched P s) = arrays_ok P s"
  "ctx_base P (switched P s) t = ctx_base P s t"
  by (simp_all add: switched_def Let_def k_procid_def restore_context_def task_number_def
      arrays_ok_def ctx_base_def)

lemma current_index_switched:
  assumes "sched_ok P s"
  shows "current_index (switched P s) = (current_index s + 1) mod task_number s"
proof -
  from assms have p: "unat (k_procid s) < length (current_task_array s)"
    by (auto simp: sched_ok_def arrays_ok_def word_less_nat_alt)
  have "0 < task_number s" using assms by (auto simp: sched_ok_def)
  then have "(current_index s + 1) mod task_number s < 256"
    using less_trans [OF mod_less_divisor unat_less_u8] by (simp add: task_number_def)
  then have "unat (of_nat ((current_index s + 1) mod task_number s) :: u8)
      = (current_index s + 1) mod task_number s"
    by (simp add: unat_of_nat)
  moreover have "k_procid (switched P s) = k_procid s" by simp
  ultimately show ?thesis
    using p by (simp add: current_index_def [of "switched P s"]) (simp add: switched_def Let_def)
qed

lemma sched_ok_switched: "sched_ok P s \<Longrightarrow> sched_ok P (switched P s)"
  by (auto simp: sched_ok_def current_index_switched)

text \<open>Contexts of other tasks survive a switch.\<close>

lemma holds_context_switched:
  assumes "sched_ok P s" and "holds_context (task_context_array s) (ctx_base P s c) r"
    and "c \<noteq> current_index s" and "c < task_number s"
  shows "holds_context (task_context_array (switched P s)) (ctx_base P s c) r"
proof -
  have "c < 256" using assms(4) unat_less_u8 by (auto simp: task_number_def intro: less_trans)
  then have "unat (of_nat c :: u8) = c" by (simp add: unat_of_nat)
  then have "ctx_base P s c + 33 < length (task_context_array s)"
    using unat_ctx_index(2) [OF assms(1), of "of_nat c"] assms(4) by simp
  from holds_context_other [OF assms(2) this ctx_base_apart [OF assms(3)]] show ?thesis
    by (simp add: switched_def Let_def)
qed

lemma current_context_bound:
  assumes "sched_ok P s"
  shows "ctx_base P s (current_index s) + 63 < length (task_context_array s)"
  using unat_ctx_index(2) [OF assms, of "current_task_array s ! unat (k_procid s)"] assms
  by (simp add: sched_ok_def current_index_def)

lemma switched_saves:
  assumes "sched_ok P s"
  shows "holds_context (task_context_array (switched P s)) (ctx_base P s (current_index s)) (core s)"
  using current_context_bound [OF assms] by (auto simp: switched_def Let_def intro: holds_save_context)

lemma switched_restores:
  assumes "sched_ok P s" and "holds_context (task_context_array s) (ctx_base P s c) r"
    and "c = (current_index s + 1) mod task_number s" and "c \<noteq> current_index s"
  shows "same_context (core (switched P s)) r"
proof -
  have "c < task_number s" using assms(1,3) by (auto simp: sched_ok_def)
  with holds_context_switched [OF assms(1,2,4)] assms(3) restore_holds show ?thesis
    by (auto simp: switched_def Let_def)
qed

lemma mod_round:
  fixes c i n :: nat
  assumes "c < n" and "0 < i" and "i < n"
  shows "(c + i) mod n \<noteq> c"
  using assms by (cases "c + i < n") (auto simp: mod_if)

text \<open>The registers after a switch are those of the next context, and the rest of the machine is
  unchanged.\<close>

lemma switched_core:
  assumes "sched_ok P s" and "\<not> task_number s \<le> 1"
  shows "holds_context (task_context_array s) (ctx_base P s ((current_index s + 1) mod task_number s)) (core (switched P s))"
    and "gpr (core (switched P s)) 26 = cp0_cr (core (switched P s))"
    and "gpr (core (switched P s)) 27 = ctx_address P (of_nat (ctx_base P s ((current_index s + 1) mod task_number s)))"
proof -
  let ?n = "(current_index s + 1) mod task_number s"
  let ?b = "ctx_base P s ?n" and ?c = "ctx_base P s (current_index s)"
  have core: "core (switched P s) = restore_context (ctx_address P (of_nat ?b)) ?b (task_context_array (switched P s)) (core s)"
    by (simp add: switched_def Let_def)
  have cur: "current_index s < task_number s" using assms(1) by (simp add: sched_ok_def)
  have nxt: "?n \<noteq> current_index s" "?n < task_number s"
    using cur assms(2) mod_round [of "current_index s" "task_number s" 1] by simp_all
  have "unat (of_nat ?n :: u8) = ?n"
    using nxt(2) unat_less_u8 [of "task_number_array s ! unat (k_procid s)"] by (simp add: task_number_def unat_of_nat)
  then have len: "?b + 63 < length (task_context_array s)"
    using unat_ctx_index(2) [OF assms(1), of "of_nat ?n"] nxt(2) by simp
  have same: "task_context_array (switched P s) ! (?b + k) = task_context_array s ! (?b + k)" if "k \<le> 33" for k
    using that len ctx_base_apart [OF nxt(1), of P s]
    by (auto simp: switched_def Let_def intro!: save_context_other)
  from same [of 0] same [of 32] same [of 33] same
  show "holds_context (task_context_array s) ?b (core (switched P s))"
    by (auto simp: holds_context_def core restore_context_def fold_fun_upd set_saved_gprs)
  show "gpr (core (switched P s)) 26 = cp0_cr (core (switched P s))"
    "gpr (core (switched P s)) 27 = ctx_address P (of_nat ?b)"
    by (simp_all add: core restore_context_frame(3,4)) (simp add: restore_context_def)
qed

lemma switched_frame:
  "\<forall>k. k \<notin> set saved_gprs \<union> {26, 27} \<longrightarrow> gpr (core (switched P s)) k = gpr (core s) k"
  "core (switched P s) = (core s)\<lparr>gpr := gpr (core (switched P s)), cp0_sr := cp0_sr (core (switched P s)),
     cp0_epc := cp0_epc (core (switched P s)), cp0_cr := cp0_cr (core (switched P s))\<rparr>"
  "switched P s = s\<lparr>core := core (switched P s), current_task_array := current_task_array (switched P s),
     task_context_array := task_context_array (switched P s)\<rparr>"
proof -
  show "\<forall>k. k \<notin> set saved_gprs \<union> {26, 27} \<longrightarrow> gpr (core (switched P s)) k = gpr (core s) k"
    by (simp add: switched_def Let_def restore_context_frame(2))
  show "core (switched P s) = (core s)\<lparr>gpr := gpr (core (switched P s)), cp0_sr := cp0_sr (core (switched P s)),
     cp0_epc := cp0_epc (core (switched P s)), cp0_cr := cp0_cr (core (switched P s))\<rparr>"
    by (simp add: switched_def Let_def restore_context_def)
  show "switched P s = s\<lparr>core := core (switched P s), current_task_array := current_task_array (switched P s),
     task_context_array := task_context_array (switched P s)\<rparr>"
    by (simp add: switched_def Let_def)
qed

section \<open>A round of the scheduler\<close>

text \<open>What a task may do while it runs, system calls included: anything that leaves the processor
  identifier and the task tables alone.\<close>

definition keeps_tasks :: "'d platform \<Rightarrow> ('d machine \<Rightarrow> 'd machine) \<Rightarrow> bool" where
  "keeps_tasks P f \<longleftrightarrow> (\<forall>s. cp0_procid (core (f s)) = cp0_procid (core s) \<and>
     task_context_array (f s) = task_context_array s \<and>
     current_task_array (f s) = current_task_array s \<and>
     task_number_array (f s) = task_number_array s \<and> (arrays_ok P s \<longrightarrow> arrays_ok P (f s)))"

text \<open>Switch, let the elected task run, switch again, \<dots>: one switch more than there are runs.\<close>

fun run_round :: "'d platform \<Rightarrow> ('d machine \<Rightarrow> 'd machine) list \<Rightarrow> ('d machine, unit) prog" where
  "run_round P [] = k_ctx_switch P"
| "run_round P (f # fs) = bnd (k_ctx_switch P) (\<lambda>_ t. run_round P fs (f t))"

lemma keeps_tasks_simps:
  assumes "keeps_tasks P f"
  shows "k_procid (f s) = k_procid s" "task_context_array (f s) = task_context_array s"
    "current_index (f s) = current_index s" "task_number (f s) = task_number s"
    "ctx_base P (f s) c = ctx_base P s c" "sched_ok P s \<Longrightarrow> sched_ok P (f s)"
  using assms
  by (auto simp: keeps_tasks_def k_procid_def current_index_def task_number_def ctx_base_def sched_ok_def)

lemma run_round_from:
  assumes "sched_ok P u" and "task_number u = n" and "current_index u = (c + i) mod n"
    and "c < n" and "0 < i" and "i + length fs + 1 = n" and "\<forall>f\<in>set fs. keeps_tasks P f"
    and "holds_context (task_context_array u) (ctx_base P u c) r"
  shows "\<exists>t. run_round P fs u = Ret () t \<and> current_index t = c \<and> same_context (core t) r"
  using assms
proof (induction fs arbitrary: i u)
  case Nil
  then have away: "c \<noteq> current_index u" using mod_round [of c n i] by auto
  have home: "(current_index u + 1) mod task_number u = c"
  proof -
    have "(current_index u + 1) mod n = (c + (i + 1)) mod n"
      using Nil.prems(3) by (simp add: mod_Suc_eq)
    also have "\<dots> = (c + n) mod n" using Nil.prems(6) by simp
    finally show ?thesis using Nil.prems(2,4) by simp
  qed
  have "current_index (switched P u) = c"
    using current_index_switched [OF Nil.prems(1)] home by simp
  moreover have "same_context (core (switched P u)) r"
    by (rule switched_restores [OF Nil.prems(1,8) home [symmetric] away])
  ultimately show ?case
    using Nil.prems(2,5,6) ctx_switch_eq [OF Nil.prems(1)] by simp
next
  case (Cons f fs)
  let ?v = "f (switched P u)"
  from Cons.prems have f: "keeps_tasks P f" by simp
  note ks = keeps_tasks_simps [OF f]
  from Cons.prems have away: "c \<noteq> current_index u" using mod_round [of c n i] by auto
  have "current_index (switched P u) = (c + Suc i) mod n"
    using current_index_switched [OF Cons.prems(1)] Cons.prems(2,3) by (simp add: mod_Suc_eq)
  moreover have "holds_context (task_context_array ?v) (ctx_base P ?v c) r"
    using holds_context_switched [OF Cons.prems(1,8) away] Cons.prems(2,4) by (simp add: ks)
  ultimately have "\<exists>t. run_round P fs ?v = Ret () t \<and> current_index t = c \<and> same_context (core t) r"
    using Cons.prems sched_ok_switched [OF Cons.prems(1)]
    by (intro Cons.IH [of _ "Suc i"]) (auto simp: ks)
  moreover have "run_round P (f # fs) u = run_round P fs ?v"
    using Cons.prems(2,5,6) ctx_switch_eq [OF Cons.prems(1)]
    by (simp add: bnd_simps(1) [where m = "k_ctx_switch P"])
  ultimately show ?case by simp
qed

section \<open>Properties\<close>

text \<open>C23. One context switch: with a single task nothing changes. Otherwise the next task in round
  robin order becomes current on this processor only; the registers of the old task are saved in
  its context; the processor holds the registers that the context of the next task held before the
  switch (general registers, SR, EPC and CR), with the address of that context in \<open>$27\<close> and CR in
  \<open>$26\<close>; every word outside the saved part of the old context, the terminal of each task (slot 34)
  and the contexts of the other tasks included, keeps its value; no other register of the processor
  and nothing else of the machine changes; and the tables of the scheduler stay well-formed.\<close>

theorem ctx_switch_correct:
  assumes "sched_ok P s"
  shows "\<exists>t. k_ctx_switch P s = Ret () t \<and> sched_ok P t \<and>
     (if task_number s \<le> 1 then t = s else
       current_index t = (current_index s + 1) mod task_number s \<and>
       (\<forall>q. q \<noteq> unat (k_procid s) \<longrightarrow> current_task_array t ! q = current_task_array s ! q) \<and>
       holds_context (task_context_array t) (ctx_base P s (current_index s)) (core s) \<and>
       (\<forall>i<length (task_context_array s).
          i < ctx_base P s (current_index s) \<or> ctx_base P s (current_index s) + 33 < i \<longrightarrow>
          task_context_array t ! i = task_context_array s ! i) \<and>
       holds_context (task_context_array s) (ctx_base P s (current_index t)) (core t) \<and>
       gpr (core t) 26 = cp0_cr (core t) \<and>
       gpr (core t) 27 = ctx_address P (of_nat (ctx_base P s (current_index t))) \<and>
       (\<forall>k. k \<notin> set saved_gprs \<union> {26, 27} \<longrightarrow> gpr (core t) k = gpr (core s) k) \<and>
       core t = (core s)\<lparr>gpr := gpr (core t), cp0_sr := cp0_sr (core t), cp0_epc := cp0_epc (core t),
         cp0_cr := cp0_cr (core t)\<rparr> \<and>
       t = s\<lparr>core := core t, current_task_array := current_task_array t,
         task_context_array := task_context_array t\<rparr>)"
proof (cases "task_number s \<le> 1")
  case True
  then show ?thesis using assms ctx_switch_eq [OF assms] by simp
next
  case False
  let ?t = "switched P s"
  have upd: "\<forall>q. q \<noteq> unat (k_procid s) \<longrightarrow> current_task_array ?t ! q = current_task_array s ! q"
    "\<forall>i<length (task_context_array s).
       i < ctx_base P s (current_index s) \<or> ctx_base P s (current_index s) + 33 < i \<longrightarrow>
       task_context_array ?t ! i = task_context_array s ! i"
    by (auto simp: switched_def Let_def save_context_other)
  show ?thesis
    using False ctx_switch_eq [OF assms] upd switched_core [OF assms False] switched_frame [of P s]
      sched_ok_switched [OF assms] current_index_switched [OF assms] switched_saves [OF assms]
    by (intro exI [of _ ?t]) simp
qed

text \<open>C5. A task gets its processor back unharmed: after a full round (as many switches as the
  processor has tasks, while the other tasks run arbitrary code that respects the task tables), the
  same task is current again with every register it had: general registers, SR, EPC and CR.\<close>

theorem scheduler_round_trip:
  assumes "sched_ok P s" and "1 < task_number s" and "length fs + 1 = task_number s"
    and "\<forall>f\<in>set fs. keeps_tasks P f"
  shows "\<exists>t. run_round P fs s = Ret () t \<and> current_index t = current_index s \<and>
    same_context (core t) (core s)"
proof -
  from assms(2,3) obtain f gs where fs: "fs = f # gs" by (cases fs) auto
  let ?u = "f (switched P s)" and ?n = "task_number s"
  from assms(4) fs have f: "keeps_tasks P f" by simp
  note ks = keeps_tasks_simps [OF f]
  have ok: "sched_ok P ?u" by (rule ks(6) [OF sched_ok_switched [OF assms(1)]])
  have "current_index s < task_number s" using assms(1) by (simp add: sched_ok_def)
  then have "\<exists>t. run_round P gs ?u = Ret () t \<and> current_index t = current_index s \<and> same_context (core t) (core s)"
    using assms fs switched_saves [OF assms(1)]
    by (intro run_round_from [OF ok, of ?n _ 1]) (auto simp: ks current_index_switched)
  moreover have "run_round P fs s = run_round P gs ?u"
    using fs assms(2) ctx_switch_eq [OF assms(1)]
    by (simp add: bnd_simps(1) [where m = "k_ctx_switch P"])
  ultimately show ?thesis by simp
qed

text \<open>A processor with three tasks, for the examples.\<close>

definition three_tasks :: "(u32 \<Rightarrow> u32) machine" where
  "three_tasks = (smp_start 0)\<lparr>task_number_array := [3, 1, 1, 1]\<rparr>"

lemma sched_ok_three_tasks: "sched_ok smp_regs three_tasks" "task_number three_tasks = 3"
proof -
  have "arrays_ok smp_regs three_tasks"
    using arrays_ok_boot [of smp_regs "cpu_of 0" "\<lambda>_. 0" "\<lambda>_. 0"]
    by (simp add: arrays_ok_def three_tasks_def smp_platform_def tp3_platform_def)
  then show "sched_ok smp_regs three_tasks" "task_number three_tasks = 3"
    using config_ok_smp
    by (simp_all add: sched_ok_def three_tasks_def k_procid_def boot_machine_def cpu_of_def
        current_index_def task_number_def smp_platform_def tp3_platform_def)
qed

theorem ctx_switch_correct_witness:
  "\<exists>t. k_ctx_switch smp_regs three_tasks = Ret () t \<and> sched_ok smp_regs t \<and>
     current_index t = (current_index three_tasks + 1) mod 3"
  using ctx_switch_correct [OF sched_ok_three_tasks(1)] sched_ok_three_tasks(2) by auto

theorem scheduler_round_trip_witness:
  "\<exists>t. run_round smp_regs [\<lambda>s. s\<lparr>core := (core s)\<lparr>gpr := (\<lambda>_. 7)\<rparr>\<rparr>, id] three_tasks = Ret () t \<and>
     current_index t = current_index three_tasks \<and> same_context (core t) (core three_tasks)"
proof -
  have "keeps_tasks smp_regs (\<lambda>s. s\<lparr>core := (core s)\<lparr>gpr := (\<lambda>_. 7)\<rparr>\<rparr>)" "keeps_tasks smp_regs id"
    by (simp_all add: keeps_tasks_def arrays_ok_def)
  then show ?thesis
    using sched_ok_three_tasks by (intro scheduler_round_trip) auto
qed

end
