(* ===== verification/Irq.thy ===== *)
theory Irq
  imports Block Context
begin

text \<open>
  The interrupt service routines of \<open>giet_2011/sys/irq_handler.c\<close> and \<open>_int_demux\<close>, which asks the
  interrupt controller for the active interrupt and calls the routine installed in
  \<open>_interrupt_vector\<close>. The properties pair each routine with the driver call that waits for it.
\<close>

section \<open>The service routines\<close>

definition k_isr_default :: "'d platform \<Rightarrow> ('d machine, unit) prog" where
  "k_isr_default P =
     bnd (k_putk P (newline # newline # ascii ''!!! Default ISR !!!'' @ [newline])) (\<lambda>_. ret ())"

definition k_isr_dma :: "'d platform \<Rightarrow> ('d machine, unit) prog" where
  "k_isr_dma P =
     bnd (gets k_procid) (\<lambda>proc_id.
     let dma_address = word_at (seg_dma_base P) (proc_id * DMA_SPAN) in
     bnd (dev_load P (word_at dma_address DMA_LEN)) (\<lambda>status.
     bnd (awrite dma_status dma_status_update proc_id status) (\<lambda>_.
     bnd (awrite dma_busy dma_busy_update proc_id 0) (\<lambda>_.
     dev_store P (word_at dma_address DMA_RESET) 0))))"

definition k_isr_ioc :: "'d platform \<Rightarrow> ('d machine, unit) prog" where
  "k_isr_ioc P =
     bnd (dev_load P (word_at (seg_ioc_base P) (ioc_reg BLOCK_DEVICE_STATUS))) (\<lambda>status.
     bnd (modify (\<lambda>s. s\<lparr>ioc_status := ucast status\<rparr>)) (\<lambda>_.
     modify (\<lambda>s. s\<lparr>ioc_done := 1\<rparr>)))"

text \<open>The buffer of \<open>_isr_timer\<close> is a literal of ten spaces, all of which \<open>_itoa_dec\<close> overwrites.\<close>

definition k_isr_timer :: "'d platform \<Rightarrow> ('d machine, unit) prog" where
  "k_isr_timer P =
     bnd (gets k_procid) (\<lambda>proc_id.
     let timer_address = word_at (seg_timer_base P) (proc_id * TIMER_SPAN) in
     bnd (dev_store P (word_at timer_address TIMER_RESETIRQ) 0) (\<lambda>_.
     bnd (k_putk P (newline # newline # ascii ''!!! Interrupt timer received at cycle: '')) (\<lambda>_.
     bnd (gets k_proctime) (\<lambda>date.
     bnd (k_putk P (k_itoa_dec date (replicate 10 0x20 @ [0]))) (\<lambda>_.
     bnd (k_putk P [newline, newline]) (\<lambda>_. ret ()))))))"

definition k_isr_tty_get_indexed :: "'d platform \<Rightarrow> u32 \<Rightarrow> ('d machine, unit) prog" where
  "k_isr_tty_get_indexed P task_id =
     bnd (gets k_procid) (\<lambda>proc_id.
     let tty_address = word_at (word_at (seg_tty_base P) (proc_id * NB_MAXTASKS P * TTY_SPAN)) (task_id * TTY_SPAN);
         tty_id = proc_id * NB_MAXTASKS P + task_id in
     bnd (dev_load P (word_at tty_address TTY_READ)) (\<lambda>c.
     bnd (awrite tty_get_buf tty_get_buf_update tty_id (ucast c)) (\<lambda>_.
     awrite tty_get_full tty_get_full_update tty_id 1)))"

definition k_isr_switch :: "'d platform \<Rightarrow> ('d machine, unit) prog" where
  "k_isr_switch P =
     bnd (gets k_procid) (\<lambda>proc_id.
     let timer_address = word_at (seg_timer_base P) (proc_id * TIMER_SPAN) in
     bnd (dev_store P (word_at timer_address TIMER_RESETIRQ) 0) (\<lambda>_. k_ctx_switch P))"

primrec run_isr :: "'d platform \<Rightarrow> isr \<Rightarrow> ('d machine, unit) prog" where
  "run_isr P Isr_default = k_isr_default P"
| "run_isr P Isr_dma = k_isr_dma P"
| "run_isr P Isr_ioc = k_isr_ioc P"
| "run_isr P Isr_timer = k_isr_timer P"
| "run_isr P Isr_tty_get = k_isr_tty_get_indexed P 0"
| "run_isr P Isr_tty_get_task0 = k_isr_tty_get_indexed P 0"
| "run_isr P Isr_tty_get_task1 = k_isr_tty_get_indexed P 1"
| "run_isr P Isr_tty_get_task2 = k_isr_tty_get_indexed P 2"
| "run_isr P Isr_tty_get_task3 = k_isr_tty_get_indexed P 3"
| "run_isr P Isr_switch = k_isr_switch P"

section \<open>Demultiplexing\<close>

text \<open>\<open>interrupt_index\<close> is a signed integer.\<close>

definition k_int_demux :: "'d platform \<Rightarrow> ('d machine, unit) prog" where
  "k_int_demux P =
     bnd (k_icu_read P ICU_IT_VECTOR) (\<lambda>(r, interrupt_index).
     case interrupt_index of None \<Rightarrow> ret () | Some interrupt_index \<Rightarrow>
     if r \<noteq> 0 then ret ()
     else if sint interrupt_index > 31 then ret ()
     else bnd (aread interrupt_vector interrupt_index) (\<lambda>isr. run_isr P isr))"

section \<open>Waiting for an interrupt\<close>

text \<open>
  What a device may do while the processor polls: change its own state and the memory of the area \<open>A\<close>
  that it transfers to.
\<close>

definition device_runs :: "u32 set \<Rightarrow> 'd machine \<Rightarrow> 'd machine \<Rightarrow> bool" where
  "device_runs A t t' \<longleftrightarrow> (\<exists>d m. (\<forall>a. a \<notin> A \<longrightarrow> m a = mem t a) \<and> t' = t\<lparr>dev := d, mem := m\<rparr>)"

lemma device_runsI: "(\<And>a. a \<notin> A \<Longrightarrow> m a = mem t a) \<Longrightarrow> device_runs A t (t\<lparr>dev := d, mem := m\<rparr>)"
  unfolding device_runs_def by blast

text \<open>The \<open>n\<close> bytes from address \<open>p\<close>.\<close>

definition transfer_area :: "u32 \<Rightarrow> u32 \<Rightarrow> u32 set" where
  "transfer_area p n = (\<lambda>i. p + of_nat i) ` {..<unat n}"

text \<open>
  The contract between a driver that polls a kernel variable and the service routine that sets it:
  the variable is not the device's, and the routine ends the wait. The client lemma: if the
  environment of the polling loop does nothing but let the device run or serve its interrupt, and the
  wait does end, then it ends in the state that the service routine leaves when it runs after the
  device.
\<close>

locale completion =
  fixes waiting :: "'d machine \<Rightarrow> bool"
    and ready :: "'d machine \<Rightarrow> bool"
    and served :: "'d machine \<Rightarrow> 'd machine"
  assumes waiting_dev: "waiting (t\<lparr>dev := d, mem := m\<rparr>) = waiting t"
    and ready_dev: "ready (t\<lparr>dev := d, mem := m\<rparr>) = ready t"
    and served_signals: "ready t \<Longrightarrow> \<not> waiting (served t)"
begin

definition serves :: "u32 set \<Rightarrow> ('d machine \<Rightarrow> 'd machine) \<Rightarrow> bool" where
  "serves A env \<longleftrightarrow> (\<forall>t. ready t \<longrightarrow> device_runs A t (env t) \<or> env t = served t)"

lemma device_runs_keeps:
  assumes "device_runs A t t'"
  shows "waiting t' = waiting t" "ready t' = ready t"
  using assms waiting_dev ready_dev by (auto simp: device_runs_def)

lemma device_runs_trans:
  assumes "device_runs A t u" and "device_runs A u v"
  shows "device_runs A t v"
proof -
  from assms obtain d m d' m' where "\<forall>a. a \<notin> A \<longrightarrow> m a = mem t a" "u = t\<lparr>dev := d, mem := m\<rparr>"
      "\<forall>a. a \<notin> A \<longrightarrow> m' a = mem u a" "v = u\<lparr>dev := d', mem := m'\<rparr>"
    unfolding device_runs_def by blast
  then show ?thesis unfolding device_runs_def by (intro exI [of _ d'] exI [of _ m']) simp
qed

lemma waits_on_device:
  assumes "serves A env" and "ready u" and "\<forall>j\<le>k. waiting ((env ^^ j) u)"
  shows "device_runs A u ((env ^^ k) u)"
  using assms(3)
proof (induction k)
  case 0
  show ?case unfolding device_runs_def by (intro exI [of _ "dev u"] exI [of _ "mem u"]) simp
next
  case (Suc k)
  then have run: "device_runs A u ((env ^^ k) u)" by simp
  then have ready: "ready ((env ^^ k) u)" using device_runs_keeps(2) assms(2) by simp
  have "waiting (env ((env ^^ k) u))" using Suc.prems by (metis order_refl funpow.simps(2) o_apply)
  then have "device_runs A ((env ^^ k) u) (env ((env ^^ k) u))"
    using assms(1) ready served_signals unfolding serves_def by metis
  with run show ?case using device_runs_trans by simp
qed

lemma spin_served:
  assumes "serves A env" and "ready u" and "waiting u" and "\<not> waiting ((env ^^ n) u)"
  shows "\<exists>k. spin waiting env u = Ret () (served ((env ^^ k) u)) \<and> device_runs A u ((env ^^ k) u) \<and>
    env ((env ^^ k) u) = served ((env ^^ k) u)"
proof -
  obtain k where k: "spin waiting env u = Ret () ((env ^^ k) u)" "\<not> waiting ((env ^^ k) u)"
      "\<forall>j<k. waiting ((env ^^ j) u)"
    using spin_ends [of waiting n env u] assms(4) by blast
  with assms(3) obtain i where i: "k = Suc i" by (cases k) auto
  with k(3) have "\<forall>j\<le>i. waiting ((env ^^ j) u)" by auto
  from waits_on_device [OF assms(1,2) this] have run: "device_runs A u ((env ^^ i) u)" .
  moreover have "env ((env ^^ i) u) = served ((env ^^ i) u)"
    using assms(1-3) k(2) i run device_runs_keeps device_runs_trans unfolding serves_def
    by (metis funpow.simps(2) o_apply)
  ultimately show ?thesis using k(1) i by (intro exI [of _ i]) simp
qed

end

section \<open>The block device and its interrupt\<close>

abbreviation ioc_status_reg :: "'d platform \<Rightarrow> u32" where
  "ioc_status_reg P \<equiv> word_at (seg_ioc_base P) (ioc_reg BLOCK_DEVICE_STATUS)"

definition ioc_served :: "'d platform \<Rightarrow> 'd machine \<Rightarrow> 'd machine" where
  "ioc_served P t = (let (st, d) = bus_read P (ioc_status_reg P) (dev t)
     in t\<lparr>dev := d, trace := trace t @ [Rd (ioc_status_reg P) st], ioc_status := ucast st, ioc_done := 1\<rparr>)"

lemma isr_ioc_eq: "k_isr_ioc P t = Ret () (ioc_served P t)"
  by (simp add: k_isr_ioc_def ioc_served_def split_beta)

interpretation ioc: completion "\<lambda>s. ioc_done s = 0" "\<lambda>_. True" "ioc_served P" for P
  by unfold_locales (auto simp: ioc_served_def split_beta)

text \<open>\<open>_ioc_completed\<close> after the interrupt.\<close>

definition ioc_result :: "u32 \<Rightarrow> u32" where
  "ioc_result st = (if ucast st = BLOCK_DEVICE_READ_SUCCESS \<or> ucast st = BLOCK_DEVICE_WRITE_SUCCESS then 0 else 1)"

text \<open>The wait ends at the poll number \<open>k\<close> at which the interrupt is served, on the memory and the device of
  that moment.\<close>

lemma ioc_completed_served:
  assumes "ioc.serves P A (others P)" and "ioc_done u = 0" and "ioc_done ((others P ^^ n) u) \<noteq> 0"
  shows "\<exists>k d m. (others P ^^ k) u = u\<lparr>dev := d, mem := m\<rparr> \<and>
    others P (u\<lparr>dev := d, mem := m\<rparr>) = ioc_served P (u\<lparr>dev := d, mem := m\<rparr>) \<and> (\<forall>a. a \<notin> A \<longrightarrow> m a = mem u a) \<and>
    k_ioc_completed P u = Ret (ioc_result (fst (bus_read P (ioc_status_reg P) d)))
     (u\<lparr>dev := snd (bus_read P (ioc_status_reg P) d), mem := m,
        trace := trace u @ [Rd (ioc_status_reg P) (fst (bus_read P (ioc_status_reg P) d))],
        ioc_status := ucast (fst (bus_read P (ioc_status_reg P) d)), ioc_done := 0, ioc_lock := 0\<rparr>)"
proof -
  obtain k where k: "spin (\<lambda>s. ioc_done s = 0) (others P) u = Ret () (ioc_served P ((others P ^^ k) u))"
      "device_runs A u ((others P ^^ k) u)" "others P ((others P ^^ k) u) = ioc_served P ((others P ^^ k) u)"
    using ioc.spin_served [OF assms(1), of u n] assms(2,3) by auto
  then obtain d m where m: "\<forall>a. a \<notin> A \<longrightarrow> m a = mem u a" "(others P ^^ k) u = u\<lparr>dev := d, mem := m\<rparr>"
    unfolding device_runs_def by blast
  show ?thesis
    using m k(3)
    by (intro exI [of _ k] exI [of _ d] exI [of _ m])
      (simp add: k_ioc_completed_def bnd_simps(1) [where m = "spin _ _", OF k(1)] m(2) ioc_served_def ioc_result_def split_beta)
qed

section \<open>The DMA and its interrupt\<close>

definition dma_reg :: "'d platform \<Rightarrow> u32 \<Rightarrow> u32 \<Rightarrow> u32" where
  "dma_reg P proc_id r = word_at (word_at (seg_dma_base P) (proc_id * DMA_SPAN)) r"

definition dma_ready :: "'d platform \<Rightarrow> 'd machine \<Rightarrow> bool" where
  "dma_ready P t \<longleftrightarrow> arrays_ok P t \<and> k_procid t < NB_PROCS P"

definition dma_served :: "'d platform \<Rightarrow> 'd machine \<Rightarrow> 'd machine" where
  "dma_served P t = (let p = k_procid t; (st, d) = bus_read P (dma_reg P p DMA_LEN) (dev t)
     in t\<lparr>dev := bus_write P (dma_reg P p DMA_RESET) 0 d,
          trace := trace t @ [Rd (dma_reg P p DMA_LEN) st, Wr (dma_reg P p DMA_RESET) 0],
          dma_status := (dma_status t)[unat p := st], dma_busy := (dma_busy t)[unat p := 0]\<rparr>)"

lemma dma_ready_bounds:
  assumes "dma_ready P t"
  shows "unat (k_procid t) < length (dma_status t)" and "unat (k_procid t) < length (dma_busy t)"
  using assms by (auto simp: dma_ready_def arrays_ok_def word_less_nat_alt)

lemma isr_dma_eq:
  assumes "dma_ready P t"
  shows "k_isr_dma P t = Ret () (dma_served P t)"
  using dma_ready_bounds [OF assms]
  by (simp add: k_isr_dma_def dma_served_def dma_reg_def bnd_awrite split_beta Let_def)

interpretation dma: completion "\<lambda>s. dma_busy s ! unat p \<noteq> 0" "\<lambda>s. dma_ready P s \<and> k_procid s = p"
    "dma_served P" for P p
  by unfold_locales (auto simp: dma_served_def split_beta Let_def k_procid_def dma_ready_def arrays_ok_def
      word_less_nat_alt)

text \<open>\<open>_fb_write\<close> and \<open>_fb_read\<close> on a free DMA.\<close>

definition dma_request :: "'d platform \<Rightarrow> u32 \<Rightarrow> u32 \<Rightarrow> u32 \<Rightarrow> u32 \<Rightarrow> bus_event list" where
  "dma_request P p src dst len =
     [Wr (dma_reg P p DMA_IRQ_DISABLE) 0, Wr (dma_reg P p DMA_SRC) src,
      Wr (dma_reg P p DMA_DST) dst, Wr (dma_reg P p DMA_LEN) len]"

lemma dma_start_free:
  assumes "dma_ready P s" and "dma_busy s ! unat (k_procid s) = 0"
  shows "dma_start P (k_procid s) src dst len s =
    (let es = dma_request P (k_procid s) src dst len
     in Ret 0 (s\<lparr>dma_busy := (dma_busy s)[unat (k_procid s) := 1],
          dev := apply_writes P es (dev s), trace := trace s @ es\<rparr>))"
  using dma_ready_bounds [OF assms(1)] assms(2)
  by (simp add: dma_start_def bnd_aread bnd_awrite bnd_simps(1) [where m = "spin _ _", OF spin_done]
      dma_request_def dma_reg_def Let_def)

lemma fb_completed_served:
  assumes "dma.serves P p A (others P)" and "dma_ready P u" and "k_procid u = p"
    and "dma_busy u ! unat p \<noteq> 0" and "dma_busy ((others P ^^ n) u) ! unat p = 0"
  shows "\<exists>k d m. (others P ^^ k) u = u\<lparr>dev := d, mem := m\<rparr> \<and>
    others P (u\<lparr>dev := d, mem := m\<rparr>) = dma_served P (u\<lparr>dev := d, mem := m\<rparr>) \<and> (\<forall>a. a \<notin> A \<longrightarrow> m a = mem u a) \<and>
    k_fb_completed P u = Ret (if fst (bus_read P (dma_reg P p DMA_LEN) d) = 0 then 0 else 1)
      (u\<lparr>dev := bus_write P (dma_reg P p DMA_RESET) 0 (snd (bus_read P (dma_reg P p DMA_LEN) d)), mem := m,
         trace := trace u @ [Rd (dma_reg P p DMA_LEN) (fst (bus_read P (dma_reg P p DMA_LEN) d)), Wr (dma_reg P p DMA_RESET) 0],
         dma_status := (dma_status u)[unat p := fst (bus_read P (dma_reg P p DMA_LEN) d)],
         dma_busy := (dma_busy u)[unat p := 0]\<rparr>)"
proof -
  note b = dma_ready_bounds [OF assms(2), unfolded assms(3)]
  obtain k where k: "spin (\<lambda>s. dma_busy s ! unat p \<noteq> 0) (others P) u = Ret () (dma_served P ((others P ^^ k) u))"
      "device_runs A u ((others P ^^ k) u)" "others P ((others P ^^ k) u) = dma_served P ((others P ^^ k) u)"
    using dma.spin_served [OF assms(1), of u n] assms(2-5) by auto
  then obtain d m where m: "\<forall>a. a \<notin> A \<longrightarrow> m a = mem u a" "(others P ^^ k) u = u\<lparr>dev := d, mem := m\<rparr>"
    unfolding device_runs_def by blast
  have "k_procid (u\<lparr>dev := d, mem := m\<rparr>) = p" using assms(3) by (simp add: k_procid_def)
  then have s: "dma_served P (u\<lparr>dev := d, mem := m\<rparr>) =
     u\<lparr>dev := bus_write P (dma_reg P p DMA_RESET) 0 (snd (bus_read P (dma_reg P p DMA_LEN) d)), mem := m,
       trace := trace u @ [Rd (dma_reg P p DMA_LEN) (fst (bus_read P (dma_reg P p DMA_LEN) d)), Wr (dma_reg P p DMA_RESET) 0],
       dma_status := (dma_status u)[unat p := fst (bus_read P (dma_reg P p DMA_LEN) d)],
       dma_busy := (dma_busy u)[unat p := 0]\<rparr>"
    by (simp add: dma_served_def Let_def split_beta)
  show ?thesis
    using b assms(3) m k(3)
    by (intro exI [of _ k] exI [of _ d] exI [of _ m])
      (simp add: k_fb_completed_def bnd_aread bnd_simps(1) [where m = "spin _ _", OF k(1)] m(2) s)
qed

section \<open>The terminal and its interrupt\<close>

text \<open>The kernel state after the interrupt of the terminal of task \<open>task\<close> on this processor.\<close>

definition tty_read_reg :: "'d platform \<Rightarrow> 'd machine \<Rightarrow> u32 \<Rightarrow> u32" where
  "tty_read_reg P s task = word_at (word_at (seg_tty_base P) ((k_procid s * NB_MAXTASKS P + task) * TTY_SPAN)) TTY_READ"

definition tty_received :: "'d platform \<Rightarrow> 'd machine \<Rightarrow> u32 \<Rightarrow> 'd machine" where
  "tty_received P s task =
     (let i = unat (k_procid s * NB_MAXTASKS P + task); (c, d) = bus_read P (tty_read_reg P s task) (dev s)
      in s\<lparr>dev := d, trace := trace s @ [Rd (tty_read_reg P s task) c],
           tty_get_buf := (tty_get_buf s)[i := ucast c], tty_get_full := (tty_get_full s)[i := 1]\<rparr>)"

lemma tty_index_bounds:
  assumes "running_ok P s" and "task < NB_MAXTASKS P"
  shows "unat (k_procid s * NB_MAXTASKS P + task) < length (tty_get_buf s)"
    and "unat (k_procid s * NB_MAXTASKS P + task) < length (tty_get_full s)"
  using assms unat_task_index [of P "k_procid s" task] by (auto simp: running_ok_def arrays_ok_def)

lemma isr_tty_get_eq:
  assumes "running_ok P s" and "task < NB_MAXTASKS P"
  shows "k_isr_tty_get_indexed P task s = Ret () (tty_received P s task)"
proof -
  have "word_at (word_at (seg_tty_base P) (k_procid s * NB_MAXTASKS P * TTY_SPAN)) (task * TTY_SPAN)
      = word_at (seg_tty_base P) ((k_procid s * NB_MAXTASKS P + task) * TTY_SPAN)"
    by (simp add: word_at_def algebra_simps)
  then show ?thesis
    using tty_index_bounds [OF assms]
    by (simp add: k_isr_tty_get_indexed_def bnd_awrite awrite_in Let_def tty_received_def tty_read_reg_def split_beta)
qed

lemma tty_read_irq_eq:
  assumes "running_ok P s" and "unat (terminal P s) < length (tty_get_full s)"
  shows "k_tty_read_irq P s = (if tty_get_full s ! unat (terminal P s) = 0 then Ret (0, None) s
    else Ret (1, Some (tty_get_buf s ! unat (terminal P s)))
      (s\<lparr>tty_get_full := (tty_get_full s)[unat (terminal P s) := 0]\<rparr>))"
proof -
  have "length (tty_get_buf s) = length (tty_get_full s)"
    using assms(1) by (simp add: running_ok_def arrays_ok_def)
  then show ?thesis
    using assms(2)
    by (simp add: k_tty_read_irq_def bnd_simps(1) [where m = "k_tty_id P", OF k_tty_id_running [OF assms(1)]]
        bnd_aread bnd_awrite)
qed

lemma terminal_cong:
  assumes "core t = core s" and "current_task_array t = current_task_array s"
    and "task_context_array t = task_context_array s"
  shows "terminal P t = terminal P s"
  using assms by (simp add: terminal_def k_procid_def current_task_def Let_def)

section \<open>Properties\<close>

text \<open>C24. A block device read from request to completion: on a free device and a legal buffer,
  \<open>_ioc_read\<close> takes the lock and programs the device with the operation written last. While
  \<open>_ioc_completed\<close> polls, the device may change its own state and write into the buffer of the request
  (\<open>block_size * count\<close> bytes), and the processor may execute \<open>_isr_ioc\<close>; if the interrupt comes at all,
  then \<open>_ioc_completed\<close> returns 0 exactly when the status that the routine read is one of the two success
  codes, with the memory that the device had produced by the poll at which the interrupt was served,
  and with the lock and the done flag cleared, ready for the next transfer. No byte outside the buffer
  changes, and of the rest of the machine only the status variable, the trace and the list of
  invalidated cache lines.\<close>

theorem ioc_transaction:
  assumes env: "\<forall>t. device_runs (transfer_area buffer (ioc_block_size P s * count)) t (others P t) \<or>
      k_isr_ioc P t = Ret () (others P t)"
    and free: "ioc_lock s = 0" "ioc_done s = 0"
    and legal: "user_range_ok buffer (ioc_block_size P s * count)"
      "unat (ioc_block_size P s * count) + 256 \<le> 2 ^ 32"
    and irq: "\<forall>u. k_ioc_read P lba buffer count s = Ret 0 u \<longrightarrow> (\<exists>n. ioc_done ((others P ^^ n) u) \<noteq> 0)"
  shows "\<exists>u k d st t. k_ioc_read P lba buffer count s = Ret 0 u \<and> ioc_done u = 0 \<and>
    (others P ^^ k) u = u\<lparr>dev := d, mem := mem t\<rparr> \<and>
    k_isr_ioc P ((others P ^^ k) u) = Ret () (others P ((others P ^^ k) u)) \<and>
    st = fst (bus_read P (ioc_status_reg P) d) \<and>
    bnd (k_ioc_read P lba buffer count) (\<lambda>r. bnd (k_ioc_completed P) (\<lambda>r'. ret (r, r'))) s
      = Ret (0, if ucast st = BLOCK_DEVICE_READ_SUCCESS \<or> ucast st = BLOCK_DEVICE_WRITE_SUCCESS then 0 else 1) t \<and>
    ioc_lock t = 0 \<and> ioc_done t = 0 \<and>
    trace t = trace s @ Rd (word_at (seg_ioc_base P) (ioc_reg BLOCK_DEVICE_BLOCK_SIZE)) (ioc_block_size P s)
      # ioc_request P BLOCK_DEVICE_READ lba buffer count @ [Rd (ioc_status_reg P) st] \<and>
    (\<forall>a. a \<notin> transfer_area buffer (ioc_block_size P s * count) \<longrightarrow> mem t a = mem s a) \<and>
    t = s\<lparr>dev := dev t, mem := mem t, trace := trace t, invalidated := invalidated t, ioc_status := ucast st\<rparr>"
proof -
  let ?A = "transfer_area buffer (ioc_block_size P s * count)"
  have serves: "ioc.serves P ?A (others P)"
    using env by (auto simp: ioc.serves_def isr_ioc_eq)
  obtain u where u: "k_ioc_read P lba buffer count s = Ret 0 u" "ioc_done u = 0" "mem u = mem s"
      "trace u = trace s @ Rd (word_at (seg_ioc_base P) (ioc_reg BLOCK_DEVICE_BLOCK_SIZE)) (ioc_block_size P s)
        # ioc_request P BLOCK_DEVICE_READ lba buffer count"
      "u = s\<lparr>dev := dev u, trace := trace u, invalidated := invalidated u, ioc_lock := 1\<rparr>"
    using ioc_read_free [OF free(1) legal] free(2) by (auto simp: Let_def asked_block_size_def)
  with irq obtain n where "ioc_done ((others P ^^ n) u) \<noteq> 0" by blast
  from ioc_completed_served [OF serves u(2) this] obtain k d m where
    k: "(others P ^^ k) u = u\<lparr>dev := d, mem := m\<rparr>"
      "others P (u\<lparr>dev := d, mem := m\<rparr>) = ioc_served P (u\<lparr>dev := d, mem := m\<rparr>)" "\<forall>a. a \<notin> ?A \<longrightarrow> m a = mem u a"
    and completed: "k_ioc_completed P u = Ret (ioc_result (fst (bus_read P (ioc_status_reg P) d)))
      (u\<lparr>dev := snd (bus_read P (ioc_status_reg P) d), mem := m,
         trace := trace u @ [Rd (ioc_status_reg P) (fst (bus_read P (ioc_status_reg P) d))],
         ioc_status := ucast (fst (bus_read P (ioc_status_reg P) d)), ioc_done := 0, ioc_lock := 0\<rparr>)"
    (is "_ = Ret _ ?t") by blast
  have frame: "?t = s\<lparr>dev := dev ?t, mem := mem ?t, trace := trace ?t, invalidated := invalidated ?t,
      ioc_status := ucast (fst (bus_read P (ioc_status_reg P) d))\<rparr>"
    by (subst u(5)) (simp add: free)
  show ?thesis
  proof (intro exI conjI)
    show "k_ioc_read P lba buffer count s = Ret 0 u" "ioc_done u = 0" by (fact u(1), fact u(2))
    show "(others P ^^ k) u = u\<lparr>dev := d, mem := mem ?t\<rparr>" by (simp add: k(1))
    show "k_isr_ioc P ((others P ^^ k) u) = Ret () (others P ((others P ^^ k) u))" by (simp add: k(1,2) isr_ioc_eq)
    show "?t = s\<lparr>dev := dev ?t, mem := mem ?t, trace := trace ?t, invalidated := invalidated ?t,
      ioc_status := ucast (fst (bus_read P (ioc_status_reg P) d))\<rparr>" by (rule frame)
    show "bnd (k_ioc_read P lba buffer count) (\<lambda>r. bnd (k_ioc_completed P) (\<lambda>r'. ret (r, r'))) s
      = Ret (0, if ucast (fst (bus_read P (ioc_status_reg P) d)) = BLOCK_DEVICE_READ_SUCCESS \<or>
          ucast (fst (bus_read P (ioc_status_reg P) d)) = BLOCK_DEVICE_WRITE_SUCCESS then 0 else 1) ?t"
      by (simp add: bnd_simps(1) [where m = "k_ioc_read _ _ _ _", OF u(1)]
          bnd_simps(1) [where m = "k_ioc_completed _", OF completed] ioc_result_def)
  qed (use u(3,4) k(3) in \<open>simp_all del: ioc_reg.simps\<close>)
qed

lemma beyond_area: "unat p + unat n \<le> unat a \<Longrightarrow> a \<notin> transfer_area p n"
proof
  assume le: "unat p + unat n \<le> unat a" and "a \<in> transfer_area p n"
  then obtain i where i: "a = p + of_nat i" "i < unat n" by (auto simp: transfer_area_def)
  with le unat_less_u32 [of a] have "unat a = unat p + i" by (simp add: unat_word_ariths unat_of_nat)
  with i le show False by simp
qed

text \<open>A disk with blocks of four bytes: at the first poll it writes two blocks to the address \<open>0x1000\<close> and
  sets its status, and at the second its interrupt is served.\<close>

definition disk_reads :: "(u32 \<Rightarrow> u32) machine \<Rightarrow> (u32 \<Rightarrow> u32) machine" where
  "disk_reads t = t\<lparr>dev := (dev t)(0x92000010 := 2),
     mem := (\<lambda>a. if a \<in> transfer_area 0x1000 8 then 0x42 else mem t a)\<rparr>"

definition ioc_platform :: "(u32 \<Rightarrow> u32) platform" where
  "ioc_platform = tp3_regs\<lparr>others := (\<lambda>t. if dev t 0x92000010 = 2 then ioc_served tp3_regs t
     else disk_reads t)\<rparr>"

definition disk_start :: "(u32 \<Rightarrow> u32) machine" where
  "disk_start = tp3_start\<lparr>dev := (\<lambda>_. 0)(0x9200001C := 4)\<rparr>"

lemma ioc_platform_others:
  "others ioc_platform t = (if dev t 0x92000010 = 2 then ioc_served ioc_platform t else disk_reads t)"
  "seg_ioc_base ioc_platform = 0x92000000" "bus_read ioc_platform a f = (f a, f)"
  "bus_write ioc_platform a v f = f(a := v)"
  by (simp_all add: ioc_platform_def ioc_served_def tp3_platform_def regs_read_def regs_write_def)

lemma disk_polled:
  assumes "dev u 0x92000010 \<noteq> 2"
  shows "dev ((others ioc_platform ^^ Suc k) u) 0x92000010 = 2 \<and>
    (\<forall>a\<in>transfer_area 0x1000 8. mem ((others ioc_platform ^^ Suc k) u) a = 0x42)"
proof (induction k)
  case 0
  then show ?case using assms by (simp add: ioc_platform_others disk_reads_def)
next
  case (Suc k)
  then show ?case unfolding funpow.simps(2) [of "Suc k"] o_apply ioc_platform_others(1)
    by (simp add: ioc_served_def ioc_platform_others)
qed

theorem ioc_transaction_witness:
  "\<exists>t. bnd (k_ioc_read ioc_platform 5 0x1000 2) (\<lambda>r. bnd (k_ioc_completed ioc_platform) (\<lambda>r'. ret (r, r'))) disk_start
      = Ret (0, 0) t \<and> ioc_lock t = 0 \<and> ioc_done t = 0 \<and> mem t 0x1007 = 0x42 \<and> mem t 0x1008 = 0"
proof -
  let ?P = ioc_platform
  note oth = ioc_platform_others
  have size4: "ioc_block_size ?P disk_start * 2 = 8"
    by (simp add: ioc_block_size_def oth disk_start_def word_at_def)
  have irq: "ioc_done ((others ?P ^^ 2) u) \<noteq> 0" for u
    by (simp add: numeral_2_eq_2 oth disk_reads_def ioc_served_def)
  have free: "ioc_lock disk_start = 0" "ioc_done disk_start = 0" "mem disk_start = (\<lambda>_. 0)"
    by (simp_all add: disk_start_def boot_machine_def)
  have legal: "user_range_ok 0x1000 (ioc_block_size ?P disk_start * 2)" "unat (ioc_block_size ?P disk_start * 2) + 256 \<le> 2 ^ 32"
    by (simp_all add: size4 user_range_ok_def)
  have env: "\<forall>t. device_runs (transfer_area 0x1000 (ioc_block_size ?P disk_start * 2)) t (others ?P t) \<or>
      k_isr_ioc ?P t = Ret () (others ?P t)"
    unfolding size4 by (simp add: oth(1) isr_ioc_eq disk_reads_def device_runsI)
  have "\<forall>u. k_ioc_read ?P 5 0x1000 2 disk_start = Ret 0 u \<longrightarrow> (\<exists>n. ioc_done ((others ?P ^^ n) u) \<noteq> 0)"
    using irq by blast
  from ioc_transaction [OF env free(1,2) legal this] obtain u k d st t where
    isr: "ioc_done u = 0" "(others ?P ^^ k) u = u\<lparr>dev := d, mem := mem t\<rparr>"
      "k_isr_ioc ?P ((others ?P ^^ k) u) = Ret () (others ?P ((others ?P ^^ k) u))" "st = fst (bus_read ?P (ioc_status_reg ?P) d)"
    and run: "bnd (k_ioc_read ?P 5 0x1000 2) (\<lambda>r. bnd (k_ioc_completed ?P) (\<lambda>r'. ret (r, r'))) disk_start
      = Ret (0, if ucast st = BLOCK_DEVICE_READ_SUCCESS \<or> ucast st = BLOCK_DEVICE_WRITE_SUCCESS then 0 else 1) t"
      "ioc_lock t = 0" "ioc_done t = 0" "\<forall>a. a \<notin> transfer_area 0x1000 8 \<longrightarrow> mem t a = mem disk_start a"
    and u: "k_ioc_read ?P 5 0x1000 2 disk_start = Ret 0 u"
    unfolding size4 by blast
  have d: "d 0x92000010 = 2"
  proof (rule ccontr)
    assume "d 0x92000010 \<noteq> 2"
    then have "others ?P (u\<lparr>dev := d, mem := mem t\<rparr>) = disk_reads (u\<lparr>dev := d, mem := mem t\<rparr>)" by (simp add: oth)
    then have "ioc_served ?P (u\<lparr>dev := d, mem := mem t\<rparr>) = disk_reads (u\<lparr>dev := d, mem := mem t\<rparr>)" using isr(2,3) by (simp add: isr_ioc_eq)
    moreover have "ioc_done (ioc_served ?P (u\<lparr>dev := d, mem := mem t\<rparr>)) = 1" by (simp add: ioc_served_def split_beta)
    ultimately have "ioc_done (disk_reads (u\<lparr>dev := d, mem := mem t\<rparr>)) = 1" by simp
    then show False using isr(1) by (simp add: disk_reads_def)
  qed
  have "dev u 0x92000010 = 0"
    using ioc_read_free [OF free(1) legal, of 5] u
    by (auto simp: Let_def asked_block_size_def ioc_request_def disk_start_def oth word_at_def)
  moreover from this d isr(2) obtain j where "k = Suc j" by (cases k) (auto dest: arg_cong [where f = dev])
  moreover have "(0x1007 :: u32) \<in> transfer_area 0x1000 8" by (auto simp: transfer_area_def intro!: image_eqI [of _ _ 7])
  ultimately have "mem t 0x1007 = 0x42" using disk_polled [of u j] isr(2) by simp
  moreover have "(0x1008 :: u32) \<notin> transfer_area 0x1000 8" by (rule beyond_area) simp_all
  ultimately show ?thesis using run d isr(4) free(3) by (intro exI [of _ t]) (simp add: oth word_at_def)
qed

text \<open>C25. A frame buffer transfer by DMA: on a free DMA, \<open>_fb_write\<close> programs the DMA of its own
  processor with the user buffer as source and the frame buffer as destination, the length last. While
  \<open>_fb_completed\<close> polls, the device may change its own state and write into the \<open>len\<close> bytes of the frame
  buffer, and the processor may execute \<open>_isr_dma\<close>; if the interrupt comes at all, then \<open>_fb_completed\<close>
  returns 0 exactly when the device reported no error to the routine, with the memory that the device
  had produced by then, and the DMA is free again. No byte outside the destination changes, and of the
  rest of the machine only the status of this processor's DMA and the trace.\<close>

theorem dma_transaction:
  assumes ready: "arrays_ok P s" "k_procid s < NB_PROCS P"
    and env: "\<forall>t. device_runs (transfer_area (seg_fb_base P + offset) len) t (others P t) \<or>
      k_isr_dma P t = Ret () (others P t)"
    and free: "dma_busy s ! unat (k_procid s) = 0" and legal: "user_range_ok buffer len"
    and irq: "\<forall>u. k_fb_write P offset buffer len s = Ret 0 u \<longrightarrow>
      (\<exists>n. dma_busy ((others P ^^ n) u) ! unat (k_procid s) = 0)"
  shows "\<exists>u k d st t. k_fb_write P offset buffer len s = Ret 0 u \<and>
    dma_busy u = (dma_busy s)[unat (k_procid s) := 1] \<and>
    (others P ^^ k) u = u\<lparr>dev := d, mem := mem t\<rparr> \<and>
    k_isr_dma P ((others P ^^ k) u) = Ret () (others P ((others P ^^ k) u)) \<and>
    st = fst (bus_read P (dma_reg P (k_procid s) DMA_LEN) d) \<and>
    bnd (k_fb_write P offset buffer len) (\<lambda>r. bnd (k_fb_completed P) (\<lambda>r'. ret (r, r'))) s
      = Ret (0, if st = 0 then 0 else 1) t \<and> dma_busy t = (dma_busy s)[unat (k_procid s) := 0] \<and>
    trace t = trace s @ dma_request P (k_procid s) buffer (seg_fb_base P + offset) len
      @ [Rd (dma_reg P (k_procid s) DMA_LEN) st, Wr (dma_reg P (k_procid s) DMA_RESET) 0] \<and>
    (\<forall>a. a \<notin> transfer_area (seg_fb_base P + offset) len \<longrightarrow> mem t a = mem s a) \<and>
    t = s\<lparr>dev := dev t, mem := mem t, trace := trace t, dma_busy := dma_busy t,
      dma_status := (dma_status s)[unat (k_procid s) := st]\<rparr>"
proof -
  let ?p = "k_procid s" and ?es = "dma_request P (k_procid s) buffer (seg_fb_base P + offset) len"
    and ?A = "transfer_area (seg_fb_base P + offset) len"
  define u where "u = s\<lparr>dma_busy := (dma_busy s)[unat ?p := 1], dev := apply_writes P ?es (dev s), trace := trace s @ ?es\<rparr>"
  have dr: "dma_ready P s" using ready by (simp add: dma_ready_def)
  note b = dma_ready_bounds [OF dr]
  have w: "k_fb_write P offset buffer len s = Ret 0 u"
    using dma_start_free [OF dr free] legal by (simp add: k_fb_write_def u_def Let_def)
  have u: "dma_ready P u" "k_procid u = ?p" "dma_busy u ! unat ?p \<noteq> 0"
    using dr b by (simp_all add: u_def dma_ready_def arrays_ok_def k_procid_def)
  have "dma.serves P ?p ?A (others P)"
    unfolding dma.serves_def using env isr_dma_eq by (metis outcome.inject(1))
  moreover from irq w obtain n where "dma_busy ((others P ^^ n) u) ! unat ?p = 0" by blast
  ultimately obtain k d m where k: "(others P ^^ k) u = u\<lparr>dev := d, mem := m\<rparr>"
      "others P (u\<lparr>dev := d, mem := m\<rparr>) = dma_served P (u\<lparr>dev := d, mem := m\<rparr>)" "\<forall>a. a \<notin> ?A \<longrightarrow> m a = mem u a"
    and completed: "k_fb_completed P u = Ret (if fst (bus_read P (dma_reg P ?p DMA_LEN) d) = 0 then 0 else 1)
      (u\<lparr>dev := bus_write P (dma_reg P ?p DMA_RESET) 0 (snd (bus_read P (dma_reg P ?p DMA_LEN) d)), mem := m,
         trace := trace u @ [Rd (dma_reg P ?p DMA_LEN) (fst (bus_read P (dma_reg P ?p DMA_LEN) d)), Wr (dma_reg P ?p DMA_RESET) 0],
         dma_status := (dma_status u)[unat ?p := fst (bus_read P (dma_reg P ?p DMA_LEN) d)],
         dma_busy := (dma_busy u)[unat ?p := 0]\<rparr>)" (is "_ = Ret _ ?t")
    using fb_completed_served [of P ?p ?A u n] u by blast
  have isr: "k_isr_dma P (u\<lparr>dev := d, mem := m\<rparr>) = Ret () (dma_served P (u\<lparr>dev := d, mem := m\<rparr>))"
    using u(1) by (intro isr_dma_eq) (simp add: dma_ready_def arrays_ok_def k_procid_def)
  show ?thesis
  proof (intro exI conjI)
    show "k_fb_write P offset buffer len s = Ret 0 u" by (rule w)
    show "(others P ^^ k) u = u\<lparr>dev := d, mem := mem ?t\<rparr>" by (simp add: k(1))
    show "k_isr_dma P ((others P ^^ k) u) = Ret () (others P ((others P ^^ k) u))" by (simp add: k(1,2) isr)
    show "bnd (k_fb_write P offset buffer len) (\<lambda>r. bnd (k_fb_completed P) (\<lambda>r'. ret (r, r'))) s
      = Ret (0, if fst (bus_read P (dma_reg P ?p DMA_LEN) d) = 0 then 0 else 1) ?t"
      by (simp add: bnd_simps(1) [where m = "k_fb_write _ _ _ _", OF w] bnd_simps(1) [where m = "k_fb_completed _", OF completed])
  qed (use k(3) in \<open>simp_all add: u_def\<close>)
qed

text \<open>A DMA that copies the 64 bytes from the address \<open>0x1000\<close> to the frame buffer, clears its length
  register, and whose interrupt is served at the next poll.\<close>

definition dma_copies :: "(u32 \<Rightarrow> u32) machine \<Rightarrow> (u32 \<Rightarrow> u32) machine" where
  "dma_copies t = t\<lparr>dev := (dev t)(0x93000008 := 0),
     mem := (\<lambda>a. if a \<in> transfer_area 0x96000020 64 then mem t (a - 0x96000020 + 0x1000) else mem t a)\<rparr>"

definition dma_platform :: "(u32 \<Rightarrow> u32) platform" where
  "dma_platform = tp3_regs\<lparr>others := (\<lambda>t. if dev t 0x93000008 \<noteq> 0 then dma_copies t
     else if dma_ready tp3_regs t then dma_served tp3_regs t else t)\<rparr>"

definition dma_start_state :: "(u32 \<Rightarrow> u32) machine" where
  "dma_start_state = tp3_start\<lparr>mem := (\<lambda>a. if a < 0x2000 then 0x42 else 0)\<rparr>"

lemma dma_platform_others:
  "others dma_platform t = (if dev t 0x93000008 \<noteq> 0 then dma_copies t
     else if dma_ready dma_platform t then dma_served dma_platform t else t)"
  "seg_dma_base dma_platform = 0x93000000" "bus_read dma_platform a f = (f a, f)" "seg_fb_base dma_platform = 0x96000000"
  "bus_write dma_platform a v f = f(a := v)"
  by (simp_all add: dma_platform_def dma_ready_def dma_served_def dma_reg_def fun_eq_iff tp3_platform_def regs_read_def regs_write_def arrays_ok_def)

lemma dma_polled:
  assumes "dev u 0x93000008 \<noteq> 0"
  shows "dev ((others dma_platform ^^ Suc k) u) 0x93000008 = 0 \<and> mem ((others dma_platform ^^ Suc k) u) = mem (dma_copies u)"
proof (induction k)
  case 0
  then show ?case using assms by (simp add: dma_platform_others(1)) (simp add: dma_copies_def)
next
  case (Suc k)
  then show ?case unfolding funpow.simps(2) [of "Suc k"] o_apply dma_platform_others(1)
    by (simp add: dma_served_def Let_def dma_platform_others(3,5))
qed

theorem dma_transaction_witness:
  "\<exists>t. bnd (k_fb_write dma_platform 0x20 0x1000 64) (\<lambda>r. bnd (k_fb_completed dma_platform) (\<lambda>r'. ret (r, r'))) dma_start_state
      = Ret (0, 0) t \<and> dma_busy t = [0] \<and> mem t 0x9600005F = 0x42 \<and> mem t 0x96000060 = 0"
proof -
  let ?P = dma_platform and ?s = dma_start_state and ?A = "transfer_area 0x96000020 64"
  note oth = dma_platform_others
  have ready: "arrays_ok ?P ?s" "k_procid ?s < NB_PROCS ?P" and id0: "k_procid ?s = 0"
    using arrays_ok_boot [of tp3_regs "cpu_of 0" "\<lambda>_. 0" "\<lambda>_. 0"]
    by (simp_all add: dma_start_state_def dma_platform_def tp3_platform_def arrays_ok_def k_procid_def boot_machine_def cpu_of_def)
  then have dr: "dma_ready ?P ?s" by (simp add: dma_ready_def)
  have legal: "user_range_ok 0x1000 64" by (simp add: user_range_ok_def)
  have free: "dma_busy ?s ! unat (k_procid ?s) = 0" "dma_busy ?s = [0]"
    by (simp_all add: id0) (simp_all add: dma_start_state_def boot_machine_def tp3_platform_def)
  have env: "\<forall>t. device_runs (transfer_area (seg_fb_base ?P + 0x20) 64) t (others ?P t) \<or> k_isr_dma ?P t = Ret () (others ?P t)"
  proof
    fix t :: "(u32 \<Rightarrow> u32) machine"
    show "device_runs (transfer_area (seg_fb_base ?P + 0x20) 64) t (others ?P t) \<or> k_isr_dma ?P t = Ret () (others ?P t)"
      using isr_dma_eq [of ?P t] device_runsI [of _ "mem t" t "dev t"] by (simp add: oth(1,4) dma_copies_def device_runsI)
  qed
  obtain u where u: "k_fb_write ?P 0x20 0x1000 64 ?s = Ret 0 u" "dma_ready ?P u" "k_procid u = 0" "dev u 0x93000008 = 64"
      "mem u = mem ?s" "dma_busy u = [1]"
    using dma_start_free [OF dr free(1)] dr legal free(2) id0
    by (simp add: k_fb_write_def oth Let_def dma_ready_def arrays_ok_def k_procid_def dma_request_def dma_reg_def word_at_def)
  let ?c = "dma_copies u"
  have "dma_ready ?P ?c" using u(2) by (simp add: dma_ready_def arrays_ok_def k_procid_def dma_copies_def)
  moreover have c: "k_procid ?c = 0" "dma_busy ?c = [1]" "dev ?c 0x93000008 = 0"
    using u(3,6) by (simp_all add: k_procid_def dma_copies_def)
  moreover have "(others ?P ^^ 2) u = others ?P (others ?P u)" by (simp add: numeral_2_eq_2)
  moreover have "others ?P u = ?c" using u(4) by (simp add: oth(1))
  ultimately have "(others ?P ^^ 2) u = dma_served ?P ?c" by (simp add: oth(1))
  moreover have "dma_busy (dma_served ?P ?c) = [0]" using c by (simp add: dma_served_def Let_def split_beta)
  ultimately have "dma_busy ((others ?P ^^ 2) u) ! unat (k_procid ?s) = 0" by (simp add: id0)
  then have irq: "\<forall>v. k_fb_write ?P 0x20 0x1000 64 ?s = Ret 0 v \<longrightarrow> (\<exists>n. dma_busy ((others ?P ^^ n) v) ! unat (k_procid ?s) = 0)"
    using u(1) by auto
  from dma_transaction [OF ready env free(1) legal irq] u(1) obtain k d st t where
    isr: "(others ?P ^^ k) u = u\<lparr>dev := d, mem := mem t\<rparr>" "k_isr_dma ?P ((others ?P ^^ k) u) = Ret () (others ?P ((others ?P ^^ k) u))"
      "st = fst (bus_read ?P (dma_reg ?P (k_procid ?s) DMA_LEN) d)"
    and run: "bnd (k_fb_write ?P 0x20 0x1000 64) (\<lambda>r. bnd (k_fb_completed ?P) (\<lambda>r'. ret (r, r'))) ?s = Ret (0, if st = 0 then 0 else 1) t"
      "dma_busy t = (dma_busy ?s)[unat (k_procid ?s) := 0]" "\<forall>a. a \<notin> ?A \<longrightarrow> mem t a = mem ?s a"
    by (auto simp: oth(4))
  have d: "d 0x93000008 = 0"
  proof (rule ccontr)
    assume "d 0x93000008 \<noteq> 0"
    then have "others ?P (u\<lparr>dev := d, mem := mem t\<rparr>) = dma_copies (u\<lparr>dev := d, mem := mem t\<rparr>)" by (simp add: oth(1))
    moreover have "dma_ready ?P (u\<lparr>dev := d, mem := mem t\<rparr>)" using u(2) by (simp add: dma_ready_def arrays_ok_def k_procid_def)
    ultimately have "dma_busy (dma_served ?P (u\<lparr>dev := d, mem := mem t\<rparr>)) = [1]"
      using isr(1,2) u(6) isr_dma_eq [of ?P "u\<lparr>dev := d, mem := mem t\<rparr>"] by (simp add: dma_copies_def)
    then show False using u(3,6) by (simp add: dma_served_def Let_def split_beta k_procid_def)
  qed
  with isr(1) u(4) obtain j where "k = Suc j" by (cases k) (auto dest: arg_cong [where f = dev])
  then have "mem t = mem (dma_copies u)" using dma_polled [of u j] isr(1) u(4) by simp
  moreover have "(0x9600005F :: u32) \<in> ?A" by (auto simp: transfer_area_def intro!: image_eqI [of _ _ 63])
  moreover have "(0x96000060 :: u32) \<notin> ?A" by (rule beyond_area) simp_all
  ultimately show ?thesis
    using run d isr(3) free(2) id0 u(5)
    by (intro exI [of _ t]) (simp add: oth dma_reg_def word_at_def dma_copies_def dma_start_state_def)
qed

text \<open>A character travels from the terminal to the task that reads it: after the interrupt of the
  terminal of the running task, whatever the buffer held before, \<open>_tty_read_irq\<close> returns 1 with the
  character the service routine took from the device, and an immediate second call returns 0 without a
  character. A character that had not been read yet is overwritten.\<close>

theorem tty_irq_delivers:
  assumes "running_ok P s" and "terminal P s = k_procid s * NB_MAXTASKS P + current_task s"
  shows "\<exists>t u. k_isr_tty_get_indexed P (current_task s) s = Ret () t \<and>
    k_tty_read_irq P t = Ret (1, Some (ucast (fst (bus_read P (tty_read_reg P s (current_task s)) (dev s))))) u \<and>
    k_tty_read_irq P u = Ret (0, None) u"
proof -
  let ?t = "tty_received P s (current_task s)" and ?i = "terminal P s"
  let ?u = "?t\<lparr>tty_get_full := (tty_get_full ?t)[unat ?i := 0]\<rparr>"
  from assms(1) have task: "current_task s < NB_MAXTASKS P" by (simp add: running_ok_def)
  note b = tty_index_bounds [OF assms(1) task, folded assms(2)]
  have same: "core ?t = core s" "current_task_array ?t = current_task_array s"
      "task_context_array ?t = task_context_array s" "arrays_ok P ?t = arrays_ok P s"
    by (simp_all add: tty_received_def Let_def split_beta arrays_ok_def)
  have ok: "running_ok P ?t" "running_ok P ?u" "terminal P ?t = ?i" "terminal P ?u = ?i"
    using assms(1) running_ok_cong [OF same(1,2,4)] running_ok_cong [of ?u s] terminal_cong [OF same(1-3)]
      terminal_cong [of ?u s] same by (simp_all add: arrays_ok_def)
  have len: "unat ?i < length (tty_get_full ?t)" "tty_get_full ?t ! unat ?i = 1"
      "tty_get_buf ?t ! unat ?i = ucast (fst (bus_read P (tty_read_reg P s (current_task s)) (dev s)))"
    using b by (simp_all add: tty_received_def Let_def split_beta assms(2))
  have "k_tty_read_irq P ?t = Ret (1, Some (ucast (fst (bus_read P (tty_read_reg P s (current_task s)) (dev s))))) ?u"
    using tty_read_irq_eq [OF ok(1)] len ok(3) by simp
  moreover have "k_tty_read_irq P ?u = Ret (0, None) ?u"
    using tty_read_irq_eq [OF ok(2)] len ok(4) by simp
  ultimately show ?thesis using isr_tty_get_eq [OF assms(1) task] by blast
qed

theorem tty_irq_delivers_witness:
  "\<exists>t u. k_isr_tty_get_indexed tp3_regs 0 (tp3_start\<lparr>dev := (\<lambda>_. 0x41)\<rparr>) = Ret () t \<and>
    k_tty_read_irq tp3_regs t = Ret (1, Some 0x41) u \<and> k_tty_read_irq tp3_regs u = Ret (0, None) u"
proof -
  let ?s = "tp3_start\<lparr>dev := (\<lambda>_. 0x41)\<rparr>"
  have ok: "running_ok tp3_regs ?s"
    using running_ok_tp3_start running_ok_cong [of ?s tp3_start tp3_regs] by (simp add: arrays_ok_def)
  have task: "current_task ?s = 0" "k_procid ?s = 0"
    by (simp_all add: boot_machine_def tp3_platform_def k_procid_def cpu_of_def current_task_def)
  then have "terminal tp3_regs ?s = k_procid ?s * NB_MAXTASKS tp3_regs + current_task ?s"
    by (simp add: terminal_def tty_slot_def boot_machine_def tp3_platform_def)
  note d = tty_irq_delivers [OF ok this]
  have "bus_read tp3_regs = regs_read" by (simp add: tp3_platform_def)
  with d show ?thesis by (simp add: task regs_read_def)
qed



end
