(* ===== verification/Output.thy ===== *)
theory Output
  imports Drivers
begin

text \<open>
  What a task prints. The theory abstracts from the bus trace of the terminal drivers: a state
  \<open>prints\<close> a text when the terminal of the running task received exactly its characters, no other
  device was accessed and nothing else of the kernel changed. It is stated for a terminal that accepts characters, and it composes, so
  the handlers and the user library can be specified by the text they print.
\<close>

section \<open>Printing\<close>

definition tty_base :: "'d platform \<Rightarrow> 'd machine \<Rightarrow> u32" where
  "tty_base P s = word_at (seg_tty_base P) (terminal P s * TTY_SPAN)"

definition tty_free :: "'d platform \<Rightarrow> 'd machine \<Rightarrow> bool" where
  "tty_free P s \<longleftrightarrow> (\<forall>d. tty_accepts (fst (bus_read P (word_at (tty_base P s) TTY_STATUS) d)))"

fun sent :: "u32 \<Rightarrow> bus_event list \<Rightarrow> u32 list" where
  "sent a [] = []"
| "sent a (Wr b v # es) = (if b = a then v # sent a es else sent a es)"
| "sent a (Rd b v # es) = sent a es"

text \<open>The accesses \<open>es\<close> to the devices, with the values read and the devices afterwards.\<close>

fun bus_run :: "'d platform \<Rightarrow> bus_event list \<Rightarrow> 'd \<Rightarrow> 'd option" where
  "bus_run P [] d = Some d"
| "bus_run P (Rd a v # es) d = (if fst (bus_read P a d) = v then bus_run P es (snd (bus_read P a d)) else None)"
| "bus_run P (Wr a v # es) d = bus_run P es (bus_write P a v d)"

fun bus_addr :: "bus_event \<Rightarrow> u32" where
  "bus_addr (Rd a v) = a"
| "bus_addr (Wr a v) = a"

definition tty_sends :: "'d platform \<Rightarrow> u32 \<Rightarrow> u8 list \<Rightarrow> bus_event list \<Rightarrow> 'd \<Rightarrow> 'd \<Rightarrow> bool" where
  "tty_sends P base cs es d d' \<longleftrightarrow> sent (word_at base TTY_WRITE) es = map char_to_uint cs \<and> bus_run P es d = Some d' \<and>
     bus_addr ` set es \<subseteq> {word_at base TTY_STATUS, word_at base TTY_WRITE}"

definition prints :: "'d platform \<Rightarrow> 'd machine \<Rightarrow> u8 list \<Rightarrow> 'd machine \<Rightarrow> bool" where
  "prints P s cs t \<longleftrightarrow> (\<exists>d es. t = s\<lparr>dev := d, trace := trace s @ es\<rparr> \<and> tty_sends P (tty_base P s) cs es (dev s) d)"

lemma sent_append [simp]: "sent a (es @ fs) = sent a es @ sent a fs"
  by (induction a es rule: sent.induct) auto

lemma bus_run_append: "bus_run P es d = Some d' \<Longrightarrow> bus_run P (es @ fs) d = bus_run P fs d'"
  by (induction P es d rule: bus_run.induct) (auto split: if_splits)

lemma tty_sends_append:
  "tty_sends P a cs es d d' \<Longrightarrow> tty_sends P a ds fs d' d'' \<Longrightarrow> tty_sends P a (cs @ ds) (es @ fs) d d''"
  by (auto simp: tty_sends_def bus_run_append)

lemma tty_sends_Nil: "tty_sends P a [] [] d d"
  by (simp add: tty_sends_def)

lemma prints_frame:
  assumes "prints P s cs t"
  shows "core t = core s" "mem t = mem s" "arrays_ok P t = arrays_ok P s"
    "current_task_array t = current_task_array s" "task_context_array t = task_context_array s"
    "task_number_array t = task_number_array s" "tty_get_buf t = tty_get_buf s" "tty_get_full t = tty_get_full s"
  using assms by (auto simp: prints_def arrays_ok_def)

lemma prints_terminal: "prints P s cs t \<Longrightarrow> terminal P t = terminal P s"
  by (auto simp: prints_def terminal_def k_procid_def current_task_def Let_def)

lemma prints_tty:
  assumes "prints P s cs t"
  shows "tty_base P t = tty_base P s" "tty_free P t = tty_free P s" "running_ok P t = running_ok P s"
  using assms prints_frame [OF assms] prints_terminal [OF assms] running_ok_cong [of t s P]
  by (simp_all add: tty_base_def tty_free_def)

lemma prints_Nil: "prints P s [] s"
  unfolding prints_def by (intro exI [of _ "dev s"] exI [of _ "[]"]) (simp add: tty_sends_Nil)

lemma prints_trans:
  assumes "prints P s cs t" and "prints P t ds u"
  shows "prints P s (cs @ ds) u"
proof -
  note base = prints_tty(1) [OF assms(1)]
  from assms obtain d es d' es' where
    "t = s\<lparr>dev := d, trace := trace s @ es\<rparr>" "tty_sends P (tty_base P s) cs es (dev s) d"
    "u = t\<lparr>dev := d', trace := trace t @ es'\<rparr>" "tty_sends P (tty_base P t) ds es' (dev t) d'"
    by (auto simp: prints_def)
  with base have "u = s\<lparr>dev := d', trace := trace s @ (es @ es')\<rparr>"
    "tty_sends P (tty_base P s) (cs @ ds) (es @ es') (dev s) d'"
    by (auto intro: tty_sends_append)
  then show ?thesis unfolding prints_def by blast
qed

section \<open>The drivers print\<close>

lemma tty_write_loop_accepts:
  assumes "\<forall>d. tty_accepts (fst (bus_read P (word_at a TTY_STATUS) d))"
  shows "\<exists>d es. tty_write_loop P a cs k s = Ret (k + of_nat (length cs)) (s\<lparr>dev := d, trace := trace s @ es\<rparr>) \<and>
    tty_sends P a cs es (dev s) d"
proof (induction cs arbitrary: k s)
  case Nil
  show ?case by (intro exI [of _ "dev s"] exI [of _ "[]"]) (simp add: tty_sends_Nil)
next
  case (Cons c cs)
  let ?S = "word_at a TTY_STATUS" and ?W = "word_at a TTY_WRITE"
  define r where "r = bus_read P ?S (dev s)"
  define es1 where "es1 = [Rd ?S (fst r), Wr ?W (char_to_uint c)]"
  define s' where "s' = s\<lparr>dev := bus_write P ?W (char_to_uint c) (snd r), trace := trace s @ es1\<rparr>"
  have "tty_accepts (fst r)" using assms by (simp add: r_def)
  then have step: "tty_write_loop P a (c # cs) k s = tty_write_loop P a cs (k + 1) s'"
    by (simp add: tty_accepts_def s'_def r_def es1_def)
  have one: "tty_sends P a [c] es1 (dev s) (dev s')"
    by (simp add: tty_sends_def es1_def s'_def r_def)
  obtain d es where es: "tty_write_loop P a cs (k + 1) s'
      = Ret (k + 1 + of_nat (length cs)) (s'\<lparr>dev := d, trace := trace s' @ es\<rparr>)"
    "tty_sends P a cs es (dev s') d"
    using Cons.IH by blast
  have "tty_sends P a (c # cs) (es1 @ es) (dev s) d" using tty_sends_append [OF one es(2)] by simp
  moreover have "tty_write_loop P a (c # cs) k s = Ret (k + of_nat (length (c # cs)))
      (s\<lparr>dev := d, trace := trace s @ (es1 @ es)\<rparr>)"
    using step es(1) by (simp add: s'_def add.assoc)
  ultimately show ?case by blast
qed

lemma tty_write_prints:
  assumes "running_ok P s" and "tty_free P s"
  shows "\<exists>t. k_tty_write P cs s = Ret (of_nat (length cs)) t \<and> prints P s cs t"
  using tty_write_loop_accepts [of P "tty_base P s" cs 0 s] assms(2)
  by (auto simp: k_tty_write_def bnd_simps(1) [where m = "k_tty_id P", OF k_tty_id_running [OF assms(1)]]
      prints_def tty_free_def tty_base_def)

lemma bnd_tty_write_prints:
  assumes "running_ok P s" and "tty_free P s"
  shows "\<exists>t. bnd (k_tty_write P cs) k s = k (of_nat (length cs)) t \<and> prints P s cs t \<and>
    running_ok P t \<and> tty_free P t \<and> core t = core s \<and> mem t = mem s"
  using tty_write_prints [OF assms, of cs] assms prints_tty prints_frame(1,2)
  by (metis bnd_simps(1))

text \<open>A kernel message ends at its first NUL.\<close>

definition c_string :: "u8 list \<Rightarrow> u8 list" where
  "c_string msg = takeWhile (\<lambda>c. c \<noteq> 0) msg"

lemma c_string_id: "0 \<notin> set msg \<Longrightarrow> c_string msg = msg"
  unfolding c_string_def by (rule takeWhile_eq_all_conv [THEN iffD2]) metis

lemma bnd_putk_prints:
  assumes "running_ok P s" and "tty_free P s"
  shows "\<exists>t. bnd (k_putk P msg) k s = k (of_nat (length (c_string msg))) t \<and> prints P s (c_string msg) t \<and>
    running_ok P t \<and> tty_free P t \<and> core t = core s \<and> mem t = mem s"
  using bnd_tty_write_prints [OF assms] by (simp add: k_putk_def c_string_def)

section \<open>Programs that print\<close>

text \<open>An outcome that follows the printing of \<open>cs\<close>: a return with a result, or (\<open>None\<close>) the stop of
  the task. The rules run a program symbolically from a state \<open>good\<close> for printing, whose processor
  registers are \<open>c\<close> and whose memory is \<open>m\<close>.\<close>

definition outputs :: "'d platform \<Rightarrow> 'd machine \<Rightarrow> u8 list \<Rightarrow> 'a option \<Rightarrow> ('a, 'd machine) outcome \<Rightarrow> bool" where
  "outputs P s cs r out \<longleftrightarrow> (\<exists>t. out = (case r of None \<Rightarrow> Halt t | Some a \<Rightarrow> Ret a t) \<and> prints P s cs t)"

definition good :: "'d platform \<Rightarrow> cpu \<Rightarrow> (u32 \<Rightarrow> u8) \<Rightarrow> 'd machine \<Rightarrow> bool" where
  "good P c m s \<longleftrightarrow> running_ok P s \<and> tty_free P s \<and> core s = c \<and> mem s = m"

lemma outputs_ret: "outputs P s [] (Some a) (Ret a s)"
  by (auto simp: outputs_def prints_Nil)

lemma outputs_halt: "outputs P s [] None (Halt s)"
  by (auto simp: outputs_def prints_Nil)

lemma outputs_after: "prints P s cs t \<Longrightarrow> outputs P t ds r out \<Longrightarrow> outputs P s (cs @ ds) r out"
  by (auto simp: outputs_def intro: prints_trans)

lemma outputs_tty_write:
  assumes "good P c m s" and "\<And>t. good P c m t \<Longrightarrow> outputs P t ds r (k (of_nat (length cs)) t)"
  shows "outputs P s (cs @ ds) r (bnd (k_tty_write P cs) k s)"
proof -
  obtain t where t: "bnd (k_tty_write P cs) k s = k (of_nat (length cs)) t" "prints P s cs t"
      "running_ok P t" "tty_free P t" "core t = core s" "mem t = mem s"
    using bnd_tty_write_prints [of P s cs k] assms(1) by (auto simp: good_def)
  have "good P c m t" using t assms(1) by (simp add: good_def)
  from outputs_after [OF t(2) assms(2) [OF this]] t(1) show ?thesis by simp
qed

lemma outputs_putk:
  assumes "good P c m s" and "\<And>t. good P c m t \<Longrightarrow> outputs P t ds r (k (of_nat (length (c_string msg))) t)"
  shows "outputs P s (c_string msg @ ds) r (bnd (k_putk P msg) k s)"
  unfolding k_putk_def c_string_def [symmetric]
  by (rule outputs_tty_write [OF assms(1)]) (rule assms(2))

lemma outputs_gets:
  assumes "good P c m s" and "\<And>t. core t = c \<Longrightarrow> f t = v" and "outputs P s cs r (k v s)"
  shows "outputs P s cs r (bnd (gets f) k s)"
  using assms by (simp add: good_def)

lemma k_procid_cong: "core t = core s \<Longrightarrow> k_procid t = k_procid s"
  by (simp add: k_procid_def)

lemma outputs_exit:
  assumes "good P c m s"
  shows "outputs P s (c_string (exit_message (cp0_procid c AND 0x3FF))) None (k_exit P s)"
proof -
  have "outputs P s (c_string (exit_message (cp0_procid c AND 0x3FF)) @ []) None (k_exit P s)"
    unfolding k_exit_def
    by (rule outputs_gets [OF assms, of k_procid]) (simp add: k_procid_def, rule outputs_putk [OF assms],
        simp add: outputs_halt)
  then show ?thesis by simp
qed

text \<open>Devices whose registers always read 0: their terminals accept every character. The examples
  start from the boot state with given processor registers.\<close>

definition quiet_read :: "u32 \<Rightarrow> unit \<Rightarrow> u32 \<times> unit" where
  "quiet_read a d = (0, d)"

definition quiet_write :: "u32 \<Rightarrow> u32 \<Rightarrow> unit \<Rightarrow> unit" where
  "quiet_write a v d = d"

abbreviation "tp3_quiet \<equiv> tp3_platform quiet_read quiet_write id"
abbreviation "quiet_start c m \<equiv> boot_machine tp3_quiet c m ()"

lemma good_quiet_start:
  assumes "cp0_procid c = 0"
  shows "good tp3_quiet c m (quiet_start c m)"
proof -
  have "running_ok tp3_quiet (quiet_start c m)"
    using arrays_ok_boot [of tp3_quiet c m "()"] config_ok_tp3 assms
    by (simp add: running_ok_def current_task_def k_procid_def boot_machine_def tp3_platform_def)
  moreover have "tty_free tp3_quiet (quiet_start c m)"
    by (simp add: tty_free_def tty_accepts_def tp3_platform_def quiet_read_def)
  ultimately show ?thesis by (simp add: good_def boot_machine_def)
qed

end
