(* ===== verification/Exc.thy ===== *)
theory Exc
  imports Output
begin

text \<open>
  The exceptions of \<open>giet_2011/sys/exc_handler.c\<close> and the entry point \<open>_giet\<close> of
  \<open>giet_2011/sys/giet.s\<close>, which indexes \<open>_cause_vector\<close> with the exception code of the cause
  register. A fatal exception prints a report and stops the task.
\<close>

section \<open>The entry point\<close>

datatype exc_func = Int_handler | Sys_handler | Cause_ukn | Cause_adel | Cause_ades | Cause_ibe
  | Cause_dbe | Cause_bp | Cause_ri | Cause_cpu | Cause_ovf

definition cause_vector :: "exc_func list" where
  "cause_vector =
     [Int_handler, Cause_ukn, Cause_ukn, Cause_ukn,
      Cause_adel, Cause_ades, Cause_ibe, Cause_dbe,
      Sys_handler, Cause_bp, Cause_ri, Cause_cpu,
      Cause_ovf, Cause_ukn, Cause_ukn, Cause_ukn]"

text \<open>\<open>_giet\<close> adds the masked cause register, a byte offset, to the base of the vector.\<close>

definition giet_entry :: "u32 \<Rightarrow> exc_func" where
  "giet_entry cr = cause_vector ! (unat (cr AND 0x3c) div 4)"

section \<open>The exception reports\<close>

text \<open>The initialiser has nine literals, but no comma separates the last two: the compiler joins
  them, and the array has eight elements.\<close>

definition exc_message_causes :: "u8 list list" where
  "exc_message_causes =
     [newline # newline # ascii ''Exception : strange unknown cause'' @ [newline],
      newline # newline # ascii ''Exception : illegal read address '' @ [newline],
      newline # newline # ascii ''Exception : illegal write address'' @ [newline],
      newline # newline # ascii ''Exception : inst bus error       '' @ [newline],
      newline # newline # ascii ''Exception : data bus error       '' @ [newline],
      newline # newline # ascii ''Exception : breakpoint           '' @ [newline],
      newline # newline # ascii ''Exception : reserved instruction '' @ [newline],
      newline # newline # ascii ''Exception : illegal coproc access'' @ newline
        # newline # newline # ascii ''Exception : arithmetic overflow  '' @ [newline]]"

text \<open>\<open>_itoa_hex(v, buf + 2); _putk(buf)\<close> on a buffer that holds a text of ten characters. The
  conversion overwrites the last eight of them each time.\<close>

definition k_put_hex :: "'d platform \<Rightarrow> u32 \<Rightarrow> ('d machine, unit) prog" where
  "k_put_hex P v =
     (let buf = ascii ''0x00000000'' @ [0] in
      case k_itoa_hex v (drop 2 buf) of None \<Rightarrow> undef
      | Some digits \<Rightarrow> bnd (k_putk P (take 2 buf @ digits)) (\<lambda>_. ret ()))"

definition k_cause :: "'d platform \<Rightarrow> u32 \<Rightarrow> ('d machine, 'a) prog" where
  "k_cause P msg_cause =
     (if \<not> unat msg_cause < length exc_message_causes then undef
      else
        bnd (k_putk P (exc_message_causes ! unat msg_cause)) (\<lambda>_.
        bnd (k_putk P (newline # ascii ''EPC = '')) (\<lambda>_.
        bnd (gets k_get_epc) (\<lambda>epc.
        bnd (k_put_hex P epc) (\<lambda>_.
        bnd (k_putk P (newline # ascii ''BAR = '')) (\<lambda>_.
        bnd (gets k_get_bar) (\<lambda>bar.
        bnd (k_put_hex P bar) (\<lambda>_.
        bnd (k_putk P (newline # ascii ''CAUSE = '')) (\<lambda>_.
        bnd (gets k_get_cause) (\<lambda>cause.
        bnd (k_put_hex P cause) (\<lambda>_.
        k_exit P)))))))))))"

text \<open>The message index with which each handler calls \<open>_cause\<close>; the two entries that are not
  fatal have none.\<close>

primrec msg_cause :: "exc_func \<Rightarrow> u32 option" where
  "msg_cause Int_handler = None"
| "msg_cause Sys_handler = None"
| "msg_cause Cause_ukn = Some 0"
| "msg_cause Cause_adel = Some 1"
| "msg_cause Cause_ades = Some 2"
| "msg_cause Cause_ibe = Some 3"
| "msg_cause Cause_dbe = Some 4"
| "msg_cause Cause_bp = Some 5"
| "msg_cause Cause_ri = Some 6"
| "msg_cause Cause_cpu = Some 7"
| "msg_cause Cause_ovf = Some 8"

section \<open>What a report prints\<close>

definition has_F :: "u32 \<Rightarrow> bool" where
  "has_F v \<longleftrightarrow> (\<exists>j<8. nibble (unat v) j = 15)"

text \<open>The text \<open>k_put_hex\<close> prints: up to the first digit E, which is a NUL.\<close>

definition hex_text :: "u32 \<Rightarrow> u8 list" where
  "hex_text v = c_string (ascii ''0x'' @ fixed_digits 16 ((!) hexatab) 8 (unat v) @ [0])"

definition cause_text :: "nat \<Rightarrow> u32 \<Rightarrow> u32 \<Rightarrow> u32 \<Rightarrow> u32 \<Rightarrow> u8 list" where
  "cause_text k epc bar cr procid =
     c_string (exc_message_causes ! k) @ newline # ascii ''EPC = '' @ hex_text epc
     @ newline # ascii ''BAR = '' @ hex_text bar @ newline # ascii ''CAUSE = '' @ hex_text cr
     @ c_string (exit_message procid)"

lemma put_hex_undef: "has_F v \<Longrightarrow> k_put_hex P v s = Ub s"
  by (auto simp: k_put_hex_def has_F_def itoa_hex_eq ascii_def)

lemma bnd_put_hex:
  assumes "running_ok P s" and "tty_free P s" and "\<not> has_F v"
  shows "\<exists>t. bnd (k_put_hex P v) k s = k () t \<and> prints P s (hex_text v) t \<and>
    running_ok P t \<and> tty_free P t \<and> core t = core s \<and> mem t = mem s"
proof -
  have "k_itoa_hex v (drop 2 (ascii ''0x00000000'' @ [0]))
      = Some (fixed_digits 16 ((!) hexatab) 8 (unat v) @ [0])"
    using assms(3) by (auto simp: has_F_def itoa_hex_eq ascii_def)
  then have "k_put_hex P v
      = bnd (k_putk P (ascii ''0x'' @ fixed_digits 16 ((!) hexatab) 8 (unat v) @ [0])) (\<lambda>_. ret ())"
    unfolding k_put_hex_def Let_def by (simp add: ascii_def)
  then show ?thesis
    using bnd_putk_prints [OF assms(1,2), of _ "\<lambda>_. k ()"] by (simp add: bnd_assoc hex_text_def)
qed

lemma no_nul_labels:
  "c_string (newline # ascii ''EPC = '') = newline # ascii ''EPC = ''"
  "c_string (newline # ascii ''BAR = '') = newline # ascii ''BAR = ''"
  "c_string (newline # ascii ''CAUSE = '') = newline # ascii ''CAUSE = ''"
  by (rule c_string_id, simp add: ascii_def)+

lemma outputs_put_hex:
  assumes "good P c m s" and "\<not> has_F v" and "\<And>t. good P c m t \<Longrightarrow> outputs P t ds r (k () t)"
  shows "outputs P s (hex_text v @ ds) r (bnd (k_put_hex P v) k s)"
proof -
  obtain t where t: "bnd (k_put_hex P v) k s = k () t" "prints P s (hex_text v) t"
      "running_ok P t" "tty_free P t" "core t = core s" "mem t = mem s"
    using bnd_put_hex [of P s v k] assms(1,2) by (auto simp: good_def)
  have "good P c m t" using t assms(1) by (simp add: good_def)
  from outputs_after [OF t(2) assms(3) [OF this]] t(1) show ?thesis by simp
qed

lemma outputs_label:
  assumes "good P c m s" and "c_string l = l" and "\<And>t. good P c m t \<Longrightarrow> outputs P t ds r (k (of_nat (length l)) t)"
  shows "outputs P s (l @ ds) r (bnd (k_putk P l) k s)"
  using outputs_putk [OF assms(1), of ds r k l] assms(2,3) by simp

lemma outputs_regs:
  assumes "good P c m s"
  shows "outputs P s cs r (k (cp0_epc c) s) \<Longrightarrow> outputs P s cs r (bnd (gets k_get_epc) k s)"
    and "outputs P s cs r (k (cp0_bar c) s) \<Longrightarrow> outputs P s cs r (bnd (gets k_get_bar) k s)"
    and "outputs P s cs r (k (cp0_cr c) s) \<Longrightarrow> outputs P s cs r (bnd (gets k_get_cause) k s)"
  using assms by (simp_all add: good_def k_get_epc_def k_get_bar_def k_get_cause_def)

lemma cause_outputs:
  assumes "good P c m s" and "unat k < 8" and "\<not> has_F (cp0_epc c)" "\<not> has_F (cp0_bar c)" "\<not> has_F (cp0_cr c)"
  shows "outputs P s (cause_text (unat k) (cp0_epc c) (cp0_bar c) (cp0_cr c) (cp0_procid c AND 0x3FF)) None (k_cause P k s)"
proof -
  have len: "unat k < length exc_message_causes" using assms(2) by (simp add: exc_message_causes_def)
  show ?thesis
    unfolding k_cause_def cause_text_def append_Cons [symmetric]
    using len assms(3-5)
    by (simp only: not_not if_False simp_thms)
      (rule outputs_putk [OF assms(1)],
       ((rule outputs_regs(1), assumption) | (rule outputs_regs(2), assumption) | (rule outputs_regs(3), assumption)
        | erule outputs_label [OF _ no_nul_labels(1)] | erule outputs_label [OF _ no_nul_labels(2)]
        | erule outputs_label [OF _ no_nul_labels(3)] | (erule outputs_put_hex, assumption) | erule outputs_exit)+)
qed

text \<open>Only the overflow exception has a message index outside the table.\<close>

lemma msg_cause_12:
  assumes "x < 16" and "msg_cause (cause_vector ! x) = Some k"
  shows "unat k < 8 \<longleftrightarrow> x \<noteq> 12"
  using assms(1)
proof (cases rule: less_16_cases)
  case 1
  then show ?thesis using assms(2) by (cases rule: less_10_cases) (auto simp: cause_vector_def)
qed (use assms(2) in \<open>auto simp: cause_vector_def\<close>)

section \<open>Undefined reports\<close>

definition undefined_out :: "('a, 's) outcome \<Rightarrow> bool" where
  "undefined_out out \<longleftrightarrow> (\<exists>t. out = Ub t)"

lemma undefined_putk:
  assumes "good P c m s" and "\<And>t n. good P c m t \<Longrightarrow> undefined_out (k n t)"
  shows "undefined_out (bnd (k_putk P msg) k s)"
  using bnd_putk_prints [of P s msg k] assms by (fastforce simp: good_def)

lemma undefined_put_hex:
  assumes "good P c m s" and "\<And>t. \<not> has_F v \<Longrightarrow> good P c m t \<Longrightarrow> undefined_out (k () t)"
  shows "undefined_out (bnd (k_put_hex P v) k s)"
proof (cases "has_F v")
  case True
  then show ?thesis by (auto simp: undefined_out_def bnd_simps(2) [where m = "k_put_hex _ _", OF put_hex_undef])
next
  case False
  with assms bnd_put_hex [of P s v k] show ?thesis by (fastforce simp: good_def)
qed

lemma undefined_regs:
  assumes "good P c m s"
  shows "undefined_out (k (cp0_epc c) s) \<Longrightarrow> undefined_out (bnd (gets k_get_epc) k s)"
    and "undefined_out (k (cp0_bar c) s) \<Longrightarrow> undefined_out (bnd (gets k_get_bar) k s)"
    and "undefined_out (k (cp0_cr c) s) \<Longrightarrow> undefined_out (bnd (gets k_get_cause) k s)"
  using assms by (simp_all add: good_def k_get_epc_def k_get_bar_def k_get_cause_def)

lemma cause_undefined:
  assumes "good P c m s" and "8 \<le> unat k \<or> has_F (cp0_epc c) \<or> has_F (cp0_bar c) \<or> has_F (cp0_cr c)"
  shows "undefined_out (k_cause P k s)"
proof (cases "unat k < length exc_message_causes")
  case False
  then show ?thesis by (simp add: k_cause_def undefined_out_def)
next
  case True
  with assms(2) have F: "has_F (cp0_epc c) \<or> has_F (cp0_bar c) \<or> has_F (cp0_cr c)"
    by (auto simp: exc_message_causes_def)
  show ?thesis
    unfolding k_cause_def using True
    by (simp only: not_not if_False simp_thms)
      (rule undefined_putk [OF assms(1)],
       ((rule undefined_regs(1), assumption) | (rule undefined_regs(2), assumption) | (rule undefined_regs(3), assumption)
        | erule undefined_putk | erule undefined_put_hex | (use F in blast))+)
qed

section \<open>Properties\<close>

text \<open>C31. The report of a fatal exception: for every value of the cause register whose exception code
  is neither an interrupt (0) nor a system call (8), the task is stopped after printing on its terminal
  the message of the cause, EPC, BAR and CAUSE in hexadecimal and the exit message; unless the code is
  12 (arithmetic overflow), whose message is missing from the table, or one of the three registers has
  a hexadecimal digit F: then the handler reads outside a table.\<close>

theorem exception_report:
  assumes "running_ok P s" and "tty_free P s"
    and "msg_cause (giet_entry (k_get_cause s)) = Some k"
  shows "if unat (drop_bit 2 (k_get_cause s)) mod 16 = 12 \<or> has_F (k_get_epc s) \<or> has_F (k_get_bar s) \<or> has_F (k_get_cause s)
    then \<exists>t. (k_cause P k s :: (unit, _) outcome) = Ub t
    else outputs P s (cause_text (unat k) (k_get_epc s) (k_get_bar s) (k_get_cause s) (k_procid s))
      None (k_cause P k s :: (unit, _) outcome)"
proof -
  let ?c = "core s" and ?x = "unat (drop_bit 2 (k_get_cause s)) mod 16"
  have g: "good P ?c (mem s) s" using assms(1,2) by (simp add: good_def)
  have "unat (k_get_cause s AND 0x3c) div 4 = ?x"
  proof -
    have "drop_bit 2 (k_get_cause s AND 0x3c) = take_bit 4 (drop_bit 2 (k_get_cause s))"
      by (rule bit_word_eqI) (auto simp: bit_simps less_Suc_eq numeral_eq_Suc)
    then have "unat (drop_bit 2 (k_get_cause s AND 0x3c)) = ?x"
      by (simp add: take_bit_eq_mod unat_mod_distrib)
    then show ?thesis by (simp add: drop_bit_eq_div unat_div_distrib)
  qed
  then have entry: "giet_entry (k_get_cause s) = cause_vector ! ?x" by (simp add: giet_entry_def)
  have k: "unat k < 8 \<longleftrightarrow> ?x \<noteq> 12"
    using assms(3) unfolding entry by (intro msg_cause_12) simp_all
  show ?thesis
    using cause_undefined [OF g, of k] cause_outputs [OF g, of k] k
    by (auto simp: undefined_out_def k_get_epc_def k_get_bar_def k_get_cause_def k_procid_def not_less)
qed

text \<open>Code 11 (illegal coprocessor access) on the start state: the report begins with two messages.\<close>

theorem exception_report_witness:
  "outputs tp3_quiet (quiet_start ((cpu_of 0)\<lparr>cp0_cr := 0x2C\<rparr>) (\<lambda>_. 0)) (cause_text 7 0 0 0x2C 0) None
     (k_cause tp3_quiet 7 (quiet_start ((cpu_of 0)\<lparr>cp0_cr := 0x2C\<rparr>) (\<lambda>_. 0)) :: (unit, _) outcome)"
proof -
  let ?s = "quiet_start ((cpu_of 0)\<lparr>cp0_cr := 0x2C\<rparr>) (\<lambda>_. 0)"
  have ok: "running_ok tp3_quiet ?s" "tty_free tp3_quiet ?s"
    using good_quiet_start [of "(cpu_of 0)\<lparr>cp0_cr := 0x2C\<rparr>" "\<lambda>_. 0"] by (simp_all add: good_def cpu_of_def)
  have regs: "k_get_cause ?s = 0x2C" "k_get_epc ?s = 0" "k_get_bar ?s = 0" "k_procid ?s = 0"
    by (simp_all add: k_get_cause_def k_get_epc_def k_get_bar_def k_procid_def cpu_of_def boot_machine_def)
  have "\<not> has_F 0" "\<not> has_F 0x2C"
    by (auto simp: has_F_def nibble_def elim!: less_8_cases)
  moreover have "msg_cause (giet_entry 0x2C) = Some 7"
    by (simp add: giet_entry_def cause_vector_def)
  moreover have "unat (drop_bit 2 (0x2C :: u32)) mod 16 = 11" by (simp add: drop_bit_eq_div)
  ultimately show ?thesis
    using exception_report [OF ok, of 7] by (simp add: regs)
qed

end
