(* ===== verification/Barrier.thy ===== *)
theory Barrier
  imports Exc
begin

text \<open>
  The barriers of \<open>giet_2011/sys/common.c\<close>, twice: as the kernel calls one processor makes, and
  instruction by instruction for several tasks that share one barrier, with LL/SC links and every
  interleaving. A store conditional succeeds exactly when no other task has written the word since
  the load linked.
\<close>

section \<open>The kernel calls\<close>

definition k_barrier_init :: "u32 \<Rightarrow> u32 \<Rightarrow> ('d machine, u32) prog" where
  "k_barrier_init index v =
     (if index \<ge> MAX_BARRIER_COUNT then ret 1
      else bnd (aread barrier_initial_value index) (\<lambda>init.
        if init \<noteq> 0 then ret 0
        else bnd (awrite barrier_initial_value barrier_initial_value_update index v) (\<lambda>_.
             bnd (awrite barrier_count barrier_count_update index v) (\<lambda>_. ret 0))))"

text \<open>The decrement is an \<open>addi\<close>, which traps on signed overflow.\<close>

definition k_barrier_wait :: "'d platform \<Rightarrow> u32 \<Rightarrow> ('d machine, u32) prog" where
  "k_barrier_wait P index =
     (if index \<ge> MAX_BARRIER_COUNT then ret 1
      else bnd (aread barrier_initial_value index) (\<lambda>maxcount.
        bnd (aread barrier_count index) (\<lambda>count.
        if count = 0x80000000 then k_cause P 8
        else
          bnd (awrite barrier_count barrier_count_update index (count - 1)) (\<lambda>_.
          bnd (if count = 1 then awrite barrier_count barrier_count_update index maxcount
               else spin (\<lambda>s. barrier_count s ! unat index \<noteq> maxcount) (others P)) (\<lambda>_.
          ret 0)))))"

section \<open>Instruction by instruction\<close>

text \<open>The program points of a task: in \<open>_barrier_init\<close>, before the load linked, before the store
  conditional, before the store of the count; in \<open>_barrier_wait\<close>, before the load of the initial
  value, before the load linked, before the store conditional, before the store of the last task, in
  the polling loop, and after the return. \<open>W_trap\<close> is the overflow exception.\<close>

datatype bar_pc = I_ll | I_sc u32 | I_sw | W_start | W_ll u32 | W_sc u32 u32 | W_last u32 | W_spin u32
  | W_done | W_trap

record bar_state =
  bar_initial :: u32
  bar_count :: u32
  links :: "bool list"
  pcs :: "bar_pc list"
  uses :: "nat list"     \<comment> \<open>how often each task will call \<open>_barrier_wait\<close> again\<close>

definition goto :: "nat \<Rightarrow> bar_pc \<Rightarrow> bar_state \<Rightarrow> bar_state" where
  "goto i pc s = s\<lparr>pcs := (pcs s)[i := pc]\<rparr>"

definition unlink :: "bar_state \<Rightarrow> bar_state" where
  "unlink s = s\<lparr>links := map (\<lambda>_. False) (links s)\<rparr>"

definition set_link :: "nat \<Rightarrow> bar_state \<Rightarrow> bar_state" where
  "set_link i s = s\<lparr>links := (links s)[i := True]\<rparr>"

text \<open>The next instruction of task \<open>i\<close>, for the barrier value \<open>v\<close> that all tasks give to
  \<open>_barrier_init\<close>.\<close>

definition bar_task_step :: "u32 \<Rightarrow> nat \<Rightarrow> bar_state \<Rightarrow> bar_state" where
  "bar_task_step v i s = (case pcs s ! i of
     I_ll \<Rightarrow> goto i (I_sc (bar_initial s)) (set_link i s)
   | I_sc c \<Rightarrow> if c \<noteq> 0 then goto i W_start s
             else if links s ! i then goto i I_sw (unlink (s\<lparr>bar_initial := v\<rparr>))
             else goto i I_ll s
   | I_sw \<Rightarrow> goto i W_start (unlink (s\<lparr>bar_count := v\<rparr>))
   | W_start \<Rightarrow> goto i (W_ll (bar_initial s)) s
   | W_ll m \<Rightarrow> goto i (W_sc m (bar_count s)) (set_link i s)
   | W_sc m c \<Rightarrow> if c = 0x80000000 then goto i W_trap s
               else if links s ! i
                    then goto i (if c = 1 then W_last m else W_spin m) (unlink (s\<lparr>bar_count := c - 1\<rparr>))
               else goto i (W_ll m) s
   | W_last m \<Rightarrow> goto i W_done (unlink (s\<lparr>bar_count := m\<rparr>))
   | W_spin m \<Rightarrow> if bar_count s \<noteq> m then s else goto i W_done s
   | W_done \<Rightarrow> if uses s ! i = 0 then s else goto i W_start (s\<lparr>uses := (uses s)[i := uses s ! i - 1]\<rparr>)
   | W_trap \<Rightarrow> s)"

definition bar_step :: "u32 \<Rightarrow> bar_state \<Rightarrow> bar_state \<Rightarrow> bool" where
  "bar_step v s t \<longleftrightarrow> (\<exists>i<length (pcs s). t = bar_task_step v i s)"

text \<open>A schedule is the list of the tasks that execute an instruction.\<close>

definition bar_run :: "u32 \<Rightarrow> nat list \<Rightarrow> bar_state \<Rightarrow> bar_state" where
  "bar_run v sched s = fold (bar_task_step v) sched s"

lemma bar_task_step_length [simp]:
  "length (pcs (bar_task_step v i s)) = length (pcs s)"
  "length (links (bar_task_step v i s)) = length (links s)"
  by (simp_all add: bar_task_step_def goto_def unlink_def set_link_def split: bar_pc.split)

lemma bar_run_reaches: "\<forall>i\<in>set sched. i < length (pcs s) \<Longrightarrow> (bar_step v)\<^sup>*\<^sup>* s (bar_run v sched s)"
proof (induction sched arbitrary: s)
  case Nil
  show ?case by (simp add: bar_run_def)
next
  case (Cons i sched)
  then have "bar_step v s (bar_task_step v i s)" by (auto simp: bar_step_def)
  moreover have "(bar_step v)\<^sup>*\<^sup>* (bar_task_step v i s) (bar_run v sched (bar_task_step v i s))"
    using Cons by simp
  ultimately show ?case by (simp add: bar_run_def converse_rtranclp_into_rtranclp)
qed

section \<open>One use of an initialised barrier\<close>

text \<open>All \<open>n\<close> tasks are about to wait, once, on a barrier initialised to \<open>n\<close>.\<close>

definition bar_ready :: "nat \<Rightarrow> bar_state \<Rightarrow> bool" where
  "bar_ready n s \<longleftrightarrow> pcs s = replicate n W_start \<and> links s = replicate n False \<and> uses s = replicate n 0 \<and>
     bar_initial s = of_nat n \<and> bar_count s = of_nat n \<and> 0 < n \<and> n < 2 ^ 31"

definition arrived :: "bar_pc \<Rightarrow> bool" where
  "arrived pc = (case pc of W_last m \<Rightarrow> True | W_spin m \<Rightarrow> True | W_done \<Rightarrow> True | _ \<Rightarrow> False)"

definition is_last :: "bar_pc \<Rightarrow> bool" where
  "is_last pc = (case pc of W_last m \<Rightarrow> True | _ \<Rightarrow> False)"

definition is_done :: "bar_pc \<Rightarrow> bool" where
  "is_done pc \<longleftrightarrow> pc = W_done"

definition cnt :: "('a \<Rightarrow> bool) \<Rightarrow> 'a list \<Rightarrow> nat" where
  "cnt p xs = length (filter p xs)"

text \<open>Program points of a task that waits on a barrier of \<open>n\<close>, given the current count and link.\<close>

definition pc_ok :: "u32 \<Rightarrow> u32 \<Rightarrow> bool \<Rightarrow> bar_pc \<Rightarrow> bool" where
  "pc_ok n c l pc = (case pc of
     W_start \<Rightarrow> True | W_ll m \<Rightarrow> m = n
   | W_sc m c' \<Rightarrow> m = n \<and> unat c' \<le> unat n \<and> (l \<longrightarrow> c' = c) | W_last m \<Rightarrow> m = n
   | W_spin m \<Rightarrow> m = n | W_done \<Rightarrow> True | _ \<Rightarrow> False)"

definition bar_inv :: "nat \<Rightarrow> bar_state \<Rightarrow> bool" where
  "bar_inv n s \<longleftrightarrow> 0 < n \<and> n < 2 ^ 31 \<and> length (pcs s) = n \<and> length (links s) = n \<and> uses s = replicate n 0 \<and>
     bar_initial s = of_nat n \<and>
     (\<forall>i<n. pc_ok (of_nat n) (bar_count s) (links s ! i) (pcs s ! i)) \<and>
     (if 0 < cnt is_done (pcs s)
      then cnt arrived (pcs s) = n \<and> cnt is_last (pcs s) = 0 \<and> bar_count s = of_nat n
      else bar_count s = of_nat (n - cnt arrived (pcs s)) \<and>
           cnt is_last (pcs s) = (if cnt arrived (pcs s) = n then 1 else 0))"

lemma cnt_update:
  assumes "i < length xs"
  shows "cnt p (xs[i := v]) + of_bool (p (xs ! i)) = cnt p xs + of_bool (p v)"
  using assms
proof (induction xs arbitrary: i)
  case Nil
  then show ?case by simp
next
  case (Cons x xs)
  then show ?case by (cases i) (auto simp: cnt_def)
qed

lemma cnt_le: "cnt p xs \<le> length xs"
  by (simp add: cnt_def)

lemma cnt_all: "cnt p xs = length xs \<longleftrightarrow> (\<forall>x\<in>set xs. p x)"
  unfolding cnt_def by (metis length_filter_less filter_True less_irrefl)

lemma cnt_pos: "0 < cnt p xs \<longleftrightarrow> (\<exists>x\<in>set xs. p x)"
  by (auto simp: cnt_def filter_empty_conv)

lemma bar_inv_ready: "bar_ready n s \<Longrightarrow> bar_inv n s"
  by (auto simp: bar_ready_def bar_inv_def pc_ok_def cnt_def arrived_def is_last_def is_done_def)

lemmas pc_simps = pc_ok_def arrived_def is_last_def is_done_def

text \<open>The invariant, for a task that executes one instruction of the part before its arrival.\<close>

lemma bar_inv_local:
  assumes inv: "bar_inv n s" and i: "i < n" and "\<not> arrived (pcs s ! i)" "\<not> arrived pc"
    and ok: "pc_ok (of_nat n) (bar_count s) (ls ! i) pc" and "length ls = n"
    and same: "\<And>j. j < n \<Longrightarrow> j \<noteq> i \<Longrightarrow> ls ! j = links s ! j"
  shows "bar_inv n (s\<lparr>links := ls, pcs := (pcs s)[i := pc]\<rparr>)"
proof -
  have len: "length (pcs s) = n" using inv by (simp add: bar_inv_def)
  have "\<not> is_last (pcs s ! i)" "\<not> is_last pc" "\<not> is_done (pcs s ! i)" "\<not> is_done pc"
    using assms(3,4) by (auto simp: pc_simps split: bar_pc.splits)
  then have "cnt arrived ((pcs s)[i := pc]) = cnt arrived (pcs s)"
    "cnt is_last ((pcs s)[i := pc]) = cnt is_last (pcs s)" "cnt is_done ((pcs s)[i := pc]) = cnt is_done (pcs s)"
    using cnt_update [of i "pcs s" arrived pc] cnt_update [of i "pcs s" is_last pc]
      cnt_update [of i "pcs s" is_done pc] i len assms(3,4) by simp_all
  moreover have "\<forall>j<n. pc_ok (of_nat n) (bar_count s) (ls ! j) ((pcs s)[i := pc] ! j)"
    using inv ok same len i by (auto simp: bar_inv_def nth_list_update)
  ultimately show ?thesis using inv assms(6) by (simp add: bar_inv_def)
qed

text \<open>A task that writes the count: the other tasks lose their links, so what they read before
  does not matter any more.\<close>

lemma pc_ok_unlink: "pc_ok n c l pc \<Longrightarrow> pc_ok n c' False pc"
  by (auto simp: pc_ok_def split: bar_pc.splits)

lemma bar_inv_store:
  assumes inv: "bar_inv n s" and i: "i < n" and pc: "pc_ok (of_nat n) c False pc"
    and phase: "if 0 < cnt is_done ((pcs s)[i := pc])
      then cnt arrived ((pcs s)[i := pc]) = n \<and> cnt is_last ((pcs s)[i := pc]) = 0 \<and> c = of_nat n
      else c = of_nat (n - cnt arrived ((pcs s)[i := pc])) \<and>
           cnt is_last ((pcs s)[i := pc]) = (if cnt arrived ((pcs s)[i := pc]) = n then 1 else 0)"
  shows "bar_inv n (goto i pc (unlink (s\<lparr>bar_count := c\<rparr>)))"
proof -
  have "\<forall>j<n. pc_ok (of_nat n) c False ((pcs s)[i := pc] ! j)"
  proof (intro allI impI)
    fix j assume "j < n"
    then have "pc_ok (of_nat n) c False (pcs s ! j)" "length (pcs s) = n"
      using inv pc_ok_unlink by (auto simp: bar_inv_def)
    with pc i show "pc_ok (of_nat n) c False ((pcs s)[i := pc] ! j)" by (simp add: nth_list_update)
  qed
  then show ?thesis
    using inv phase by (simp add: bar_inv_def goto_def unlink_def cong: if_cong)
qed

text \<open>What the invariant says of the count before the barrier opens.\<close>

lemma bar_inv_count:
  assumes "bar_inv n s" and "i < n" and "\<not> arrived (pcs s ! i)"
  shows "cnt arrived (pcs s) < n" "cnt is_done (pcs s) = 0" "cnt is_last (pcs s) = 0"
    "unat (bar_count s) = n - cnt arrived (pcs s)"
proof -
  have len: "length (pcs s) = n" using assms(1) by (simp add: bar_inv_def)
  have "cnt arrived (pcs s) \<noteq> n"
    using assms(2,3) len cnt_all [of arrived "pcs s"] by auto
  with cnt_le [of arrived "pcs s"] len show lt: "cnt arrived (pcs s) < n" by simp
  with assms(1) show "cnt is_done (pcs s) = 0" "cnt is_last (pcs s) = 0"
    by (auto simp: bar_inv_def split: if_splits)
  with assms(1) have "bar_count s = of_nat (n - cnt arrived (pcs s))" "n < 2 ^ 31"
    by (auto simp: bar_inv_def)
  moreover from this(2) have "n - cnt arrived (pcs s) < 2 ^ 32" by simp
  ultimately show "unat (bar_count s) = n - cnt arrived (pcs s)" using unat_of_nat_u32 by metis
qed

text \<open>The successful store conditional: one more task has arrived.\<close>

lemma bar_inv_decrement:
  assumes inv: "bar_inv n s" and i: "i < n" and sc: "pcs s ! i = W_sc m c" and link: "links s ! i"
  shows "bar_inv n (goto i (if c = 1 then W_last m else W_spin m) (unlink (s\<lparr>bar_count := c - 1\<rparr>)))"
proof (rule bar_inv_store [OF inv i])
  let ?pc = "if c = 1 then W_last m else W_spin m" and ?a = "cnt arrived (pcs s)"
  have len: "length (pcs s) = n" and n: "n < 2 ^ 31" using inv by (auto simp: bar_inv_def)
  have "pc_ok (of_nat n) (bar_count s) (links s ! i) (pcs s ! i)" using inv i by (simp add: bar_inv_def)
  with sc link have m: "m = of_nat n" and c: "c = bar_count s" by (simp_all add: pc_ok_def)
  show "pc_ok (of_nat n) (c - 1) False ?pc" using m by (simp add: pc_ok_def)
  have na: "\<not> arrived (pcs s ! i)" "\<not> is_last (pcs s ! i)" "\<not> is_done (pcs s ! i)" by (simp_all add: sc pc_simps)
  note b = bar_inv_count [OF inv i na(1)]
  have up: "cnt arrived ((pcs s)[i := ?pc]) = ?a + 1" "cnt is_done ((pcs s)[i := ?pc]) = 0"
    "cnt is_last ((pcs s)[i := ?pc]) = of_bool (c = 1)"
    using cnt_update [of i "pcs s" arrived ?pc] cnt_update [of i "pcs s" is_last ?pc]
      cnt_update [of i "pcs s" is_done ?pc] i len na b by (auto simp: pc_simps)
  have one: "c = 1 \<longleftrightarrow> n - ?a = 1" using b(4) c by (metis unat_1 word_unat_eq_iff)
  have "unat (c - 1) = n - (?a + 1)"
    using b(1,4) c by (subst unat_minus_one) (auto simp: unat_eq_zero)
  moreover have "unat (of_nat (n - (?a + 1)) :: u32) = n - (?a + 1)"
    using n by (intro unat_of_nat_u32) simp
  ultimately have "c - 1 = of_nat (n - (?a + 1))" by (metis word_unat_eq_iff)
  with up one b(1) show "if 0 < cnt is_done ((pcs s)[i := ?pc])
      then cnt arrived ((pcs s)[i := ?pc]) = n \<and> cnt is_last ((pcs s)[i := ?pc]) = 0 \<and> c - 1 = of_nat n
      else c - 1 = of_nat (n - cnt arrived ((pcs s)[i := ?pc])) \<and>
           cnt is_last ((pcs s)[i := ?pc]) = (if cnt arrived ((pcs s)[i := ?pc]) = n then 1 else 0)"
    by auto
qed

text \<open>The last task reopens the barrier, and the others see it.\<close>

lemma bar_inv_reopen:
  assumes inv: "bar_inv n s" and i: "i < n" and last: "pcs s ! i = W_last m"
  shows "bar_inv n (goto i W_done (unlink (s\<lparr>bar_count := m\<rparr>)))"
proof (rule bar_inv_store [OF inv i])
  have len: "length (pcs s) = n" using inv by (simp add: bar_inv_def)
  have "pc_ok (of_nat n) (bar_count s) (links s ! i) (pcs s ! i)" using inv i by (simp add: bar_inv_def)
  with last have m: "m = of_nat n" by (simp add: pc_ok_def)
  have "\<exists>x\<in>set (pcs s). is_last x" using last i len nth_mem [of i "pcs s"] by (intro bexI [of _ "pcs s ! i"]) (auto simp: is_last_def)
  then have "0 < cnt is_last (pcs s)" by (simp add: cnt_pos)
  with inv have all: "cnt arrived (pcs s) = n" "cnt is_last (pcs s) = 1"
    by (auto simp: bar_inv_def split: if_splits)
  have "cnt arrived ((pcs s)[i := W_done]) = n" "cnt is_last ((pcs s)[i := W_done]) = 0"
    using cnt_update [of i "pcs s" arrived W_done] cnt_update [of i "pcs s" is_last W_done] all i len last
    by (simp_all add: pc_simps)
  then show "if 0 < cnt is_done ((pcs s)[i := W_done])
      then cnt arrived ((pcs s)[i := W_done]) = n \<and> cnt is_last ((pcs s)[i := W_done]) = 0 \<and> m = of_nat n
      else m = of_nat (n - cnt arrived ((pcs s)[i := W_done])) \<and>
           cnt is_last ((pcs s)[i := W_done]) = (if cnt arrived ((pcs s)[i := W_done]) = n then 1 else 0)"
    using m cnt_update [of i "pcs s" is_done W_done] i len last by (auto simp: pc_simps)
qed (simp add: pc_ok_def)

lemma bar_inv_leave:
  assumes inv: "bar_inv n s" and i: "i < n" and spin: "pcs s ! i = W_spin m" and eq: "bar_count s = m"
  shows "bar_inv n (goto i W_done s)"
proof -
  let ?a = "cnt arrived (pcs s)"
  have len: "length (pcs s) = n" and n: "n < 2 ^ 31" "0 < n" using inv by (auto simp: bar_inv_def)
  have "pc_ok (of_nat n) (bar_count s) (links s ! i) (pcs s ! i)" using inv i by (simp add: bar_inv_def)
  with spin eq have c: "bar_count s = of_nat n" by (simp add: pc_ok_def)
  have "0 < ?a" using spin i len nth_mem [of i "pcs s"] by (auto simp: cnt_pos pc_simps intro!: bexI [of _ "pcs s ! i"])
  have "0 < cnt is_done (pcs s)"
  proof (rule ccontr)
    assume "\<not> 0 < cnt is_done (pcs s)"
    then have "bar_count s = of_nat (n - ?a)" using inv by (auto simp: bar_inv_def)
    with c have "unat (of_nat n :: u32) = unat (of_nat (n - ?a) :: u32)" by simp
    moreover have "unat (of_nat n :: u32) = n" "unat (of_nat (n - ?a) :: u32) = n - ?a"
      using n by (auto intro!: unat_of_nat_u32)
    ultimately show False using \<open>0 < ?a\<close> n by linarith
  qed
  with inv have all: "?a = n" "cnt is_last (pcs s) = 0" by (auto simp: bar_inv_def)
  have "cnt arrived ((pcs s)[i := W_done]) = n" "cnt is_last ((pcs s)[i := W_done]) = 0"
    "0 < cnt is_done ((pcs s)[i := W_done])"
    using cnt_update [of i "pcs s" arrived W_done] cnt_update [of i "pcs s" is_last W_done]
      cnt_update [of i "pcs s" is_done W_done] all i len spin by (simp_all add: pc_simps)
  moreover have "\<forall>j<n. pc_ok (of_nat n) (bar_count s) (links s ! j) ((pcs s)[i := W_done] ! j)"
    using inv len i by (auto simp: bar_inv_def nth_list_update pc_ok_def [of _ _ _ W_done])
  ultimately show ?thesis using inv c by (simp add: bar_inv_def goto_def)
qed

lemma bar_inv_task:
  assumes inv: "bar_inv n s" and i: "i < n"
  shows "bar_inv n (bar_task_step v i s)"
proof -
  have ok: "pc_ok (of_nat n) (bar_count s) (links s ! i) (pcs s ! i)" and init: "bar_initial s = of_nat n"
    and len: "length (links s) = n" and n: "n < 2 ^ 31" and once: "uses s ! i = 0"
    using inv i by (simp_all add: bar_inv_def)
  have un: "unat (of_nat n :: u32) = n" using n by (intro unat_of_nat_u32) simp
  note local_step = bar_inv_local [OF inv i]
  show ?thesis
  proof (cases "pcs s ! i")
    case W_start
    then show ?thesis
      using local_step [of "W_ll (of_nat n)" "links s"] init len
      by (simp add: bar_task_step_def goto_def pc_simps)
  next
    case (W_ll m)
    have "unat (bar_count s) \<le> n" using bar_inv_count(4) [OF inv i] W_ll by (simp add: pc_simps)
    with W_ll ok un show ?thesis
      using local_step [of "W_sc m (bar_count s)" "(links s)[i := True]"] i len
      by (simp add: bar_task_step_def goto_def set_link_def pc_simps)
  next
    case (W_sc m c)
    with ok un n have "unat c < unat (0x80000000 :: u32)" by (simp add: pc_simps)
    then have "c \<noteq> 0x80000000" by auto
    with W_sc ok show ?thesis
      using local_step [of "W_ll m" "links s"] len bar_inv_decrement [OF inv i W_sc]
      by (auto simp: bar_task_step_def pc_simps goto_def)
  next
    case (W_last m)
    then show ?thesis using bar_inv_reopen [OF inv i W_last] by (simp add: bar_task_step_def)
  next
    case (W_spin m)
    then show ?thesis using inv bar_inv_leave [OF inv i W_spin] by (simp add: bar_task_step_def)
  next
    case W_done
    then show ?thesis using inv once by (simp add: bar_task_step_def)
  qed (use ok in \<open>simp_all add: pc_simps\<close>)
qed

lemma bar_inv_length: "bar_inv n s \<Longrightarrow> length (pcs s) = n"
  by (simp add: bar_inv_def)

interpretation barrier: transition_system "bar_ready n" "bar_step v" "bar_inv n" for n v
  by unfold_locales (auto simp: bar_inv_ready bar_step_def bar_inv_length intro: bar_inv_task)

section \<open>The barrier opens\<close>

text \<open>A task that has not arrived can arrive by itself, whatever state it is in.\<close>

lemma bar_arrives:
  assumes inv: "bar_inv n s" and i: "i < n" and na: "\<not> arrived (pcs s ! i)"
  shows "\<exists>pc. arrived pc \<and> \<not> is_done pc \<and> (\<exists>sched. (\<forall>j\<in>set sched. j = i) \<and>
    pcs (bar_run v sched s) = (pcs s)[i := pc])"
proof -
  have len: "length (pcs s) = n" "length (links s) = n" using inv by (simp_all add: bar_inv_def)
  have from_ll: "\<exists>pc. arrived pc \<and> \<not> is_done pc \<and> pcs (bar_run v [i, i] t) = (pcs t)[i := pc]"
    if t: "bar_inv n t" and ll: "pcs t ! i = W_ll m" for t m
  proof -
    have lt: "length (pcs t) = n" "length (links t) = n" using t by (simp_all add: bar_inv_def)
    have "unat (bar_count t) \<le> n" "n < 2 ^ 31"
      using bar_inv_count(4) [OF t i] ll t by (simp_all add: pc_simps bar_inv_def)
    then have "unat (bar_count t) < unat (0x80000000 :: u32)" by simp
    then have "bar_count t \<noteq> 0x80000000" by auto
    then have "pcs (bar_run v [i, i] t) = (pcs t)[i := if bar_count t = 1 then W_last m else W_spin m]"
      using ll lt i by (simp add: bar_run_def bar_task_step_def goto_def set_link_def unlink_def)
    then show ?thesis
      by (intro exI [of _ "if bar_count t = 1 then W_last m else W_spin m"]) (simp add: pc_simps)
  qed
  have via: "\<exists>pc. arrived pc \<and> \<not> is_done pc \<and> (\<exists>sched. (\<forall>j\<in>set sched. j = i) \<and>
      pcs (bar_run v sched s) = (pcs s)[i := pc])"
    if "set sc \<subseteq> {i}" "pcs (bar_run v sc s) = (pcs s)[i := W_ll m]" "bar_inv n (bar_run v sc s)" for sc m
  proof -
    from from_ll [OF that(3)] that(2) i len obtain pc where
      "arrived pc" "\<not> is_done pc" "pcs (bar_run v [i, i] (bar_run v sc s)) = (pcs s)[i := pc]"
      by auto
    then show ?thesis using that(1)
      by (intro exI [of _ pc] conjI exI [of _ "sc @ [i, i]"]) (auto simp: bar_run_def)
  qed
  have inv1: "bar_inv n (bar_run v [i] s)" using bar_inv_task [OF inv i] by (simp add: bar_run_def)
  have ok: "pc_ok (of_nat n) (bar_count s) (links s ! i) (pcs s ! i)" and n: "n < 2 ^ 31"
    using inv i by (simp_all add: bar_inv_def)
  show ?thesis
  proof (cases "pcs s ! i")
    case W_start
    then show ?thesis using via [of "[i]"] inv1 by (simp add: bar_run_def bar_task_step_def goto_def)
  next
    case (W_ll m)
    then have "pcs s = (pcs s)[i := W_ll m]" by (metis list_update_id)
    then show ?thesis using via [of "[]"] inv by (simp add: bar_run_def)
  next
    case (W_sc m c)
    have "unat (of_nat n :: u32) = n" using n by (intro unat_of_nat_u32) simp
    with W_sc ok n have "unat c < unat (0x80000000 :: u32)" by (simp add: pc_simps)
    then have c: "c \<noteq> 0x80000000" by auto
    show ?thesis
    proof (cases "links s ! i")
      case False
      with W_sc c show ?thesis using via [of "[i]"] inv1 by (simp add: bar_run_def bar_task_step_def goto_def)
    next
      case True
      with W_sc c show ?thesis
        by (intro exI [of _ "if c = 1 then W_last m else W_spin m"] conjI exI [of _ "[i]"])
          (simp_all add: pc_simps bar_run_def bar_task_step_def goto_def unlink_def)
    qed
  qed (use ok na in \<open>simp_all add: pc_simps\<close>)
qed

text \<open>How far the tasks are from being through.\<close>

definition bar_left :: "bar_state \<Rightarrow> nat" where
  "bar_left s = (length (pcs s) - cnt arrived (pcs s)) + (length (pcs s) - cnt is_done (pcs s))"

lemma bar_left_arrive:
  assumes "i < length (pcs s)" and "\<not> arrived (pcs s ! i)" and "arrived pc" and "\<not> is_done pc"
    and "pcs t = (pcs s)[i := pc]"
  shows "bar_left t < bar_left s"
proof -
  have "\<not> is_done (pcs s ! i)" using assms(2) by (auto simp: pc_simps)
  then have "cnt arrived (pcs t) = cnt arrived (pcs s) + 1" "cnt is_done (pcs t) = cnt is_done (pcs s)"
    using cnt_update [OF assms(1), of arrived pc] cnt_update [OF assms(1), of is_done pc] assms(2-5) by simp_all
  with cnt_le [of arrived "pcs t"] assms(5) show ?thesis by (simp add: bar_left_def)
qed

lemma bar_left_done:
  assumes "i < length (pcs s)" and "arrived (pcs s ! i)" and "\<not> is_done (pcs s ! i)" and "pcs t = (pcs s)[i := W_done]"
  shows "bar_left t < bar_left s"
proof -
  have "cnt arrived (pcs t) = cnt arrived (pcs s)" "cnt is_done (pcs t) = cnt is_done (pcs s) + 1"
    using cnt_update [OF assms(1), of arrived W_done] cnt_update [OF assms(1), of is_done W_done] assms(2-4)
    by (simp_all add: pc_simps)
  with cnt_le [of is_done "pcs t"] assms(4) show ?thesis by (simp add: bar_left_def)
qed

lemma bar_progress:
  assumes inv: "bar_inv n s" and wait: "\<exists>i<n. \<not> is_done (pcs s ! i)"
  shows "\<exists>t. (bar_step v)\<^sup>*\<^sup>* s t \<and> bar_left t < bar_left s"
proof (cases "\<exists>i<n. \<not> arrived (pcs s ! i)")
  case True
  then obtain i where i: "i < n" "\<not> arrived (pcs s ! i)" by blast
  have len: "length (pcs s) = n" using inv by (rule bar_inv_length)
  from bar_arrives [OF inv i, of v] obtain pc sched where
    pc: "arrived pc" "\<not> is_done pc" "\<forall>j\<in>set sched. j = i" "pcs (bar_run v sched s) = (pcs s)[i := pc]"
    by blast
  have "(bar_step v)\<^sup>*\<^sup>* s (bar_run v sched s)" using pc(3) i(1) len by (intro bar_run_reaches) auto
  with bar_left_arrive [of i s pc "bar_run v sched s"] pc i len show ?thesis by auto
next
  case False
  have len: "length (pcs s) = n" using inv by (rule bar_inv_length)
  have "\<exists>i<n. \<not> is_done (pcs s ! i) \<and> pcs (bar_task_step v i s) = (pcs s)[i := W_done]"
  proof (cases "0 < cnt is_done (pcs s)")
    case True
    then have count: "bar_count s = of_nat n" "cnt is_last (pcs s) = 0" using inv by (auto simp: bar_inv_def)
    from wait obtain i where i: "i < n" "\<not> is_done (pcs s ! i)" by blast
    have "pcs s ! i \<in> set (pcs s)" using i len by simp
    then have "\<not> is_last (pcs s ! i)" using count(2) cnt_pos [of is_last "pcs s"] by auto
    with i False obtain m where m: "pcs s ! i = W_spin m" by (auto simp: pc_simps split: bar_pc.splits)
    have "pc_ok (of_nat n) (bar_count s) (links s ! i) (pcs s ! i)" using inv i by (simp add: bar_inv_def)
    with m count have "pcs (bar_task_step v i s) = (pcs s)[i := W_done]"
      by (simp add: bar_task_step_def goto_def pc_ok_def)
    with i show ?thesis by blast
  next
    case no: False
    have "cnt arrived (pcs s) = n" using False len cnt_all [of arrived "pcs s"] by (auto simp: in_set_conv_nth)
    with no inv have "0 < cnt is_last (pcs s)" by (simp add: bar_inv_def)
    then obtain i where i: "i < n" "is_last (pcs s ! i)" using len by (auto simp: cnt_pos in_set_conv_nth)
    then obtain m where "pcs s ! i = W_last m" by (auto simp: pc_simps split: bar_pc.splits)
    then have "pcs (bar_task_step v i s) = (pcs s)[i := W_done]" "\<not> is_done (pcs s ! i)"
      by (simp_all add: bar_task_step_def goto_def unlink_def pc_simps)
    with i(1) show ?thesis by blast
  qed
  then obtain i where i: "i < n" "\<not> is_done (pcs s ! i)" "pcs (bar_task_step v i s) = (pcs s)[i := W_done]" by blast
  then have "bar_step v s (bar_task_step v i s)" using len by (auto simp: bar_step_def)
  moreover have "bar_left (bar_task_step v i s) < bar_left s"
    using i len False by (intro bar_left_done [of i]) auto
  ultimately show ?thesis by blast
qed

lemma bar_opens:
  assumes "bar_inv n s"
  shows "\<exists>t. (bar_step v)\<^sup>*\<^sup>* s t \<and> pcs t = replicate n W_done"
  using assms
proof (induction "bar_left s" arbitrary: s rule: less_induct)
  case less
  have len: "length (pcs s) = n" using less.prems by (rule bar_inv_length)
  show ?case
  proof (cases "\<exists>i<n. \<not> is_done (pcs s ! i)")
    case False
    then have "pcs s = replicate n W_done" using len by (intro nth_equalityI) (auto simp: is_done_def)
    then show ?thesis by blast
  next
    case True
    then obtain t where t: "(bar_step v)\<^sup>*\<^sup>* s t" "bar_left t < bar_left s"
      using bar_progress [OF less.prems] by blast
    then have "bar_inv n t" using barrier.inv_run [OF less.prems] by blast
    from less.hyps [OF t(2) this] t(1) show ?thesis by (meson rtranclp_trans)
  qed
qed

section \<open>Properties\<close>

text \<open>C22. A barrier of \<open>n\<close> tasks, initialised and used once, under every interleaving of the tasks'
  instructions: no task returns from \<open>_barrier_wait\<close> before all \<open>n\<close> have decremented the counter,
  and from every state that can be reached the tasks can all get through; no schedule runs into a
  deadlock.\<close>

theorem barrier_correct:
  assumes "bar_ready n s" and "(bar_step v)\<^sup>*\<^sup>* s t"
  shows "(W_done \<in> set (pcs t) \<longrightarrow> (\<forall>pc\<in>set (pcs t). arrived pc)) \<and>
    (\<exists>u. (bar_step v)\<^sup>*\<^sup>* t u \<and> pcs u = replicate n W_done)"
proof
  have inv: "bar_inv n t" by (rule barrier.inv_reachable [OF assms])
  show "W_done \<in> set (pcs t) \<longrightarrow> (\<forall>pc\<in>set (pcs t). arrived pc)"
  proof
    assume "W_done \<in> set (pcs t)"
    then have "0 < cnt is_done (pcs t)" by (auto simp: cnt_pos is_done_def)
    with inv have "cnt arrived (pcs t) = length (pcs t)" by (auto simp: bar_inv_def)
    then show "\<forall>pc\<in>set (pcs t). arrived pc" by (simp add: cnt_all)
  qed
  show "\<exists>u. (bar_step v)\<^sup>*\<^sup>* t u \<and> pcs u = replicate n W_done" by (rule bar_opens [OF inv])
qed

text \<open>Two tasks about to wait on an initialised barrier, which each of them will use \<open>k\<close> more times.\<close>

definition two_tasks :: "nat \<Rightarrow> bar_state" where
  "two_tasks k = \<lparr>bar_initial = 2, bar_count = 2, links = [False, False], pcs = [W_start, W_start], uses = [k, k]\<rparr>"

theorem barrier_correct_witness:
  "\<exists>t. (bar_step 2)\<^sup>*\<^sup>* (two_tasks 0) t \<and> pcs t = [W_spin 2, W_start] \<and>
     (W_done \<in> set (pcs t) \<longrightarrow> (\<forall>pc\<in>set (pcs t). arrived pc)) \<and>
     (\<exists>u. (bar_step 2)\<^sup>*\<^sup>* t u \<and> pcs u = replicate 2 W_done)"
proof -
  let ?t = "bar_run 2 [0, 0, 0] (two_tasks 0)"
  have ready: "bar_ready 2 (two_tasks 0)" by (simp add: bar_ready_def two_tasks_def)
      (simp add: numeral_2_eq_2)
  have run: "(bar_step 2)\<^sup>*\<^sup>* (two_tasks 0) ?t" by (rule bar_run_reaches) (simp add: two_tasks_def)
  have "pcs ?t = [W_spin 2, W_start]"
    by (simp add: bar_run_def two_tasks_def bar_task_step_def goto_def unlink_def set_link_def)
  with run barrier_correct [OF ready run] show ?thesis by blast
qed

lemma bar_stuck_run:
  assumes "\<And>u. bar_step v t u \<Longrightarrow> u = t"
  shows "(bar_step v)\<^sup>*\<^sup>* t u \<Longrightarrow> u = t"
  by (induction rule: rtranclp_induct) (auto dest: assms)

text \<open>C38. A barrier that is used twice can deadlock: with two tasks, one of them can leave the barrier,
  enter it again and decrement the counter before the other has seen it reopened. Then both poll a
  counter that nobody will ever change, although both have called \<open>_barrier_wait\<close>.\<close>

theorem barrier_reuse_deadlock:
  "\<exists>t. (bar_step 2)\<^sup>*\<^sup>* (two_tasks 1) t \<and> pcs t = [W_spin 2, W_spin 2] \<and> bar_count t = 1 \<and>
     (\<forall>u. (bar_step 2)\<^sup>*\<^sup>* t u \<longrightarrow> u = t)"
proof -
  define t where "t = \<lparr>bar_initial = 2, bar_count = 1, links = [False, False], pcs = [W_spin 2, W_spin 2], uses = [1, 0]\<rparr>"
  have run: "bar_run 2 [0, 0, 0, 1, 1, 1, 1, 1, 1, 1, 1] (two_tasks 1) = t"
    by (simp add: t_def bar_run_def two_tasks_def bar_task_step_def goto_def unlink_def set_link_def)
  have "(bar_step 2)\<^sup>*\<^sup>* (two_tasks 1) t"
    unfolding run [symmetric] by (rule bar_run_reaches) (auto simp: two_tasks_def)
  moreover have "u = t" if "bar_step 2 t u" for u
    using that by (auto simp: t_def bar_step_def bar_task_step_def less_Suc_eq numeral_2_eq_2)
  ultimately show ?thesis using bar_stuck_run [of 2 t] by (intro exI [of _ t]) (auto simp: t_def)
qed

theorem barrier_reuse_deadlock_witness:
  "\<exists>t. (bar_step 2)\<^sup>*\<^sup>* (two_tasks 1) t \<and> (\<forall>u. (bar_step 2)\<^sup>*\<^sup>* t u \<longrightarrow> W_done \<notin> set (pcs u))"
  using barrier_reuse_deadlock by force

text \<open>The initialisation is not safe when two tasks execute it together: between the store conditional
  that sets the initial value and the store that sets the counter, another task finds the barrier
  initialised, decrements a counter of 0, and is released by the late store: it leaves the barrier
  while the first task has not arrived, and the first task then waits forever.\<close>

theorem barrier_init_race:
  "\<exists>t u. (bar_step 2)\<^sup>*\<^sup>* \<lparr>bar_initial = 0, bar_count = 0, links = [False, False], pcs = [I_ll, I_ll], uses = [0, 0]\<rparr> t \<and>
     pcs t = [W_start, W_done] \<and> (bar_step 2)\<^sup>*\<^sup>* t u \<and> pcs u = [W_spin 2, W_done] \<and>
     (\<forall>w. (bar_step 2)\<^sup>*\<^sup>* u w \<longrightarrow> w = u)"
proof -
  let ?s = "\<lparr>bar_initial = 0, bar_count = 0, links = [False, False], pcs = [I_ll, I_ll], uses = [0, 0]\<rparr>"
  define t where "t = \<lparr>bar_initial = 2, bar_count = 2, links = [False, False], pcs = [W_start, W_done], uses = [0, 0]\<rparr>"
  define u where "u = \<lparr>bar_initial = 2, bar_count = 1, links = [False, False], pcs = [W_spin 2, W_done], uses = [0, 0]\<rparr>"
  have run: "bar_run 2 [0, 0, 1, 1, 1, 1, 1, 0, 1] ?s = t" "bar_run 2 [0, 0, 0] t = u"
    by (simp_all add: t_def u_def bar_run_def bar_task_step_def goto_def unlink_def set_link_def)
  have "(bar_step 2)\<^sup>*\<^sup>* ?s t" unfolding run(1) [symmetric] by (rule bar_run_reaches) simp
  moreover have "(bar_step 2)\<^sup>*\<^sup>* t u" unfolding run(2) [symmetric] by (rule bar_run_reaches) (simp add: t_def)
  moreover have "w = u" if "bar_step 2 u w" for w
    using that by (auto simp: u_def bar_step_def bar_task_step_def less_Suc_eq numeral_2_eq_2)
  ultimately show ?thesis
    using bar_stuck_run [of 2 u] by (intro exI [of _ t] exI [of _ u]) (auto simp: t_def u_def)
qed

theorem barrier_init_race_witness:
  "\<exists>t. (bar_step 2)\<^sup>*\<^sup>* \<lparr>bar_initial = 0, bar_count = 0, links = [False, False], pcs = [I_ll, I_ll], uses = [0, 0]\<rparr> t \<and>
     W_done \<in> set (pcs t) \<and> \<not> arrived (pcs t ! 0)"
  using barrier_init_race by (force simp: arrived_def)

end
