(* ===== verification/Sys.thy ===== *)
theory Sys
  imports Irq Barrier
begin

text \<open>
  System calls: the vector of \<open>giet_2011/sys/sys_handler.c\<close>, and the assembly handlers
  \<open>_sys_handler\<close> and \<open>_int_handler\<close> of \<open>giet_2011/sys/giet.s\<close> that save the state of the
  interrupted task in its stack, instruction by instruction, with HI, LO and the system registers \<open>$26\<close> and \<open>$27\<close>. The
  registers that the called C function leaves changed are a parameter, with the calling convention as hypothesis. A function that writes through a pointer writes the memory of the
  machine here.
\<close>

section \<open>The system call vector\<close>

datatype syscall = Sys_procid | Sys_proctime | Sys_tty_write | Sys_tty_read | Sys_timer_write
  | Sys_timer_read | Sys_gcd_write | Sys_gcd_read | Sys_ukn | Sys_tty_read_irq | Sys_ctx_switch
  | Sys_exit | Sys_procnumber | Sys_fb_sync_write | Sys_fb_sync_read | Sys_fb_write | Sys_fb_read
  | Sys_fb_completed | Sys_ioc_write | Sys_ioc_read | Sys_ioc_completed | Sys_barrier_init
  | Sys_barrier_wait

definition syscall_vector :: "syscall list" where
  "syscall_vector =
     [Sys_procid, Sys_proctime, Sys_tty_write, Sys_tty_read,
      Sys_timer_write, Sys_timer_read, Sys_gcd_write, Sys_gcd_read,
      Sys_ukn, Sys_ukn, Sys_tty_read_irq, Sys_ukn,
      Sys_ukn, Sys_ctx_switch, Sys_exit, Sys_procnumber,
      Sys_fb_sync_write, Sys_fb_sync_read, Sys_fb_write, Sys_fb_read,
      Sys_fb_completed, Sys_ioc_write, Sys_ioc_read, Sys_ioc_completed,
      Sys_barrier_init, Sys_barrier_wait, Sys_ukn, Sys_ukn,
      Sys_ukn, Sys_ukn, Sys_ukn, Sys_ukn]"

text \<open>The C functions whose addresses the vector holds.\<close>

primrec syscall_symbol :: "syscall \<Rightarrow> string" where
  "syscall_symbol Sys_procid = ''_procid''"
| "syscall_symbol Sys_proctime = ''_proctime''"
| "syscall_symbol Sys_tty_write = ''_tty_write''"
| "syscall_symbol Sys_tty_read = ''_tty_read''"
| "syscall_symbol Sys_timer_write = ''_timer_write''"
| "syscall_symbol Sys_timer_read = ''_timer_read''"
| "syscall_symbol Sys_gcd_write = ''_gcd_write''"
| "syscall_symbol Sys_gcd_read = ''_gcd_read''"
| "syscall_symbol Sys_ukn = ''_sys_ukn''"
| "syscall_symbol Sys_tty_read_irq = ''_tty_read_irq''"
| "syscall_symbol Sys_ctx_switch = ''_ctx_switch''"
| "syscall_symbol Sys_exit = ''_exit''"
| "syscall_symbol Sys_procnumber = ''_procnumber''"
| "syscall_symbol Sys_fb_sync_write = ''_fb_sync_write''"
| "syscall_symbol Sys_fb_sync_read = ''_fb_sync_read''"
| "syscall_symbol Sys_fb_write = ''_fb_write''"
| "syscall_symbol Sys_fb_read = ''_fb_read''"
| "syscall_symbol Sys_fb_completed = ''_fb_completed''"
| "syscall_symbol Sys_ioc_write = ''_ioc_write''"
| "syscall_symbol Sys_ioc_read = ''_ioc_read''"
| "syscall_symbol Sys_ioc_completed = ''_ioc_completed''"
| "syscall_symbol Sys_barrier_init = ''_barrier_init''"
| "syscall_symbol Sys_barrier_wait = ''_barrier_wait''"

definition k_sys_ukn :: "'d platform \<Rightarrow> ('d machine, 'a) prog" where
  "k_sys_ukn P =
     bnd (k_putk P (newline # newline # ascii ''!!! Undefined System Call !!!'' @ [newline])) (\<lambda>_.
     bnd (k_putk P (newline # ascii ''EPC = '')) (\<lambda>_.
     bnd (gets k_get_epc) (\<lambda>epc.
     bnd (k_put_hex P epc) (\<lambda>_.
     k_exit P))))"

definition k_procnumber :: "'d platform \<Rightarrow> u32" where
  "k_procnumber P = NB_PROCS P"

text \<open>A driver that stores a byte or a word through the pointer \<open>p\<close>.\<close>

definition out_byte :: "u32 \<Rightarrow> ('d machine, u32 \<times> u8 option) prog \<Rightarrow> ('d machine, u32) prog" where
  "out_byte p m = bnd m (\<lambda>(r, c). case c of None \<Rightarrow> ret r
     | Some c \<Rightarrow> bnd (modify (\<lambda>s. s\<lparr>mem := (mem s)(p := c)\<rparr>)) (\<lambda>_. ret r))"

definition out_word :: "u32 \<Rightarrow> ('d machine, u32 \<times> u32 option) prog \<Rightarrow> ('d machine, u32) prog" where
  "out_word p m = bnd m (\<lambda>(r, v). case v of None \<Rightarrow> ret r
     | Some v \<Rightarrow> bnd (modify (\<lambda>s. s\<lparr>mem := store_word p v (mem s)\<rparr>)) (\<lambda>_. ret r))"

text \<open>The handlers with the arguments in \<open>$4\<close>, \<open>$5\<close> and \<open>$6\<close>; the result is \<open>$2\<close>. \<open>_ctx_switch\<close>
  returns nothing: \<open>$2\<close> is what the switch has left in it.\<close>

definition run_syscall :: "'d platform \<Rightarrow> syscall \<Rightarrow> u32 \<Rightarrow> u32 \<Rightarrow> u32 \<Rightarrow> ('d machine, u32) prog" where
  "run_syscall P f a b c = (case f of
     Sys_procid \<Rightarrow> gets k_procid
   | Sys_proctime \<Rightarrow> gets k_proctime
   | Sys_tty_write \<Rightarrow> bnd (gets (\<lambda>s. read_bytes (mem s) a (unat b))) (k_tty_write P)
   | Sys_tty_read \<Rightarrow> out_byte a (k_tty_read P)
   | Sys_timer_write \<Rightarrow> k_timer_write P a b
   | Sys_timer_read \<Rightarrow> out_word b (k_timer_read P a)
   | Sys_gcd_write \<Rightarrow> k_gcd_write P a b
   | Sys_gcd_read \<Rightarrow> out_word b (k_gcd_read P a)
   | Sys_ukn \<Rightarrow> k_sys_ukn P
   | Sys_tty_read_irq \<Rightarrow> out_byte a (k_tty_read_irq P)
   | Sys_ctx_switch \<Rightarrow> bnd (k_ctx_switch P) (\<lambda>_. gets (\<lambda>s. gpr (core s) 2))
   | Sys_exit \<Rightarrow> k_exit P
   | Sys_procnumber \<Rightarrow> ret (k_procnumber P)
   | Sys_fb_sync_write \<Rightarrow> k_fb_sync_write P a b c
   | Sys_fb_sync_read \<Rightarrow> k_fb_sync_read P a b c
   | Sys_fb_write \<Rightarrow> k_fb_write P a b c
   | Sys_fb_read \<Rightarrow> k_fb_read P a b c
   | Sys_fb_completed \<Rightarrow> k_fb_completed P
   | Sys_ioc_write \<Rightarrow> k_ioc_write P a b c
   | Sys_ioc_read \<Rightarrow> k_ioc_read P a b c
   | Sys_ioc_completed \<Rightarrow> k_ioc_completed P
   | Sys_barrier_init \<Rightarrow> k_barrier_init a b
   | Sys_barrier_wait \<Rightarrow> k_barrier_wait P a)"

definition sys_dispatch :: "u32 \<Rightarrow> syscall" where
  "sys_dispatch v0 = syscall_vector ! unat (v0 AND 0x1F)"

section \<open>The assembly handlers\<close>

text \<open>The instructions of the handlers, one state update each; \<open>reg k\<close> reads a general register. Symbols are
  at the addresses that the linker gives them.\<close>

abbreviation reg :: "nat \<Rightarrow> 'd machine \<Rightarrow> u32" where
  "reg k s \<equiv> gpr (core s) k"

definition set_gpr :: "nat \<Rightarrow> u32 \<Rightarrow> 'd machine \<Rightarrow> 'd machine" where
  "set_gpr k v s = s\<lparr>core := (core s)\<lparr>gpr := (gpr (core s))(k := v)\<rparr>\<rparr>"

definition push_word :: "u32 \<Rightarrow> u32 \<Rightarrow> 'd machine \<Rightarrow> 'd machine" where
  "push_word a v s = s\<lparr>mem := store_word a v (mem s)\<rparr>"

definition mtc0_sr :: "u32 \<Rightarrow> 'd machine \<Rightarrow> 'd machine" where
  "mtc0_sr v s = s\<lparr>core := (core s)\<lparr>cp0_sr := v\<rparr>\<rparr>"

definition mtc0_epc :: "u32 \<Rightarrow> 'd machine \<Rightarrow> 'd machine" where
  "mtc0_epc v s = s\<lparr>core := (core s)\<lparr>cp0_epc := v\<rparr>\<rparr>"

definition mthi :: "u32 \<Rightarrow> 'd machine \<Rightarrow> 'd machine" where
  "mthi v s = s\<lparr>core := (core s)\<lparr>reg_hi := v\<rparr>\<rparr>"

definition mtlo :: "u32 \<Rightarrow> 'd machine \<Rightarrow> 'd machine" where
  "mtlo v s = s\<lparr>core := (core s)\<lparr>reg_lo := v\<rparr>\<rparr>"

text \<open>\<open>eret\<close> with \<open>ERL\<close> cleared: it clears \<open>EXL\<close>, and the program counter is EPC.\<close>

definition eret :: "'d machine \<Rightarrow> u32 \<times> 'd machine" where
  "eret s = (cp0_epc (core s), s\<lparr>core := (core s)\<lparr>cp0_sr := cp0_sr (core s) AND NOT 2\<rparr>\<rparr>)"

text \<open>The return of a compiled C function: it leaves its own values in the registers it may use.\<close>

definition c_return :: "'d platform \<Rightarrow> 'd machine \<Rightarrow> 'd machine" where
  "c_return P s = s\<lparr>core := clobbers P (core s)\<rparr>"

text \<open>\<open>_sys_handler\<close> up to the call: SR and the return address are saved in the stack, \<open>$3\<close> is the address
  found in \<open>_syscall_vector\<close>, and the call runs in kernel mode with interrupts enabled. The vector is a
  list here; its word at the address \<open>a\<close> is the address of one of its functions.\<close>

definition vector_word :: "'d platform \<Rightarrow> u32 \<Rightarrow> u32" where
  "vector_word P a = label P (syscall_symbol
     (syscall_vector ! (unat (a - label P ''_syscall_vector'') div 4)))"

definition sys_handler_entry :: "'d platform \<Rightarrow> 'd machine \<Rightarrow> 'd machine" where
  "sys_handler_entry P s =
     (let s = set_gpr 29 (reg 29 s - 24) s;
          s = set_gpr 26 (cp0_sr (core s)) s;
          s = push_word (reg 29 s + 16) (reg 26 s) s;
          s = set_gpr 27 (cp0_epc (core s)) s;
          s = set_gpr 27 (reg 27 s + 4) s;
          s = push_word (reg 29 s + 20) (reg 27 s) s;
          s = set_gpr 26 (reg 2 s AND 0x1F) s;
          s = set_gpr 26 (push_bit 2 (reg 26 s)) s;
          s = set_gpr 27 (label P ''_syscall_vector'') s;
          s = set_gpr 27 (reg 27 s + reg 26 s) s;
          s = set_gpr 3 (vector_word P (reg 27 s)) s;
          s = set_gpr 27 0xFFFFFFED s;
          s = set_gpr 26 (cp0_sr (core s)) s;
          s = set_gpr 26 (reg 26 s AND reg 27 s) s;
          s = mtc0_sr (reg 26 s) s
      in set_gpr 31 (label P ''_sys_handler: after jalr'') s)"

text \<open>\<open>_sys_handler\<close> after the call, up to \<open>eret\<close>.\<close>

definition sys_handler_exit :: "'d machine \<Rightarrow> u32 \<times> 'd machine" where
  "sys_handler_exit s =
     (let s = mtc0_sr 0 s;
          s = set_gpr 26 (load_word (mem s) (reg 29 s + 16)) s;
          s = mtc0_sr (reg 26 s) s;
          s = set_gpr 26 (load_word (mem s) (reg 29 s + 20)) s;
          s = mtc0_epc (reg 26 s) s;
          s = set_gpr 29 (reg 29 s + 24) s
      in eret s)"

text \<open>The whole handler, with the program counter it returns to: the called function leaves its result in
  \<open>$2\<close>.\<close>

definition k_sys_handler :: "'d platform \<Rightarrow> ('d machine, u32) prog" where
  "k_sys_handler P =
     bnd (gets (\<lambda>s. gpr (core s))) (\<lambda>r.
     bnd (modify (sys_handler_entry P)) (\<lambda>_.
     bnd (run_syscall P (sys_dispatch (r 2)) (r 4) (r 5) (r 6)) (\<lambda>v0.
     bnd (modify (c_return P)) (\<lambda>_.
     bnd (modify (set_gpr 2 v0)) (\<lambda>_ s. case sys_handler_exit s of (pc, t) \<Rightarrow> Ret pc t)))))"

text \<open>\<open>_int_handler\<close>: the general registers it saves, with their stack slots; LO, HI and EPC go to the
  slots 22, 23 and 24 through the system registers.\<close>

definition int_saved :: "(nat \<times> u32) list" where
  "int_saved =
     [(1, 4), (2, 5), (3, 6), (4, 7), (5, 8), (6, 9), (7, 10), (8, 11), (9, 12), (10, 13), (11, 14), (12, 15),
      (13, 16), (14, 17), (15, 18), (24, 19), (25, 20), (31, 21)]"

definition int_handler_entry :: "'d platform \<Rightarrow> 'd machine \<Rightarrow> 'd machine" where
  "int_handler_entry P s =
     (let s = set_gpr 29 (reg 29 s - 25 * 4) s;
          s = fold (\<lambda>(k, i). push_word (reg 29 s + i * 4) (reg k s)) int_saved s;
          s = set_gpr 26 (reg_lo (core s)) s;
          s = push_word (reg 29 s + 22 * 4) (reg 26 s) s;
          s = set_gpr 26 (reg_hi (core s)) s;
          s = push_word (reg 29 s + 23 * 4) (reg 26 s) s;
          s = set_gpr 27 (cp0_epc (core s)) s;
          s = push_word (reg 29 s + 24 * 4) (reg 27 s) s;
          s = set_gpr 26 (label P ''_int_demux'') s
      in set_gpr 31 (label P ''restore'') s)"

definition int_handler_exit :: "'d machine \<Rightarrow> u32 \<times> 'd machine" where
  "int_handler_exit s =
     (let s = fold (\<lambda>(k, i). set_gpr k (load_word (mem s) (reg 29 s + i * 4))) int_saved s;
          s = set_gpr 26 (load_word (mem s) (reg 29 s + 22 * 4)) s;
          s = mtlo (reg 26 s) s;
          s = set_gpr 26 (load_word (mem s) (reg 29 s + 23 * 4)) s;
          s = mthi (reg 26 s) s;
          s = set_gpr 27 (load_word (mem s) (reg 29 s + 24 * 4)) s;
          s = set_gpr 29 (reg 29 s + 25 * 4) s;
          s = mtc0_epc (reg 27 s) s
      in eret s)"

definition k_int_handler :: "'d platform \<Rightarrow> ('d machine, u32) prog" where
  "k_int_handler P =
     bnd (modify (int_handler_entry P)) (\<lambda>_.
     bnd (k_int_demux P) (\<lambda>_.
     bnd (modify (c_return P)) (\<lambda>_ s. case int_handler_exit s of (pc, t) \<Rightarrow> Ret pc t)))"

lemmas instr_defs = set_gpr_def push_word_def mtc0_sr_def mtc0_epc_def mthi_def mtlo_def eret_def

section \<open>Stack slots\<close>

lemma unat_slot:
  fixes i :: u32
  assumes "unat i < 2 ^ 29" and "k < 4"
  shows "unat (i * 4 + of_nat k) = 4 * unat i + k"
  using assms by (simp add: unat_word_ariths unat_of_nat)

lemma slot_apart:
  fixes sp i j :: u32
  assumes "unat i < 2 ^ 29" and "unat j < 2 ^ 29" and "i \<noteq> j" and "k < 4" and "l < 4"
  shows "sp + i * 4 + of_nat k \<noteq> sp + j * 4 + of_nat l"
proof
  assume "sp + i * 4 + of_nat k = sp + j * 4 + of_nat l"
  then have "unat (i * 4 + of_nat k) = unat (j * 4 + of_nat l)" by (simp add: add.assoc)
  then have "4 * unat i + k = 4 * unat j + l" using unat_slot assms by simp
  with assms(4,5) have "unat i = unat j" by presburger
  with assms(3) show False by (simp add: word_unat_eq_iff)
qed

lemma load_word_cong:
  assumes "\<And>k. k < 4 \<Longrightarrow> m (a + of_nat k) = m' (a + of_nat k)"
  shows "load_word m a = load_word m' a"
  using assms [of 0] assms [of 1] assms [of 2] assms [of 3] by (simp add: load_word_def)

lemma load_store_other:
  fixes sp i j :: u32
  assumes "unat i < 2 ^ 29" and "unat j < 2 ^ 29" and "i \<noteq> j"
  shows "load_word (store_word (sp + i * 4) v m) (sp + j * 4) = load_word m (sp + j * 4)"
  by (intro load_word_cong store_word_other allI impI) (rule slot_apart [OF assms(2,1) assms(3) [symmetric]])

text \<open>A list of words stored in distinct slots.\<close>

definition store_slots :: "u32 \<Rightarrow> (nat \<Rightarrow> u32) \<Rightarrow> (nat \<times> u32) list \<Rightarrow> (u32 \<Rightarrow> u8) \<Rightarrow> (u32 \<Rightarrow> u8)" where
  "store_slots sp f xs m = fold (\<lambda>(k, i) m. store_word (sp + i * 4) (f k) m) xs m"

lemma load_store_slots_other:
  assumes "\<forall>(k, i)\<in>set xs. unat i < 2 ^ 29 \<and> i \<noteq> j" and "unat j < 2 ^ 29"
  shows "load_word (store_slots sp f xs m) (sp + j * 4) = load_word m (sp + j * 4)"
  using assms(1)
proof (induction xs arbitrary: m)
  case Nil
  show ?case by (simp add: store_slots_def)
next
  case (Cons x xs)
  then show ?case using load_store_other [OF _ assms(2)] by (auto simp: store_slots_def split: prod.splits)
qed

lemma load_store_slots:
  assumes "distinct (map snd xs)" and "\<forall>(k, i)\<in>set xs. unat i < 2 ^ 29" and "(k, i) \<in> set xs"
  shows "load_word (store_slots sp f xs m) (sp + i * 4) = f k"
  using assms
proof (induction xs arbitrary: m)
  case Nil
  then show ?case by simp
next
  case (Cons x xs)
  show ?case
  proof (cases "(k, i) \<in> set xs")
    case True
    with Cons show ?thesis by (simp add: store_slots_def)
  next
    case False
    with Cons.prems have x: "x = (k, i)" by auto
    have "\<forall>(k', i')\<in>set xs. unat i' < 2 ^ 29 \<and> i' \<noteq> i"
      using Cons.prems x by (force simp: image_iff)
    moreover have "unat i < 2 ^ 29" using Cons.prems x by auto
    ultimately have "load_word (store_slots sp f xs (store_word (sp + i * 4) (f k) m)) (sp + i * 4) = f k"
      using load_store_slots_other by (simp add: load_store_word)
    then show ?thesis by (simp add: store_slots_def x)
  qed
qed

lemma fold_push_word:
  "fold (\<lambda>(k, i). push_word (sp + i * 4) (f k)) xs s = s\<lparr>mem := store_slots sp f xs (mem s)\<rparr>"
  by (induction xs arbitrary: s) (auto simp: push_word_def store_slots_def)

lemma fold_set_gpr:
  "fold (\<lambda>(k, i). set_gpr k (g i)) xs s
    = s\<lparr>core := (core s)\<lparr>gpr := fold (\<lambda>(k, i) r. r(k := g i)) xs (gpr (core s))\<rparr>\<rparr>"
  by (induction xs arbitrary: s) (auto simp: set_gpr_def)

lemma fold_upd_agree:
  assumes "\<forall>(k, i)\<in>set xs. g i = f k"
  shows "fold (\<lambda>(k, i) r. r(k := g i)) xs r = (\<lambda>k. if k \<in> set (map fst xs) then f k else r k)"
  using assms by (induction xs arbitrary: r) (auto simp: fun_eq_iff)

section \<open>What the handlers save\<close>

lemma int_saved_facts:
  "distinct (map snd int_saved)" "\<forall>(k, i)\<in>set int_saved. unat i < 2 ^ 29"
  "k \<in> {0, 26, 27, 28, 29, 30} \<Longrightarrow> k \<notin> set (map fst int_saved)"
  "\<forall>(k, i)\<in>set int_saved. unat i < 2 ^ 29 \<and> i \<noteq> 22 \<and> i \<noteq> 23 \<and> i \<noteq> 24"
  "\<forall>(k, i)\<in>set int_saved. \<exists>j. 4 \<le> j \<and> j < 25 \<and> i = of_nat j"
proof -
  show "distinct (map snd int_saved)" "\<forall>(k, i)\<in>set int_saved. unat i < 2 ^ 29"
    "\<forall>(k, i)\<in>set int_saved. unat i < 2 ^ 29 \<and> i \<noteq> 22 \<and> i \<noteq> 23 \<and> i \<noteq> 24"
    by (simp_all add: int_saved_def)
  show "k \<in> {0, 26, 27, 28, 29, 30} \<Longrightarrow> k \<notin> set (map fst int_saved)"
    by (auto simp: int_saved_def)
  have small: "\<forall>x\<in>set int_saved. 4 \<le> unat (snd x) \<and> unat (snd x) < 25" by (simp add: int_saved_def)
  show "\<forall>(k, i)\<in>set int_saved. \<exists>j. 4 \<le> j \<and> j < 25 \<and> i = of_nat j"
  proof clarify
    fix k i assume "(k, i) \<in> set int_saved"
    with small have "4 \<le> unat i" "unat i < 25" by fastforce+
    then show "\<exists>j. 4 \<le> j \<and> j < 25 \<and> i = of_nat j" by (intro exI [of _ "unat i"]) simp
  qed
qed

text \<open>The three slots beside those of the general registers.\<close>

lemma slot_numerals:
  "unat (22 :: u32) < 2 ^ 29" "unat (23 :: u32) < 2 ^ 29" "unat (24 :: u32) < 2 ^ 29"
  "(23 :: u32) \<noteq> 22" "(24 :: u32) \<noteq> 22" "(24 :: u32) \<noteq> 23"
  by simp_all

lemma fold_upd_other: "k \<notin> set (map fst xs) \<Longrightarrow> fold (\<lambda>(k, i) r. r(k := g i)) xs r k = r k"
  by (induction xs arbitrary: r) auto

lemma store_slots_cong:
  "\<forall>(k, i)\<in>set xs. f k = g k \<Longrightarrow> store_slots sp f xs m = store_slots sp g xs m"
  by (induction xs arbitrary: m) (auto simp: store_slots_def)

lemma int_handler_memory:
  fixes s :: "'d machine"
  defines "sp \<equiv> reg 29 s - 25 * 4"
  shows "mem (int_handler_entry P s) = store_word (sp + 24 * 4) (cp0_epc (core s))
     (store_word (sp + 23 * 4) (reg_hi (core s)) (store_word (sp + 22 * 4) (reg_lo (core s))
       (store_slots sp (gpr (core s)) int_saved (mem s))))"
    and "core (int_handler_entry P s) = (core s)\<lparr>gpr := (gpr (core s))(29 := sp, 27 := cp0_epc (core s),
      26 := label P ''_int_demux'', 31 := label P ''restore'')\<rparr>"
proof -
  have "store_slots sp ((gpr (core s))(29 := sp)) int_saved (mem s) = store_slots sp (gpr (core s)) int_saved (mem s)"
    using int_saved_facts(3) [of 29] by (intro store_slots_cong) force
  then show "mem (int_handler_entry P s) = store_word (sp + 24 * 4) (cp0_epc (core s))
     (store_word (sp + 23 * 4) (reg_hi (core s)) (store_word (sp + 22 * 4) (reg_lo (core s))
       (store_slots sp (gpr (core s)) int_saved (mem s))))"
    by (simp add: int_handler_entry_def sp_def fold_push_word Let_def instr_defs)
  show "core (int_handler_entry P s) = (core s)\<lparr>gpr := (gpr (core s))(29 := sp, 27 := cp0_epc (core s),
      26 := label P ''_int_demux'', 31 := label P ''restore'')\<rparr>"
    by (simp add: int_handler_entry_def sp_def fold_push_word Let_def instr_defs fun_upd_twist)
qed

text \<open>The frame of the handler holds every register that the routine may change.\<close>

lemma int_handler_saves:
  fixes s :: "'d machine"
  defines "sp \<equiv> reg 29 s - 25 * 4"
  shows "(k, i) \<in> set int_saved \<Longrightarrow> load_word (mem (int_handler_entry P s)) (sp + i * 4) = reg k s"
    and "load_word (mem (int_handler_entry P s)) (sp + 22 * 4) = reg_lo (core s)"
    and "load_word (mem (int_handler_entry P s)) (sp + 23 * 4) = reg_hi (core s)"
    and "load_word (mem (int_handler_entry P s)) (sp + 24 * 4) = cp0_epc (core s)"
proof -
  note mem = int_handler_memory(1) [of P s, folded sp_def]
  show "load_word (mem (int_handler_entry P s)) (sp + 24 * 4) = cp0_epc (core s)"
    unfolding mem by (rule load_store_word)
  show "load_word (mem (int_handler_entry P s)) (sp + 23 * 4) = reg_hi (core s)"
    unfolding mem load_store_other [OF slot_numerals(3,2,6)] by (rule load_store_word)
  show "load_word (mem (int_handler_entry P s)) (sp + 22 * 4) = reg_lo (core s)"
    unfolding mem load_store_other [OF slot_numerals(3,1,5)] load_store_other [OF slot_numerals(2,1,4)]
    by (rule load_store_word)
  assume ki: "(k, i) \<in> set int_saved"
  then have i: "unat i < 2 ^ 29" "22 \<noteq> i" "23 \<noteq> i" "24 \<noteq> i" using int_saved_facts(4) by auto
  have "load_word (mem (int_handler_entry P s)) (sp + i * 4)
      = load_word (store_slots sp (gpr (core s)) int_saved (mem s)) (sp + i * 4)"
    unfolding mem load_store_other [OF slot_numerals(3) i(1,4)] load_store_other [OF slot_numerals(2) i(1,3)]
      load_store_other [OF slot_numerals(1) i(1,2)] by (rule refl)
  then show "load_word (mem (int_handler_entry P s)) (sp + i * 4) = reg k s"
    using load_store_slots [OF int_saved_facts(1,2) ki] by simp
qed

text \<open>The calling convention of the compiled C code: a function may change \<open>$at\<close>, \<open>$v\<close>, \<open>$a\<close>, \<open>$t\<close>, \<open>$ra\<close>, HI
  and LO, and no other register.\<close>

definition caller_saved :: "nat set" where
  "caller_saved = {1..15} \<union> {24, 25, 31}"

definition c_convention :: "(cpu \<Rightarrow> cpu) \<Rightarrow> bool" where
  "c_convention f \<longleftrightarrow> (\<forall>c. (\<forall>k. k \<notin> caller_saved \<longrightarrow> gpr (f c) k = gpr c k) \<and>
     f c = c\<lparr>gpr := gpr (f c), reg_hi := reg_hi (f c), reg_lo := reg_lo (f c)\<rparr>)"

lemma int_saved_caller_saved: "set (map fst int_saved) = caller_saved"
  by (auto simp: int_saved_def caller_saved_def) arith

lemma c_conventionD:
  assumes "c_convention f"
  obtains g h l where "f c = c\<lparr>gpr := g, reg_hi := h, reg_lo := l\<rparr>" and "\<And>k. k \<notin> caller_saved \<Longrightarrow> g k = gpr c k"
  using assms unfolding c_convention_def by blast

lemma c_return_core: "(c_return P s)\<lparr>core := c\<rparr> = s\<lparr>core := c\<rparr>"
  by (simp add: c_return_def)

lemma int_handler_exit_eq:
  fixes s :: "'d machine"
  defines "sp \<equiv> reg 29 s" and "ld \<equiv> \<lambda>i. load_word (mem s) (reg 29 s + i * 4)"
  shows "int_handler_exit s = (ld 24, s\<lparr>core := (core s)\<lparr>
     gpr := (fold (\<lambda>(k, i) r. r(k := ld i)) int_saved (gpr (core s)))(26 := ld 23, 27 := ld 24, 29 := sp + 25 * 4),
     reg_hi := ld 23, reg_lo := ld 22, cp0_epc := ld 24, cp0_sr := cp0_sr (core s) AND NOT 2\<rparr>\<rparr>)"
proof -
  have "29 \<notin> set (map fst int_saved)" by (rule int_saved_facts(3)) simp
  then have "fold (\<lambda>(k, i) r. r(k := ld i)) int_saved (gpr (core s)) 29 = sp"
    unfolding sp_def by (rule fold_upd_other)
  then show ?thesis
    by (simp add: int_handler_exit_def Let_def fold_set_gpr instr_defs sp_def ld_def)
qed

section \<open>Properties\<close>

text \<open>C20. An interrupt is invisible to the interrupted task: if the service routine returns, its compiled
  code obeys the calling convention (it may change \<open>$1\<close> to \<open>$15\<close>, \<open>$24\<close>, \<open>$25\<close>, \<open>$31\<close>, HI and LO; EPC may
  change too) and it leaves alone the words of the stack where the handler has saved registers, then
  \<open>_int_handler\<close> returns to the interrupted instruction, and every register of the processor has the
  value it had at the entry of the handler, HI, LO and EPC included, except the system registers: \<open>$26\<close> is
  left with the value of HI and \<open>$27\<close> with EPC, and \<open>eret\<close> clears the exception level in SR. The rest of
  the machine is as the routine left it.\<close>

theorem int_handler_transparent:
  assumes isr: "k_int_demux P (int_handler_entry P s) = Ret () t"
    and core: "core t = (core (int_handler_entry P s))\<lparr>cp0_epc := e\<rparr>"
    and abi: "c_convention (clobbers P)"
    and frame: "\<forall>i. 4 \<le> i \<and> i < 25 \<longrightarrow> load_word (mem t) (reg 29 s - 25 * 4 + of_nat i * 4)
      = load_word (mem (int_handler_entry P s)) (reg 29 s - 25 * 4 + of_nat i * 4)"
  shows "k_int_handler P s = Ret (cp0_epc (core s)) (t\<lparr>core := (core s)\<lparr>
     gpr := (gpr (core s))(26 := reg_hi (core s), 27 := cp0_epc (core s)),
     cp0_sr := cp0_sr (core s) AND NOT 2\<rparr>\<rparr>)"
proof -
  let ?sp = "reg 29 s - 25 * 4"
  note saves = int_handler_saves [where s = s and P = P]
  obtain g h l where clob: "clobbers P (core t) = (core t)\<lparr>gpr := g, reg_hi := h, reg_lo := l\<rparr>"
      and keep: "\<And>k. k \<notin> caller_saved \<Longrightarrow> g k = reg k t"
    using c_conventionD [OF abi] by metis
  let ?u = "c_return P t"
  have entry: "reg k t = reg k s" if "k \<notin> caller_saved \<union> {26, 27, 29}" for k
    using that unfolding core int_handler_memory(2) by (auto simp: caller_saved_def)
  have "reg 29 t = ?sp" unfolding core int_handler_memory(2) by simp
  then have sp: "reg 29 ?u = ?sp" "mem ?u = mem t"
    using keep [of 29] by (simp_all add: c_return_def clob caller_saved_def)
  have slots: "\<forall>(k, i)\<in>set int_saved. load_word (mem t) (?sp + i * 4) = reg k s"
    using frame saves(1) int_saved_facts(5) by fastforce
  have three: "load_word (mem t) (?sp + 22 * 4) = reg_lo (core s)" "load_word (mem t) (?sp + 23 * 4) = reg_hi (core s)"
    "load_word (mem t) (?sp + 24 * 4) = cp0_epc (core s)"
    using frame [rule_format, of 22] frame [rule_format, of 23] frame [rule_format, of 24] saves(2,3,4) by simp_all
  have "core ?u = (core t)\<lparr>gpr := g, reg_hi := h, reg_lo := l\<rparr>" by (simp add: c_return_def clob)
  then have regs: "core ?u = (core s)\<lparr>gpr := g, reg_hi := h, reg_lo := l, cp0_epc := e\<rparr>"
    unfolding core int_handler_memory(2) by simp
  have gprs: "(fold (\<lambda>(k, i) r. r(k := load_word (mem t) (?sp + i * 4))) int_saved g)(29 := ?sp + 25 * 4, 26 := v, 27 := w)
      = (gpr (core s))(26 := v, 27 := w)" for v w
    unfolding fold_upd_agree [OF slots] int_saved_caller_saved
    using keep entry by (auto simp: fun_eq_iff)
  have "int_handler_exit ?u = (cp0_epc (core s), t\<lparr>core := (core s)\<lparr>
     gpr := (gpr (core s))(26 := reg_hi (core s), 27 := cp0_epc (core s)), cp0_sr := cp0_sr (core s) AND NOT 2\<rparr>\<rparr>)"
    unfolding int_handler_exit_eq sp three
    unfolding regs c_return_core
    using gprs by (simp add: fun_upd_twist [of 26 29] fun_upd_twist [of 27 29])
  then show ?thesis
    by (simp add: k_int_handler_def bnd_simps(1) [where m = "k_int_demux P", OF isr])
qed

text \<open>For the examples, compiled code that leaves its own values in every register it may use.\<close>

definition busy_code :: "cpu \<Rightarrow> cpu" where
  "busy_code c = c\<lparr>gpr := (\<lambda>k. if k \<in> caller_saved then 0xBAD else gpr c k), reg_hi := 1, reg_lo := 2\<rparr>"

lemma c_convention_busy: "c_convention busy_code"
  by (simp add: c_convention_def busy_code_def)

abbreviation "busy_platform \<equiv> tp3_quiet\<lparr>clobbers := busy_code\<rparr>"

definition ioc_irq_start :: "unit machine" where
  "ioc_irq_start = (quiet_start ((cpu_of 0)\<lparr>gpr := (\<lambda>k. of_nat k * 0x1000), reg_hi := 5, cp0_epc := 0x400, cp0_sr := 0xFF13\<rparr>)
     (\<lambda>_. 0))\<lparr>interrupt_vector := replicate 32 Isr_ioc\<rparr>"

theorem int_handler_transparent_witness:
  "\<exists>t. k_int_handler busy_platform ioc_irq_start = Ret 0x400 t \<and>
     gpr (core t) = (gpr (core ioc_irq_start))(26 := 5, 27 := 0x400) \<and> reg_hi (core t) = 5 \<and> reg_lo (core t) = 0 \<and>
     cp0_sr (core t) = 0xFF11"
proof -
  let ?s = "int_handler_entry busy_platform ioc_irq_start"
  let ?u = "?s\<lparr>dev := (), trace := trace ?s @ [Rd (word_at (word_at (seg_icu_base busy_platform) (k_procid ?s * ICU_SPAN)) ICU_IT_VECTOR) 0]\<rparr>"
  have vec: "interrupt_vector ?s = replicate 32 Isr_ioc"
    by (simp add: int_handler_entry_def ioc_irq_start_def fold_push_word Let_def instr_defs)
  have rd: "bus_read tp3_quiet a d = (0, d)" for a d by (simp add: tp3_platform_def quiet_read_def)
  have dm: "k_int_demux busy_platform ?s = Ret () (ioc_served busy_platform ?u)"
    by (simp add: k_int_demux_def k_icu_read_def rd vec bnd_aread isr_ioc_eq bnd_def aread_def Let_def)
  have "core (ioc_served busy_platform ?u) = (core ?s)\<lparr>cp0_epc := cp0_epc (core ?s)\<rparr>"
    "mem (ioc_served busy_platform ?u) = mem ?s"
    by (simp_all add: ioc_served_def rd)
  then have "\<exists>t. k_int_handler busy_platform ioc_irq_start = Ret (cp0_epc (core ioc_irq_start))
      (t\<lparr>core := (core ioc_irq_start)\<lparr>gpr := (gpr (core ioc_irq_start))(26 := reg_hi (core ioc_irq_start), 27 := cp0_epc (core ioc_irq_start)),
        cp0_sr := cp0_sr (core ioc_irq_start) AND NOT 2\<rparr>\<rparr>)"
    using int_handler_transparent [OF dm, where e = "cp0_epc (core ?s)"] c_convention_busy
    by (intro exI [of _ "ioc_served busy_platform ?u"]) simp
  then show ?thesis by (auto simp: ioc_irq_start_def boot_machine_def cpu_of_def)
qed

lemma sys_handler_memory:
  fixes s :: "'d machine"
  defines "sp \<equiv> reg 29 s - 24" and "sr \<equiv> cp0_sr (core s) AND 0xFFFFFFED"
  shows "mem (sys_handler_entry P s)
      = store_word (sp + 5 * 4) (cp0_epc (core s) + 4) (store_word (sp + 4 * 4) (cp0_sr (core s)) (mem s))"
    and "core (sys_handler_entry P s) = (core s)\<lparr>gpr := (gpr (core s))(29 := sp,
      3 := vector_word P (label P ''_syscall_vector'' + push_bit 2 (reg 2 s AND 0x1F)), 27 := 0xFFFFFFED, 26 := sr,
      31 := label P ''_sys_handler: after jalr''), cp0_sr := sr\<rparr>"
  by (simp_all add: sys_handler_entry_def sp_def sr_def Let_def instr_defs fun_eq_iff)

lemma sys_handler_saves:
  fixes s :: "'d machine"
  defines "sp \<equiv> reg 29 s - 24"
  shows "load_word (mem (sys_handler_entry P s)) (sp + 16) = cp0_sr (core s)"
    and "load_word (mem (sys_handler_entry P s)) (sp + 20) = cp0_epc (core s) + 4"
  using load_store_other [of 5 4 sp "cp0_epc (core s) + 4"] load_store_word [of "sp + 4 * 4"] load_store_word [of "sp + 5 * 4"]
  unfolding sys_handler_memory(1) sp_def by simp_all

lemma sys_handler_exit_eq:
  fixes s :: "'d machine"
  defines "ld \<equiv> \<lambda>i. load_word (mem s) (reg 29 s + i)"
  shows "sys_handler_exit s = (ld 20, s\<lparr>core := (core s)\<lparr>gpr := (gpr (core s))(26 := ld 20, 29 := reg 29 s + 24),
     cp0_sr := ld 16 AND NOT 2, cp0_epc := ld 20\<rparr>\<rparr>)"
  by (simp add: sys_handler_exit_def ld_def Let_def instr_defs)

text \<open>The index taken from \<open>$2\<close>, and the word of the vector at it.\<close>

lemma syscall_index: "unat (v AND 0x1F) = unat v mod 32" for v :: u32
proof -
  have "v AND 0x1F = v mod 32"
    using take_bit_eq_mask [of 5 v] by (simp add: mask_eq_exp_minus_1 take_bit_eq_mod)
  then show ?thesis by (simp add: unat_mod_distrib)
qed

lemma vector_word_index:
  "vector_word P (label P ''_syscall_vector'' + push_bit 2 (v AND 0x1F)) = label P (syscall_symbol (sys_dispatch v))"
proof -
  have "unat (push_bit 2 (v AND 0x1F)) = 4 * (unat v mod 32)"
    using syscall_index [of v] mod_less_divisor [of 32 "unat v"] by (simp add: push_bit_eq_mult unat_word_ariths)
  then show ?thesis by (simp add: vector_word_def sys_dispatch_def syscall_index)
qed

lemma clear_um_exl: "(w :: u32) AND 0xFFFFFFED = w AND NOT 0x12"
proof -
  have "NOT (0x12 :: u32) = - 19" "(0xFFFFFFED :: u32) = - 19" by (simp, simp only: eq_neg_iff_add_eq_0, simp)
  then have "NOT (0x12 :: u32) = 0xFFFFFFED" by argo
  then show ?thesis by (simp only:)
qed

text \<open>C21. A system call: \<open>_sys_handler\<close> calls the function whose address the vector holds at \<open>$2\<close> modulo 32,
  with the arguments \<open>$4\<close> to \<open>$7\<close> unchanged, a frame of 24 bytes, and the user mode and exception level bits
  of SR cleared. If that function returns \<open>v\<close>, its compiled code obeys the calling convention, and it
  leaves the two saved words of the stack alone, then the handler returns to the instruction after
  \<open>syscall\<close> with \<open>v\<close> in \<open>$2\<close>, SR as at the entry (less the exception level that \<open>eret\<close> clears), and with
  every other register of the caller unchanged except those that a function may change, HI and LO,
  and the system registers \<open>$26\<close> and \<open>$27\<close>. The rest of the machine is as the function left it.\<close>

theorem sys_handler_returns:
  assumes call: "run_syscall P (syscall_vector ! (unat (reg 2 s) mod 32)) (reg 4 s) (reg 5 s) (reg 6 s)
      (sys_handler_entry P s) = Ret v t"
    and core: "core t = core (sys_handler_entry P s)"
    and abi: "c_convention (clobbers P)"
    and frame: "\<forall>i<8. mem t (reg 29 s - 8 + of_nat i) = mem (sys_handler_entry P s) (reg 29 s - 8 + of_nat i)"
  shows "reg 3 (sys_handler_entry P s) = label P (syscall_symbol (syscall_vector ! (unat (reg 2 s) mod 32))) \<and>
    (\<forall>k\<in>{2, 4, 5, 6, 7}. reg k (sys_handler_entry P s) = reg k s) \<and>
    reg 29 (sys_handler_entry P s) = reg 29 s - 24 \<and>
    cp0_sr (core (sys_handler_entry P s)) = cp0_sr (core s) AND NOT 0x12 \<and>
    (\<exists>u. k_sys_handler P s = Ret (cp0_epc (core s) + 4) u \<and> reg 2 u = v \<and>
      reg 26 u = cp0_epc (core s) + 4 \<and> reg 27 u = 0xFFFFFFED \<and>
      (\<forall>k. k \<notin> caller_saved \<union> {26, 27} \<longrightarrow> reg k u = reg k s) \<and>
      core u = (core s)\<lparr>gpr := gpr (core u), reg_hi := reg_hi (core u), reg_lo := reg_lo (core u),
        cp0_sr := cp0_sr (core s) AND NOT 2, cp0_epc := cp0_epc (core s) + 4\<rparr> \<and>
      u = t\<lparr>core := core u\<rparr>)"
proof -
  let ?sp = "reg 29 s - 24" and ?e = "sys_handler_entry P s"
  note entry = sys_handler_memory(2) [of P s] and saves = sys_handler_saves [where s = s and P = P]
  obtain g h l where clob: "clobbers P (core t) = (core t)\<lparr>gpr := g, reg_hi := h, reg_lo := l\<rparr>"
      and keep: "\<And>k. k \<notin> caller_saved \<Longrightarrow> g k = reg k t"
    using c_conventionD [OF abi] by metis
  let ?w = "set_gpr 2 v (c_return P t)"
  have "reg 29 t = ?sp" unfolding core entry by simp
  then have w: "reg 29 ?w = ?sp" "mem ?w = mem t"
    using keep [of 29] by (simp_all add: set_gpr_def c_return_def clob caller_saved_def)
  have off: "reg 29 s - 8 + of_nat k = ?sp + 16 + of_nat k" "reg 29 s - 8 + of_nat (4 + k) = ?sp + 20 + of_nat k"
    for k by simp_all
  have "load_word (mem t) (?sp + 16) = load_word (mem ?e) (?sp + 16)"
    using frame by (intro load_word_cong) (simp only: off(1) [symmetric])
  then have sr: "load_word (mem t) (?sp + 16) = cp0_sr (core s)" by (simp only: saves(1))
  have "load_word (mem t) (?sp + 20) = load_word (mem ?e) (?sp + 20)"
    using frame by (intro load_word_cong) (simp only: off(2) [symmetric])
  then have epc: "load_word (mem t) (?sp + 20) = cp0_epc (core s) + 4" by (simp only: saves(2))
  let ?u = "t\<lparr>core := (core t)\<lparr>gpr := g(2 := v, 26 := cp0_epc (core s) + 4, 29 := reg 29 s), reg_hi := h, reg_lo := l,
     cp0_sr := cp0_sr (core s) AND NOT 2, cp0_epc := cp0_epc (core s) + 4\<rparr>\<rparr>"
  have "sys_handler_exit ?w = (cp0_epc (core s) + 4, ?u)"
    unfolding sys_handler_exit_eq w sr epc by (simp add: set_gpr_def c_return_def clob)
  moreover have "run_syscall P (sys_dispatch (reg 2 s)) (reg 4 s) (reg 5 s) (reg 6 s) ?e = Ret v t"
    using call by (simp add: sys_dispatch_def syscall_index)
  ultimately have run: "k_sys_handler P s = Ret (cp0_epc (core s) + 4) ?u"
    by (simp add: k_sys_handler_def bnd_simps(1) [where m = "run_syscall _ _ _ _ _"])
  have gprs: "\<forall>k. k \<notin> caller_saved \<union> {26, 27} \<longrightarrow> reg k ?u = reg k s" "reg 27 ?u = 0xFFFFFFED"
    using keep [of 27] keep by (auto simp: core entry caller_saved_def)
  show ?thesis
    using run gprs vector_word_index [of P "reg 2 s"]
    by (auto simp: entry core clear_um_exl sys_dispatch_def syscall_index intro!: exI [of _ ?u])
qed

theorem sys_handler_returns_witness:
  "\<exists>t. k_sys_handler busy_platform (quiet_start ((cpu_of 0)\<lparr>gpr := (\<lambda>k. if k = 2 then 0x0F else 0x4000)\<rparr>) (\<lambda>_. 0))
     = Ret 4 t \<and> reg 2 t = 1 \<and> reg 29 t = 0x4000 \<and> reg 16 t = 0x4000 \<and> cp0_epc (core t) = 4"
proof -
  let ?s = "quiet_start ((cpu_of 0)\<lparr>gpr := (\<lambda>k. if k = 2 then 0x0F else 0x4000)\<rparr>) (\<lambda>_. 0)"
  have regs: "gpr (core ?s) = (\<lambda>k. if k = 2 then 0x0F else 0x4000)" "cp0_epc (core ?s) = 0"
    by (simp_all add: boot_machine_def cpu_of_def)
  have one: "NB_PROCS busy_platform = 1" by (simp add: tp3_platform_def)
  have "run_syscall busy_platform (syscall_vector ! (unat (reg 2 ?s) mod 32)) (reg 4 ?s) (reg 5 ?s)
      (reg 6 ?s) (sys_handler_entry busy_platform ?s) = Ret 1 (sys_handler_entry busy_platform ?s)"
    by (simp add: regs syscall_vector_def run_syscall_def k_procnumber_def one)
  from sys_handler_returns [OF this] c_convention_busy
  obtain u where u: "k_sys_handler busy_platform ?s = Ret (cp0_epc (core ?s) + 4) u" "reg 2 u = 1"
      "\<forall>k. k \<notin> caller_saved \<union> {26, 27} \<longrightarrow> reg k u = reg k ?s"
      "cp0_epc (core u) = cp0_epc (core ?s) + 4"
    by (auto dest: arg_cong [where f = cp0_epc])
  then show ?thesis
    using u(3) [rule_format, of 29] u(3) [rule_format, of 16] by (simp add: regs caller_saved_def)
qed

end
