(* ===== verification/Stdio.thy ===== *)
theory Stdio
  imports Sys "HOL-Library.Signed_Division"
begin

text \<open>
  The user library \<open>giet_2011/app/stdio.c\<close>. Each function reaches the kernel through
  \<open>sys_call\<close>; the model dispatches the call as \<open>_sys_handler\<close> does (whose saving and restoring of
  the caller's registers is the subject of theory \<open>Sys\<close>). Local variables whose address is passed to
  the kernel live in memory, at an address the function takes as an additional first argument. Between
  two polls of a blocking read the rest of the system runs.
\<close>

section \<open>System calls\<close>

definition SYSCALL_PROCID :: u32 where [simp]: "SYSCALL_PROCID = 0x00"
definition SYSCALL_PROCTIME :: u32 where [simp]: "SYSCALL_PROCTIME = 0x01"
definition SYSCALL_TTY_WRITE :: u32 where [simp]: "SYSCALL_TTY_WRITE = 0x02"
definition SYSCALL_TTY_READ :: u32 where [simp]: "SYSCALL_TTY_READ = 0x03"
definition SYSCALL_TIMER_WRITE :: u32 where [simp]: "SYSCALL_TIMER_WRITE = 0x04"
definition SYSCALL_TIMER_READ :: u32 where [simp]: "SYSCALL_TIMER_READ = 0x05"
definition SYSCALL_GCD_WRITE :: u32 where [simp]: "SYSCALL_GCD_WRITE = 0x06"
definition SYSCALL_GCD_READ :: u32 where [simp]: "SYSCALL_GCD_READ = 0x07"
definition SYSCALL_TTY_READ_IRQ :: u32 where [simp]: "SYSCALL_TTY_READ_IRQ = 0x0A"
definition SYSCALL_TTY_WRITE_IRQ :: u32 where [simp]: "SYSCALL_TTY_WRITE_IRQ = 0x0B"
definition SYSCALL_CTX_SWITCH :: u32 where [simp]: "SYSCALL_CTX_SWITCH = 0x0D"
definition SYSCALL_EXIT :: u32 where [simp]: "SYSCALL_EXIT = 0x0E"
definition SYSCALL_PROCNUMBER :: u32 where [simp]: "SYSCALL_PROCNUMBER = 0x0F"
definition SYSCALL_FB_SYNC_WRITE :: u32 where [simp]: "SYSCALL_FB_SYNC_WRITE = 0x10"
definition SYSCALL_FB_SYNC_READ :: u32 where [simp]: "SYSCALL_FB_SYNC_READ = 0x11"
definition SYSCALL_FB_WRITE :: u32 where [simp]: "SYSCALL_FB_WRITE = 0x12"
definition SYSCALL_FB_READ :: u32 where [simp]: "SYSCALL_FB_READ = 0x13"
definition SYSCALL_FB_COMPLETED :: u32 where [simp]: "SYSCALL_FB_COMPLETED = 0x14"
definition SYSCALL_IOC_WRITE :: u32 where [simp]: "SYSCALL_IOC_WRITE = 0x15"
definition SYSCALL_IOC_READ :: u32 where [simp]: "SYSCALL_IOC_READ = 0x16"
definition SYSCALL_IOC_COMPLETED :: u32 where [simp]: "SYSCALL_IOC_COMPLETED = 0x17"
definition SYSCALL_BARRIER_INIT :: u32 where [simp]: "SYSCALL_BARRIER_INIT = 0x18"
definition SYSCALL_BARRIER_WAIT :: u32 where [simp]: "SYSCALL_BARRIER_WAIT = 0x19"

definition sys_call :: "'d platform \<Rightarrow> u32 \<Rightarrow> u32 \<Rightarrow> u32 \<Rightarrow> u32 \<Rightarrow> u32 \<Rightarrow> ('d machine, u32) prog" where
  "sys_call P call_no arg_0 arg_1 arg_2 arg_3 = run_syscall P (sys_dispatch call_no) arg_0 arg_1 arg_2"

definition procid :: "'d platform \<Rightarrow> ('d machine, u32) prog" where
  "procid P = sys_call P SYSCALL_PROCID 0 0 0 0"

definition proctime :: "'d platform \<Rightarrow> ('d machine, u32) prog" where
  "proctime P = sys_call P SYSCALL_PROCTIME 0 0 0 0"

definition procnumber :: "'d platform \<Rightarrow> ('d machine, u32) prog" where
  "procnumber P = sys_call P SYSCALL_PROCNUMBER 0 0 0 0"

section \<open>Terminal output\<close>

definition set_byte :: "u32 \<Rightarrow> u8 \<Rightarrow> ('d machine, unit) prog" where
  "set_byte a c = modify (\<lambda>s. s\<lparr>mem := (mem s)(a := c)\<rparr>)"

definition tty_putc :: "'d platform \<Rightarrow> u32 \<Rightarrow> u8 \<Rightarrow> ('d machine, u32) prog" where
  "tty_putc P fp byte = bnd (set_byte fp byte) (\<lambda>_. sys_call P SYSCALL_TTY_WRITE fp 1 0 0)"

text \<open>The number of characters before the first one that stops a scan.\<close>

definition scan :: "(u8 \<Rightarrow> bool) \<Rightarrow> u32 \<Rightarrow> ('d machine, u32) prog" where
  "scan stop buf = (\<lambda>s. case while_option (\<lambda>l. \<not> stop (mem s (buf + l))) (\<lambda>l. l + 1) 0 of
     None \<Rightarrow> Diverge | Some l \<Rightarrow> Ret l s)"

definition tty_puts :: "'d platform \<Rightarrow> u32 \<Rightarrow> ('d machine, u32) prog" where
  "tty_puts P buf = bnd (scan (\<lambda>c. c = 0) buf) (\<lambda>len. sys_call P SYSCALL_TTY_WRITE buf len 0 0)"

definition tty_putw :: "'d platform \<Rightarrow> u32 \<Rightarrow> u32 \<Rightarrow> ('d machine, u32) prog" where
  "tty_putw P buf val =
     bnd (modify (\<lambda>s. s\<lparr>mem := snd (for_upto 10 (\<lambda>i (val, m).
       (val div 10, m(buf + of_nat (9 - i) := ucast (val mod 10) + 0x30))) (val, mem s))\<rparr>)) (\<lambda>_.
     sys_call P SYSCALL_TTY_WRITE buf 10 0 0)"

section \<open>Terminal input\<close>

definition tty_getc :: "'d platform \<Rightarrow> u32 \<Rightarrow> ('d machine, u32) prog" where
  "tty_getc P byte =
     loop (\<lambda>_. bnd (sys_call P SYSCALL_TTY_READ byte 1 0 0) (\<lambda>r.
       if r = 0 then bnd (modify (others P)) (\<lambda>_. ret (Inl ())) else ret (Inr 0))) ()"

definition tty_getc_irq :: "'d platform \<Rightarrow> u32 \<Rightarrow> ('d machine, u32) prog" where
  "tty_getc_irq P byte =
     loop (\<lambda>_. bnd (sys_call P SYSCALL_TTY_READ_IRQ byte 1 0 0) (\<lambda>r.
       if r = 0 then bnd (modify (others P)) (\<lambda>_. ret (Inl ())) else ret (Inr 0))) ()"

text \<open>\<open>do ret = sys_call(SYSCALL_TTY_READ_IRQ, &byte, 1, 0, 0); while (ret != 1)\<close>, and the byte.\<close>

definition next_byte :: "'d platform \<Rightarrow> u32 \<Rightarrow> ('d machine, u8) prog" where
  "next_byte P byte =
     loop (\<lambda>_. bnd (sys_call P SYSCALL_TTY_READ_IRQ byte 1 0 0) (\<lambda>r.
       if r \<noteq> 1 then bnd (modify (others P)) (\<lambda>_. ret (Inl ()))
       else bnd (gets (\<lambda>s. mem s byte)) (\<lambda>c. ret (Inr c)))) ()"

definition tty_gets_irq :: "'d platform \<Rightarrow> u32 \<Rightarrow> u32 \<Rightarrow> u32 \<Rightarrow> ('d machine, u32) prog" where
  "tty_gets_irq P fp buf bufsize =
     bnd (loop (\<lambda>index.
       if \<not> index < bufsize - 1 then ret (Inr index)
       else bnd (next_byte P fp) (\<lambda>byte.
         if byte = 0x0A then ret (Inr index)
         else if byte = 0x7F \<and> index > 0 then ret (Inl (index - 1))
         else bnd (set_byte (buf + index) byte) (\<lambda>_. ret (Inl (index + 1))))) 0) (\<lambda>index.
     bnd (set_byte (buf + index) 0) (\<lambda>_. ret 0))"

text \<open>\<open>tty_putc(0x08); tty_putc(0x20); tty_putc(0x08)\<close>, \<open>n\<close> times.\<close>

fun rub_out :: "'d platform \<Rightarrow> u32 \<Rightarrow> nat \<Rightarrow> ('d machine, unit) prog" where
  "rub_out P ap 0 = ret ()"
| "rub_out P ap (Suc n) =
     bnd (tty_putc P ap 0x08) (\<lambda>_. bnd (tty_putc P ap 0x20) (\<lambda>_. bnd (tty_putc P ap 0x08) (\<lambda>_.
     rub_out P ap n)))"

text \<open>The conversion loop: the number, and whether an overflow was noticed.\<close>

definition getw_convert :: "u8 list \<Rightarrow> u32 \<times> bool" where
  "getw_convert buf = (let (dec, save, overflow) =
       fold (\<lambda>c (dec, save, overflow).
         let dec = dec * 10 + (ucast c - 0x30)
         in (dec, dec, overflow \<or> dec < save)) buf (0, 0, False)
     in (dec, overflow))"

text \<open>The characters read so far are \<open>buf[0]\<close>, \dots, \<open>buf[max-1]\<close>; \<open>buf\<close> is not passed to the
  kernel. \<open>byte\<close> is at \<open>fp\<close>, the argument of \<open>tty_putc\<close> at \<open>ap\<close>.\<close>

definition tty_getw_irq :: "'d platform \<Rightarrow> u32 \<Rightarrow> u32 \<Rightarrow> u32 \<Rightarrow> ('d machine, u32) prog" where
  "tty_getw_irq P fp ap val =
     (let store_val = (\<lambda>v. modify (\<lambda>s. s\<lparr>mem := store_word val v (mem s)\<rparr>)) in
      bnd (loop (\<lambda>buf. bnd (next_byte P fp) (\<lambda>byte.
        let check = (\<lambda>buf. ret (if length buf = 32 then Inr (buf, False) else Inl buf)) in
        if byte > 0x2F \<and> byte < 0x3A then bnd (tty_putc P ap byte) (\<lambda>_. check (buf @ [byte]))
        else if byte = 0x0A \<or> byte = 0x0D then ret (Inr (buf, True))
        else if byte = 0x7F \<and> buf \<noteq> [] then bnd (rub_out P ap 1) (\<lambda>_. check (butlast buf))
        else check buf)) []) (\<lambda>(buf, done).
      let give_up = bnd (rub_out P ap (length buf)) (\<lambda>_. bnd (tty_putc P ap 0x30) (\<lambda>_.
            bnd (store_val 0) (\<lambda>_. ret 0)));
          (dec, overflow) = getw_convert buf
      in if \<not> done then give_up else if overflow then give_up
         else bnd (store_val dec) (\<lambda>_. ret 0)))"

section \<open>Formatted output\<close>

definition HexaTab :: "u8 list" where
  "HexaTab = ascii ''0123456789ABCDEF''"

text \<open>The digit loop of the conversions \<open>d\<close> and \<open>u\<close>, on the C \<open>int\<close> \<open>val\<close>, with the division of C,
  which rounds towards zero: it returns the loop counter \<open>i\<close> and the memory, or \<open>None\<close> if the index of the
  digit is negative. The buffer is at \<open>buf\<close>.\<close>

function printf_dec :: "u32 \<Rightarrow> nat \<Rightarrow> int \<Rightarrow> (u32 \<Rightarrow> u8) \<Rightarrow> (nat \<times> (u32 \<Rightarrow> u8)) option" where
  "printf_dec buf i val m =
     (if i < 10 then
        if val smod 10 < 0 then None
        else let m' = m(buf + of_nat (9 - i) := HexaTab ! nat (val smod 10)); val' = val sdiv 10
             in if val' = 0 then Some (i, m') else printf_dec buf (Suc i) val' m'
      else Some (i, m))"
  by pat_completeness auto
termination by (relation "measure (\<lambda>(buf, i, val, m). 10 - i)") auto

text \<open>The digit loop of the conversion \<open>x\<close>, which is unsigned.\<close>

function printf_hex :: "u32 \<Rightarrow> nat \<Rightarrow> u32 \<Rightarrow> (u32 \<Rightarrow> u8) \<Rightarrow> nat \<times> (u32 \<Rightarrow> u8)" where
  "printf_hex buf i val m =
     (if i < 8 then
        let m' = m(buf + of_nat (7 - i) := HexaTab ! unat (val mod 16)); val' = val div 16
        in if val' = 0 then (i, m') else printf_hex buf (Suc i) val' m'
      else (i, m))"
  by pat_completeness auto
termination by (relation "measure (\<lambda>(buf, i, val, m). 8 - i)") auto

declare printf_dec.simps [simp del] printf_hex.simps [simp del]

definition printf_dec_conv :: "u32 \<Rightarrow> int \<Rightarrow> ('d machine, u32 \<times> u32) prog" where
  "printf_dec_conv buf val = (\<lambda>s. case printf_dec buf 0 val (mem s) of
     None \<Rightarrow> Ub s | Some (i, m) \<Rightarrow> Ret (buf + 9 - of_nat i, of_nat i + 1) (s\<lparr>mem := m\<rparr>))"

definition printf_hex_conv :: "u32 \<Rightarrow> u32 \<Rightarrow> ('d machine, u32 \<times> u32) prog" where
  "printf_hex_conv buf val = (\<lambda>s. case printf_hex buf 0 val (mem s) of
     (i, m) \<Rightarrow> Ret (buf + 7 - of_nat i, of_nat i + 1) (s\<lparr>mem := m\<rparr>))"

text \<open>One conversion: \<open>None\<close> is an unknown format character, an error of a write is \<open>Some (Inl ())\<close>,
  and otherwise the result is the text to print (\<open>pbuf\<close> and \<open>len\<close>). The literals \<open>"-"\<close> and \<open>"0x"\<close> are at
  \<open>dash\<close> and \<open>hex_prefix\<close>. The negation of the smallest \<open>int\<close> is undefined.\<close>

definition printf_argument ::
    "'d platform \<Rightarrow> u32 \<Rightarrow> u32 \<Rightarrow> u32 \<Rightarrow> u8 \<Rightarrow> u32 \<Rightarrow> ('d machine, (unit + u32 \<times> u32) option) prog" where
  "printf_argument P buf dash hex_prefix conv val =
     (if conv = 0x63 then bnd (set_byte buf (ucast val)) (\<lambda>_. ret (Some (Inr (buf, 1))))
      else if conv = 0x64 then
        (if sint val < 0 then
           if val = 0x80000000 then undef
           else bnd (sys_call P SYSCALL_TTY_WRITE dash 1 0 0) (\<lambda>r.
             if r \<noteq> 1 then ret (Some (Inl ()))
             else bnd (printf_dec_conv buf (- sint val)) (\<lambda>x. ret (Some (Inr x))))
         else bnd (printf_dec_conv buf (sint val)) (\<lambda>x. ret (Some (Inr x))))
      else if conv = 0x75 then bnd (printf_dec_conv buf (sint val)) (\<lambda>x. ret (Some (Inr x)))
      else if conv = 0x78 then
        bnd (sys_call P SYSCALL_TTY_WRITE hex_prefix 2 0 0) (\<lambda>r.
        if r \<noteq> 2 then ret (Some (Inl ()))
        else bnd (printf_hex_conv buf val) (\<lambda>x. ret (Some (Inr x))))
      else if conv = 0x73 then bnd (scan (\<lambda>c. c = 0) val) (\<lambda>len. ret (Some (Inr (val, len))))
      else ret None)"

text \<open>The body of the loop at \<open>printf_text\<close>, with the conversion at \<open>printf_arguments\<close>; the
  variable arguments are a list, and taking one that was not passed is undefined.\<close>

definition printf_step ::
    "'d platform \<Rightarrow> u32 \<Rightarrow> u32 \<Rightarrow> u32 \<Rightarrow> u32 \<times> u32 list \<Rightarrow> ('d machine, (u32 \<times> u32 list) + u32) prog" where
  "printf_step P buf dash hex_prefix = (\<lambda>(format, ap).
     bnd (gets (\<lambda>s. mem s format)) (\<lambda>c.
     if c = 0 then ret (Inr 0)
     else
       bnd (scan (\<lambda>c. c = 0 \<or> c = 0x25) format) (\<lambda>i.
       bnd (if i \<noteq> 0 then sys_call P SYSCALL_TTY_WRITE format i 0 0 else ret i) (\<lambda>r.
       if r \<noteq> i then ret (Inr 1)
       else
         let format = format + i in
         bnd (gets (\<lambda>s. mem s format)) (\<lambda>c.
         if c \<noteq> 0x25 then ret (Inl (format, ap))
         else (case ap of [] \<Rightarrow> undef | val # ap \<Rightarrow>
           bnd (gets (\<lambda>s. mem s (format + 1))) (\<lambda>conv.
           bnd (printf_argument P buf dash hex_prefix conv val) (\<lambda>x.
           case x of None \<Rightarrow> ret (Inl (format + 2, ap)) | Some (Inl _) \<Rightarrow> ret (Inr 1)
           | Some (Inr (pbuf, len)) \<Rightarrow>
               bnd (sys_call P SYSCALL_TTY_WRITE pbuf len 0 0) (\<lambda>r.
               if r \<noteq> len then ret (Inr 1) else ret (Inl (format + 2, ap)))))))))))"

definition tty_printf :: "'d platform \<Rightarrow> u32 \<Rightarrow> u32 \<Rightarrow> u32 \<Rightarrow> u32 \<Rightarrow> u32 list \<Rightarrow> ('d machine, u32) prog" where
  "tty_printf P buf dash hex_prefix format ap = loop (printf_step P buf dash hex_prefix) (format, ap)"

section \<open>The other devices\<close>

definition timer_set_mode :: "'d platform \<Rightarrow> u32 \<Rightarrow> ('d machine, u32) prog" where
  "timer_set_mode P val = sys_call P SYSCALL_TIMER_WRITE TIMER_MODE val 0 0"

definition timer_set_period :: "'d platform \<Rightarrow> u32 \<Rightarrow> ('d machine, u32) prog" where
  "timer_set_period P val = sys_call P SYSCALL_TIMER_WRITE TIMER_PERIOD val 0 0"

definition timer_reset_irq :: "'d platform \<Rightarrow> ('d machine, u32) prog" where
  "timer_reset_irq P = sys_call P SYSCALL_TIMER_WRITE TIMER_RESETIRQ 0 0 0"

definition timer_get_time :: "'d platform \<Rightarrow> u32 \<Rightarrow> ('d machine, u32) prog" where
  "timer_get_time P time = sys_call P SYSCALL_TIMER_READ TIMER_VALUE time 0 0"

definition gcd_set_opa :: "'d platform \<Rightarrow> u32 \<Rightarrow> ('d machine, u32) prog" where
  "gcd_set_opa P val = sys_call P SYSCALL_GCD_WRITE GCD_OPA val 0 0"

definition gcd_set_opb :: "'d platform \<Rightarrow> u32 \<Rightarrow> ('d machine, u32) prog" where
  "gcd_set_opb P val = sys_call P SYSCALL_GCD_WRITE GCD_OPB val 0 0"

definition gcd_start :: "'d platform \<Rightarrow> ('d machine, u32) prog" where
  "gcd_start P = sys_call P SYSCALL_GCD_WRITE GCD_START 0 0 0"

definition gcd_get_status :: "'d platform \<Rightarrow> u32 \<Rightarrow> ('d machine, u32) prog" where
  "gcd_get_status P val = sys_call P SYSCALL_GCD_READ GCD_STATUS val 0 0"

definition gcd_get_result :: "'d platform \<Rightarrow> u32 \<Rightarrow> ('d machine, u32) prog" where
  "gcd_get_result P val = sys_call P SYSCALL_GCD_READ GCD_OPA val 0 0"

definition ioc_write :: "'d platform \<Rightarrow> u32 \<Rightarrow> u32 \<Rightarrow> u32 \<Rightarrow> ('d machine, u32) prog" where
  "ioc_write P lba buffer count = sys_call P SYSCALL_IOC_WRITE lba buffer count 0"

definition ioc_read :: "'d platform \<Rightarrow> u32 \<Rightarrow> u32 \<Rightarrow> u32 \<Rightarrow> ('d machine, u32) prog" where
  "ioc_read P lba buffer count = sys_call P SYSCALL_IOC_READ lba buffer count 0"

definition ioc_completed :: "'d platform \<Rightarrow> ('d machine, u32) prog" where
  "ioc_completed P = sys_call P SYSCALL_IOC_COMPLETED 0 0 0 0"

definition fb_sync_write :: "'d platform \<Rightarrow> u32 \<Rightarrow> u32 \<Rightarrow> u32 \<Rightarrow> ('d machine, u32) prog" where
  "fb_sync_write P offset buffer len = sys_call P SYSCALL_FB_SYNC_WRITE offset buffer len 0"

definition fb_sync_read :: "'d platform \<Rightarrow> u32 \<Rightarrow> u32 \<Rightarrow> u32 \<Rightarrow> ('d machine, u32) prog" where
  "fb_sync_read P offset buffer len = sys_call P SYSCALL_FB_SYNC_READ offset buffer len 0"

definition fb_write :: "'d platform \<Rightarrow> u32 \<Rightarrow> u32 \<Rightarrow> u32 \<Rightarrow> ('d machine, u32) prog" where
  "fb_write P offset buffer len = sys_call P SYSCALL_FB_WRITE offset buffer len 0"

definition fb_read :: "'d platform \<Rightarrow> u32 \<Rightarrow> u32 \<Rightarrow> u32 \<Rightarrow> ('d machine, u32) prog" where
  "fb_read P offset buffer len = sys_call P SYSCALL_FB_READ offset buffer len 0"

definition fb_completed :: "'d platform \<Rightarrow> ('d machine, u32) prog" where
  "fb_completed P = sys_call P SYSCALL_FB_COMPLETED 0 0 0 0"

definition barrier_init :: "'d platform \<Rightarrow> u32 \<Rightarrow> u32 \<Rightarrow> ('d machine, u32) prog" where
  "barrier_init P index count = sys_call P SYSCALL_BARRIER_INIT index count 0 0"

definition barrier_wait :: "'d platform \<Rightarrow> u32 \<Rightarrow> ('d machine, u32) prog" where
  "barrier_wait P index = sys_call P SYSCALL_BARRIER_WAIT index 0 0 0"

definition user_exit :: "'d platform \<Rightarrow> ('d machine, unit) prog" where
  "user_exit P = bnd (procid P) (\<lambda>proc_index.
     bnd (sys_call P SYSCALL_EXIT proc_index 0 0 0) (\<lambda>_. ret ()))"

definition rand :: "'d platform \<Rightarrow> ('d machine, u32) prog" where
  "rand P = bnd (sys_call P SYSCALL_PROCTIME 0 0 0 0) (\<lambda>x.
     ret (if x AND 0xF > 7 then x * x AND 0xFFFF else x * x * x AND 0xFFFF))"

definition ctx_switch :: "'d platform \<Rightarrow> ('d machine, u32) prog" where
  "ctx_switch P = sys_call P SYSCALL_CTX_SWITCH 0 0 0 0"

end
