(* ===== verification/Printf.thy ===== *)
theory Printf
  imports Stdio
begin

text \<open>
  The terminal output functions of \<open>giet_2011/app/stdio.c\<close> print what they promise: \<open>tty_puts\<close>,
  \<open>tty_putw\<close> and \<open>tty_printf\<close> against a specification of the format language.
\<close>

section \<open>Texts in memory\<close>

definition mem_has :: "(u32 \<Rightarrow> u8) \<Rightarrow> u32 \<Rightarrow> u8 list \<Rightarrow> bool" where
  "mem_has m p cs \<longleftrightarrow> (\<forall>k<length cs. m (p + of_nat k) = cs ! k)"

lemma mem_has_read: "mem_has m p cs \<Longrightarrow> read_bytes m p (length cs) = cs"
  by (intro nth_equalityI) (auto simp: mem_has_def nth_read_bytes)

lemma mem_has_append: "mem_has m p (cs @ ds) \<longleftrightarrow> mem_has m p cs \<and> mem_has m (p + of_nat (length cs)) ds"
proof
  assume h: "mem_has m p (cs @ ds)"
  have "m (p + of_nat k) = cs ! k" if "k < length cs" for k
    using h that unfolding mem_has_def by (metis length_append nth_append trans_less_add1)
  moreover have "m (p + of_nat (length cs) + of_nat k) = ds ! k" if "k < length ds" for k
    using h [unfolded mem_has_def, rule_format, of "length cs + k"] that by (simp add: add.assoc)
  ultimately show "mem_has m p cs \<and> mem_has m (p + of_nat (length cs)) ds" by (simp add: mem_has_def)
next
  assume h: "mem_has m p cs \<and> mem_has m (p + of_nat (length cs)) ds"
  show "mem_has m p (cs @ ds)"
    unfolding mem_has_def
  proof (intro allI impI)
    fix k assume k: "k < length (cs @ ds)"
    show "m (p + of_nat k) = (cs @ ds) ! k"
    proof (cases "k < length cs")
      case True
      with h show ?thesis by (simp add: mem_has_def nth_append)
    next
      case False
      then have "(of_nat k :: u32) = of_nat (length cs) + of_nat (k - length cs)"
        by (simp flip: of_nat_add)
      then have "p + of_nat k = p + of_nat (length cs) + of_nat (k - length cs)"
        by (simp add: add.assoc)
      moreover have "m (p + of_nat (length cs) + of_nat (k - length cs)) = ds ! (k - length cs)"
      proof -
        have "k - length cs < length ds" using k False by simp
        with h show ?thesis unfolding mem_has_def by blast
      qed
      ultimately show ?thesis using False by (simp only: nth_append if_False)
    qed
  qed
qed

lemma mem_has_Cons: "mem_has m p (c # cs) \<longleftrightarrow> m p = c \<and> mem_has m (p + 1) cs"
  using mem_has_append [of m p "[c]" cs] by (simp add: mem_has_def)

lemma mem_has_Nil [simp]: "mem_has m p []"
  by (simp add: mem_has_def)

lemma mem_has_cong:
  assumes "mem_has m p cs" and "\<And>k. k < length cs \<Longrightarrow> m' (p + of_nat k) = m (p + of_nat k)"
  shows "mem_has m' p cs"
  using assms by (simp add: mem_has_def)

text \<open>A scan finds the first character that stops it.\<close>

lemma scan_from:
  assumes "mem_has (mem s) p (cs @ [c])" and "\<forall>x\<in>set cs. \<not> stop x" and "stop c" and "length cs < 2 ^ 32"
    and "k \<le> length cs"
  shows "while_option (\<lambda>l. \<not> stop (mem s (p + l))) (\<lambda>l. l + 1) (of_nat k) = Some (of_nat (length cs))"
  using assms(5)
proof (induction k rule: inc_induct)
  case base
  have "mem s (p + of_nat (length cs)) = c" using assms(1) by (simp add: mem_has_append mem_has_Cons)
  then show ?case using assms(3) by (simp add: while_option_unfold)
next
  case (step k)
  have "mem s (p + of_nat k) = cs ! k"
    using assms(1) step.hyps by (simp add: mem_has_append) (simp add: mem_has_def)
  moreover have "cs ! k \<in> set cs" using step.hyps by simp
  ultimately have "\<not> stop (mem s (p + of_nat k))" using assms(2) by simp
  then show ?case using step.IH by (subst while_option_unfold) (simp add: add.commute)
qed

lemma scan_finds:
  assumes "mem_has (mem s) p (cs @ [c])" and "\<forall>x\<in>set cs. \<not> stop x" and "stop c" and "length cs < 2 ^ 32"
  shows "scan stop p s = Ret (of_nat (length cs)) s"
  using scan_from [OF assms, of 0] by (simp add: scan_def)

section \<open>Programs that print and use a buffer\<close>

text \<open>The program returns \<open>r\<close> after printing \<open>cs\<close>; apart from the bytes in \<open>A\<close> the machine is unchanged.\<close>

definition emits :: "u32 set \<Rightarrow> 'd platform \<Rightarrow> 'd machine \<Rightarrow> u8 list \<Rightarrow> 'a \<Rightarrow> ('a, 'd machine) outcome \<Rightarrow> bool" where
  "emits A P s cs r out \<longleftrightarrow> (\<exists>t. out = Ret r t \<and> prints P (s\<lparr>mem := mem t\<rparr>) cs t \<and> (\<forall>a. a \<notin> A \<longrightarrow> mem t a = mem s a))"

lemma tty_mem [simp]:
  "running_ok P (s\<lparr>mem := m\<rparr>) = running_ok P s" "tty_free P (s\<lparr>mem := m\<rparr>) = tty_free P s"
  "tty_base P (s\<lparr>mem := m\<rparr>) = tty_base P s"
  by (simp_all add: running_ok_def arrays_ok_def k_procid_def current_task_def tty_free_def tty_base_def
      terminal_def Let_def)

lemma prints_mem:
  assumes "prints P s cs t"
  shows "prints P (s\<lparr>mem := m\<rparr>) cs (t\<lparr>mem := m\<rparr>)"
proof -
  from assms obtain d es where "t = s\<lparr>dev := d, trace := trace s @ es\<rparr>"
    "tty_sends P (tty_base P s) cs es (dev s) d" by (auto simp: prints_def)
  then show ?thesis unfolding prints_def by (intro exI [of _ d] exI [of _ es]) simp
qed

lemma emits_ret: "emits A P s [] r (Ret r s)"
  by (simp add: emits_def prints_Nil)

lemma emits_mem:
  assumes "\<And>a. a \<notin> A \<Longrightarrow> m' a = mem s a" and "emits A P (s\<lparr>mem := m'\<rparr>) cs r out"
  shows "emits A P s cs r out"
  using assms by (auto simp: emits_def)

lemma sys_call_tty_write:
  "sys_call P SYSCALL_TTY_WRITE p n a b = bnd (gets (\<lambda>s. read_bytes (mem s) p (unat n))) (k_tty_write P)"
  by (simp add: sys_call_def sys_dispatch_def syscall_vector_def run_syscall_def)

lemma emits_write:
  assumes "running_ok P s" and "tty_free P s" and "mem_has (mem s) p cs" and "unat n = length cs"
    and "\<And>t. prints P s cs t \<Longrightarrow> emits A P t ds r (k n t)"
  shows "emits A P s (cs @ ds) r (bnd (sys_call P SYSCALL_TTY_WRITE p n a b) k s)"
proof -
  have bytes: "read_bytes (mem s) p (unat n) = cs" using mem_has_read [OF assms(3)] assms(4) by simp
  have n: "of_nat (length cs) = n" using assms(4) by (metis of_nat_unat)
  obtain t where t: "k_tty_write P cs s = Ret (of_nat (length cs)) t" "prints P s cs t"
    using tty_write_prints [OF assms(1,2)] by blast
  have run: "bnd (sys_call P SYSCALL_TTY_WRITE p n a b) k s = k n t"
    using t(1) n by (simp only: sys_call_tty_write) (simp add: bnd_assoc bytes bnd_simps(1) [where m = "k_tty_write _ _"])
  obtain u where u: "k n t = Ret r u" "prints P (t\<lparr>mem := mem u\<rparr>) ds u" "\<forall>a. a \<notin> A \<longrightarrow> mem u a = mem t a"
    using assms(5) [OF t(2)] by (auto simp: emits_def)
  from prints_mem [OF t(2)] have "prints P (s\<lparr>mem := mem u\<rparr>) cs (t\<lparr>mem := mem u\<rparr>)" .
  from prints_trans [OF this u(2)] have "prints P (s\<lparr>mem := mem u\<rparr>) (cs @ ds) u" .
  with u run prints_frame(2) [OF t(2)] show ?thesis by (auto simp: emits_def)
qed

section \<open>Conversions\<close>

lemma HexaTab_digits: "d < 16 \<Longrightarrow> HexaTab ! d = hex_digit d" "d < 10 \<Longrightarrow> HexaTab ! d = dec_digit d"
  by (simp add: HexaTab_def hex_digit_def hex_digits_def)
    (erule less_10_cases; simp add: HexaTab_def dec_digit_def ascii_def)

lemma buf_offset_inj:
  fixes buf :: u32
  assumes "i < 20" and "j < 20" and "i \<noteq> j"
  shows "buf + of_nat i \<noteq> buf + of_nat j"
proof
  assume "buf + of_nat i = buf + of_nat j"
  then have "unat (of_nat i :: u32) = unat (of_nat j :: u32)" by simp
  with assms show False by (simp add: unat_of_nat)
qed

lemma power_peel: "i < n \<Longrightarrow> (b::nat) ^ (n - i) = b ^ (n - Suc i) * b"
  by (metis Suc_diff_Suc power_Suc2)

text \<open>A digit written below the ones that precede it.\<close>

lemma digits_step:
  fixes buf :: u32
  assumes "i < hi" and "hi < 20" and "mem_has m' (buf + of_nat (hi - (i + length ds))) ds" and "i + length ds \<le> hi"
    and "\<And>a. (\<forall>k\<le>hi - Suc i. a \<noteq> buf + of_nat k) \<Longrightarrow> m' a = (m(buf + of_nat (hi - i) := d)) a"
  shows "mem_has m' (buf + of_nat (hi - (i + length ds))) (ds @ [d])"
    and "\<And>a. (\<forall>k\<le>hi - i. a \<noteq> buf + of_nat k) \<Longrightarrow> m' a = m a"
proof -
  have "buf + of_nat (hi - i) \<noteq> buf + of_nat k" if "k \<le> hi - Suc i" for k
    using that assms(1,2) by (intro buf_offset_inj) auto
  then have "m' (buf + of_nat (hi - i)) = d" using assms(5) by simp
  moreover have "of_nat (hi - (i + length ds)) + of_nat (length ds) = (of_nat (hi - i) :: u32)"
  proof -
    have "hi - (i + length ds) + length ds = hi - i" using assms(4) by simp
    then show ?thesis by (metis of_nat_add)
  qed
  ultimately show "mem_has m' (buf + of_nat (hi - (i + length ds))) (ds @ [d])"
    using assms(3) by (simp add: mem_has_append mem_has_Cons add.assoc)
  show "m' a = m a" if "\<forall>k\<le>hi - i. a \<noteq> buf + of_nat k" for a
    using that assms(5) [of a] by auto
qed

lemma printf_dec_digits:
  assumes "0 \<le> val" and "nat val < 10 ^ (10 - i)" and "i < 10"
  shows "\<exists>m' n. printf_dec buf i val m = Some (n, m') \<and> n + 1 = i + length (to_digits 10 dec_digit (nat val)) \<and> n \<le> 9 \<and>
    mem_has m' (buf + of_nat (9 - n)) (to_digits 10 dec_digit (nat val)) \<and>
    (\<forall>a. (\<forall>k\<le>9 - i. a \<noteq> buf + of_nat k) \<longrightarrow> m' a = m a)"
  using assms
proof (induction buf i val m rule: printf_dec.induct)
  case (1 buf i val m)
  have nn: "val smod 10 = val mod 10" "val sdiv 10 = val div 10"
    using "1.prems"(1) by (simp_all add: signed_modulo_int_def signed_divide_int_def sgn_if)
  have d: "HexaTab ! nat (val mod 10) = dec_digit (nat val mod 10)"
    using "1.prems"(1) by (simp add: HexaTab_digits(2) nat_mod_distrib)
  let ?m = "m(buf + of_nat (9 - i) := dec_digit (nat val mod 10))"
  show ?case
  proof (cases "val div 10 = 0")
    case True
    then have "nat val < 10" using "1.prems"(1) by (simp add: div_eq_0_iff)
    then have ds: "to_digits 10 dec_digit (nat val) = [dec_digit (nat val mod 10)]" by (simp add: to_digits.simps)
    have "printf_dec buf i val m = Some (i, ?m)"
      using True "1.prems" \<open>nat val < 10\<close> by (simp add: printf_dec.simps [of buf i] nn HexaTab_digits(2))
    then show ?thesis using ds "1.prems"(3) by (auto simp: mem_has_Cons)
  next
    case False
    then have big: "10 \<le> nat val" using "1.prems"(1) by (auto simp: div_eq_0_iff not_less)
    have i: "Suc i < 10"
    proof (rule ccontr)
      assume "\<not> Suc i < 10"
      then have "10 - i = 1" using "1.prems"(3) by simp
      with "1.prems"(2) big show False by simp
    qed
    have "nat (val div 10) < 10 ^ (10 - Suc i)"
    proof -
      have "(10::nat) ^ (10 - i) = 10 ^ (10 - Suc i) * 10" using i by (intro power_peel) simp
      with "1.prems"(1,2) show ?thesis by (simp add: nat_div_distrib less_mult_imp_div_less)
    qed
    moreover have "0 \<le> val div 10" using "1.prems"(1) by simp
    ultimately obtain m' n where r: "printf_dec buf (Suc i) (val div 10) ?m = Some (n, m')"
        "n + 1 = Suc i + length (to_digits 10 dec_digit (nat (val div 10)))" "n \<le> 9"
        "mem_has m' (buf + of_nat (9 - n)) (to_digits 10 dec_digit (nat (val div 10)))"
        "\<forall>a. (\<forall>k\<le>9 - Suc i. a \<noteq> buf + of_nat k) \<longrightarrow> m' a = ?m a"
      using "1.IH" [OF "1.prems"(3) _ refl refl] False i "1.prems"(1) by (fastforce simp: nn d)
    let ?ds = "to_digits 10 dec_digit (nat (val div 10))"
    have ds: "to_digits 10 dec_digit (nat val) = ?ds @ [dec_digit (nat val mod 10)]"
      using big "1.prems"(1) by (simp add: to_digits.simps [of _ _ "nat val"] nat_div_distrib)
    have n: "9 - n = 9 - (i + length ?ds)" "i + length ?ds \<le> 9" using r(2,3) by auto
    have "printf_dec buf i val m = Some (n, m')"
      using False "1.prems" r(1) by (simp add: printf_dec.simps [of buf i] nn d)
    moreover have "i < 9" "(9::nat) < 20" using i by simp_all
    note step = digits_step [OF this r(4) [unfolded n(1)] n(2) r(5) [rule_format], folded n(1)]
    have "mem_has m' (buf + of_nat (9 - n)) (?ds @ [dec_digit (nat val mod 10)])" by (rule step(1)) blast
    moreover have "\<forall>a. (\<forall>k\<le>9 - i. a \<noteq> buf + of_nat k) \<longrightarrow> m' a = m a" using step(2) by blast
    ultimately show ?thesis using r(2,3) unfolding ds by (intro exI [of _ m'] exI [of _ n]) simp
  qed
qed

lemma printf_hex_digits:
  fixes val :: u32
  assumes "unat val < 16 ^ (8 - i)" and "i < 8"
  shows "\<exists>m' n. printf_hex buf i val m = (n, m') \<and> n + 1 = i + length (to_digits 16 hex_digit (unat val)) \<and> n \<le> 7 \<and>
    mem_has m' (buf + of_nat (7 - n)) (to_digits 16 hex_digit (unat val)) \<and>
    (\<forall>a. (\<forall>k\<le>7 - i. a \<noteq> buf + of_nat k) \<longrightarrow> m' a = m a)"
  using assms
proof (induction buf i val m rule: printf_hex.induct)
  case (1 buf i val m)
  have d: "HexaTab ! unat (val mod 16) = hex_digit (unat val mod 16)"
    by (simp add: HexaTab_digits(1) unat_mod_distrib)
  have q: "val div 16 = 0 \<longleftrightarrow> unat val < 16" "unat (val div 16) = unat val div 16"
    by (simp_all add: unat_div_distrib flip: unat_eq_zero) (simp add: div_eq_0_iff)
  let ?m = "m(buf + of_nat (7 - i) := hex_digit (unat val mod 16))"
  show ?case
  proof (cases "val div 16 = 0")
    case True
    then have ds: "to_digits 16 hex_digit (unat val) = [hex_digit (unat val mod 16)]"
      using q(1) by (simp add: to_digits.simps)
    have "printf_hex buf i val m = (i, ?m)"
      using True "1.prems" by (simp only: printf_hex.simps [of buf i] d Let_def if_True simp_thms)
    then show ?thesis using ds "1.prems"(2) by (auto simp: mem_has_Cons)
  next
    case False
    then have big: "16 \<le> unat val" using q(1) by simp
    have i: "Suc i < 8"
    proof (rule ccontr)
      assume "\<not> Suc i < 8"
      then have "8 - i = 1" using "1.prems"(2) by simp
      with "1.prems"(1) big show False by simp
    qed
    have "unat (val div 16) < 16 ^ (8 - Suc i)"
    proof -
      have "(16::nat) ^ (8 - i) = 16 ^ (8 - Suc i) * 16" using i by (intro power_peel) simp
      with "1.prems"(1) q(2) show ?thesis by (simp add: less_mult_imp_div_less)
    qed
    then obtain m' n where r: "printf_hex buf (Suc i) (val div 16) ?m = (n, m')"
        "n + 1 = Suc i + length (to_digits 16 hex_digit (unat (val div 16)))" "n \<le> 7"
        "mem_has m' (buf + of_nat (7 - n)) (to_digits 16 hex_digit (unat (val div 16)))"
        "\<forall>a. (\<forall>k\<le>7 - Suc i. a \<noteq> buf + of_nat k) \<longrightarrow> m' a = ?m a"
      using "1.IH" [OF "1.prems"(2) refl refl False] i unfolding d by blast
    let ?ds = "to_digits 16 hex_digit (unat (val div 16))"
    have ds: "to_digits 16 hex_digit (unat val) = ?ds @ [hex_digit (unat val mod 16)]"
      using big q(2) by (simp add: to_digits.simps [of _ _ "unat val"])
    have n: "7 - n = 7 - (i + length ?ds)" "i + length ?ds \<le> 7" using r(2,3) by auto
    have "printf_hex buf i val m = (n, m')"
      using False "1.prems" r(1) by (simp only: printf_hex.simps [of buf i] d Let_def if_True if_False)
    moreover have "i < 7" "(7::nat) < 20" using i by simp_all
    note step = digits_step [OF this r(4) [unfolded n(1)] n(2) r(5) [rule_format], folded n(1)]
    have "mem_has m' (buf + of_nat (7 - n)) (?ds @ [hex_digit (unat val mod 16)])" by (rule step(1)) blast
    moreover have "\<forall>a. (\<forall>k\<le>7 - i. a \<noteq> buf + of_nat k) \<longrightarrow> m' a = m a" using step(2) by blast
    ultimately show ?thesis using r(2,3) unfolding ds by (intro exI [of _ m'] exI [of _ n]) simp
  qed
qed

text \<open>The local buffer of \<open>tty_printf\<close>.\<close>

definition buf_area :: "u32 \<Rightarrow> u32 set" where
  "buf_area buf = (\<lambda>k. buf + of_nat k) ` {..<20}"

lemma buf_area_far: "a \<notin> buf_area buf \<Longrightarrow> k < 20 \<Longrightarrow> a \<noteq> buf + of_nat k"
  unfolding buf_area_def by blast

lemma printf_dec_conv_digits:
  assumes "0 \<le> val" and "val < 2 ^ 31"
  shows "\<exists>m' p n. printf_dec_conv buf val s = Ret (p, n) (s\<lparr>mem := m'\<rparr>) \<and>
    unat n = length (to_digits 10 dec_digit (nat val)) \<and> mem_has m' p (to_digits 10 dec_digit (nat val)) \<and>
    (\<forall>a. a \<notin> buf_area buf \<longrightarrow> m' a = mem s a)"
proof -
  have "nat val < 10 ^ (10 - 0)" using assms by (simp add: nat_less_iff)
  with printf_dec_digits [OF assms(1), of 0 buf "mem s"] obtain m' n where
    r: "printf_dec buf 0 val (mem s) = Some (n, m')" "n + 1 = length (to_digits 10 dec_digit (nat val))" "n \<le> 9"
      "mem_has m' (buf + of_nat (9 - n)) (to_digits 10 dec_digit (nat val))"
      "\<forall>a. (\<forall>k\<le>9. a \<noteq> buf + of_nat k) \<longrightarrow> m' a = mem s a"
    by auto
  have "(of_nat (9 - n) :: u32) = 9 - of_nat n" using r(3) by simp
  then have "buf + of_nat (9 - n) = buf + 9 - of_nat n" by (simp only: add_diff_eq)
  moreover have "unat (of_nat n + 1 :: u32) = n + 1" using r(3) by (simp add: unat_word_ariths unat_of_nat)
  moreover have "\<forall>a. a \<notin> buf_area buf \<longrightarrow> m' a = mem s a"
    using r(5) buf_area_far by simp
  ultimately show ?thesis
    using r(1,2,4)
    by - (rule exI [of _ m'], rule exI [of _ "buf + 9 - of_nat n"], rule exI [of _ "of_nat n + 1"],
        simp only: printf_dec_conv_def option.case prod.case simp_thms)
qed

lemma printf_hex_conv_digits:
  "\<exists>m' p n. printf_hex_conv buf val s = Ret (p, n) (s\<lparr>mem := m'\<rparr>) \<and>
    unat n = length (to_digits 16 hex_digit (unat val)) \<and> mem_has m' p (to_digits 16 hex_digit (unat val)) \<and>
    (\<forall>a. a \<notin> buf_area buf \<longrightarrow> m' a = mem s a)"
proof -
  have "unat val < 16 ^ (8 - 0)" using unat_less_u32 [of val] by simp
  with printf_hex_digits [of val 0 buf "mem s"] obtain m' n where
    r: "printf_hex buf 0 val (mem s) = (n, m')" "n + 1 = length (to_digits 16 hex_digit (unat val))" "n \<le> 7"
      "mem_has m' (buf + of_nat (7 - n)) (to_digits 16 hex_digit (unat val))"
      "\<forall>a. (\<forall>k\<le>7. a \<noteq> buf + of_nat k) \<longrightarrow> m' a = mem s a"
    by auto
  have "(of_nat (7 - n) :: u32) = 7 - of_nat n" using r(3) by simp
  then have "buf + of_nat (7 - n) = buf + 7 - of_nat n" by (simp only: add_diff_eq)
  moreover have "unat (of_nat n + 1 :: u32) = n + 1" using r(3) by (simp add: unat_word_ariths unat_of_nat)
  moreover have "\<forall>a. a \<notin> buf_area buf \<longrightarrow> m' a = mem s a"
    using r(5) buf_area_far by simp
  ultimately show ?thesis
    using r(1,2,4)
    by - (rule exI [of _ m'], rule exI [of _ "buf + 7 - of_nat n"], rule exI [of _ "of_nat n + 1"],
        simp only: printf_hex_conv_def prod.case simp_thms)
qed

section \<open>The format language\<close>

definition dec_text :: "int \<Rightarrow> u8 list" where
  "dec_text v = (if v < 0 then 0x2D # to_digits 10 dec_digit (nat (- v)) else to_digits 10 dec_digit (nat v))"

text \<open>A string of the program in memory, outside the area \<open>A\<close>.\<close>

definition string_at :: "(u32 \<Rightarrow> u8) \<Rightarrow> u32 set \<Rightarrow> u32 \<Rightarrow> u8 list \<Rightarrow> bool" where
  "string_at m A p cs \<longleftrightarrow> mem_has m p (cs @ [0]) \<and> 0 \<notin> set cs \<and> length cs < 2 ^ 32 \<and>
     (\<forall>k\<le>length cs. p + of_nat k \<notin> A)"

text \<open>The text of a conversion: character, signed and unsigned decimal, hexadecimal, string; nothing for
  any other character. The decimal conversions have no text for a value whose negation overflows, and
  for an unsigned value of 2147483648 or more.\<close>

definition conv_text :: "(u32 \<Rightarrow> u8) \<Rightarrow> u32 set \<Rightarrow> u8 \<Rightarrow> u32 \<Rightarrow> u8 list \<Rightarrow> bool" where
  "conv_text m A conv v cs \<longleftrightarrow>
     (if conv = 0x63 then cs = [ucast v]
      else if conv = 0x64 then v \<noteq> 0x80000000 \<and> cs = dec_text (sint v)
      else if conv = 0x75 then unat v < 2 ^ 31 \<and> cs = to_digits 10 dec_digit (unat v)
      else if conv = 0x78 then cs = 0x30 # 0x78 # to_digits 16 hex_digit (unat v)
      else if conv = 0x73 then string_at m A v cs
      else cs = [])"

inductive formats :: "(u32 \<Rightarrow> u8) \<Rightarrow> u32 set \<Rightarrow> u8 list \<Rightarrow> u32 list \<Rightarrow> u8 list \<Rightarrow> bool"
  for m A where
  formats_end: "formats m A [] args []"
| formats_char: "formats m A fs args out \<Longrightarrow> c \<noteq> 0 \<Longrightarrow> c \<noteq> 0x25 \<Longrightarrow> formats m A (c # fs) args (c # out)"
| formats_conv: "formats m A fs args out \<Longrightarrow> conv \<noteq> 0 \<Longrightarrow> conv_text m A conv v cs \<Longrightarrow>
    formats m A (0x25 # conv # fs) (v # args) (cs @ out)"

inductive_cases formats_NilE: "formats m A [] args out"
inductive_cases formats_percentE: "formats m A (0x25 # fs) args out"

lemma formats_text:
  assumes "formats m A fs args out"
  shows "\<exists>out'. out = takeWhile (\<lambda>c. c \<noteq> 0x25) fs @ out' \<and> formats m A (dropWhile (\<lambda>c. c \<noteq> 0x25) fs) args out' \<and>
    0 \<notin> set fs"
  using assms
proof (induction rule: formats.induct)
  case (formats_conv fs args out conv v cs)
  then show ?case by (auto intro: formats.formats_conv)
qed (auto intro: formats.intros)

text \<open>States in which the function can go on: the memory is the original one outside \<open>A\<close>.\<close>

definition ready_to_print :: "(u32 \<Rightarrow> u8) \<Rightarrow> u32 set \<Rightarrow> 'd platform \<Rightarrow> 'd machine \<Rightarrow> bool" where
  "ready_to_print m A P s \<longleftrightarrow> running_ok P s \<and> tty_free P s \<and> (\<forall>a. a \<notin> A \<longrightarrow> mem s a = m a)"

lemma ready_prints: "ready_to_print m A P s \<Longrightarrow> prints P s cs t \<Longrightarrow> ready_to_print m A P t"
  using prints_tty [of P s cs t] prints_frame(2) [of P s cs t] by (simp add: ready_to_print_def)

lemma ready_mem:
  "ready_to_print m A P s \<Longrightarrow> (\<And>a. a \<notin> A \<Longrightarrow> m' a = mem s a) \<Longrightarrow> ready_to_print m A P (s\<lparr>mem := m'\<rparr>)"
  by (simp add: ready_to_print_def)

lemma ready_has:
  "ready_to_print m A P s \<Longrightarrow> mem_has m p cs \<Longrightarrow> (\<And>k. k < length cs \<Longrightarrow> p + of_nat k \<notin> A) \<Longrightarrow> mem_has (mem s) p cs"
  by (simp add: ready_to_print_def mem_has_def)

lemma emits_ready_write:
  assumes "ready_to_print m A P s" and "mem_has (mem s) p cs" and "unat n = length cs"
    and "\<And>t. ready_to_print m A P t \<Longrightarrow> emits A P t ds r (k n t)"
  shows "emits A P s (cs @ ds) r (bnd (sys_call P SYSCALL_TTY_WRITE p n a b) k s)"
  using assms ready_prints [OF assms(1)] by (intro emits_write) (auto simp: ready_to_print_def [of m A P s])

text \<open>The end of a conversion: printing the text at \<open>pbuf\<close>.\<close>

definition printf_out :: "'d platform \<Rightarrow> ('d machine, 'a) prog \<Rightarrow> ('d machine, 'a) prog \<Rightarrow>
    (unit + u32 \<times> u32) option \<Rightarrow> ('d machine, 'a) prog" where
  "printf_out P next_text fail x = (case x of None \<Rightarrow> next_text | Some (Inl _) \<Rightarrow> fail
     | Some (Inr (pbuf, len)) \<Rightarrow>
         bnd (sys_call P SYSCALL_TTY_WRITE pbuf len 0 0) (\<lambda>r. if r \<noteq> len then fail else next_text))"

lemma printf_out_simps:
  "printf_out P K F None = K" "printf_out P K F (Some (Inl ())) = F"
  "printf_out P K F (Some (Inr (p, n))) = bnd (sys_call P SYSCALL_TTY_WRITE p n 0 0) (\<lambda>r. if r \<noteq> n then F else K)"
  by (simp_all add: printf_out_def del: SYSCALL_TTY_WRITE_def)

lemma emits_printf_out:
  assumes "ready_to_print m A P s" and "mem_has (mem s) p cs" and "unat n = length cs"
    and "\<And>t. ready_to_print m A P t \<Longrightarrow> emits A P t ds r (K t)"
  shows "emits A P s (cs @ ds) r (printf_out P K F (Some (Inr (p, n))) s)"
  unfolding printf_out_simps using assms by (intro emits_ready_write) auto

lemma emits_dec:
  assumes "ready_to_print m (buf_area buf) P s" and "0 \<le> val" and "val < 2 ^ 31"
    and "\<And>t. ready_to_print m (buf_area buf) P t \<Longrightarrow> emits (buf_area buf) P t ds r (K t)"
  shows "emits (buf_area buf) P s (to_digits 10 dec_digit (nat val) @ ds) r
    (bnd (printf_dec_conv buf val) (\<lambda>x. printf_out P K F (Some (Inr x))) s)"
proof -
  obtain m' p n where c: "printf_dec_conv buf val s = Ret (p, n) (s\<lparr>mem := m'\<rparr>)"
      "unat n = length (to_digits 10 dec_digit (nat val))" "mem_has m' p (to_digits 10 dec_digit (nat val))"
      "\<forall>a. a \<notin> buf_area buf \<longrightarrow> m' a = mem s a"
    using printf_dec_conv_digits [OF assms(2,3)] by blast
  have "ready_to_print m (buf_area buf) P (s\<lparr>mem := m'\<rparr>)" using ready_mem [OF assms(1)] c(4) by blast
  then have "emits (buf_area buf) P (s\<lparr>mem := m'\<rparr>) (to_digits 10 dec_digit (nat val) @ ds) r
      (printf_out P K F (Some (Inr (p, n))) (s\<lparr>mem := m'\<rparr>))"
    using c(2,3) assms(4) by (intro emits_printf_out) auto
  from emits_mem [OF _ this] c(4) show ?thesis by (simp add: bnd_simps(1) [where m = "printf_dec_conv _ _", OF c(1)])
qed

lemma emits_hex:
  assumes "ready_to_print m (buf_area buf) P s"
    and "\<And>t. ready_to_print m (buf_area buf) P t \<Longrightarrow> emits (buf_area buf) P t ds r (K t)"
  shows "emits (buf_area buf) P s (to_digits 16 hex_digit (unat val) @ ds) r
    (bnd (printf_hex_conv buf val) (\<lambda>x. printf_out P K F (Some (Inr x))) s)"
proof -
  obtain m' p n where c: "printf_hex_conv buf val s = Ret (p, n) (s\<lparr>mem := m'\<rparr>)"
      "unat n = length (to_digits 16 hex_digit (unat val))" "mem_has m' p (to_digits 16 hex_digit (unat val))"
      "\<forall>a. a \<notin> buf_area buf \<longrightarrow> m' a = mem s a"
    using printf_hex_conv_digits by blast
  have "ready_to_print m (buf_area buf) P (s\<lparr>mem := m'\<rparr>)" using ready_mem [OF assms(1)] c(4) by blast
  then have "emits (buf_area buf) P (s\<lparr>mem := m'\<rparr>) (to_digits 16 hex_digit (unat val) @ ds) r
      (printf_out P K F (Some (Inr (p, n))) (s\<lparr>mem := m'\<rparr>))"
    using c(2,3) assms(2) by (intro emits_printf_out) auto
  from emits_mem [OF _ this] c(4) show ?thesis by (simp add: bnd_simps(1) [where m = "printf_hex_conv _ _", OF c(1)])
qed

text \<open>The literals of \<open>tty_printf\<close>.\<close>

definition printf_literals :: "(u32 \<Rightarrow> u8) \<Rightarrow> u32 set \<Rightarrow> u32 \<Rightarrow> u32 \<Rightarrow> bool" where
  "printf_literals m A dash hex_prefix \<longleftrightarrow> mem_has m dash [0x2D] \<and> mem_has m hex_prefix [0x30, 0x78] \<and>
     dash \<notin> A \<and> hex_prefix \<notin> A \<and> hex_prefix + 1 \<notin> A"

lemma sint_bounds: "v \<noteq> 0x80000000 \<Longrightarrow> - sint (v :: u32) < 2 ^ 31" "sint (v :: u32) < 2 ^ 31"
proof -
  show "sint v < 2 ^ 31" using sint_lt [of v] by simp
  assume "v \<noteq> 0x80000000"
  moreover have "- (2 ^ 31) \<le> sint v" using sint_ge [of v] by simp
  moreover have "sint v \<noteq> - (2 ^ 31)"
  proof
    assume "sint v = - (2 ^ 31)"
    then have "(word_of_int (sint v) :: u32) = word_of_int (- (2 ^ 31))" by simp
    with \<open>v \<noteq> 0x80000000\<close> neg_top_bit show False by simp
  qed
  ultimately show "- sint v < 2 ^ 31" by simp
qed

lemma printf_argument_emits:
  assumes ready: "ready_to_print m (buf_area buf) P s" and lits: "printf_literals m (buf_area buf) dash hex_prefix"
    and conv: "conv_text m (buf_area buf) conv v cs"
    and K: "\<And>t. ready_to_print m (buf_area buf) P t \<Longrightarrow> emits (buf_area buf) P t ds r (K t)"
  shows "emits (buf_area buf) P s (cs @ ds) r (bnd (printf_argument P buf dash hex_prefix conv v) (printf_out P K F) s)"
proof -
  let ?A = "buf_area buf"
  note [simp del] = SYSCALL_TTY_WRITE_def
  have zero: "buf = buf + of_nat 0" by simp
  then have buf: "buf \<in> ?A" unfolding buf_area_def by (intro image_eqI [of _ _ 0]) auto
  have dash: "mem_has (mem t) dash [0x2D]" and hexp: "mem_has (mem t) hex_prefix [0x30, 0x78]"
    if "ready_to_print m ?A P t" for t
    using that lits by (auto simp: printf_literals_def ready_to_print_def mem_has_Cons)
  consider "conv = 0x63" | "conv = 0x64" | "conv = 0x75" | "conv = 0x78" | "conv = 0x73"
    | "conv \<notin> {0x63, 0x64, 0x75, 0x78, 0x73}" by blast
  then show ?thesis
  proof cases
    case 1
    let ?m = "(mem s)(buf := ucast v)"
    have "ready_to_print m ?A P (s\<lparr>mem := ?m\<rparr>)" using buf by (intro ready_mem [OF ready]) auto
    then have "emits ?A P (s\<lparr>mem := ?m\<rparr>) ([ucast v] @ ds) r (printf_out P K F (Some (Inr (buf, 1))) (s\<lparr>mem := ?m\<rparr>))"
      using K by (intro emits_printf_out) (auto simp: mem_has_Cons)
    then have "emits ?A P s ([ucast v] @ ds) r (printf_out P K F (Some (Inr (buf, 1))) (s\<lparr>mem := ?m\<rparr>))"
      by (rule emits_mem [rotated]) (use buf in auto)
    with conv 1 show ?thesis by (auto simp: conv_text_def printf_argument_def bnd_assoc set_byte_def)
  next
    case 2
    then have v: "v \<noteq> 0x80000000" "cs = dec_text (sint v)" using conv by (auto simp: conv_text_def)
    show ?thesis
    proof (cases "sint v < 0")
      case True
      have "emits ?A P s ([0x2D] @ (to_digits 10 dec_digit (nat (- sint v)) @ ds)) r
        (bnd (sys_call P SYSCALL_TTY_WRITE dash 1 0 0) (\<lambda>r. if r \<noteq> 1 then F else
          bnd (printf_dec_conv buf (- sint v)) (\<lambda>x. printf_out P K F (Some (Inr x)))) s)"
        using True sint_bounds(1) [OF v(1)] K by (intro emits_ready_write [OF ready dash [OF ready]]) (auto intro: emits_dec)
      then show ?thesis
        using True v 2 by (simp add: printf_argument_def dec_text_def bnd_assoc_fun printf_out_simps cong: if_cong)
    next
      case False
      then show ?thesis
        using emits_dec [OF ready _ sint_bounds(2) K] v 2
        by (simp add: printf_argument_def dec_text_def bnd_assoc)
    qed
  next
    case 3
    then have v: "unat v < 2 ^ 31" "cs = to_digits 10 dec_digit (unat v)" using conv by (auto simp: conv_text_def)
    have "nat (sint v) = unat v" using sint_small_u32 [OF v(1)] by simp
    then show ?thesis
      using emits_dec [OF ready _ sint_bounds(2) K, of v F] v 3 sint_small_u32 [OF v(1)]
      by (simp add: printf_argument_def bnd_assoc)
  next
    case 4
    then have v: "cs = [0x30, 0x78] @ to_digits 16 hex_digit (unat v)" using conv by (auto simp: conv_text_def)
    have "emits ?A P s ([0x30, 0x78] @ (to_digits 16 hex_digit (unat v) @ ds)) r
      (bnd (sys_call P SYSCALL_TTY_WRITE hex_prefix 2 0 0) (\<lambda>r. if r \<noteq> 2 then F else
        bnd (printf_hex_conv buf v) (\<lambda>x. printf_out P K F (Some (Inr x)))) s)"
      using K by (intro emits_ready_write [OF ready hexp [OF ready]]) (auto intro: emits_hex)
    then show ?thesis
      using v 4 by (simp add: printf_argument_def bnd_assoc_fun printf_out_simps cong: if_cong)
  next
    case 5
    then have v: "string_at m ?A v cs" using conv by (simp add: conv_text_def)
    then have has: "mem_has (mem s) v (cs @ [0])"
      by (intro ready_has [OF ready]) (auto simp: string_at_def less_Suc_eq_le)
    have "scan (\<lambda>c. c = 0) v s = Ret (of_nat (length cs)) s"
      using v by (intro scan_finds [OF has]) (auto simp: string_at_def)
    moreover have "emits ?A P s (cs @ ds) r (printf_out P K F (Some (Inr (v, of_nat (length cs)))) s)"
      using has v K by (intro emits_printf_out [OF ready]) (auto simp: mem_has_append string_at_def unat_of_nat_u32)
    ultimately show ?thesis
      using 5 by (simp add: printf_argument_def bnd_assoc bnd_simps(1) [where m = "scan _ _"])
  next
    case 6
    then show ?thesis
      using conv K [OF ready] by (simp add: printf_argument_def conv_text_def printf_out_simps)
  qed
qed

section \<open>The loop\<close>

lemma printf_argument_out:
  "bnd (case x of None \<Rightarrow> ret (Inl y) | Some (Inl _) \<Rightarrow> ret (Inr e)
     | Some (Inr (pbuf, len)) \<Rightarrow>
         bnd (sys_call P SYSCALL_TTY_WRITE pbuf len 0 0) (\<lambda>r. if r \<noteq> len then ret (Inr e) else ret (Inl y)))
     (case_sum L ret) = printf_out P (L y) (ret e) x"
  by (auto simp: printf_out_def bnd_assoc_fun simp del: SYSCALL_TTY_WRITE_def split: option.splits sum.splits intro!: bnd_cong)

lemma printf_step_loop:
  assumes "L = loop (printf_step P buf dash hex_prefix)"
  shows "L (format, ap) =
     bnd (gets (\<lambda>s. mem s format)) (\<lambda>c.
     if c = 0 then ret 0
     else bnd (scan (\<lambda>c. c = 0 \<or> c = 0x25) format) (\<lambda>i.
       bnd (if i \<noteq> 0 then sys_call P SYSCALL_TTY_WRITE format i 0 0 else ret i) (\<lambda>r.
       if r \<noteq> i then ret 1
       else bnd (gets (\<lambda>s. mem s (format + i))) (\<lambda>c.
         if c \<noteq> 0x25 then L (format + i, ap)
         else (case ap of [] \<Rightarrow> undef | val # ap \<Rightarrow>
           bnd (gets (\<lambda>s. mem s (format + i + 1))) (\<lambda>conv.
           bnd (printf_argument P buf dash hex_prefix conv val) (printf_out P (L (format + i + 2, ap)) (ret 1))))))))"
proof -
  have "L (format, ap) = bnd (printf_step P buf dash hex_prefix (format, ap)) (case_sum L ret)"
    unfolding assms by (rule ext) (rule loop_unfold)
  also have "\<dots> = bnd (gets (\<lambda>s. mem s format)) (\<lambda>c.
     if c = 0 then ret 0
     else bnd (scan (\<lambda>c. c = 0 \<or> c = 0x25) format) (\<lambda>i.
       bnd (if i \<noteq> 0 then sys_call P SYSCALL_TTY_WRITE format i 0 0 else ret i) (\<lambda>r.
       if r \<noteq> i then ret 1
       else bnd (gets (\<lambda>s. mem s (format + i))) (\<lambda>c.
         if c \<noteq> 0x25 then L (format + i, ap)
         else (case ap of [] \<Rightarrow> undef | val # ap \<Rightarrow>
           bnd (gets (\<lambda>s. mem s (format + i + 1))) (\<lambda>conv.
           bnd (printf_argument P buf dash hex_prefix conv val) (printf_out P (L (format + i + 2, ap)) (ret 1))))))))"
    unfolding printf_step_def prod.case Let_def bnd_assoc_fun
    by (cases ap; intro bnd_cong)
      (simp_all only: bnd_if_fun bnd_assoc_fun bnd_ret_fun sum.case list.case printf_argument_out bnd_undef_fun)
  finally show ?thesis .
qed

lemma printf_loop:
  assumes "ready_to_print m (buf_area buf) P s" and "printf_literals m (buf_area buf) dash hex_prefix"
    and "formats m (buf_area buf) fs args out" and "string_at m (buf_area buf) format fs"
  shows "emits (buf_area buf) P s out 0 (loop (printf_step P buf dash hex_prefix) (format, args) s)"
  using assms(1,3,4)
proof (induction "length fs" arbitrary: fs args out format s rule: less_induct)
  case less
  let ?A = "buf_area buf" and ?L = "loop (printf_step P buf dash hex_prefix)"
  note [simp del] = SYSCALL_TTY_WRITE_def
  have has: "mem_has (mem t) format (fs @ [0])" if "ready_to_print m ?A P t" for t
    using less.prems(3) by (intro ready_has [OF that]) (auto simp: string_at_def less_Suc_eq_le)
  show ?case
  proof (cases fs)
    case Nil
    then have "out = []" using less.prems(2) by (auto elim: formats_NilE)
    moreover have "mem s format = 0" using has [OF less.prems(1)] Nil by (simp add: mem_has_Cons)
    ultimately show ?thesis by (simp add: printf_step_loop [OF refl] emits_ret)
  next
    case (Cons c0 fs0)
    define ts where "ts = takeWhile (\<lambda>c. c \<noteq> 0x25) fs"
    define rs where "rs = dropWhile (\<lambda>c. c \<noteq> 0x25) fs"
    have split: "fs = ts @ rs" by (simp add: ts_def rs_def)
    obtain out' where out: "out = ts @ out'" "formats m ?A rs args out'" "0 \<notin> set fs"
      using formats_text [OF less.prems(2)] by (auto simp: ts_def rs_def)
    have len: "length fs < 2 ^ 32" using less.prems(3) by (simp add: string_at_def)
    have n: "unat (of_nat (length ts) :: u32) = length ts" using len split by (intro unat_of_nat_u32) simp
    have "mem s format \<noteq> 0" using has [OF less.prems(1)] out(3) Cons by (auto simp: mem_has_Cons)
    have hd_rs: "hd rs = 0x25" if "rs \<noteq> []" using hd_dropWhile [of "\<lambda>c. c \<noteq> 0x25" fs] that by (simp add: rs_def)
    obtain c1 zs where rest: "rs @ [0] = c1 # zs" "c1 = 0 \<or> c1 = 0x25"
      using hd_rs by (cases rs) auto
    have text_at: "mem_has (mem t) format (ts @ c1 # zs)" if "ready_to_print m ?A P t" for t
      using has [OF that] split rest(1) by simp
    have "scan (\<lambda>c. c = 0 \<or> c = 0x25) format s = Ret (of_nat (length ts)) s"
    proof (rule scan_finds)
      show "mem_has (mem s) format (ts @ [c1])"
        using text_at [OF less.prems(1)] by (simp add: mem_has_append mem_has_Cons)
      show "\<forall>x\<in>set ts. \<not> (x = 0 \<or> x = 0x25)" using out(3) set_takeWhileD unfolding ts_def by fast
    qed (use rest len split in auto)
    let ?K = "bnd (gets (\<lambda>s. mem s (format + of_nat (length ts)))) (\<lambda>c.
          if c \<noteq> 0x25 then ?L (format + of_nat (length ts), args)
          else (case args of [] \<Rightarrow> undef | val # ap \<Rightarrow>
            bnd (gets (\<lambda>s. mem s (format + of_nat (length ts) + 1))) (\<lambda>conv.
            bnd (printf_argument P buf dash hex_prefix conv val)
              (printf_out P (?L (format + of_nat (length ts) + 2, ap)) (ret 1)))))"
    have K: "emits ?A P t out' 0 (?K t)" if t: "ready_to_print m ?A P t" for t
    proof (cases rs)
      case Nil
      then have "mem t (format + of_nat (length ts)) = 0"
        using text_at [OF t] rest by (simp add: mem_has_append mem_has_Cons)
      moreover have "out' = []" using out(2) Nil by (auto elim: formats_NilE)
      ultimately show ?thesis by (simp add: printf_step_loop [OF refl, where format = "format + of_nat (length ts)" and ap = args] emits_ret)
    next
      case (Cons r0 rs1)
      then have "r0 = 0x25" using hd_rs by simp
      with Cons out(2) obtain conv rs2 v args' cs out2 where f: "rs = 0x25 # conv # rs2" "args = v # args'"
        "out' = cs @ out2" "formats m ?A rs2 args' out2" "conv_text m ?A conv v cs"
        by (auto elim: formats_percentE)
      have at: "mem t (format + of_nat (length ts)) = 0x25" "mem t (format + of_nat (length ts) + 1) = conv"
        using text_at [OF t] rest(1) f(1) by (auto simp: mem_has_append mem_has_Cons)
      have "string_at m ?A (format + of_nat (length ts) + 2) rs2"
      proof -
        have s: "string_at m ?A format (ts @ 0x25 # conv # rs2)" using less.prems(3) split f(1) by simp
        have "format + of_nat (length ts) + 2 + of_nat k \<notin> ?A" if "k \<le> length rs2" for k
        proof -
          have "format + of_nat (length ts) + 2 + of_nat k = format + of_nat (length ts + 2 + k)" by simp
          with s that show ?thesis unfolding string_at_def by (metis (no_types, lifting) Suc_eq_plus1 add.assoc add_2_eq_Suc'
            add_le_mono1 add.commute length_Cons length_append nat_add_left_cancel_le)
        qed
        with s show ?thesis by (auto simp: string_at_def mem_has_append mem_has_Cons add.assoc)
      qed
      moreover have "length rs2 < length fs" using split f(1) by simp
      ultimately have "emits ?A P u out2 0 (?L (format + of_nat (length ts) + 2, args') u)"
        if "ready_to_print m ?A P u" for u
        using less.hyps [OF _ that f(4)] by blast
      from printf_argument_emits [OF t assms(2) f(5) this] show ?thesis
        using at f(2,3) by simp
    qed
    have "emits ?A P s (ts @ out') 0
      (bnd (if of_nat (length ts) \<noteq> (0::u32) then sys_call P SYSCALL_TTY_WRITE format (of_nat (length ts)) 0 0
            else ret (of_nat (length ts))) (\<lambda>r. if r \<noteq> of_nat (length ts) then ret 1 else ?K) s)"
    proof (cases "ts = []")
      case True
      then show ?thesis using K [OF less.prems(1)] by simp
    next
      case False
      then have "of_nat (length ts) \<noteq> (0::u32)" using n by (metis length_0_conv unat_0)
      then show ?thesis
        using text_at [OF less.prems(1)] n K
        by (simp only: if_True not_False_eq_True simp_thms)
          (intro emits_ready_write [OF less.prems(1)], auto simp: mem_has_append)
    qed
    with \<open>mem s format \<noteq> 0\<close> \<open>scan _ _ _ = _\<close> out(1) show ?thesis
      by (subst printf_step_loop [OF refl]) (simp add: bnd_simps(1) [where m = "scan _ _"])
  qed
qed

section \<open>Words and strings\<close>

lemma putw_loop:
  fixes val buf :: u32
  assumes "k \<le> 10"
  shows "case for_upto k (\<lambda>i (val, m). (val div 10, m(buf + of_nat (9 - i) := ucast (val mod 10) + 0x30))) (val, m) of
    (v, m') \<Rightarrow> unat v = unat val div 10 ^ k \<and>
      (\<forall>j<k. m' (buf + of_nat (9 - j)) = dec_digit (unat val div 10 ^ j mod 10)) \<and>
      (\<forall>a. (\<forall>j<10. a \<noteq> buf + of_nat j) \<longrightarrow> m' a = m a)"
  using assms
proof (induction k)
  case 0
  show ?case by simp
next
  case (Suc k)
  let ?body = "\<lambda>i (val :: u32, m). (val div 10, m(buf + of_nat (9 - i) := ucast (val mod 10) + 0x30))"
  obtain v m' where vm: "for_upto k ?body (val, m) = (v, m')" by fastforce
  have "k \<le> 10" using Suc.prems by simp
  note IH0 = Suc.IH [OF this, unfolded vm prod.case]
  then have IH: "unat v = unat val div 10 ^ k"
      "\<forall>j<k. m' (buf + of_nat (9 - j)) = dec_digit (unat val div 10 ^ j mod 10)"
      "\<forall>a. (\<forall>j<10. a \<noteq> buf + of_nat j) \<longrightarrow> m' a = m a"
    by blast+
  have "ucast (v mod 10) + 0x30 = dec_digit (unat val div 10 ^ k mod 10)"
  proof -
    have "(ucast (v mod 10) :: u8) = of_nat (unat (v mod 10))" by simp
    moreover have "unat (v mod 10) = unat val div 10 ^ k mod 10" by (simp add: unat_mod_distrib IH(1))
    ultimately show ?thesis by (simp only: dec_digit_def add.commute)
  qed
  moreover have "unat (v div 10) = unat val div 10 ^ Suc k"
    by (simp add: unat_div_distrib IH(1) div_mult2_eq [symmetric] mult.commute)
  moreover have "buf + of_nat (9 - j) \<noteq> buf + of_nat (9 - k)" if "j < k" for j
    using that Suc.prems by (intro buf_offset_inj) auto
  moreover have "a \<noteq> buf + of_nat (9 - k)" if "\<forall>j<10. a \<noteq> buf + of_nat j" for a
    using that [rule_format, of "9 - k"] by simp
  ultimately have step: "unat (v div 10) = unat val div 10 ^ Suc k"
      "\<forall>j<Suc k. (m'(buf + of_nat (9 - k) := ucast (v mod 10) + 0x30)) (buf + of_nat (9 - j)) =
         dec_digit (unat val div 10 ^ j mod 10)"
      "\<forall>a. (\<forall>j<10. a \<noteq> buf + of_nat j) \<longrightarrow> (m'(buf + of_nat (9 - k) := ucast (v mod 10) + 0x30)) a = m a"
    using IH by (simp_all add: less_Suc_eq)
  show ?case
    unfolding for_upto_Suc vm prod.case using step by blast
qed

section \<open>Properties\<close>

text \<open>C9. \<open>tty_printf\<close> prints what its format says: for every format string and arguments that the format
  language gives a meaning, on a terminal that accepts characters, it returns 0 after printing exactly that
  text, and it changes no memory but its local buffer. The language excludes what the code cannot print:
  \<open>%u\<close> of a value of 2147483648 or more, \<open>%d\<close> of the smallest integer, and a format that ends in \<open>%\<close>.\<close>

theorem printf_correct:
  assumes "running_ok P s" and "tty_free P s"
    and "formats (mem s) (buf_area buf) fs args out" and "string_at (mem s) (buf_area buf) format fs"
    and "printf_literals (mem s) (buf_area buf) dash hex_prefix"
  shows "\<exists>t. tty_printf P buf dash hex_prefix format args s = Ret 0 t \<and> prints P (s\<lparr>mem := mem t\<rparr>) out t \<and>
    (\<forall>a. a \<notin> buf_area buf \<longrightarrow> mem t a = mem s a)"
proof -
  have "ready_to_print (mem s) (buf_area buf) P s" using assms(1,2) by (simp add: ready_to_print_def)
  from printf_loop [OF this assms(5,3,4)] show ?thesis by (auto simp: tty_printf_def emits_def)
qed

text \<open>A memory that holds the format \<open>n=%d\<close> at 0x100, the literals at 0x200 and 0x300.\<close>

definition printf_mem :: "u32 \<Rightarrow> u8" where
  "printf_mem = (\<lambda>_. 0)(0x100 := 0x6E, 0x101 := 0x3D, 0x102 := 0x25, 0x103 := 0x64,
     0x200 := 0x2D, 0x300 := 0x30, 0x301 := 0x78)"

lemma buf_area_0x400: "a < 0x400 \<Longrightarrow> a \<notin> buf_area 0x400"
proof
  assume a: "a < 0x400" and "a \<in> buf_area 0x400"
  then obtain k where "k < 20" "a = 0x400 + of_nat k" by (auto simp: buf_area_def)
  with a show False by (simp add: word_less_nat_alt unat_word_ariths unat_of_nat)
qed

theorem printf_correct_witness:
  "\<exists>t. tty_printf tp3_quiet 0x400 0x200 0x300 0x100 [- 42] (quiet_start (cpu_of 0) printf_mem) = Ret 0 t \<and>
     prints tp3_quiet ((quiet_start (cpu_of 0) printf_mem)\<lparr>mem := mem t\<rparr>) (ascii ''n=-42'') t"
proof -
  let ?s = "quiet_start (cpu_of 0) printf_mem" and ?A = "buf_area 0x400"
  have g: "good tp3_quiet (cpu_of 0) printf_mem ?s" by (rule good_quiet_start) (simp add: cpu_of_def)
  then have m: "mem ?s = printf_mem" by (simp add: good_def)
  have "sint (- 42 :: u32) = - 42" by simp
  then have "conv_text printf_mem ?A 0x64 (- 42) (0x2D # to_digits 10 dec_digit 42)"
    using neg_top_bit by (simp add: conv_text_def dec_text_def)
  then have f: "formats printf_mem ?A [0x6E, 0x3D, 0x25, 0x64] [- 42] (0x6E # 0x3D # (0x2D # to_digits 10 dec_digit 42) @ [])"
    by (intro formats.intros) auto
  have ds: "to_digits 10 dec_digit 42 = ascii ''42''"
    by (simp add: to_digits.simps [of 10 _ 42] to_digits.simps [of 10 _ 4] dec_digit_def ascii_def)
  have area: "a \<notin> ?A" if "a < 0x400" for a using that by (rule buf_area_0x400)
  have strf: "string_at printf_mem ?A 0x100 [0x6E, 0x3D, 0x25, 0x64]"
  proof -
    have "0x100 + of_nat k \<notin> ?A" if "k \<le> 4" for k
      using that by (intro area) (simp add: word_less_nat_alt unat_word_ariths unat_of_nat)
    then show ?thesis by (simp add: string_at_def mem_has_Cons printf_mem_def)
  qed
  have lits: "printf_literals printf_mem ?A 0x200 0x300"
    using area by (simp add: printf_literals_def mem_has_Cons printf_mem_def)
  from printf_correct [of tp3_quiet ?s "0x400", unfolded m, OF _ _ f strf lits] g show ?thesis
    by (auto simp: good_def ds ascii_def)
qed

text \<open>\<open>tty_putw\<close> prints a word as its ten decimal digits, with leading zeros, which read back as the
  word; it returns 10 and changes no memory but its buffer of ten characters.\<close>

theorem putw_correct:
  assumes "running_ok P s" and "tty_free P s"
  shows "\<exists>t. tty_putw P buf val s = Ret 10 t \<and>
    prints P (s\<lparr>mem := mem t\<rparr>) (fixed_digits 10 dec_digit 10 (unat val)) t \<and>
    of_digits 10 dec_val (fixed_digits 10 dec_digit 10 (unat val)) = unat val \<and>
    (\<forall>a. (\<forall>j<10. a \<noteq> buf + of_nat j) \<longrightarrow> mem t a = mem s a)"
proof -
  let ?ds = "fixed_digits 10 dec_digit 10 (unat val)"
  define m' where "m' = snd (for_upto 10 (\<lambda>i (val, m).
     (val div 10, m(buf + of_nat (9 - i) := ucast (val mod 10) + 0x30))) (val, mem s))"
  have m': "\<forall>j<10. m' (buf + of_nat (9 - j)) = dec_digit (unat val div 10 ^ j mod 10)"
      "\<forall>a. (\<forall>j<10. a \<noteq> buf + of_nat j) \<longrightarrow> m' a = mem s a"
    using putw_loop [where k = 10 and buf = buf and val = val and m = "mem s"]
    by (simp_all add: m'_def split: prod.splits)
  have has: "mem_has m' buf ?ds"
    unfolding mem_has_def
  proof (intro allI impI)
    fix k assume "k < length ?ds"
    then have "9 - (9 - k) = k" "10 - 1 - (9 - k) = k" "9 - k < 10" by auto
    with fixed_digits_nth [of "9 - k" 10 10 dec_digit "unat val"] m'(1) [rule_format, of "9 - k"]
    show "m' (buf + of_nat k) = ?ds ! k" by simp
  qed
  obtain t where t: "k_tty_write P ?ds (s\<lparr>mem := m'\<rparr>) = Ret (of_nat (length ?ds)) t" "prints P (s\<lparr>mem := m'\<rparr>) ?ds t"
    using tty_write_prints [of P "s\<lparr>mem := m'\<rparr>" ?ds] assms by auto
  have "read_bytes m' buf 10 = ?ds" using mem_has_read [OF has] by simp
  then have "tty_putw P buf val s = Ret 10 t"
    using t(1) by (simp add: tty_putw_def sys_call_tty_write m'_def [symmetric] del: SYSCALL_TTY_WRITE_def)
  moreover have "mem t = m'" using prints_frame(2) [OF t(2)] by simp
  moreover have "of_digits 10 dec_val ?ds = unat val"
    using unat_less_u32 [of val] by (subst dec.of_fixed_digits) simp
  ultimately show ?thesis using t(2) m'(2) by auto
qed

theorem putw_correct_witness:
  "\<exists>t. tty_putw tp3_quiet 0x400 42 (quiet_start (cpu_of 0) printf_mem) = Ret 10 t \<and>
     prints tp3_quiet ((quiet_start (cpu_of 0) printf_mem)\<lparr>mem := mem t\<rparr>) (ascii ''0000000042'') t"
proof -
  let ?s = "quiet_start (cpu_of 0) printf_mem"
  have g: "good tp3_quiet (cpu_of 0) printf_mem ?s" by (rule good_quiet_start) (simp add: cpu_of_def)
  have "fixed_digits 10 dec_digit 10 (unat (42::u32)) = ascii ''0000000042''"
    by (simp add: fixed_digits_def dec_digit_def ascii_def upt_conv_Cons)
  with putw_correct [of tp3_quiet ?s "0x400" 42] g show ?thesis by (auto simp: good_def)
qed

end
