(* ===== verification/Input.thy ===== *)
theory Input
  imports Printf
begin

text \<open>
  Terminal input: \<open>tty_gets_irq\<close> and \<open>tty_getw_irq\<close> of \<open>app/stdio.c\<close>, from the interrupt routine of the
  terminal, through the one-character buffer of the kernel and the system call, to the line that the task
  reads. What reaches the task is described by \<open>typing\<close>, an inductive predicate on the characters that its polls
  find, so that every character comes after finitely many polls; while a task waits, the rest of the system may
  do anything that leaves its memory and its terminal alone. The buffer holds one character: one that arrives
  before the previous one has been read replaces it, and the task never sees the lost one (\<open>tty_overrun\<close>).
\<close>

section \<open>What reaches the task\<close>

definition listening :: "'d platform \<Rightarrow> 'd machine \<Rightarrow> bool" where
  "listening P s \<longleftrightarrow> running_ok P s \<and> tty_free P s \<and> unat (terminal P s) < length (tty_get_full s)"

text \<open>The terminal has received the text \<open>out\<close> between two states, and nothing else.\<close>

definition says :: "'d platform \<Rightarrow> 'd machine \<Rightarrow> u8 list \<Rightarrow> 'd machine \<Rightarrow> bool" where
  "says P s out t \<longleftrightarrow> terminal P t = terminal P s \<and>
     (\<exists>es. trace t = trace s @ es \<and> sent (word_at (tty_base P s) TTY_WRITE) es = map char_to_uint out)"

text \<open>What the task itself may do between two characters: write in its own area \<open>A\<close> and print.\<close>

definition task_acts :: "'d platform \<Rightarrow> u32 set \<Rightarrow> 'd machine \<Rightarrow> 'd machine \<Rightarrow> bool" where
  "task_acts P A s t \<longleftrightarrow> (\<exists>out. prints P (s\<lparr>mem := mem t\<rparr>) out t) \<and> (\<forall>a. a \<notin> A \<longrightarrow> mem t a = mem s a)"

text \<open>A task that waits for a character polls the terminal. \<open>poll\<close> is one system call of a read: the character it got,
  if any, and the state after it. \<open>typing P poll A cs s\<close>: from the state \<open>s\<close> on, the polls of the task get the
  characters \<open>cs\<close>, each after finitely many polls without one.\<close>

inductive typing :: "'d platform \<Rightarrow> ('d machine \<Rightarrow> u8 option \<times> 'd machine) \<Rightarrow> u32 set \<Rightarrow> u8 list \<Rightarrow> 'd machine \<Rightarrow> bool" for P poll A where
  typing_nothing: "listening P s \<Longrightarrow> typing P poll A [] s"
| typing_got: "listening P s \<Longrightarrow> poll s = (Some c, s') \<Longrightarrow>
    (\<And>t. task_acts P A s' t \<Longrightarrow> typing P poll A cs t) \<Longrightarrow> typing P poll A (c # cs) s"
| typing_wait: "listening P s \<Longrightarrow> poll s = (None, s') \<Longrightarrow> says P s' [] (others P s') \<Longrightarrow>
    (\<And>a. a \<in> A \<Longrightarrow> mem (others P s') a = mem s' a) \<Longrightarrow> typing P poll A (c # cs) (others P s') \<Longrightarrow> typing P poll A (c # cs) s"

lemma typing_listening: "typing P poll A cs s \<Longrightarrow> listening P s"
  by (induction rule: typing.induct)

lemma says_Nil: "says P s [] s"
  by (simp add: says_def)

lemma says_trans:
  assumes "says P s out t" and "says P t out' u"
  shows "says P s (out @ out') u"
proof -
  have "tty_base P t = tty_base P s" using assms(1) by (simp add: says_def tty_base_def)
  with assms show ?thesis by (auto simp: says_def)
qed

lemma prints_says: "prints P (s\<lparr>mem := m\<rparr>) out t \<Longrightarrow> says P s out t"
  by (auto simp: prints_def tty_sends_def says_def terminal_def k_procid_def current_task_def Let_def tty_base_def)

section \<open>What the task may expect\<close>

text \<open>\<open>cs\<close> is what the polls of the task will get, whatever the task does before it reads.\<close>

definition awaits :: "'d platform \<Rightarrow> ('d machine \<Rightarrow> u8 option \<times> 'd machine) \<Rightarrow> u32 set \<Rightarrow> u8 list \<Rightarrow> 'd machine \<Rightarrow> bool" where
  "awaits P poll A cs s \<longleftrightarrow> (\<forall>t. task_acts P A s t \<longrightarrow> typing P poll A cs t)"

text \<open>The task has \<open>rest\<close> still to read, has printed \<open>out\<close> since the state \<open>s\<close>, and its own memory is as in \<open>m\<close>.\<close>

definition reads :: "'d platform \<Rightarrow> ('d machine \<Rightarrow> u8 option \<times> 'd machine) \<Rightarrow> u32 set \<Rightarrow> u8 list \<Rightarrow> 'd machine \<Rightarrow> u8 list \<Rightarrow> (u32 \<Rightarrow> u8) \<Rightarrow> 'd machine \<Rightarrow> bool" where
  "reads P poll A rest s out m t \<longleftrightarrow> awaits P poll A rest t \<and> says P s out t \<and> (\<forall>a\<in>A. mem t a = m a)"

lemma task_acts_refl: "task_acts P A s s"
  using prints_Nil [of P s] by (auto simp: task_acts_def)

lemma task_acts_trans:
  assumes "task_acts P A s t" and "task_acts P A t u"
  shows "task_acts P A s u"
proof -
  from assms obtain o1 o2 where "prints P (s\<lparr>mem := mem t\<rparr>) o1 t" "prints P (t\<lparr>mem := mem u\<rparr>) o2 u"
    by (auto simp: task_acts_def)
  with prints_mem [of P "s\<lparr>mem := mem t\<rparr>" o1 t "mem u"] have "prints P (s\<lparr>mem := mem u\<rparr>) (o1 @ o2) u"
    by (auto intro: prints_trans)
  with assms show ?thesis by (auto simp: task_acts_def)
qed

lemma task_writes: "a \<in> A \<Longrightarrow> task_acts P A s (s\<lparr>mem := (mem s)(a := c)\<rparr>)"
  using prints_Nil [of P "s\<lparr>mem := (mem s)(a := c)\<rparr>"] by (auto simp: task_acts_def)

lemma awaits_typing: "awaits P poll A cs s \<Longrightarrow> typing P poll A cs s"
  by (simp add: awaits_def task_acts_refl)

lemma reads_write:
  assumes "reads P poll A rest s out m t" and "a \<in> A"
  shows "reads P poll A rest s out (m(a := c)) (t\<lparr>mem := (mem t)(a := c)\<rparr>)"
proof -
  have "says P t [] (t\<lparr>mem := (mem t)(a := c)\<rparr>)"
    by (simp add: says_def terminal_def k_procid_def current_task_def Let_def)
  moreover have "task_acts P A t u" if "task_acts P A (t\<lparr>mem := (mem t)(a := c)\<rparr>) u" for u
    using task_acts_trans [OF task_writes [OF assms(2)] that] .
  ultimately show ?thesis using assms says_trans [of P s out t "[]"]
    unfolding reads_def awaits_def by auto
qed

lemma reads_trans:
  assumes "says P s out t" and "\<forall>a\<in>A. mem t a = m a" and "reads P poll A rest t out' ((mem t)(a := c)) u"
  shows "reads P poll A rest s (out @ out') (m(a := c)) u"
  using assms says_trans [OF assms(1)] by (auto simp: reads_def)

section \<open>One character\<close>

text \<open>The contract between the reading functions of the library and a reading system call: the call returns 0 without
  a character, or 1 with the character stored at the address that is its argument; apart from that it leaves the memory,
  and what the terminal displays, alone.\<close>

locale polled_read =
  fixes P :: "'d platform" and call :: "u32 \<Rightarrow> ('d machine, u32) prog" and poll :: "'d machine \<Rightarrow> u8 option \<times> 'd machine"
  assumes nothing_yet: "listening P s \<Longrightarrow> poll s = (None, s') \<Longrightarrow> call fp s = Ret 0 s'"
    and got_one: "listening P s \<Longrightarrow> poll s = (Some c, s') \<Longrightarrow> call fp s = Ret 1 (s'\<lparr>mem := (mem s')(fp := c)\<rparr>)"
    and poll_says: "listening P s \<Longrightarrow> says P s [] (snd (poll s))"
    and poll_mem: "listening P s \<Longrightarrow> mem (snd (poll s)) = mem s"
begin

definition wait_for :: "(u32 \<Rightarrow> bool) \<Rightarrow> ('d machine, unit + 'r) prog \<Rightarrow> u32 \<Rightarrow> ('d machine, 'r) prog" where
  "wait_for again k fp = loop (\<lambda>_. bnd (call fp) (\<lambda>r.
     if again r then bnd (modify (others P)) (\<lambda>_. ret (Inl ())) else k)) ()"

lemma wait_for_typed:
  assumes "typing P poll A (c # cs) s" and "fp \<in> A" and "again 0" and "\<not> again 1"
    and "\<And>t. mem t fp = c \<Longrightarrow> k t = Ret (Inr x) t"
  shows "\<exists>t. wait_for again k fp s = Ret x t \<and> reads P poll A cs s [] ((mem s)(fp := c)) t"
  using assms(1)
proof (induction "c # cs" s rule: typing.induct)
  case (typing_got s s')
  let ?t = "s'\<lparr>mem := (mem s')(fp := c)\<rparr>"
  have acts: "task_acts P A s' ?t" by (rule task_writes [OF assms(2)])
  have "awaits P poll A cs ?t" unfolding awaits_def using typing_got(3) task_acts_trans [OF acts] by blast
  moreover have "says P s [] ?t"
    using says_trans [of P s "[]" s' "[]" ?t] poll_says [OF typing_got(1)] typing_got(2) acts
    by (auto simp: says_def terminal_def k_procid_def current_task_def Let_def)
  moreover have "wait_for again k fp s = Ret x ?t"
    unfolding wait_for_def
    by (subst loop_unfold) (use got_one [OF typing_got(1,2), of fp] assms(4,5) in \<open>simp add: bnd_def\<close>)
  moreover have "mem s' = mem s" using poll_mem [OF typing_got(1)] typing_got(2) by simp
  ultimately show ?case by (auto simp: reads_def)
next
  case (typing_wait s s')
  then obtain t where t: "wait_for again k fp (others P s') = Ret x t"
      "reads P poll A cs (others P s') [] ((mem (others P s'))(fp := c)) t" by blast
  have same: "wait_for again k fp s = wait_for again k fp (others P s')"
    unfolding wait_for_def
    by (subst loop_unfold) (use nothing_yet [OF typing_wait(1,2), of fp] assms(3) in \<open>simp add: bnd_def\<close>)
  have "says P s [] (others P s')"
    using says_trans [of P s "[]" s' "[]"] poll_says [OF typing_wait(1)] typing_wait(2,3) by simp
  moreover have "mem s' = mem s" using poll_mem [OF typing_wait(1)] typing_wait(2) by simp
  ultimately show ?case using t same reads_trans [of P s "[]" "others P s'" A "mem s" poll cs "[]" fp c t] typing_wait(4) by auto
qed

end

text \<open>The read from the buffer that the interrupt routine fills, and the read from the terminal itself.\<close>

definition taken :: "'d platform \<Rightarrow> 'd machine \<Rightarrow> 'd machine" where
  "taken P s = s\<lparr>tty_get_full := (tty_get_full s)[unat (terminal P s) := 0]\<rparr>"

definition irq_poll :: "'d platform \<Rightarrow> 'd machine \<Rightarrow> u8 option \<times> 'd machine" where
  "irq_poll P s = (if tty_get_full s ! unat (terminal P s) = 0 then (None, s)
     else (Some (tty_get_buf s ! unat (terminal P s)), taken P s))"

definition tty_poll :: "'d platform \<Rightarrow> 'd machine \<Rightarrow> u8 option \<times> 'd machine" where
  "tty_poll P s = (let a = word_at (tty_base P s) TTY_STATUS; r = word_at (tty_base P s) TTY_READ;
       (v, d) = bus_read P a (dev s); (c, d') = bus_read P r d
     in if v AND 1 \<noteq> 1 then (None, s\<lparr>dev := d, trace := trace s @ [Rd a v]\<rparr>)
        else (Some (ucast c), s\<lparr>dev := d', trace := trace s @ [Rd a v, Rd r c]\<rparr>))"

lemma sys_call_reads:
  "sys_call P SYSCALL_TTY_READ_IRQ fp 1 0 0 = out_byte fp (k_tty_read_irq P)"
  "sys_call P SYSCALL_TTY_READ fp 1 0 0 = out_byte fp (k_tty_read P)"
  by (simp_all add: sys_call_def sys_dispatch_def syscall_vector_def run_syscall_def)

interpretation irq_read: polled_read P "\<lambda>fp. sys_call P SYSCALL_TTY_READ_IRQ fp 1 0 0" "irq_poll P" for P :: "'d platform"
proof
  fix s s' :: "'d machine" and fp :: u32 and c :: u8
  assume l: "listening P s"
  have eq: "k_tty_read_irq P s = (if tty_get_full s ! unat (terminal P s) = 0 then Ret (0, None) s
      else Ret (1, Some (tty_get_buf s ! unat (terminal P s))) (taken P s))"
    using tty_read_irq_eq [of P s] l by (simp add: listening_def taken_def)
  show "irq_poll P s = (None, s') \<Longrightarrow> sys_call P SYSCALL_TTY_READ_IRQ fp 1 0 0 s = Ret 0 s'"
    and "irq_poll P s = (Some c, s') \<Longrightarrow> sys_call P SYSCALL_TTY_READ_IRQ fp 1 0 0 s = Ret 1 (s'\<lparr>mem := (mem s')(fp := c)\<rparr>)"
    unfolding sys_call_reads using eq by (auto simp: irq_poll_def out_byte_def bnd_def split: if_splits)
  show "says P s [] (snd (irq_poll P s))" "mem (snd (irq_poll P s)) = mem s"
    by (simp_all add: irq_poll_def taken_def says_def terminal_def k_procid_def current_task_def Let_def)
qed

interpretation tty_read: polled_read P "\<lambda>fp. sys_call P SYSCALL_TTY_READ fp 1 0 0" "tty_poll P" for P :: "'d platform"
proof
  fix s s' :: "'d machine" and fp :: u32 and c :: u8
  assume "listening P s"
  then have id: "k_tty_id P s = Ret (terminal P s) s" by (simp add: listening_def k_tty_id_running)
  show "tty_poll P s = (None, s') \<Longrightarrow> sys_call P SYSCALL_TTY_READ fp 1 0 0 s = Ret 0 s'"
    and "tty_poll P s = (Some c, s') \<Longrightarrow> sys_call P SYSCALL_TTY_READ fp 1 0 0 s = Ret 1 (s'\<lparr>mem := (mem s')(fp := c)\<rparr>)"
    unfolding sys_call_reads
    by (auto simp: tty_poll_def k_tty_read_def tty_base_def out_byte_def bnd_simps(1) [where m = "k_tty_id _", OF id] bnd_assoc
        Let_def split_beta split: if_splits)
  show "says P s [] (snd (tty_poll P s))" "mem (snd (tty_poll P s)) = mem s"
    by (simp_all add: tty_poll_def says_def terminal_def k_procid_def current_task_def Let_def split_beta)
qed

text \<open>The loss of characters: after several executions of the interrupt routine without a read, a poll finds the
  character of the last one only, and the next poll finds none.\<close>

lemma tty_received_frame:
  "core (tty_received P s task) = core s" "current_task_array (tty_received P s task) = current_task_array s"
  "task_context_array (tty_received P s task) = task_context_array s" "terminal P (tty_received P s task) = terminal P s"
  "length (tty_get_buf (tty_received P s task)) = length (tty_get_buf s)"
  "length (tty_get_full (tty_received P s task)) = length (tty_get_full s)"
  by (simp_all add: tty_received_def Let_def split_beta terminal_def k_procid_def current_task_def)

lemma tty_overrun:
  fixes s :: "'d machine" and P :: "'d platform"
  defines "isr \<equiv> \<lambda>t. tty_received P t (current_task s)"
  assumes "terminal P s = k_procid s * NB_MAXTASKS P + current_task s"
    and "unat (terminal P s) < length (tty_get_buf s)" and "unat (terminal P s) < length (tty_get_full s)"
  shows "irq_poll P ((isr ^^ Suc n) s)
      = (Some (ucast (fst (bus_read P (tty_read_reg P s (current_task s)) (dev ((isr ^^ n) s))))), taken P ((isr ^^ Suc n) s))"
    and "irq_poll P (taken P ((isr ^^ Suc n) s)) = (None, taken P ((isr ^^ Suc n) s))"
proof -
  have f: "core ((isr ^^ n) s) = core s" "terminal P ((isr ^^ n) s) = terminal P s"
      "length (tty_get_buf ((isr ^^ n) s)) = length (tty_get_buf s)" "length (tty_get_full ((isr ^^ n) s)) = length (tty_get_full s)"
    for n by (induction n) (simp_all add: isr_def tty_received_frame)
  let ?t = "(isr ^^ n) s"
  have p: "k_procid ?t = k_procid s" "tty_read_reg P ?t = tty_read_reg P s"
    using f(1) [of n] by (simp_all add: k_procid_def tty_read_reg_def fun_eq_iff)
  have "tty_get_full (isr ?t) ! unat (terminal P s) = 1"
      "tty_get_buf (isr ?t) ! unat (terminal P s) = ucast (fst (bus_read P (tty_read_reg P s (current_task s)) (dev ?t)))"
    using assms(2-4) f(3,4) [of n] p by (simp_all add: isr_def tty_received_def Let_def split_beta)
  then show "irq_poll P ((isr ^^ Suc n) s)
      = (Some (ucast (fst (bus_read P (tty_read_reg P s (current_task s)) (dev ?t)))), taken P ((isr ^^ Suc n) s))"
    using f(2) [of "Suc n"] by (simp add: irq_poll_def)
  have "terminal P (taken P ((isr ^^ Suc n) s)) = terminal P s"
    unfolding f(2) [of "Suc n", symmetric] by (intro terminal_cong) (simp_all add: taken_def)
  then show "irq_poll P (taken P ((isr ^^ Suc n) s)) = (None, taken P ((isr ^^ Suc n) s))"
    using f(2,4) [of "Suc n"] assms(4) by (simp add: irq_poll_def) (simp add: taken_def)
qed

lemma next_byte_typed:
  assumes "typing P (irq_poll P) A (c # cs) s" and "fp \<in> A"
  shows "\<exists>t. next_byte P fp s = Ret c t \<and> reads P (irq_poll P) A cs s [] ((mem s)(fp := c)) t"
proof -
  have "next_byte P fp = irq_read.wait_for P (\<lambda>r. r \<noteq> 1) (bnd (gets (\<lambda>s. mem s fp)) (\<lambda>c. ret (Inr c))) fp"
    by (simp only: next_byte_def irq_read.wait_for_def)
  then show ?thesis using irq_read.wait_for_typed [OF assms, of "\<lambda>r. r \<noteq> 1" _ c] by simp
qed

lemma tty_getc_typed:
  assumes "typing P (tty_poll P) A (c # cs) s" and "fp \<in> A"
  shows "\<exists>t. tty_getc P fp s = Ret 0 t \<and> reads P (tty_poll P) A cs s [] ((mem s)(fp := c)) t"
proof -
  have "tty_getc P fp = tty_read.wait_for P (\<lambda>r. r = 0) (ret (Inr 0)) fp"
    by (simp only: tty_getc_def tty_read.wait_for_def)
  then show ?thesis using tty_read.wait_for_typed [OF assms, of "\<lambda>r. r = 0" "ret (Inr 0)" 0] by simp
qed

lemma tty_getc_irq_typed:
  assumes "typing P (irq_poll P) A (c # cs) s" and "fp \<in> A"
  shows "\<exists>t. tty_getc_irq P fp s = Ret 0 t \<and> reads P (irq_poll P) A cs s [] ((mem s)(fp := c)) t"
proof -
  have "tty_getc_irq P fp = irq_read.wait_for P (\<lambda>r. r = 0) (ret (Inr 0)) fp"
    by (simp only: tty_getc_irq_def irq_read.wait_for_def)
  then show ?thesis using irq_read.wait_for_typed [OF assms, of "\<lambda>r. r = 0" "ret (Inr 0)" 0] by simp
qed

section \<open>A line of text\<close>

text \<open>The line editor that \<open>tty_gets_irq\<close> is: the line and what is left of the input, once the line has \<open>n\<close>
  characters or a line feed is typed.\<close>

fun edit_line :: "nat \<Rightarrow> u8 list \<Rightarrow> u8 list \<Rightarrow> (u8 list \<times> u8 list) option" where
  "edit_line n line [] = (if length line < n then None else Some (line, []))"
| "edit_line n line (c # cs) =
     (if \<not> length line < n then Some (line, c # cs)
      else if c = 0x0A then Some (line, cs)
      else if c = 0x7F \<and> line \<noteq> [] then edit_line n (butlast line) cs
      else edit_line n (line @ [c]) cs)"

definition gets_body :: "'d platform \<Rightarrow> u32 \<Rightarrow> u32 \<Rightarrow> u32 \<Rightarrow> u32 \<Rightarrow> ('d machine, u32 + u32) prog" where
  "gets_body P fp buf bufsize index =
     (if \<not> index < bufsize - 1 then ret (Inr index)
       else bnd (next_byte P fp) (\<lambda>byte.
         if byte = 0x0A then ret (Inr index)
         else if byte = 0x7F \<and> index > 0 then ret (Inl (index - 1))
         else bnd (set_byte (buf + index) byte) (\<lambda>_. ret (Inl (index + 1)))))"

text \<open>A buffer of the task, apart from the local variable at \<open>fp\<close>.\<close>

definition own_buffer :: "u32 set \<Rightarrow> u32 \<Rightarrow> u32 \<Rightarrow> nat \<Rightarrow> bool" where
  "own_buffer A fp buf n \<longleftrightarrow> fp \<in> A \<and> (\<forall>k<n. buf + of_nat k \<in> A \<and> buf + of_nat k \<noteq> fp)"

definition outside :: "u32 \<Rightarrow> u32 \<Rightarrow> nat \<Rightarrow> u32 set" where
  "outside fp buf n = {a. a \<noteq> fp \<and> (\<forall>k<n. a \<noteq> buf + of_nat k)}"

lemma buffer_index:
  assumes "length line < unat (bufsize :: u32)"
  shows "of_nat (length line) < bufsize - 1 \<longleftrightarrow> length line < unat (bufsize - 1)" "unat (of_nat (length line) :: u32) = length line"
  using assms unat_less_u32 [of bufsize] by (simp_all add: word_less_nat_alt unat_of_nat_u32)

lemma own_buffer_has:
  assumes "own_buffer A fp buf n" and "length line \<le> n" and "\<forall>a\<in>A. m' a = (m(fp := c)) a" and "mem_has m buf line"
  shows "mem_has m' buf line"
  using assms by (auto simp: own_buffer_def mem_has_def)

lemma mem_has_snoc:
  assumes "mem_has m buf line" and "length line < unat (bufsize :: u32)"
  shows "mem_has (m(buf + of_nat (length line) := c)) buf (line @ [c])"
proof -
  have "of_nat k \<noteq> (of_nat (length line) :: u32)" if "k < length line" for k
    using that assms(2) unat_less_u32 [of bufsize] by (simp add: word_unat_eq_iff unat_of_nat_u32)
  with assms(1) show ?thesis by (simp add: mem_has_append mem_has_Cons) (simp add: mem_has_def)
qed

lemma gets_loop_full:
  assumes "length line = unat (bufsize - 1)" and "unat bufsize = Suc (unat (bufsize - 1))"
  shows "loop (gets_body P fp buf bufsize) (of_nat (length line)) s = Ret (of_nat (length line)) s"
  using assms buffer_index [of line bufsize] by (subst loop_unfold) (simp add: gets_body_def)

lemma gets_body_step:
  assumes "length line < unat (bufsize - 1)" and "own_buffer A fp buf (unat bufsize)" and "unat bufsize = Suc (unat (bufsize - 1))"
    and "awaits P (irq_poll P) A (c # cs) s" and "mem_has (mem s) buf line"
  shows "\<exists>t. reads P (irq_poll P) A cs s [] (mem t) t \<and> (\<forall>a \<in> A \<inter> outside fp buf (unat bufsize). mem t a = mem s a) \<and>
    (if c = 0x0A then gets_body P fp buf bufsize (of_nat (length line)) s = Ret (Inr (of_nat (length line))) t \<and> mem_has (mem t) buf line
     else if c = 0x7F \<and> line \<noteq> [] then
       gets_body P fp buf bufsize (of_nat (length line)) s = Ret (Inl (of_nat (length (butlast line)))) t \<and> mem_has (mem t) buf (butlast line)
     else gets_body P fp buf bufsize (of_nat (length line)) s = Ret (Inl (of_nat (length (line @ [c])))) t \<and> mem_has (mem t) buf (line @ [c]))"
proof -
  let ?i = "of_nat (length line) :: u32"
  have len: "length line < unat bufsize" using assms(1,3) by simp
  note i = buffer_index [OF len]
  have fp: "fp \<in> A" and spot: "buf + ?i \<in> A" using assms(2) len by (auto simp: own_buffer_def)
  obtain t where t: "next_byte P fp s = Ret c t" "reads P (irq_poll P) A cs s [] ((mem s)(fp := c)) t"
    using next_byte_typed [OF awaits_typing [OF assms(4)] fp] by blast
  then have m: "\<forall>a\<in>A. mem t a = ((mem s)(fp := c)) a" by (simp add: reads_def)
  then have has: "mem_has (mem t) buf line" using own_buffer_has [OF assms(2) _ m assms(5)] len by simp
  have keep: "\<forall>a \<in> A \<inter> outside fp buf (unat bufsize). mem t a = mem s a" using m by (auto simp: outside_def)
  let ?u = "t\<lparr>mem := (mem t)(buf + ?i := c)\<rparr>"
  have t': "reads P (irq_poll P) A cs s [] (mem t) t" using t(2) by (simp add: reads_def)
  have u: "reads P (irq_poll P) A cs s [] (mem ?u) ?u" using reads_write [OF t' spot] by simp
  have pos: "?i > 0 \<longleftrightarrow> line \<noteq> []" using i(2) by (simp add: word_less_nat_alt)
  have body: "gets_body P fp buf bufsize ?i s = (if c = 0x0A then Ret (Inr ?i) t
      else if c = 0x7F \<and> line \<noteq> [] then Ret (Inl (?i - 1)) t else Ret (Inl (?i + 1)) ?u)"
    using i(1) assms(1) pos by (simp add: gets_body_def bnd_simps(1) [where m = "next_byte _ _", OF t(1)] set_byte_def)
  show ?thesis
  proof (cases "c = 0x0A \<or> c = 0x7F \<and> line \<noteq> []")
    case True
    have "line \<noteq> [] \<Longrightarrow> mem_has (mem t) buf (butlast line) \<and> ?i - 1 = of_nat (length (butlast line))"
      using has mem_has_append [of "mem t" buf "butlast line" "[last line]"] by (cases line rule: rev_cases) auto
    with True body t' keep has show ?thesis by (intro exI [of _ t]) auto
  next
    case False
    have "mem_has (mem ?u) buf (line @ [c])" using mem_has_snoc [OF has len] by simp
    moreover have "\<forall>a \<in> A \<inter> outside fp buf (unat bufsize). mem ?u a = mem s a"
      using keep len by (auto simp: outside_def)
    ultimately show ?thesis using False body u by (intro exI [of _ ?u]) (auto simp: add.commute)
  qed
qed

lemma reads_more:
  assumes "reads P poll A cs s out m t" and "reads P poll A rest t out' m' u"
  shows "reads P poll A rest s (out @ out') m' u"
  using assms says_trans by (auto simp: reads_def)

lemma gets_loop:
  assumes "edit_line n line cs = Some (final, rest)" and "length line \<le> n" and "awaits P (irq_poll P) A cs s"
    and "mem_has (mem s) buf line"
    and "own_buffer A fp buf (unat bufsize)" and "n = unat (bufsize - 1)" and "unat bufsize = Suc (unat (bufsize - 1))"
  shows "\<exists>t. loop (gets_body P fp buf bufsize) (of_nat (length line)) s = Ret (of_nat (length final)) t \<and>
    reads P (irq_poll P) A rest s [] (mem t) t \<and> mem_has (mem t) buf final \<and> length final \<le> n \<and>
    (\<forall>a \<in> A \<inter> outside fp buf (unat bufsize). mem t a = mem s a)"
  using assms
proof (induction cs arbitrary: line s)
  case Nil
  then have n: "length line = unat (bufsize - 1)" "final = line" "rest = []" by (auto split: if_splits)
  have "reads P (irq_poll P) A [] s [] (mem s) s" using Nil(3) by (simp add: reads_def says_Nil)
  with n Nil(4,6) gets_loop_full [OF n(1) Nil(7)] show ?case by (intro exI [of _ s]) simp
next
  case (Cons c cs)
  show ?case
  proof (cases "length line < n")
    case False
    then have n: "length line = unat (bufsize - 1)" "final = line" "rest = c # cs" using Cons.prems(1,2,6) by auto
    have "reads P (irq_poll P) A rest s [] (mem s) s" using Cons.prems(3) n by (simp add: reads_def says_Nil)
    with n Cons.prems(4,6) gets_loop_full [OF n(1) Cons.prems(7)] show ?thesis by (intro exI [of _ s]) simp
  next
    case True
    then have less: "length line < unat (bufsize - 1)" using Cons.prems(6) by simp
    let ?go = "gets_body P fp buf bufsize (of_nat (length line)) s"
    obtain t where t: "reads P (irq_poll P) A cs s [] (mem t) t" "\<forall>a \<in> A \<inter> outside fp buf (unat bufsize). mem t a = mem s a"
      and step: "if c = 0x0A then ?go = Ret (Inr (of_nat (length line))) t \<and> mem_has (mem t) buf line
        else if c = 0x7F \<and> line \<noteq> [] then ?go = Ret (Inl (of_nat (length (butlast line)))) t \<and> mem_has (mem t) buf (butlast line)
        else ?go = Ret (Inl (of_nat (length (line @ [c])))) t \<and> mem_has (mem t) buf (line @ [c])"
      using gets_body_step [OF less Cons.prems(5,7,3,4)] by blast
    have more: ?thesis if go: "?go = Ret (Inl (of_nat (length line'))) t" and has: "mem_has (mem t) buf line'"
        and line': "edit_line n line' cs = Some (final, rest)" "length line' \<le> n" for line'
    proof -
      have "awaits P (irq_poll P) A cs t" using t(1) by (simp add: reads_def)
      then obtain u where u: "loop (gets_body P fp buf bufsize) (of_nat (length line')) t = Ret (of_nat (length final)) u"
          "reads P (irq_poll P) A rest t [] (mem u) u" "mem_has (mem u) buf final" "length final \<le> n"
          "\<forall>a \<in> A \<inter> outside fp buf (unat bufsize). mem u a = mem t a"
        using Cons.IH [OF line' _ has Cons.prems(5-7)] by blast
      have "loop (gets_body P fp buf bufsize) (of_nat (length line)) s = Ret (of_nat (length final)) u"
        using u(1) by (subst loop_unfold) (simp add: bnd_simps(1) [where m = "gets_body _ _ _ _ _", OF go])
      with u t reads_more [OF t(1) u(2)] show ?thesis by (intro exI [of _ u]) simp
    qed
    consider "c = 0x0A" | "c \<noteq> 0x0A" "c = 0x7F \<and> line \<noteq> []" | "c \<noteq> 0x0A" "\<not> (c = 0x7F \<and> line \<noteq> [])" by blast
    then show ?thesis
    proof cases
      case 1
      then have go: "?go = Ret (Inr (of_nat (length line))) t" using step by simp
      have "loop (gets_body P fp buf bufsize) (of_nat (length line)) s = Ret (of_nat (length line)) t"
        by (subst loop_unfold) (simp add: bnd_simps(1) [where m = "gets_body _ _ _ _ _", OF go])
      with 1 step t True Cons.prems(1) show ?thesis by (intro exI [of _ t]) auto
    next
      case 2
      with step True Cons.prems(1) show ?thesis by (intro more [of "butlast line"]) auto
    next
      case 3
      with step True Cons.prems(1) show ?thesis by (intro more [of "line @ [c]"]) (auto split: if_splits)
    qed
  qed
qed

section \<open>A keyboard\<close>

text \<open>Devices whose state is the text that is still to be typed on terminal 0: the status register says whether
  there is a character, and reading the character register takes the first one. While the task waits, the interrupt of the terminal is served.\<close>

definition kbd_read :: "u32 \<Rightarrow> u8 list \<Rightarrow> u32 \<times> u8 list" where
  "kbd_read a d = (if a = 0x90000008 then (case d of [] \<Rightarrow> (0, []) | c # cs \<Rightarrow> (ucast c, cs))
     else (if a = 0x90000004 \<and> d \<noteq> [] then 1 else 0, d))"

definition kbd_write :: "u32 \<Rightarrow> u32 \<Rightarrow> u8 list \<Rightarrow> u8 list" where
  "kbd_write a v d = d"

definition kbd :: "u8 list platform" where
  "kbd = tp3_platform kbd_read kbd_write (\<lambda>s. tty_received (tp3_platform kbd_read kbd_write id) s 0)"

definition kbd_start :: "u8 list \<Rightarrow> u8 list machine" where
  "kbd_start cs = boot_machine kbd (cpu_of 0) (\<lambda>_. 0) cs"

definition kbd_ok :: "u8 list machine \<Rightarrow> bool" where
  "kbd_ok s \<longleftrightarrow> running_ok kbd s \<and> k_procid s = 0 \<and> current_task s = 0 \<and> terminal kbd s = 0 \<and>
     (\<exists>c. tty_get_buf s = [c]) \<and> (\<exists>f. tty_get_full s = [f])"

lemma kbd_fields [simp]: "bus_read kbd = kbd_read" "bus_write kbd = kbd_write" "NB_MAXTASKS kbd = 1" "NB_PROCS kbd = 1"
    "seg_tty_base kbd = 0x90000000"
  by (simp_all add: kbd_def tp3_platform_def)

lemma kbd_isr: "others kbd s = tty_received kbd s 0"
  by (simp add: kbd_def tty_received_def tty_read_reg_def tp3_platform_def)

lemma kbd_base: "terminal kbd s = 0 \<Longrightarrow> tty_base kbd s = 0x90000000"
  by (simp add: tty_base_def word_at_def)

lemma kbd_listening: "kbd_ok s \<Longrightarrow> listening kbd s"
  by (auto simp: kbd_ok_def listening_def tty_free_def kbd_base kbd_read_def word_at_def tty_accepts_def)

lemma kbd_run: "bus_run kbd es d = Some d' \<Longrightarrow> bus_addr ` set es \<subseteq> {0x90000004, 0x90000000} \<Longrightarrow> d' = d"
  by (induction kbd es d rule: bus_run.induct) (auto simp: kbd_read_def kbd_write_def split: if_splits)

lemma kbd_acts:
  assumes "task_acts kbd A s t" and "kbd_ok s"
  shows "kbd_ok t" "dev t = dev s" "tty_get_full t = tty_get_full s"
proof -
  from assms(1) obtain out where out: "prints kbd (s\<lparr>mem := mem t\<rparr>) out t" by (auto simp: task_acts_def)
  then obtain d es where t: "t = s\<lparr>mem := mem t, dev := d, trace := trace s @ es\<rparr>"
    and es: "tty_sends kbd (tty_base kbd s) out es (dev s) d" unfolding prints_def tty_mem by auto
  have "d = dev s" using es assms(2) kbd_run [of es "dev s" d] by (auto simp: tty_sends_def kbd_ok_def kbd_base word_at_def)
  with arg_cong [OF t, of dev] show "dev t = dev s" by simp
  note f = prints_frame [OF out, simplified]
  from f show "tty_get_full t = tty_get_full s" by simp
  have "terminal kbd t = terminal kbd s" using f by (intro terminal_cong) simp_all
  moreover have "k_procid t = k_procid s" "current_task t = current_task s" using f by (simp_all add: k_procid_def current_task_def)
  ultimately show "kbd_ok t" using f prints_tty(3) [OF out] assms(2) by (simp add: kbd_ok_def)
qed

lemma kbd_others:
  assumes "kbd_ok s" and "dev s = c # cs"
  shows "kbd_ok (others kbd s)" "dev (others kbd s) = cs" "tty_get_full (others kbd s) = [1]" "tty_get_buf (others kbd s) = [c]"
    "mem (others kbd s) = mem s" "says kbd s [] (others kbd s)"
proof -
  have c: "ucast (ucast c :: u32) = c" by transfer simp
  obtain b f where arr: "tty_get_buf s = [b]" "tty_get_full s = [f]" "k_procid s = 0" using assms(1) by (auto simp: kbd_ok_def)
  have o: "others kbd s = s\<lparr>dev := cs, trace := trace s @ [Rd 0x90000008 (ucast c)], tty_get_buf := [c], tty_get_full := [1]\<rparr>"
    using assms(2) by (simp add: kbd_isr tty_received_def tty_read_reg_def word_at_def kbd_read_def arr c)
  have tt: "terminal kbd (others kbd s) = terminal kbd s" unfolding o by (intro terminal_cong) simp_all
  show "kbd_ok (others kbd s)"
    using assms(1) tt running_ok_cong [of "others kbd s" s kbd]
    by (auto simp: o kbd_ok_def arrays_ok_def k_procid_def current_task_def)
  show "says kbd s [] (others kbd s)"
    using tt assms(1) by (auto simp: o says_def kbd_base kbd_ok_def)
  show "dev (others kbd s) = cs" "tty_get_full (others kbd s) = [1]" "tty_get_buf (others kbd s) = [c]" "mem (others kbd s) = mem s"
    by (simp_all add: o)
qed

lemma kbd_typing: "kbd_ok s \<Longrightarrow> tty_get_full s = [0] \<Longrightarrow> dev s = cs \<Longrightarrow> typing kbd (irq_poll kbd) A cs s"
proof (induction cs arbitrary: s)
  case Nil
  then show ?case by (simp add: typing_nothing kbd_listening)
next
  case (Cons c cs)
  let ?o = "others kbd s"
  note o = kbd_others [OF Cons.prems(1,3)]
  have t0: "terminal kbd s = 0" "terminal kbd ?o = 0" using Cons.prems(1) o(1) by (simp_all add: kbd_ok_def)
  have tk: "kbd_ok (taken kbd ?o)"
    using o(1,3) terminal_cong [of "taken kbd ?o" ?o kbd] running_ok_cong [of "taken kbd ?o" ?o kbd]
    by (auto simp: kbd_ok_def taken_def arrays_ok_def k_procid_def current_task_def)
  have acts: "typing kbd (irq_poll kbd) A cs t" if "task_acts kbd A (taken kbd ?o) t" for t
    using kbd_acts [OF that tk] Cons.IH [of t] o(2,3) t0 by (simp add: taken_def)
  have got: "typing kbd (irq_poll kbd) A (c # cs) ?o"
    by (rule typing_got [OF kbd_listening [OF o(1)] _ acts]) (use o t0 in \<open>simp add: irq_poll_def\<close>)
  show ?case
    by (rule typing_wait [OF kbd_listening [OF Cons.prems(1)] _ o(6) _ got]) (use o Cons.prems t0 in \<open>simp_all add: irq_poll_def\<close>)
qed

lemma kbd_start_ok: "kbd_ok (kbd_start cs)"
  using arrays_ok_boot [of kbd "cpu_of 0" "\<lambda>_. 0" cs] config_ok_tp3
  by (simp add: kbd_ok_def kbd_start_def running_ok_def boot_machine_def k_procid_def current_task_def cpu_of_def terminal_def
      tty_slot_def config_ok_def)

lemma kbd_awaits: "awaits kbd (irq_poll kbd) A cs (kbd_start cs)"
proof -
  have "tty_get_full (kbd_start cs) = [0]" "dev (kbd_start cs) = cs" by (simp_all add: kbd_start_def boot_machine_def)
  with kbd_acts [OF _ kbd_start_ok] show ?thesis by (simp add: awaits_def kbd_typing)
qed

section \<open>Properties\<close>

text \<open>C10. \<open>tty_gets_irq\<close> reads a line. Let \<open>cs\<close> be the characters that the polls of the task find in the one-character
  buffer that the interrupt routine fills, while the rest of the system leaves the memory of the task alone. (These are
  the characters typed as long as each one is read before the next one arrives; a character that arrives while the buffer
  is full replaces the unread one, and the task does not get the lost one.) Then the function returns 0 with the edited
  line and a NUL in the buffer; the line fits in the buffer, the characters after it are still to be read, nothing is
  printed, and no memory of the task changes but the buffer and the local variable.\<close>

theorem gets_correct:
  assumes "awaits P (irq_poll P) A cs s" and "own_buffer A fp buf (unat bufsize)" and "0 < bufsize"
    and "edit_line (unat bufsize - 1) [] cs = Some (line, rest)"
  shows "\<exists>t. tty_gets_irq P fp buf bufsize s = Ret 0 t \<and> mem_has (mem t) buf (line @ [0]) \<and> length line < unat bufsize \<and>
    awaits P (irq_poll P) A rest t \<and> says P s [] t \<and> (\<forall>a \<in> A \<inter> outside fp buf (unat bufsize). mem t a = mem s a)"
proof -
  have "bufsize \<noteq> 0" and pos: "0 < unat bufsize" using assms(3) by (auto simp: word_less_nat_alt)
  then have n: "unat (bufsize - 1) = unat bufsize - 1" "unat bufsize = Suc (unat (bufsize - 1))"
    by (simp_all add: unat_minus_one)
  obtain t where t: "loop (gets_body P fp buf bufsize) 0 s = Ret (of_nat (length line)) t"
      "reads P (irq_poll P) A rest s [] (mem t) t" "mem_has (mem t) buf line" "length line < unat bufsize"
      "\<forall>a \<in> A \<inter> outside fp buf (unat bufsize). mem t a = mem s a"
    using gets_loop [OF assms(4) _ assms(1) _ assms(2) n(1) [symmetric] n(2)] pos
    by (simp del: One_nat_def) (metis less_Suc_eq_le n)
  let ?p = "buf + of_nat (length line)"
  let ?u = "t\<lparr>mem := (mem t)(?p := 0)\<rparr>"
  have spot: "?p \<in> A" using assms(2) t(4) by (auto simp: own_buffer_def)
  have u: "reads P (irq_poll P) A rest s [] (mem ?u) ?u" using reads_write [OF t(2) spot] by simp
  have "tty_gets_irq P fp buf bufsize s = Ret 0 ?u"
    unfolding tty_gets_irq_def gets_body_def [symmetric]
    by (simp add: bnd_simps(1) [where m = "loop _ _", OF t(1)] set_byte_def)
  moreover have "mem_has (mem ?u) buf (line @ [0])"
    using mem_has_snoc [OF t(3)] t(4) by simp
  ultimately show ?thesis using u t(4,5) by (intro exI [of _ ?u]) (auto simp: reads_def outside_def)
qed

theorem gets_correct_witness:
  "\<exists>t. tty_gets_irq kbd 0x200 0x100 8 (kbd_start [0x7F, 0x61, 0x62, 0x7F, 0x0A, 0x64]) = Ret 0 t \<and>
     mem_has (mem t) 0x100 [0x7F, 0x61, 0] \<and> typing kbd (irq_poll kbd) {0x100..0x200} [0x64] t"
proof -
  have "own_buffer {0x100..0x200} 0x200 0x100 (unat (8 :: u32))"
  proof -
    have "k = 0 \<or> k = 1 \<or> k = 2 \<or> k = 3 \<or> k = 4 \<or> k = 5 \<or> k = 6 \<or> k = 7" if "k < unat (8 :: u32)" for k using that by simp arith
    then show ?thesis by (fastforce simp: own_buffer_def)
  qed
  moreover have "edit_line (unat (8 :: u32) - 1) [] [0x7F, 0x61, 0x62, 0x7F, 0x0A, 0x64] = Some ([0x7F, 0x61], [0x64])"
    by simp
  ultimately obtain t where "tty_gets_irq kbd 0x200 0x100 8 (kbd_start [0x7F, 0x61, 0x62, 0x7F, 0x0A, 0x64]) = Ret 0 t"
      "mem_has (mem t) 0x100 ([0x7F, 0x61] @ [0])" "awaits kbd (irq_poll kbd) {0x100..0x200} [0x64] t"
    using gets_correct [OF kbd_awaits, of "{0x100..0x200}" "0x200" "0x100" 8 "[0x7F, 0x61, 0x62, 0x7F, 0x0A, 0x64]"] by force
  then show ?thesis using awaits_typing by auto
qed

section \<open>A number\<close>

text \<open>A program that returns \<open>r\<close> after printing \<open>out\<close>, with \<open>rest\<close> still to read; of the memory of the task it changes
  only what is in \<open>B\<close>.\<close>

definition interacts :: "'d platform \<Rightarrow> ('d machine \<Rightarrow> u8 option \<times> 'd machine) \<Rightarrow> u32 set \<Rightarrow> u32 set \<Rightarrow> u8 list \<Rightarrow> 'd machine \<Rightarrow> u8 list \<Rightarrow> 'a \<Rightarrow> ('a, 'd machine) outcome \<Rightarrow> bool" where
  "interacts P poll A B rest s out r oc \<longleftrightarrow>
     (\<exists>t. oc = Ret r t \<and> awaits P poll A rest t \<and> says P s out t \<and> (\<forall>a \<in> A - B. mem t a = mem s a))"

lemma interacts_ret: "awaits P poll A cs s \<Longrightarrow> interacts P poll A B cs s [] r (Ret r s)"
  by (simp add: interacts_def says_Nil)

lemma interacts_bnd:
  assumes "interacts P poll A B cs s out r (f s)" and "\<And>t. awaits P poll A cs t \<Longrightarrow> interacts P poll A B rest t out' r' (k r t)"
  shows "interacts P poll A B rest s (out @ out') r' (bnd f k s)"
proof -
  obtain t where t: "f s = Ret r t" "awaits P poll A cs t" "says P s out t" "\<forall>a \<in> A - B. mem t a = mem s a"
    using assms(1) by (auto simp: interacts_def)
  from assms(2) [OF t(2)] show ?thesis
    using t says_trans [OF t(3)] by (auto simp: interacts_def bnd_simps(1) [where m = f, OF t(1)])
qed

lemma interacts_next:
  assumes "awaits P (irq_poll P) A (c # cs) s" and "fp \<in> A \<inter> B"
  shows "interacts P (irq_poll P) A B cs s [] c (next_byte P fp s)"
  using next_byte_typed [OF awaits_typing [OF assms(1)], of fp] assms(2) by (auto simp: interacts_def reads_def)

lemma interacts_putc:
  assumes "awaits P poll A cs s" and "ap \<in> A \<inter> B"
  shows "interacts P poll A B cs s [c] 1 (tty_putc P ap c s)"
proof -
  let ?s = "s\<lparr>mem := (mem s)(ap := c)\<rparr>"
  have ok: "running_ok P ?s" "tty_free P ?s" using typing_listening [OF awaits_typing [OF assms(1)]] by (simp_all add: listening_def)
  obtain t where t: "k_tty_write P [c] ?s = Ret 1 t" "prints P ?s [c] t" using tty_write_prints [OF ok, of "[c]"] by auto
  have m: "mem t = (mem s)(ap := c)" using prints_frame(2) [OF t(2)] by simp
  then have "task_acts P A s t" using t(2) assms(2) by (auto simp: task_acts_def)
  then have "awaits P poll A cs t" using assms(1) task_acts_trans unfolding awaits_def by blast
  moreover have "tty_putc P ap c s = Ret 1 t"
    using t(1) by (simp add: tty_putc_def set_byte_def sys_call_tty_write del: SYSCALL_TTY_WRITE_def)
  ultimately show ?thesis using prints_says [OF t(2)] m assms(2) by (auto simp: interacts_def)
qed

definition rubbed :: "nat \<Rightarrow> u8 list" where
  "rubbed n = concat (replicate n [0x08, 0x20, 0x08])"

lemma interacts_rub_out:
  assumes "ap \<in> A \<inter> B"
  shows "awaits P poll A cs s \<Longrightarrow> interacts P poll A B cs s (rubbed n) () (rub_out P ap n s)"
proof (induction n arbitrary: s)
  case 0
  then show ?case by (simp add: rubbed_def interacts_ret)
next
  case (Suc n)
  have "interacts P poll A B cs s ([0x08] @ [0x20] @ [0x08] @ rubbed n) () (rub_out P ap (Suc n) s)"
    unfolding rub_out.simps
    by (rule interacts_bnd interacts_putc Suc assms | assumption)+
  then show ?case by (simp add: rubbed_def)
qed

text \<open>The dialogue of \<open>tty_getw_irq\<close>: the digits of the number, whether it was ended by the typist (and not by the 32nd
  digit), the echo, and the rest of the input. Characters that are neither digits, ends of line nor DEL are ignored.\<close>

abbreviation "is_decimal c \<equiv> (0x2F :: u8) < c \<and> c < 0x3A"

definition echoed :: "u8 list \<Rightarrow> (u8 list \<times> bool \<times> u8 list \<times> u8 list) option \<Rightarrow> (u8 list \<times> bool \<times> u8 list \<times> u8 list) option" where
  "echoed text = map_option (\<lambda>(ds, ended, out, rest). (ds, ended, text @ out, rest))"

fun number_line :: "u8 list \<Rightarrow> u8 list \<Rightarrow> (u8 list \<times> bool \<times> u8 list \<times> u8 list) option" where
  "number_line ds [] = None"
| "number_line ds (c # cs) =
     (if is_decimal c then
        if length ds = 31 then Some (ds @ [c], False, [c], cs) else echoed [c] (number_line (ds @ [c]) cs)
      else if c = 0x0A \<or> c = 0x0D then Some (ds, True, [], cs)
      else if c = 0x7F \<and> ds \<noteq> [] then echoed (rubbed 1) (number_line (butlast ds) cs)
      else number_line ds cs)"

definition getw_body :: "'d platform \<Rightarrow> u32 \<Rightarrow> u32 \<Rightarrow> u8 list \<Rightarrow> ('d machine, u8 list + u8 list \<times> bool) prog" where
  "getw_body P fp ap buf = bnd (next_byte P fp) (\<lambda>byte.
     let check = (\<lambda>buf. ret (if length buf = 32 then Inr (buf, False) else Inl buf)) in
     if byte > 0x2F \<and> byte < 0x3A then bnd (tty_putc P ap byte) (\<lambda>_. check (buf @ [byte]))
     else if byte = 0x0A \<or> byte = 0x0D then ret (Inr (buf, True))
     else if byte = 0x7F \<and> buf \<noteq> [] then bnd (rub_out P ap 1) (\<lambda>_. check (butlast buf))
     else check buf)"

lemma loop_done:
  assumes "interacts P poll A B rest s out (Inr r) (body x s)"
  shows "interacts P poll A B rest s out r (loop body x s)"
proof -
  have "interacts P poll A B rest s (out @ []) r (bnd (body x) (\<lambda>r. case r of Inl x' \<Rightarrow> loop body x' | Inr r \<Rightarrow> ret r) s)"
    by (rule interacts_bnd, rule assms) (simp add: interacts_ret)
  then show ?thesis by (simp add: loop_unfold [of body x])
qed

lemma loop_more:
  assumes "interacts P poll A B cs s out (Inl y) (body x s)" and "\<And>t. awaits P poll A cs t \<Longrightarrow> interacts P poll A B rest t out' r (loop body y t)"
  shows "interacts P poll A B rest s (out @ out') r (loop body x s)"
proof -
  have "interacts P poll A B rest s (out @ out') r (bnd (body x) (\<lambda>r. case r of Inl x' \<Rightarrow> loop body x' | Inr r \<Rightarrow> ret r) s)"
    by (rule interacts_bnd, rule assms(1)) (simp add: assms(2))
  then show ?thesis by (simp add: loop_unfold [of body x])
qed

lemma getw_body_step:
  assumes "fp \<in> A \<inter> B" and "ap \<in> A \<inter> B" and "awaits P (irq_poll P) A (c # cs) s" and "length ds < 32"
  shows "interacts P (irq_poll P) A B cs s
    (if is_decimal c then [c] else if c \<noteq> 0x0A \<and> c \<noteq> 0x0D \<and> c = 0x7F \<and> ds \<noteq> [] then rubbed 1 else [])
    (if is_decimal c then if length ds = 31 then Inr (ds @ [c], False) else Inl (ds @ [c])
     else if c = 0x0A \<or> c = 0x0D then Inr (ds, True)
     else if c = 0x7F \<and> ds \<noteq> [] then Inl (butlast ds) else Inl ds)
    (getw_body P fp ap ds s)" (is "interacts P (irq_poll P) A B cs s ?out ?r _")
proof -
  let ?k = "\<lambda>byte. let check = (\<lambda>buf. ret (if length buf = 32 then Inr (buf, False) else Inl buf)) in
     if byte > 0x2F \<and> byte < 0x3A then bnd (tty_putc P ap byte) (\<lambda>_. check (ds @ [byte]))
     else if byte = 0x0A \<or> byte = 0x0D then ret (Inr (ds, True))
     else if byte = 0x7F \<and> ds \<noteq> [] then bnd (rub_out P ap 1) (\<lambda>_. check (butlast ds))
     else check ds"
  have "interacts P (irq_poll P) A B cs t ?out ?r (?k c t)" if t: "awaits P (irq_poll P) A cs t" for t
  proof (cases "is_decimal c")
    case True
    have "interacts P (irq_poll P) A B cs t ([c] @ []) ?r (bnd (tty_putc P ap c) (\<lambda>_. ret ?r) t)"
      by (rule interacts_bnd, rule interacts_putc [OF t assms(2)]) (simp add: interacts_ret)
    with True show ?thesis by simp
  next
    case no: False
    have "interacts P (irq_poll P) A B cs t (rubbed 1 @ []) ?r (bnd (rub_out P ap 1) (\<lambda>_. ret ?r) t)"
      by (rule interacts_bnd, rule interacts_rub_out [OF assms(2) t]) (simp add: interacts_ret)
    with no assms(4) interacts_ret [OF t] show ?thesis by (auto simp: Let_def)
  qed
  then have "interacts P (irq_poll P) A B cs s ([] @ ?out) ?r (bnd (next_byte P fp) ?k s)"
    by (rule interacts_bnd [where f = "next_byte P fp" and s = s and k = ?k, OF interacts_next [OF assms(3,1)]])
  then show ?thesis by (simp add: getw_body_def)
qed

lemma getw_loop:
  assumes "fp \<in> A \<inter> B" and "ap \<in> A \<inter> B"
  shows "number_line ds cs = Some (final, ended, out, rest) \<Longrightarrow> length ds < 32 \<Longrightarrow> awaits P (irq_poll P) A cs s \<Longrightarrow>
    interacts P (irq_poll P) A B rest s out (final, ended) (loop (getw_body P fp ap) ds s)"
proof (induction cs arbitrary: ds s out)
  case Nil
  then show ?case by simp
next
  case (Cons c cs)
  note step = getw_body_step [OF assms Cons.prems(3,2)]
  have more: ?case if "interacts P (irq_poll P) A B cs s said (Inl ds') (getw_body P fp ap ds s)"
      "number_line ds' cs = Some (final, ended, out', rest)" "length ds' < 32" "out = said @ out'" for said ds' out'
    using loop_more [OF that(1) Cons.IH [OF that(2,3)]] that(4) by simp
  consider (full) "is_decimal c" "length ds = 31" | (digit) "is_decimal c" "length ds \<noteq> 31"
    | (eol) "\<not> is_decimal c" "c = 0x0A \<or> c = 0x0D" | (rubout) "\<not> is_decimal c" "c = 0x7F" "ds \<noteq> []"
    | (other) "\<not> is_decimal c" "\<not> (c = 0x0A \<or> c = 0x0D)" "\<not> (c = 0x7F \<and> ds \<noteq> [])"
    by blast
  then show ?case
  proof cases
    case full
    with step Cons.prems(1) show ?thesis by (intro loop_done) auto
  next
    case digit
    then obtain out' where "number_line (ds @ [c]) cs = Some (final, ended, out', rest)" "out = [c] @ out'"
      using Cons.prems(1) by (auto simp: echoed_def)
    with digit step Cons.prems(2) more [of "[c]" "ds @ [c]" out'] show ?thesis by simp
  next
    case eol
    with step Cons.prems(1) show ?thesis by (intro loop_done) auto
  next
    case rubout
    then obtain out' where "number_line (butlast ds) cs = Some (final, ended, out', rest)" "out = rubbed 1 @ out'"
      using Cons.prems(1) by (auto simp: echoed_def)
    with rubout step Cons.prems(2) more [of "rubbed 1" "butlast ds" out'] show ?thesis by simp
  next
    case other
    then have "number_line ds cs = Some (final, ended, out, rest)" using Cons.prems(1) by (simp split: if_splits)
    moreover have "interacts P (irq_poll P) A B cs s [] (Inl ds) (getw_body P fp ap ds s)" using step other by (simp split: if_splits)
    ultimately show ?thesis using more [of "[]" ds out] Cons.prems(2) by simp
  qed
qed

text \<open>The conversion computes the number modulo \<open>2 ^ 32\<close>, and does not complain about a number that fits.\<close>

lemma getw_convert_snoc:
  "getw_convert (ds @ [c]) = (fst (getw_convert ds) * 10 + (ucast c - 0x30),
     snd (getw_convert ds) \<or> fst (getw_convert ds) * 10 + (ucast c - 0x30) < fst (getw_convert ds))"
proof -
  let ?f = "\<lambda>c (dec :: u32, save, overflow). let dec = dec * 10 + (ucast c - 0x30) in (dec, dec, overflow \<or> dec < save)"
  have "fst (snd (fold ?f cs (0, 0, False))) = fst (fold ?f cs (0, 0, False))" for cs :: "u8 list"
    by (induction cs rule: rev_induct) (auto simp: split_beta Let_def)
  then show ?thesis by (simp add: getw_convert_def split_beta Let_def)
qed

lemma decimal_value: "is_decimal c \<Longrightarrow> (ucast c - 0x30 :: u32) = of_nat (dec_val c)"
  by (simp add: dec_val_def word_less_nat_alt word_unat_eq_iff unat_sub_if_size unat_ucast_u8)

lemma getw_convert_value:
  "\<forall>c \<in> set ds. is_decimal c \<Longrightarrow> fst (getw_convert ds) = of_nat (of_digits 10 dec_val ds)"
  by (induction ds rule: rev_induct) (auto simp: getw_convert_snoc decimal_value, simp add: getw_convert_def)

lemma getw_convert_fits:
  "\<forall>c \<in> set ds. is_decimal c \<Longrightarrow> of_digits 10 dec_val ds < 2 ^ 32 \<Longrightarrow> \<not> snd (getw_convert ds)"
proof (induction ds rule: rev_induct)
  case Nil
  then show ?case by (simp add: getw_convert_def)
next
  case (snoc c ds)
  let ?N = "of_digits 10 dec_val ds"
  have fits: "?N * 10 + dec_val c < 2 ^ 32" "?N < 2 ^ 32" using snoc.prems(2) by auto
  have v: "fst (getw_convert ds) = of_nat ?N" "fst (getw_convert (ds @ [c])) = of_nat (?N * 10 + dec_val c)"
    using getw_convert_value [of ds] getw_convert_value [of "ds @ [c]"] snoc.prems(1) by auto
  have "\<not> of_nat (?N * 10 + dec_val c) < (of_nat ?N :: u32)"
    using fits by (simp add: word_less_nat_alt unat_of_nat_u32 del: of_nat_add of_nat_mult)
  then show ?case using snoc.IH snoc.prems(1) fits(2) v by (simp add: getw_convert_snoc)
qed

text \<open>What the test of the conversion loop notices: a step at which the number so far, modulo \<open>2 ^ 32\<close>, gets smaller.\<close>

lemma getw_convert_overflow:
  "\<forall>c \<in> set ds. is_decimal c \<Longrightarrow> snd (getw_convert ds) \<longleftrightarrow>
    (\<exists>k<length ds. of_digits 10 dec_val (take (Suc k) ds) mod 2 ^ 32 < of_digits 10 dec_val (take k ds) mod 2 ^ 32)"
proof (induction ds rule: rev_induct)
  case Nil
  then show ?case by (simp add: getw_convert_def)
next
  case (snoc c ds)
  let ?N = "\<lambda>xs. of_digits 10 dec_val xs"
  have v: "unat (fst (getw_convert ds)) = ?N ds mod 2 ^ 32" "unat (fst (getw_convert (ds @ [c]))) = ?N (ds @ [c]) mod 2 ^ 32"
    using getw_convert_value [of ds] getw_convert_value [of "ds @ [c]"] snoc.prems by (simp_all add: unat_of_nat del: of_nat_add of_nat_mult)
  have "snd (getw_convert (ds @ [c])) \<longleftrightarrow> snd (getw_convert ds) \<or> ?N (ds @ [c]) mod 2 ^ 32 < ?N ds mod 2 ^ 32"
    unfolding v [symmetric] word_less_nat_alt [symmetric] by (simp add: getw_convert_snoc)
  also have "\<dots> \<longleftrightarrow> (\<exists>k<length ds. ?N (take (Suc k) ds) mod 2 ^ 32 < ?N (take k ds) mod 2 ^ 32) \<or> ?N (ds @ [c]) mod 2 ^ 32 < ?N ds mod 2 ^ 32"
    using snoc by simp
  also have "\<dots> \<longleftrightarrow> (\<exists>k<length (ds @ [c]). ?N (take (Suc k) (ds @ [c])) mod 2 ^ 32 < ?N (take k (ds @ [c])) mod 2 ^ 32)"
    by (auto simp: less_Suc_eq)
  finally show ?case .
qed

lemma echoed_Some: "echoed said r = Some (ds, ended, out, rest) \<longleftrightarrow> (\<exists>out'. r = Some (ds, ended, out', rest) \<and> out = said @ out')"
  by (auto simp: echoed_def)

lemma number_line_decimal:
  "number_line ds cs = Some (final, ended, out, rest) \<Longrightarrow> \<forall>c \<in> set ds. is_decimal c \<Longrightarrow> \<forall>c \<in> set final. is_decimal c"
proof (induction cs arbitrary: ds out)
  case Nil
  then show ?case by simp
next
  case (Cons c cs)
  have all: "is_decimal c \<Longrightarrow> \<forall>c \<in> set (ds @ [c]). is_decimal c" "\<forall>c \<in> set (butlast ds). is_decimal c"
    using Cons.prems(2) by (auto dest: in_set_butlastD)
  show ?case
  proof (cases "is_decimal c")
    case True
    with Cons.prems(1) have "final = ds @ [c] \<or> (\<exists>out'. number_line (ds @ [c]) cs = Some (final, ended, out', rest))"
      by (auto simp: echoed_Some split: if_splits)
    with all(1) [OF True] Cons.IH show ?thesis by blast
  next
    case False
    with Cons.prems(1) have "final = ds \<or> (\<exists>out'. number_line (butlast ds) cs = Some (final, ended, out', rest)) \<or>
        number_line ds cs = Some (final, ended, out, rest)"
      unfolding number_line.simps if_not_P [OF False] echoed_Some by (simp split: if_splits add: echoed_Some) blast
    with all(2) Cons.IH Cons.prems(2) show ?thesis by blast
  qed
qed

definition word_area :: "u32 \<Rightarrow> u32 set" where
  "word_area a = {a + of_nat i | i. i < 4}"

lemma getw_store:
  assumes "interacts P poll A B cs s out r (f s)" and "word_area val \<subseteq> A \<inter> B"
  shows "\<exists>t. bnd f (\<lambda>_. bnd (modify (\<lambda>s. s\<lparr>mem := store_word val v (mem s)\<rparr>)) (\<lambda>_. ret 0)) s = Ret 0 t \<and>
    interacts P poll A B cs s out 0 (Ret 0 t) \<and> load_word (mem t) val = v"
proof -
  obtain u where u: "f s = Ret r u" "awaits P poll A cs u" "says P s out u" "\<forall>a \<in> A - B. mem u a = mem s a"
    using assms(1) by (auto simp: interacts_def)
  let ?t = "u\<lparr>mem := store_word val v (mem u)\<rparr>"
  have far: "store_word val v (mem u) a = mem u a" if "a \<notin> word_area val" for a
    using that by (intro store_word_other) (auto simp: word_area_def)
  then have "task_acts P A u ?t" using assms(2) prints_Nil [of P ?t] by (auto simp: task_acts_def)
  then have "awaits P poll A cs ?t" using u(2) task_acts_trans unfolding awaits_def by blast
  moreover have "says P u [] ?t" by (rule prints_says [where m = "mem ?t"]) (use prints_Nil [of P ?t] in simp)
  moreover have "mem ?t a = mem s a" if "a \<in> A - B" for a
  proof -
    have "a \<notin> word_area val" using that assms(2) by blast
    with far u(4) that show ?thesis by simp
  qed
  ultimately have "interacts P poll A B cs s out 0 (Ret 0 ?t)" using says_trans [OF u(3), of "[]"] by (simp add: interacts_def)
  then show ?thesis using u(1) by (intro exI [of _ ?t]) (simp add: bnd_simps(1) [where m = f] load_store_word)
qed

lemma tty_getw_irq_eq:
  assumes "loop (getw_body P fp ap) [] s = Ret (ds, ended) t"
  shows "tty_getw_irq P fp ap val s =
    (let store_val = (\<lambda>v. modify (\<lambda>s. s\<lparr>mem := store_word val v (mem s)\<rparr>))
     in if ended \<and> \<not> snd (getw_convert ds) then bnd (store_val (fst (getw_convert ds))) (\<lambda>_. ret 0) t
        else bnd (rub_out P ap (length ds)) (\<lambda>_. bnd (tty_putc P ap 0x30) (\<lambda>_. bnd (store_val 0) (\<lambda>_. ret 0))) t)"
  using assms unfolding tty_getw_irq_def getw_body_def [abs_def] Let_def
  by (simp add: bnd_simps(1) [where m = "loop _ _"] split_beta)

lemma getw_run:
  assumes "awaits P (irq_poll P) A cs s" and "fp \<in> A" and "ap \<in> A" and "word_area val \<subseteq> A"
    and "number_line [] cs = Some (ds, ended, out, rest)"
  shows "\<exists>t. tty_getw_irq P fp ap val s = Ret 0 t \<and> interacts P (irq_poll P) A ({fp, ap} \<union> word_area val) rest s
      (if ended \<and> \<not> snd (getw_convert ds) then out else out @ rubbed (length ds) @ [0x30]) 0 (Ret 0 t) \<and>
    load_word (mem t) val = (if ended \<and> \<not> snd (getw_convert ds) then fst (getw_convert ds) else 0)"
proof -
  let ?B = "{fp, ap} \<union> word_area val"
  have B: "fp \<in> A \<inter> ?B" "ap \<in> A \<inter> ?B" "word_area val \<subseteq> A \<inter> ?B" using assms(2-4) by auto
  let ?loop = "loop (getw_body P fp ap) []" and ?st = "\<lambda>v. modify (\<lambda>s. s\<lparr>mem := store_word val v (mem s)\<rparr>)"
  let ?reject = "bnd ?loop (\<lambda>_. bnd (rub_out P ap (length ds)) (\<lambda>_. tty_putc P ap 0x30))"
  have l: "interacts P (irq_poll P) A ?B rest s out (ds, ended) (?loop s)" by (rule getw_loop [OF B(1,2) assms(5) _ assms(1)]) simp
  then obtain t where t: "?loop s = Ret (ds, ended) t" by (auto simp: interacts_def)
  have e: "interacts P (irq_poll P) A ?B rest s (out @ rubbed (length ds) @ [0x30]) 1 (?reject s)"
    by (rule interacts_bnd, rule l, rule interacts_bnd, rule interacts_rub_out [OF B(2)], assumption, rule interacts_putc [OF _ B(2)])
  show ?thesis
  proof (cases "ended \<and> \<not> snd (getw_convert ds)")
    case True
    have "tty_getw_irq P fp ap val s = bnd ?loop (\<lambda>_. bnd (?st (fst (getw_convert ds))) (\<lambda>_. ret 0)) s"
      using True t by (simp add: tty_getw_irq_eq bnd_simps(1) [where m = ?loop])
    with getw_store [where f = ?loop and s = s, OF l B(3)] True show ?thesis by simp
  next
    case False
    have "tty_getw_irq P fp ap val s = bnd ?reject (\<lambda>_. bnd (?st 0) (\<lambda>_. ret 0)) s"
      using False t by (auto simp: tty_getw_irq_eq Let_def bnd_assoc bnd_assoc_fun bnd_simps(1) [where m = ?loop])
    with getw_store [where f = ?reject and s = s, OF e B(3)] False show ?thesis by auto
  qed
qed

text \<open>C11. \<open>tty_getw_irq\<close> reads a number: whatever is typed until the end of the line, or until 32 digits have been typed,
  it returns 0 and echoes the dialogue. The digits are accepted if the line was ended and reading them from left to right
  never makes the number modulo \<open>2 ^ 32\<close> smaller from one digit to the next; then the number modulo \<open>2 ^ 32\<close> is stored.
  Otherwise the digits are rubbed out on the screen, a 0 is displayed, and 0 is stored. A number below \<open>2 ^ 32\<close> is always
  accepted and so stored as it is; a number of \<open>2 ^ 32\<close> or more is not always rejected.\<close>

theorem getw_correct:
  assumes "awaits P (irq_poll P) A cs s" and "fp \<in> A" and "ap \<in> A" and "word_area val \<subseteq> A"
    and "number_line [] cs = Some (ds, ended, out, rest)"
    and "accepted \<longleftrightarrow> ended \<and> (\<forall>k<length ds.
      of_digits 10 dec_val (take k ds) mod 2 ^ 32 \<le> of_digits 10 dec_val (take (Suc k) ds) mod 2 ^ 32)"
  shows "\<exists>t. tty_getw_irq P fp ap val s = Ret 0 t \<and> awaits P (irq_poll P) A rest t \<and>
    says P s (if accepted then out else out @ rubbed (length ds) @ [0x30]) t \<and>
    load_word (mem t) val = (if accepted then of_nat (of_digits 10 dec_val ds) else 0) \<and>
    (ended \<and> of_digits 10 dec_val ds < 2 ^ 32 \<longrightarrow> accepted) \<and>
    (\<forall>a \<in> A - ({fp, ap} \<union> word_area val). mem t a = mem s a)"
proof -
  have ds: "\<forall>c \<in> set ds. is_decimal c" using number_line_decimal [OF assms(5)] by simp
  have "accepted \<longleftrightarrow> ended \<and> \<not> snd (getw_convert ds)"
    unfolding assms(6) getw_convert_overflow [OF ds] by (metis linorder_not_less)
  then show ?thesis
    using getw_run [OF assms(1-5)] getw_convert_value [OF ds] getw_convert_fits [OF ds]
    by (auto simp: interacts_def)
qed

text \<open>The number 5000000000 is accepted, as 705032704.\<close>

theorem getw_correct_witness:
  "\<exists>t. tty_getw_irq kbd 0x200 0x204 0x100 (kbd_start (ascii ''5000000000'' @ [0x0A])) = Ret 0 t \<and>
     load_word (mem t) 0x100 = 705032704 \<and> says kbd (kbd_start (ascii ''5000000000'' @ [0x0A])) (ascii ''5000000000'') t"
proof -
  let ?ds = "ascii ''5000000000''"
  have n: "number_line [] (?ds @ [0x0A]) = Some (?ds, True, ?ds, [])"
    by (simp add: ascii_def echoed_def)
  have c: "\<forall>k<length ?ds. of_digits 10 dec_val (take k ?ds) mod 2 ^ 32 \<le> of_digits 10 dec_val (take (Suc k) ?ds) mod 2 ^ 32"
  proof -
    have "\<not> snd (getw_convert ?ds)" "\<forall>c \<in> set ?ds. is_decimal c" by (simp_all add: getw_convert_def ascii_def)
    with getw_convert_overflow [of ?ds] show ?thesis by (metis linorder_not_less)
  qed
  have v: "of_nat (of_digits 10 dec_val ?ds) = (705032704 :: u32)" by (simp add: of_digits_def dec_val_def ascii_def)
  from getw_correct [OF kbd_awaits _ _ _ n, of "0x200" UNIV "0x204" "0x100" True] c show ?thesis
    unfolding v by auto
qed

end
