(* ===== verification/Vci.thy ===== *)
theory Vci
  imports Prelude
begin

text \<open>
  The VCI interface (\<open>vci_param.h\<close>, \<open>vci_signals.h\<close>, \<open>vci_initiator.h\<close> and \<open>vci_target.h\<close> in \<open>TP2/TP2_etudiant\<close>),
  with the field widths of the only instance of the repository, \<open>VciParams<4, 8, 32, 1, 1, 1, 12, 1, 1, 1>\<close>. An
  initiator port and a target port bound to the same bundle of signals read and write the fields of the same
  name.
\<close>

section \<open>Parameters\<close>

type_synonym vci_data = "32 word"
type_synonym vci_addr = "32 word"
type_synonym vci_cmd = "2 word"
type_synonym vci_srcid = "12 word"
type_synonym vci_bit = "1 word"

definition vci_B :: nat where [simp]: "vci_B = 4"

definition CMD_NOP :: vci_cmd where [simp]: "CMD_NOP = 0"
definition CMD_READ :: vci_cmd where [simp]: "CMD_READ = 1"
definition CMD_WRITE :: vci_cmd where [simp]: "CMD_WRITE = 2"
definition CMD_LOCKED_READ :: vci_cmd where [simp]: "CMD_LOCKED_READ = 3"
definition CMD_STORE_COND :: vci_cmd where [simp]: "CMD_STORE_COND = CMD_NOP"

text \<open>The error codes, cut to the width of \<open>rerror\<close>.\<close>

definition err_mask :: "nat \<Rightarrow> nat" where
  "err_mask rerror_size = 2 ^ rerror_size - 1"

datatype vci_error = ERR_NORMAL | ERR_GENERAL_DATA_ERROR | ERR_BAD_DATA | ERR_ABORT_DISCONNECT

fun vci_error_code :: "nat \<Rightarrow> vci_error \<Rightarrow> nat" where
  "vci_error_code E ERR_NORMAL = 0 AND err_mask E"
| "vci_error_code E ERR_GENERAL_DATA_ERROR = 1 AND err_mask E"
| "vci_error_code E ERR_BAD_DATA = 5 AND err_mask E"
| "vci_error_code E ERR_ABORT_DISCONNECT = 7 AND err_mask E"

section \<open>Signals\<close>

record vci_signals =
  rspack :: bool
  rspval :: bool
  rdata :: vci_data
  reop :: bool
  rerror :: vci_bit
  rsrcid :: vci_srcid
  rtrdid :: vci_bit
  rpktid :: vci_bit
  cmdack :: bool
  cmdval :: bool
  vaddress :: vci_addr
  be :: "4 word"
  vcmd :: vci_cmd
  contig :: bool
  wdata :: vci_data
  eop :: bool
  vcons :: bool
  plen :: "8 word"
  vwrap :: bool
  cfixed :: bool
  clen :: vci_bit
  srcid :: vci_srcid
  trdid :: vci_bit
  pktid :: vci_bit

section \<open>The initiator port\<close>

definition ini_getAck :: "vci_signals \<Rightarrow> bool" where "ini_getAck p = cmdack p"
definition ini_getVal :: "vci_signals \<Rightarrow> bool" where "ini_getVal p = rspval p"
definition ini_setAck :: "bool \<Rightarrow> vci_signals \<Rightarrow> vci_signals" where "ini_setAck x p = p\<lparr>rspack := x\<rparr>"
definition ini_setVal :: "bool \<Rightarrow> vci_signals \<Rightarrow> vci_signals" where "ini_setVal x p = p\<lparr>cmdval := x\<rparr>"
definition ini_iProposed :: "vci_signals \<Rightarrow> bool" where "ini_iProposed p = cmdval p"
definition ini_iAccepted :: "vci_signals \<Rightarrow> bool" where "ini_iAccepted p = (rspval p \<and> rspack p)"
definition ini_peerAccepted :: "vci_signals \<Rightarrow> bool" where "ini_peerAccepted p = (cmdval p \<and> cmdack p)"
definition ini_toPeerEnd :: "vci_signals \<Rightarrow> bool" where "ini_toPeerEnd p = (ini_peerAccepted p \<and> eop p)"
definition ini_cmdNop :: "vci_signals \<Rightarrow> vci_signals" where "ini_cmdNop p = p\<lparr>cmdval := False\<rparr>"

section \<open>The target port\<close>

definition tgt_getAck :: "vci_signals \<Rightarrow> bool" where "tgt_getAck p = rspack p"
definition tgt_getVal :: "vci_signals \<Rightarrow> bool" where "tgt_getVal p = cmdval p"
definition tgt_setAck :: "bool \<Rightarrow> vci_signals \<Rightarrow> vci_signals" where "tgt_setAck x p = p\<lparr>cmdack := x\<rparr>"
definition tgt_setVal :: "bool \<Rightarrow> vci_signals \<Rightarrow> vci_signals" where "tgt_setVal x p = p\<lparr>rspval := x\<rparr>"
definition tgt_iProposed :: "vci_signals \<Rightarrow> bool" where "tgt_iProposed p = rspval p"
definition tgt_iAccepted :: "vci_signals \<Rightarrow> bool" where "tgt_iAccepted p = (cmdval p \<and> cmdack p)"
definition tgt_peerAccepted :: "vci_signals \<Rightarrow> bool" where "tgt_peerAccepted p = (rspval p \<and> rspack p)"
definition tgt_toPeerEnd :: "vci_signals \<Rightarrow> bool" where "tgt_toPeerEnd p = (tgt_peerAccepted p \<and> reop p)"

definition rspSetIds :: "vci_srcid \<Rightarrow> vci_bit \<Rightarrow> vci_bit \<Rightarrow> vci_signals \<Rightarrow> vci_signals" where
  "rspSetIds s t q p = p\<lparr>rsrcid := s, rtrdid := t, rpktid := q\<rparr>"

definition rspError :: "bool \<Rightarrow> vci_signals \<Rightarrow> vci_signals" where
  "rspError e p = p\<lparr>rspval := True, rdata := 0, rerror := 1, reop := e\<rparr>"

definition rspRead :: "bool \<Rightarrow> vci_data \<Rightarrow> vci_signals \<Rightarrow> vci_signals" where
  "rspRead e data p = p\<lparr>rspval := True, rdata := data, rerror := 0, reop := e\<rparr>"

definition rspWrite :: "bool \<Rightarrow> vci_signals \<Rightarrow> vci_signals" where
  "rspWrite e p = rspRead e 0 p"

definition rspNop :: "vci_signals \<Rightarrow> vci_signals" where
  "rspNop p = p\<lparr>rspval := False\<rparr>"

text \<open>The two ends of a bundle agree on what was transferred.\<close>

lemma handshake_agrees:
  "ini_peerAccepted p = tgt_iAccepted p" "ini_iAccepted p = tgt_peerAccepted p"
  by (simp_all add: ini_peerAccepted_def tgt_iAccepted_def ini_iAccepted_def tgt_peerAccepted_def)

text \<open>With one bit of \<open>rerror\<close>, the three error codes coincide.\<close>

lemma error_codes_collapse:
  "vci_error_code 1 ERR_NORMAL = 0" "e \<noteq> ERR_NORMAL \<Longrightarrow> vci_error_code 1 e = 1"
  by (simp, cases e) (simp_all add: err_mask_def)

end
