(* ===== verification/Int_Tab.thy ===== *)
theory Int_Tab
  imports Prelude
begin

text \<open>
  The index tables of the SoCLib models (\<open>TP2/TP2_etudiant/int_tab.h\<close>), and the failures that their code and
  that of the mapping table can run into: the exceptions of \<open>exception.h\<close> (without the message), \<open>exit\<close>, a failed
  assertion, an operation that C++ leaves undefined and a loop that never ends.
\<close>

section \<open>Results\<close>

datatype failure = ValueError | Collision | RunTimeError | AssertionFailed | Undefined | Endless | Exit

type_synonym 'a result = "failure + 'a"

definition andthen :: "'a result \<Rightarrow> ('a \<Rightarrow> 'b result) \<Rightarrow> 'b result" where
  "andthen r f = (case r of Inl e \<Rightarrow> Inl e | Inr a \<Rightarrow> f a)"

definition check :: "bool \<Rightarrow> failure \<Rightarrow> 'a result \<Rightarrow> 'a result" where
  "check b e r = (if b then r else Inl e)"

primrec foldr_result :: "('a \<Rightarrow> 's \<Rightarrow> 's result) \<Rightarrow> 'a list \<Rightarrow> 's \<Rightarrow> 's result" where
  "foldr_result f [] s = Inr s"
| "foldr_result f (x # xs) s = andthen (f x s) (foldr_result f xs)"

lemma andthen_simps [simp]: "andthen (Inl e) f = Inl e" "andthen (Inr a) f = f a"
  by (simp_all add: andthen_def)

lemma andthen_Inr_iff: "andthen r f = Inr b \<longleftrightarrow> (\<exists>a. r = Inr a \<and> f a = Inr b)"
  by (cases r) auto

lemma check_Inr_iff [simp]: "check b e r = Inr a \<longleftrightarrow> b \<and> r = Inr a"
  by (auto simp: check_def)

lemma check_True [simp]: "check True e r = r"
  by (simp add: check_def)

lemma foldr_result_append:
  "foldr_result f (xs @ ys) s = andthen (foldr_result f xs s) (foldr_result f ys)"
  by (induction xs arbitrary: s) (auto simp: andthen_def split: sum.splits)

text \<open>An invariant of a loop that does not fail.\<close>

lemma foldr_result_inv:
  assumes "I [] s" and "\<And>xs x s t. I xs s \<Longrightarrow> x \<in> set ys \<Longrightarrow> f x s = Inr t \<Longrightarrow> I (xs @ [x]) t"
    and "foldr_result f ys s = Inr t"
  shows "I ys t"
proof -
  have "I (xs @ ys) t" if "I xs s" "foldr_result f ys s = Inr t"
      "\<And>xs x s t. I xs s \<Longrightarrow> x \<in> set ys \<Longrightarrow> f x s = Inr t \<Longrightarrow> I (xs @ [x]) t" for xs s
    using that
  proof (induction ys arbitrary: xs s)
    case Nil
    then show ?case by simp
  next
    case (Cons y ys)
    then obtain u where u: "f y s = Inr u" "foldr_result f ys u = Inr t" by (auto simp: andthen_Inr_iff)
    have "I (xs @ [y]) u" using Cons.prems(1,3) u(1) by simp
    then have "I ((xs @ [y]) @ ys) t" using u(2) Cons.prems(3) by (intro Cons.IH) auto
    then show ?case by simp
  qed
  from this [of "[]" s] assms show ?thesis by simp
qed

text \<open>A result of type \<open>int\<close>: out of its range the C++ operation is undefined.\<close>

definition c_int :: "int \<Rightarrow> int result" where
  "c_int x = check (- (2 ^ 31) \<le> x \<and> x < 2 ^ 31) Undefined (Inr x)"

text \<open>\<open>x << n\<close> on \<open>int\<close>.\<close>

definition c_shl :: "int \<Rightarrow> int \<Rightarrow> int result" where
  "c_shl x n = check (0 \<le> x \<and> 0 \<le> n \<and> n < 32) Undefined (c_int (x * 2 ^ nat n))"

section \<open>Index tables\<close>

definition s_max_level :: nat where [simp]: "s_max_level = 10"

text \<open>\<open>m_values\<close> is the initialised part of the array: the indices and the terminating \<open>-1\<close>.\<close>

record int_tab =
  m_values :: "int list"
  m_level :: nat

definition int_tab_init :: "int list \<Rightarrow> int_tab result" where
  "int_tab_init vals = (case find (\<lambda>i. vals ! i = - 1) [0..<s_max_level] of
     Some i \<Rightarrow> Inr \<lparr>m_values = take (Suc i) vals, m_level = i\<rparr> | None \<Rightarrow> Inl ValueError)"

text \<open>\<open>IntTab(val0, ..., val9)\<close>, whose missing arguments are \<open>-1\<close>.\<close>

definition IntTab :: "int list \<Rightarrow> int_tab result" where
  "IntTab vals = int_tab_init (take s_max_level (vals @ replicate s_max_level (- 1)))"

definition int_tab_copy :: "int_tab \<Rightarrow> int_tab result" where
  "int_tab_copy ref = int_tab_init (m_values ref)"

text \<open>\<open>IntTab(ref, nindex)\<close> writes \<open>m_values[m_level + 1]\<close>, which is outside the array if \<open>m_level\<close> is 9.\<close>

definition int_tab_extend :: "int_tab \<Rightarrow> int \<Rightarrow> int_tab result" where
  "int_tab_extend ref nindex =
     andthen (int_tab_init (m_values ref)) (\<lambda>t.
     check (Suc (m_level t) < s_max_level) Undefined
       (Inr \<lparr>m_values = take (m_level t) (m_values t) @ [nindex, - 1], m_level = Suc (m_level t)\<rparr>))"

definition int_tab_of_vector :: "int list \<Rightarrow> int_tab result" where
  "int_tab_of_vector v = check (length v \<le> s_max_level) Undefined
     (int_tab_init (v @ replicate (s_max_level - length v) (- 1)))"

definition int_tab_nth :: "int_tab \<Rightarrow> nat \<Rightarrow> int result" where
  "int_tab_nth t level = (if level > m_level t then Inl ValueError else Inr (m_values t ! level))"

text \<open>\<open>operator*\<close>: the indices concatenated, each in its number of bits.\<close>

definition int_tab_mult :: "int_tab \<Rightarrow> int_tab \<Rightarrow> int result" where
  "int_tab_mult t widths =
     (if m_level widths \<noteq> m_level t then Inl ValueError
      else foldr_result (\<lambda>l ret.
        andthen (int_tab_nth widths l) (\<lambda>w.
        andthen (c_shl ret w) (\<lambda>ret. c_int (ret + m_values t ! l)))) [0..<m_level t] 0)"

definition int_tab_sum :: "int_tab \<Rightarrow> nat \<Rightarrow> int result" where
  "int_tab_sum t level =
     foldr_result (\<lambda>i s. c_int (s + m_values t ! i)) [0..<min (m_level t) level] 0"

definition idMatches :: "int_tab \<Rightarrow> int_tab \<Rightarrow> bool" where
  "idMatches t other \<longleftrightarrow>
     (let m = if m_level t < m_level other then m_level t else m_level other
      in list_all (\<lambda>i. m_values t ! i = m_values other ! i) [0..<m])"

definition int_tab_eq :: "int_tab \<Rightarrow> int_tab \<Rightarrow> bool" where
  "int_tab_eq t other \<longleftrightarrow> (if m_level t \<noteq> m_level other then False else idMatches t other)"

section \<open>Facts on index tables\<close>

text \<open>The indices of a table, and the invariant of the class.\<close>

definition indices :: "int_tab \<Rightarrow> int list" where
  "indices t = take (m_level t) (m_values t)"

definition int_tab_ok :: "int_tab \<Rightarrow> bool" where
  "int_tab_ok t \<longleftrightarrow> m_level t < s_max_level \<and> m_values t = indices t @ [- 1] \<and> - 1 \<notin> set (indices t)"

lemma length_indices: "int_tab_ok t \<Longrightarrow> length (indices t) = m_level t"
proof -
  assume "int_tab_ok t"
  then have "m_values t = take (m_level t) (m_values t) @ [- 1]" by (simp add: int_tab_ok_def indices_def)
  then have "length (m_values t) = min (length (m_values t)) (m_level t) + 1"
    by (metis length_append_singleton length_take Suc_eq_plus1)
  then show ?thesis by (simp add: indices_def)
qed

lemma nth_indices: "int_tab_ok t \<Longrightarrow> i < m_level t \<Longrightarrow> m_values t ! i = indices t ! i"
  by (simp add: indices_def)

lemma int_tab_init_Inr:
  "int_tab_init vals = Inr t \<longleftrightarrow> (\<exists>i. i < s_max_level \<and> vals ! i = - 1 \<and> (\<forall>j<i. vals ! j \<noteq> - 1) \<and>
     t = \<lparr>m_values = take (Suc i) vals, m_level = i\<rparr>)"
  by (auto simp: int_tab_init_def find_Some_iff find_None_iff split: option.splits)
    (metis linorder_neqE_nat)+

lemma int_tab_init_eq:
  assumes "i < s_max_level" and "vals ! i = - 1" and "\<forall>j<i. vals ! j \<noteq> - 1"
  shows "int_tab_init vals = Inr \<lparr>m_values = take (Suc i) vals, m_level = i\<rparr>"
  using assms by (subst int_tab_init_Inr) blast

text \<open>Every constructor gives a table with the invariant, and copying does not change a table.\<close>

lemma int_tab_init_ok:
  assumes "int_tab_init vals = Inr t" and "s_max_level \<le> length vals \<or> - 1 \<in> set vals"
  shows "int_tab_ok t"
proof -
  obtain i where i: "i < s_max_level" "vals ! i = - 1" "\<forall>j<i. vals ! j \<noteq> - 1"
      "t = \<lparr>m_values = take (Suc i) vals, m_level = i\<rparr>"
    using assms(1) by (auto simp: int_tab_init_Inr)
  have "i < length vals"
    using assms(2) i(1,3) by (auto simp: in_set_conv_nth) (metis linorder_neqE_nat order.strict_trans)
  then show ?thesis
    using i by (auto simp: int_tab_ok_def indices_def take_Suc_conv_app_nth min_def in_set_conv_nth)
qed

lemma int_tab_copy_id:
  assumes "int_tab_ok t"
  shows "int_tab_copy t = Inr t"
proof -
  have "m_values t ! m_level t = - 1" "\<forall>j<m_level t. m_values t ! j \<noteq> - 1" "length (m_values t) = Suc (m_level t)"
    using assms length_indices [OF assms] nth_indices [OF assms]
    by (auto simp: int_tab_ok_def) (metis nth_append_length, metis nth_mem)
  then show ?thesis
    using assms by (auto simp: int_tab_copy_def int_tab_ok_def int_tab_init_eq [of "m_level t"])
qed

lemma IntTab_indices:
  assumes "length is < s_max_level" and "- 1 \<notin> set is"
  shows "IntTab is = Inr \<lparr>m_values = is @ [- 1], m_level = length is\<rparr>"
proof -
  let ?v = "take s_max_level (is @ replicate s_max_level (- 1))"
  have v: "?v = is @ replicate (s_max_level - length is) (- 1)" using assms(1) by simp
  have "int_tab_init ?v = Inr \<lparr>m_values = take (Suc (length is)) ?v, m_level = length is\<rparr>"
  proof (rule int_tab_init_eq)
    show "\<forall>j<length is. ?v ! j \<noteq> - 1" using assms by (auto simp: in_set_conv_nth nth_append)
  qed (use assms(1) in \<open>simp_all add: nth_append\<close>)
  moreover have "take (Suc (length is)) ?v = is @ [- 1]"
    using assms(1) by (cases "s_max_level - length is") (simp_all add: v)
  ultimately show ?thesis by (simp add: IntTab_def)
qed

lemma IntTab_ok: "IntTab is = Inr t \<Longrightarrow> int_tab_ok t"
  unfolding IntTab_def by (erule int_tab_init_ok) (rule disjI1, simp)

lemma int_tab_extend_ok:
  assumes "int_tab_ok t" and "n \<noteq> - 1" and "int_tab_extend t n = Inr u"
  shows "int_tab_ok u \<and> indices u = indices t @ [n]"
proof -
  have "int_tab_init (m_values t) = Inr t" using int_tab_copy_id [OF assms(1)] by (simp add: int_tab_copy_def)
  then have u: "u = \<lparr>m_values = take (m_level t) (m_values t) @ [n, - 1], m_level = Suc (m_level t)\<rparr>"
      "Suc (m_level t) < s_max_level"
    using assms(3) by (simp_all add: int_tab_extend_def)
  have "indices u = indices t @ [n]"
    using length_indices [OF assms(1)] by (simp add: u(1) indices_def)
  then show ?thesis using u assms(1,2) by (simp add: int_tab_ok_def indices_def)
qed

lemma int_tab_eq_iff:
  assumes "int_tab_ok t" and "int_tab_ok u"
  shows "int_tab_eq t u \<longleftrightarrow> t = u"
proof
  assume "int_tab_eq t u"
  then have eq: "m_level t = m_level u" "\<forall>i<m_level t. m_values t ! i = m_values u ! i"
    by (auto simp: int_tab_eq_def idMatches_def list_all_iff split: if_splits)
  then have "indices t = indices u"
    using length_indices [OF assms(1)] length_indices [OF assms(2)] nth_indices [OF assms(1)] nth_indices [OF assms(2)]
    by (intro nth_equalityI) auto
  with assms eq(1) show "t = u" by (auto simp: int_tab_ok_def)
qed (auto simp: int_tab_eq_def idMatches_def list_all_iff)

lemma idMatches_prefix:
  assumes "int_tab_ok t" and "int_tab_ok u" and "m_level u \<le> m_level t"
  shows "idMatches t u \<longleftrightarrow> take (m_level u) (indices t) = indices u"
proof -
  have "idMatches t u \<longleftrightarrow> (\<forall>i<m_level u. indices t ! i = indices u ! i)"
    using assms(3) nth_indices [OF assms(1)] nth_indices [OF assms(2)]
    by (auto simp: idMatches_def list_all_iff)
  also have "\<dots> \<longleftrightarrow> take (m_level u) (indices t) = indices u"
    using length_indices [OF assms(1)] length_indices [OF assms(2)] assms(3)
    by (auto simp: list_eq_iff_nth_eq)
  finally show ?thesis .
qed

text \<open>The table of a few indices.\<close>

definition tab :: "int list \<Rightarrow> int_tab" where
  "tab is = \<lparr>m_values = is @ [- 1], m_level = length is\<rparr>"

lemma IntTab_small: "length is < 10 \<Longrightarrow> - 1 \<notin> set is \<Longrightarrow> IntTab is = Inr (tab is)"
  using IntTab_indices [of "is"] by (simp add: tab_def)

lemma tab_simps [simp]:
  "m_level (tab is) = length is" "indices (tab is) = is" "int_tab_ok (tab is) \<longleftrightarrow> length is < 10 \<and> - 1 \<notin> set is"
  by (simp_all add: tab_def indices_def int_tab_ok_def)

end
