(* ===== verification/Tables.thy ===== *)
theory Tables
  imports Int_Tab "HOL-Library.While_Combinator"
begin

text \<open>
  The address masking and decoding tables of the SoCLib models (\<open>address_masking_table.h/.cpp\<close> and
  \<open>address_decoding_table.h/.cpp\<close> in \<open>TP2/TP2_etudiant\<close>), for the 32-bit input type they are instantiated
  with. A table cell that was not written yet is \<open>None\<close>.
\<close>

section \<open>The bits of a mask\<close>

text \<open>\<open>while ( !(m & 1) ) { ++drop_bits; m >>= 1; }\<close>\<close>

definition count_drop_bits :: "u32 \<Rightarrow> (nat \<times> u32) result" where
  "count_drop_bits msk = (case while_option (\<lambda>(d, m). m AND 1 = 0) (\<lambda>(d, m). (Suc d, drop_bit 1 m)) (0, msk) of
     None \<Rightarrow> Inl Endless | Some dm \<Rightarrow> Inr dm)"

text \<open>\<open>while ( (m & 1) && (use_bits+drop_bits <= 32) ) { ++use_bits; m >>= 1; }\<close>\<close>

function count_use_bits :: "nat \<Rightarrow> nat \<Rightarrow> u32 \<Rightarrow> nat" where
  "count_use_bits drop_bits use_bits m =
     (if m AND 1 \<noteq> 0 \<and> use_bits + drop_bits \<le> 32 then count_use_bits drop_bits (Suc use_bits) (drop_bit 1 m)
      else use_bits)"
  by pat_completeness auto
termination by (relation "measure (\<lambda>(d, u, m). 33 - (u + d))") auto

declare count_use_bits.simps [simp del]

text \<open>\<open>(1<<use_bits)-1\<close> in \<open>int\<close>: undefined from 31 bits on.\<close>

definition low_mask_of :: "nat \<Rightarrow> u32 result" where
  "low_mask_of use_bits = check (use_bits < 31) Undefined (Inr (2 ^ use_bits - 1))"

section \<open>Address masking tables\<close>

record masking_table =
  amt_use_bits :: nat
  amt_drop_bits :: nat
  amt_low_mask :: u32

definition amt_init :: "nat \<Rightarrow> nat \<Rightarrow> masking_table result" where
  "amt_init use_bits drop_bits = andthen (low_mask_of use_bits) (\<lambda>low_mask.
     Inr \<lparr>amt_use_bits = use_bits, amt_drop_bits = drop_bits, amt_low_mask = low_mask\<rparr>)"

definition amt_mask :: "masking_table \<Rightarrow> u32" where
  "amt_mask t = push_bit (amt_drop_bits t) (amt_low_mask t)"

definition AddressMaskingTable :: "u32 \<Rightarrow> masking_table result" where
  "AddressMaskingTable msk =
     andthen (count_drop_bits msk) (\<lambda>(drop_bits, m).
     andthen (amt_init (count_use_bits drop_bits 0 m) drop_bits) (\<lambda>t.
     check (amt_mask t = msk) AssertionFailed (Inr t)))"

definition amt_copy :: "masking_table \<Rightarrow> masking_table result" where
  "amt_copy ref = amt_init (amt_use_bits ref) (amt_drop_bits ref)"

definition amt_nth :: "masking_table \<Rightarrow> u32 \<Rightarrow> u32" where
  "amt_nth t w = drop_bit (amt_drop_bits t) w AND amt_low_mask t"

section \<open>Address decoding tables\<close>

record 'o decoding_table =
  adt_use_bits :: nat
  adt_drop_bits :: nat
  adt_low_mask :: u32
  adt_table :: "'o option list"

definition adt_init :: "nat \<Rightarrow> nat \<Rightarrow> 'o decoding_table result" where
  "adt_init use_bits drop_bits = andthen (low_mask_of use_bits) (\<lambda>low_mask.
     Inr \<lparr>adt_use_bits = use_bits, adt_drop_bits = drop_bits, adt_low_mask = low_mask,
          adt_table = replicate (2 ^ use_bits) None\<rparr>)"

definition adt_mask :: "'o decoding_table \<Rightarrow> u32" where
  "adt_mask t = push_bit (adt_drop_bits t) (adt_low_mask t)"

definition AddressDecodingTable :: "u32 \<Rightarrow> 'o decoding_table result" where
  "AddressDecodingTable msk =
     andthen (count_drop_bits msk) (\<lambda>(drop_bits, m).
     andthen (adt_init (count_use_bits drop_bits 0 m) drop_bits) (\<lambda>t.
     check (adt_mask t = msk) AssertionFailed (Inr t)))"

text \<open>\<open>id\<close>: a shift by 32 bits or more is undefined.\<close>

definition adt_id :: "'o decoding_table \<Rightarrow> u32 \<Rightarrow> nat result" where
  "adt_id t val = check (adt_drop_bits t < 32) Undefined (Inr (unat (drop_bit (adt_drop_bits t) val AND adt_low_mask t)))"

definition adt_reset :: "'o \<Rightarrow> 'o decoding_table \<Rightarrow> 'o decoding_table" where
  "adt_reset value t = t\<lparr>adt_table := map (\<lambda>_. Some value) [0..<2 ^ adt_use_bits t]\<rparr>"

definition adt_set :: "u32 \<Rightarrow> 'o \<Rightarrow> 'o decoding_table \<Rightarrow> 'o decoding_table result" where
  "adt_set w value t = andthen (adt_id t w) (\<lambda>i. Inr (t\<lparr>adt_table := (adt_table t)[i := Some value]\<rparr>))"

definition adt_nth :: "'o decoding_table \<Rightarrow> u32 \<Rightarrow> 'o result" where
  "adt_nth t w = andthen (adt_id t w) (\<lambda>i. case adt_table t ! i of None \<Rightarrow> Inl Undefined | Some v \<Rightarrow> Inr v)"

definition adt_copy :: "'o decoding_table \<Rightarrow> 'o decoding_table result" where
  "adt_copy ref = andthen (adt_init (adt_use_bits ref) (adt_drop_bits ref)) (\<lambda>t.
     Inr (t\<lparr>adt_table := map (\<lambda>i. adt_table ref ! i) [0..<2 ^ adt_use_bits t]\<rparr>))"

definition isAllBelow :: "int \<Rightarrow> int decoding_table \<Rightarrow> bool result" where
  "isAllBelow val t = foldr_result (\<lambda>i ok. if \<not> ok then Inr ok else
     case adt_table t ! i of None \<Rightarrow> Inl Undefined | Some v \<Rightarrow> Inr (\<not> val \<le> v)) [0..<2 ^ adt_use_bits t] True"

section \<open>The constructors from a mask\<close>

lemma and_1_bit: "m AND 1 = 0 \<longleftrightarrow> \<not> bit (m :: u32) 0"
  by (simp add: and_one_eq odd_iff_mod_2_eq_one bit_0)

lemma count_drop_bits_from:
  assumes "bit msk d" and "\<forall>j<d. \<not> bit msk j" and "k \<le> d"
  shows "while_option (\<lambda>(d, m). m AND 1 = 0) (\<lambda>(d, m). (Suc d, drop_bit 1 m)) (k, drop_bit k (msk :: u32))
    = Some (d, drop_bit d msk)"
  using assms(3)
proof (induction "d - k" arbitrary: k)
  case 0
  then have "k = d" by simp
  then show ?case using assms(1) by (subst while_option_unfold) (simp add: and_1_bit bit_drop_bit_eq)
next
  case (Suc n)
  then have "k < d" by simp
  then have "\<not> bit msk k" using assms(2) by simp
  then have "drop_bit k msk AND 1 = 0" by (simp add: and_1_bit bit_drop_bit_eq)
  moreover have "while_option (\<lambda>(d, m). m AND 1 = 0) (\<lambda>(d, m). (Suc d, drop_bit 1 m)) (Suc k, drop_bit (Suc k) msk)
      = Some (d, drop_bit d msk)"
    using Suc \<open>k < d\<close> by simp
  ultimately show ?case by (subst while_option_unfold) simp
qed

lemma count_drop_bits_eq:
  assumes "bit msk d" and "\<forall>j<d. \<not> bit msk j"
  shows "count_drop_bits msk = Inr (d, drop_bit d msk)"
  using count_drop_bits_from [OF assms, of 0] by (simp add: count_drop_bits_def)

lemma count_drop_bits_0: "count_drop_bits 0 = Inl Endless"
proof -
  let ?c = "\<lambda>(d, m). (Suc d, drop_bit 1 m)"
  have "(?c ^^ k) (0, 0 :: u32) = (k, 0)" for k by (induction k) auto
  then have "while_option (\<lambda>(d :: nat, m :: u32). m AND 1 = 0) ?c (0, 0) = None"
    by (auto simp: while_option_def)
  then show ?thesis by (simp add: count_drop_bits_def)
qed

lemma count_use_bits_eq:
  assumes "\<forall>j<u. bit msk (d + j)" and "\<not> bit (msk :: u32) (d + u)" and "k \<le> u"
  shows "count_use_bits d k (drop_bit (d + k) msk) = u"
  using assms(3)
proof (induction "u - k" arbitrary: k)
  case 0
  then have "k = u" by simp
  then have "\<not> bit (drop_bit (d + k) msk) 0" using assms(2) by (simp add: bit_drop_bit_eq)
  then have "drop_bit (d + k) msk AND 1 = 0" by (simp only: and_1_bit not_False_eq_True)
  with \<open>k = u\<close> show ?case by (subst count_use_bits.simps) simp
next
  case (Suc n)
  then have "bit msk (d + k)" using assms(1) by simp
  then have "d + k < 32" using bit_imp_le_length by fastforce
  moreover have "bit (drop_bit (d + k) msk) 0" using \<open>bit msk (d + k)\<close> by (simp add: bit_drop_bit_eq)
  moreover have "drop_bit 1 (drop_bit (d + k) msk) = drop_bit (d + Suc k) msk" by simp
  moreover have "count_use_bits d (Suc k) (drop_bit (d + Suc k) msk) = u" using Suc by (intro Suc.hyps(1)) auto
  ultimately show ?case
    by (subst count_use_bits.simps) (simp add: and_1_bit)
qed

text \<open>The position and the length of the lowest run of ones.\<close>

definition mask_run :: "u32 \<Rightarrow> nat \<Rightarrow> nat \<Rightarrow> bool" where
  "mask_run msk u d \<longleftrightarrow> 0 < u \<and> (\<forall>j<d. \<not> bit msk j) \<and> (\<forall>j<u. bit msk (d + j)) \<and> \<not> bit msk (d + u)"

lemma mask_run_exists:
  assumes "msk \<noteq> 0"
  shows "\<exists>u d. mask_run msk u d"
proof -
  obtain n where "bit msk n" using assms by (auto simp: bit_eq_iff)
  define d where "d = (LEAST n. bit msk n)"
  define u where "u = (LEAST j. \<not> bit msk (d + j))"
  have d: "bit msk d" "\<forall>j<d. \<not> bit msk j"
    using \<open>bit msk n\<close> by (auto simp: d_def intro: LeastI dest: not_less_Least)
  have "\<not> bit msk (d + 32)" using bit_imp_le_length by fastforce
  then have u: "\<not> bit msk (d + u)" "\<forall>j<u. bit msk (d + j)"
    unfolding u_def by (rule LeastI) (metis not_less_Least)
  have "0 < u" using d(1) u(1) by (cases u) auto
  with d u show ?thesis by (auto simp: mask_run_def)
qed

lemma mask_run_bound: "mask_run msk u d \<Longrightarrow> u + d \<le> 32"
proof -
  assume "mask_run msk u d"
  then have "0 < u" and "\<forall>j<u. bit msk (d + j)" by (simp_all add: mask_run_def)
  then have "bit msk (d + (u - 1))" by (metis diff_less zero_less_one)
  then have "d + (u - 1) < 32" using bit_imp_le_length by fastforce
  with \<open>0 < u\<close> show ?thesis by simp
qed

lemma mask_run_counts:
  assumes "mask_run msk u d"
  shows "count_drop_bits msk = Inr (d, drop_bit d msk)" "count_use_bits d 0 (drop_bit d msk) = u"
proof -
  have "bit msk d" using assms by (auto simp: mask_run_def dest: spec [of _ 0])
  then show "count_drop_bits msk = Inr (d, drop_bit d msk)"
    using assms by (intro count_drop_bits_eq) (simp_all add: mask_run_def)
  show "count_use_bits d 0 (drop_bit d msk) = u"
    using count_use_bits_eq [of u msk d 0] assms by (simp add: mask_run_def)
qed

text \<open>A contiguous mask of \<open>u\<close> bits above \<open>d\<close> others.\<close>

definition contiguous :: "nat \<Rightarrow> nat \<Rightarrow> u32" where
  "contiguous u d = push_bit d (2 ^ u - 1)"

lemma bit_contiguous: "bit (contiguous u d) n \<longleftrightarrow> d \<le> n \<and> n < d + u \<and> n < 32"
  by (auto simp: contiguous_def bit_push_bit_iff mask_eq_exp_minus_1 [symmetric] bit_mask_iff)

lemma mask_run_contiguous:
  assumes "0 < u" and "u + d \<le> 32"
  shows "mask_run (contiguous u d) u d"
  using assms by (auto simp: mask_run_def bit_contiguous)

lemma mask_run_unique: "mask_run m u d \<Longrightarrow> mask_run m u' d' \<Longrightarrow> u' = u \<and> d' = d"
  using mask_run_counts by (metis Inr_inject prod.inject)

text \<open>Every mask but 0 is handled: the table is built exactly if the mask is contiguous and has at most 30
  ones, with the length and the position of its run of ones.\<close>

lemma AddressMaskingTable_run:
  assumes "mask_run msk u d"
  shows "AddressMaskingTable msk = (if 31 \<le> u then Inl Undefined
     else if msk = contiguous u d
       then Inr \<lparr>amt_use_bits = u, amt_drop_bits = d, amt_low_mask = 2 ^ u - 1\<rparr> else Inl AssertionFailed)"
  using mask_run_counts [OF assms]
  by (auto simp: AddressMaskingTable_def amt_init_def low_mask_of_def amt_mask_def contiguous_def check_def)

lemma AddressDecodingTable_run:
  assumes "mask_run msk u d"
  shows "AddressDecodingTable msk = (if 31 \<le> u then Inl Undefined
     else if msk = contiguous u d
       then Inr \<lparr>adt_use_bits = u, adt_drop_bits = d, adt_low_mask = 2 ^ u - 1, adt_table = replicate (2 ^ u) None\<rparr>
       else Inl AssertionFailed)"
  using mask_run_counts [OF assms]
  by (auto simp: AddressDecodingTable_def adt_init_def low_mask_of_def adt_mask_def contiguous_def check_def)

lemma AddressMaskingTable_drop:
  assumes "AddressMaskingTable msk = Inr t"
  shows "\<exists>u. 0 < u \<and> u < 31 \<and> u + amt_drop_bits t \<le> 32 \<and> msk = contiguous u (amt_drop_bits t)"
proof (cases "msk = 0")
  case True
  then show ?thesis using assms by (simp add: AddressMaskingTable_def count_drop_bits_0)
next
  case False
  then obtain u d where run: "mask_run msk u d" using mask_run_exists by blast
  then have "0 < u" by (simp add: mask_run_def)
  with run mask_run_bound [OF run] assms show ?thesis
    by (auto simp: AddressMaskingTable_run [OF run] split: if_splits)
qed

section \<open>Decoding\<close>

text \<open>The invariant of a decoding table whose cells are all written.\<close>

definition adt_ok :: "'o decoding_table \<Rightarrow> bool" where
  "adt_ok t \<longleftrightarrow> adt_use_bits t < 31 \<and> adt_drop_bits t < 32 \<and> adt_low_mask t = 2 ^ adt_use_bits t - 1 \<and>
     length (adt_table t) = 2 ^ adt_use_bits t \<and> None \<notin> set (adt_table t)"

definition cell :: "nat \<Rightarrow> nat \<Rightarrow> u32 \<Rightarrow> nat" where
  "cell use_bits drop_bits a = unat a div 2 ^ drop_bits mod 2 ^ use_bits"

abbreviation "adt_cell t \<equiv> cell (adt_use_bits t) (adt_drop_bits t)"

lemma unat_drop_and_mask: "unat (drop_bit d w AND (2 ^ u - 1 :: u32)) = cell u d w"
proof -
  have "drop_bit d w AND (2 ^ u - 1) = take_bit u (drop_bit d w)"
    by (simp only: take_bit_eq_mask mask_eq_exp_minus_1)
  also have "unat \<dots> = take_bit u (unat (drop_bit d w))" by (simp only: unsigned_take_bit_eq)
  also have "unat (drop_bit d w) = drop_bit d (unat w)" by (rule unat_drop_bit_eq)
  finally show ?thesis by (simp add: cell_def take_bit_eq_mod drop_bit_eq_div)
qed

lemma cell_less: "cell u d a < 2 ^ u"
  by (simp add: cell_def)

lemma adt_id_ok: "adt_ok t \<Longrightarrow> adt_id t a = Inr (adt_cell t a)"
  by (simp add: adt_id_def adt_ok_def unat_drop_and_mask)

definition adt_get :: "'o decoding_table \<Rightarrow> u32 \<Rightarrow> 'o" where
  "adt_get t a = the (adt_table t ! adt_cell t a)"

lemma adt_cell_bound: "adt_ok t \<Longrightarrow> adt_cell t a < length (adt_table t)"
  by (simp add: adt_ok_def cell_less)

lemma adt_nth_ok: "adt_ok t \<Longrightarrow> adt_nth t a = Inr (adt_get t a)"
proof -
  assume ok: "adt_ok t"
  then have "adt_table t ! adt_cell t a \<in> set (adt_table t)"
    by (intro nth_mem) (simp add: adt_ok_def cell_less)
  then have "adt_table t ! adt_cell t a \<noteq> None" using ok by (metis adt_ok_def)
  then show ?thesis using ok by (auto simp: adt_nth_def adt_id_ok adt_get_def)
qed

lemma adt_set_ok:
  assumes "adt_ok t"
  shows "\<exists>t'. adt_set a v t = Inr t' \<and> adt_ok t' \<and> adt_use_bits t' = adt_use_bits t \<and> adt_drop_bits t' = adt_drop_bits t \<and>
    (\<forall>b. adt_get t' b = (if adt_cell t b = adt_cell t a then v else adt_get t b))"
proof -
  let ?t = "t\<lparr>adt_table := (adt_table t)[adt_cell t a := Some v]\<rparr>"
  have "adt_cell t a < length (adt_table t)" using assms by (simp add: adt_ok_def cell_less)
  then have "adt_get ?t b = (if adt_cell t b = adt_cell t a then v else adt_get t b)" for b
    by (simp add: adt_get_def nth_list_update_cases cell_less assms [unfolded adt_ok_def])
  moreover have "adt_ok ?t" using assms set_update_subset_insert [of "adt_table t"] by (fastforce simp: adt_ok_def)
  ultimately show ?thesis using assms by (intro exI [of _ ?t]) (simp add: adt_set_def adt_id_ok)
qed

lemma adt_init_reset:
  assumes "u < 31" and "d < 32"
  shows "\<exists>t. adt_init u d = Inr t \<and> adt_ok (adt_reset v t) \<and> adt_use_bits (adt_reset v t) = u \<and>
    adt_drop_bits (adt_reset v t) = d \<and> (\<forall>a. adt_get (adt_reset v t) a = v)"
  using assms by (simp add: adt_init_def low_mask_of_def adt_ok_def adt_reset_def adt_get_def cell_less image_iff)

lemma adt_copy_ok: "adt_ok t \<Longrightarrow> adt_copy t = Inr t"
  using map_nth [of "adt_table t"] by (cases t) (simp add: adt_copy_def adt_init_def low_mask_of_def adt_ok_def)

lemma isAllBelow_iff:
  assumes "adt_ok t"
  shows "isAllBelow val t = Inr (\<forall>a \<in> set (adt_table t). the a < val)"
proof -
  let ?f = "\<lambda>i ok. if \<not> ok then Inr ok else
     case adt_table t ! i of None \<Rightarrow> Inl Undefined | Some v \<Rightarrow> Inr (\<not> val \<le> v)"
  have "foldr_result ?f [0..<n] True = Inr (\<forall>i<n. the (adt_table t ! i) < val)" if "n \<le> length (adt_table t)" for n
    using that
  proof (induction n)
    case (Suc n)
    then have "adt_table t ! n \<in> set (adt_table t)" by simp
    then have "adt_table t ! n \<noteq> None" using assms by (metis adt_ok_def)
    with Suc show ?case by (auto simp: foldr_result_append less_Suc_eq not_le)
  qed simp
  from this [of "2 ^ adt_use_bits t"] assms show ?thesis
    by (auto simp: isAllBelow_def adt_ok_def all_set_conv_all_nth)
qed

section \<open>Properties\<close>

text \<open>C35. The constructor from a mask, for every mask: the loop that counts the zeros never ends exactly for the mask 0,
  and the table is built exactly for the contiguous masks of 1 to 30 ones, with the number of ones and of zeros
  below them.\<close>

theorem AddressMaskingTable_correct:
  "(AddressMaskingTable msk = Inl Endless \<longleftrightarrow> msk = 0) \<and>
   (AddressMaskingTable msk = Inr t \<longleftrightarrow> (\<exists>u d. 0 < u \<and> u < 31 \<and> u + d \<le> 32 \<and> msk = contiguous u d \<and>
      t = \<lparr>amt_use_bits = u, amt_drop_bits = d, amt_low_mask = 2 ^ u - 1\<rparr>))"
proof (cases "msk = 0")
  case True
  have "contiguous u d \<noteq> 0" if "0 < u" "u + d \<le> 32" for u d
    using bit_contiguous [of u d d] that by auto
  with True show ?thesis by (auto simp: AddressMaskingTable_def count_drop_bits_0)
next
  case False
  then obtain u d where run: "mask_run msk u d" using mask_run_exists by blast
  have iff: "0 < u' \<and> u' < 31 \<and> u' + d' \<le> 32 \<and> msk = contiguous u' d' \<longleftrightarrow> u < 31 \<and> msk = contiguous u d \<and> u' = u \<and> d' = d"
    (is "?l \<longleftrightarrow> ?r") for u' d'
  proof
    assume l: ?l
    then have "mask_run msk u' d'" by (simp add: mask_run_contiguous)
    from mask_run_unique [OF run this] l show ?r by blast
  next
    assume ?r
    then show ?l using mask_run_bound [OF run] run by (simp add: mask_run_def)
  qed
  have "(\<exists>u d. 0 < u \<and> u < 31 \<and> u + d \<le> 32 \<and> msk = contiguous u d \<and>
      t = \<lparr>amt_use_bits = u, amt_drop_bits = d, amt_low_mask = 2 ^ u - 1\<rparr>) \<longleftrightarrow>
    u < 31 \<and> msk = contiguous u d \<and> t = \<lparr>amt_use_bits = u, amt_drop_bits = d, amt_low_mask = 2 ^ u - 1\<rparr>"
    using iff by metis
  then show ?thesis using False by (auto simp: AddressMaskingTable_run [OF run])
qed

text \<open>A decoding table is a map on the decoded bits: after \<open>set\<close>, the table gives the new value at every address
  with the same decoded bits, the old one elsewhere, and it stays a table with all its cells written.\<close>

theorem decoding_table_update:
  assumes "adt_ok t"
  shows "\<exists>t'. adt_set a v t = Inr t' \<and> adt_ok t' \<and>
    (\<forall>b. adt_nth t' b = (if drop_bit (adt_drop_bits t) b AND adt_low_mask t = drop_bit (adt_drop_bits t) a AND adt_low_mask t
       then Inr v else adt_nth t b))"
proof -
  have "drop_bit (adt_drop_bits t) b AND adt_low_mask t = drop_bit (adt_drop_bits t) a AND adt_low_mask t \<longleftrightarrow>
      adt_cell t b = adt_cell t a" for b
    using assms unat_drop_and_mask by (metis adt_ok_def word_unat_eq_iff)
  with adt_set_ok [OF assms, of a v] show ?thesis by (metis adt_nth_ok assms)
qed

theorem decoding_table_update_witness:
  "\<exists>t t' :: bool decoding_table. adt_init 8 24 = Inr t \<and> adt_set 0x01000000 True (adt_reset False t) = Inr t' \<and>
     adt_nth t' 0x01ABCDEF = Inr True"
proof -
  obtain t :: "bool decoding_table" where t: "adt_init 8 24 = Inr t" "adt_ok (adt_reset False t)"
      "adt_use_bits (adt_reset False t) = 8" "adt_drop_bits (adt_reset False t) = 24"
    using adt_init_reset [of 8 24 False] by auto
  have "adt_low_mask (adt_reset False t) = 255" using t(2,3) by (simp add: adt_ok_def)
  with decoding_table_update [OF t(2), of "0x01000000" True] t show ?thesis
    by (auto simp: drop_bit_eq_div)
qed

end
