(* ===== verification/Mapping_Table.thy ===== *)
theory Mapping_Table
  imports Tables
begin

text \<open>
  Segments and the mapping table of the SoCLib models (\<open>segment.h/.cpp\<close> and \<open>mapping_table.h/.cpp\<close> in
  \<open>TP2/TP2_etudiant\<close>). A segment has addresses of type \<open>unsigned long\<close>, which has 64 bits on the hosts the
  simulator is built for; the mapping table and the routing tables decode 32-bit addresses. The loops over
  the addresses of a segment are loops of the model too: one that does not end is the failure \<open>Endless\<close>.
\<close>

section \<open>Segments\<close>

type_synonym u64 = "64 word"

record segment =
  seg_name :: string
  baseAddress :: u64
  seg_size :: u64
  seg_index :: int_tab
  cacheable :: bool
  seg_initiator :: bool
  initiator_index :: int_tab

definition isOverlapping :: "segment \<Rightarrow> segment \<Rightarrow> bool" where
  "isOverlapping s other =
     (let this_end = baseAddress s + seg_size s; other_end = baseAddress other + seg_size other
      in if other_end \<le> baseAddress s then False
         else if this_end \<le> baseAddress other then False
         else True)"

definition seg_contains :: "segment \<Rightarrow> u64 \<Rightarrow> bool" where
  "seg_contains s addr \<longleftrightarrow> addr \<ge> baseAddress s \<and>
     (addr < baseAddress s + seg_size s \<or> baseAddress s + seg_size s < baseAddress s)"

text \<open>\<open>Segment( name, base, size, IntTab(tgt), cacheable )\<close>: a segment of no initiator.\<close>

definition mk_segment :: "string \<Rightarrow> u64 \<Rightarrow> u64 \<Rightarrow> int \<Rightarrow> bool \<Rightarrow> segment result" where
  "mk_segment name base len tgt cached =
     andthen (IntTab [tgt]) (\<lambda>i. andthen (IntTab []) (\<lambda>none.
       Inr \<lparr>seg_name = name, baseAddress = base, seg_size = len, seg_index = i, cacheable = cached,
            seg_initiator = False, initiator_index = none\<rparr>))"

section \<open>The mapping table\<close>

record mapping_table =
  m_segment_list :: "segment list"
  m_addr_width :: nat
  m_level_addr_bits :: int_tab
  m_level_id_bits :: int_tab
  m_cacheability_mask :: u32
  m_rt_size :: u32

text \<open>\<open>1 << n\<close>, converted to \<open>addr_t\<close>.\<close>

definition shift_one :: "int \<Rightarrow> u32 result" where
  "shift_one n = check (0 \<le> n \<and> n < 32) Undefined (Inr (2 ^ nat n))"

definition MappingTable :: "nat \<Rightarrow> int_tab \<Rightarrow> int_tab \<Rightarrow> u32 \<Rightarrow> mapping_table result" where
  "MappingTable addr_width level_addr_bits level_id_bits cacheability_mask =
     andthen (int_tab_sum level_addr_bits s_max_level) (\<lambda>sum.
     andthen (shift_one (int addr_width - sum)) (\<lambda>rt_size.
     andthen (AddressMaskingTable cacheability_mask) (\<lambda>t.
     andthen (shift_one (int (amt_drop_bits t))) (\<lambda>cm_rt_size.
     Inr \<lparr>m_segment_list = [], m_addr_width = addr_width, m_level_addr_bits = level_addr_bits,
          m_level_id_bits = level_id_bits, m_cacheability_mask = cacheability_mask,
          m_rt_size = min cm_rt_size rt_size\<rparr>))))"

text \<open>
  \<open>for ( addr_t addr = base & ~(m_rt_size-1); (addr < base+size) && (addr >= (base & ~(m_rt_size-1)));
  addr += m_rt_size ) body\<close>. The comparisons are on 64 bits, the address is on 32 bits and wraps around. The
  body may throw.
\<close>

definition for_blocks :: "u32 \<Rightarrow> segment \<Rightarrow> (u32 \<Rightarrow> 's \<Rightarrow> 's result) \<Rightarrow> 's \<Rightarrow> 's result" where
  "for_blocks rt_size s body st =
     (let first = baseAddress s AND ucast (NOT (rt_size - 1))
      in case while_option
           (\<lambda>(addr, r). (case r of Inl e \<Rightarrow> False | Inr _ \<Rightarrow> True) \<and>
              ucast addr < baseAddress s + seg_size s \<and> ucast addr \<ge> first)
           (\<lambda>(addr, r). (addr + rt_size, andthen r (body addr))) (ucast first, Inr st) of
         None \<Rightarrow> Inl Endless | Some (_, r) \<Rightarrow> r)"

definition add :: "segment \<Rightarrow> mapping_table \<Rightarrow> mapping_table result" where
  "add seg mt =
     (if m_level (seg_index seg) \<noteq> m_level (m_level_addr_bits mt) then Inl ValueError
      else andthen
        (foldr_result (\<lambda>s _.
           if isOverlapping s seg then Inl Collision
           else for_blocks (m_rt_size mt) s (\<lambda>address _.
             for_blocks (m_rt_size mt) seg (\<lambda>segaddress _.
               if m_cacheability_mask mt AND address = m_cacheability_mask mt AND segaddress \<and>
                  cacheable s \<noteq> cacheable seg
               then Inl RunTimeError else Inr ()) ()) ()) (m_segment_list mt) ())
        (\<lambda>_. Inr (mt\<lparr>m_segment_list := m_segment_list mt @ [seg]\<rparr>)))"

definition getSegmentList :: "mapping_table \<Rightarrow> int_tab \<Rightarrow> segment list" where
  "getSegmentList mt index = filter (\<lambda>i. int_tab_eq (seg_index i) index) (m_segment_list mt)"

definition getSegment :: "mapping_table \<Rightarrow> int_tab \<Rightarrow> segment result" where
  "getSegment mt index =
     (let list = getSegmentList mt index in check (length list = 1) AssertionFailed (Inr (hd list)))"

text \<open>
  The body of the loops of the four table builders: \<open>if ( done[addr] && adt[addr] != val ) throw
  RunTimeError; adt.set( addr, val ); done.set( addr, true );\<close>
\<close>

definition fill_cell ::
    "'o \<Rightarrow> u32 \<Rightarrow> 'o decoding_table \<times> bool decoding_table \<Rightarrow> ('o decoding_table \<times> bool decoding_table) result" where
  "fill_cell val addr = (\<lambda>(adt, done).
     andthen (adt_nth done addr) (\<lambda>d.
     andthen (if d then andthen (adt_nth adt addr) (\<lambda>v. Inr (v \<noteq> val)) else Inr False) (\<lambda>bad.
     if bad then Inl RunTimeError
     else andthen (adt_set addr val adt) (\<lambda>adt. andthen (adt_set addr True done) (\<lambda>done. Inr (adt, done))))))"

definition getCacheabilityTable :: "mapping_table \<Rightarrow> bool decoding_table result" where
  "getCacheabilityTable mt =
     andthen (AddressDecodingTable (m_cacheability_mask mt)) (\<lambda>adt.
     andthen (AddressDecodingTable (m_cacheability_mask mt)) (\<lambda>done.
     andthen (foldr_result (\<lambda>i. for_blocks (m_rt_size mt) i (\<lambda>addr. fill_cell (cacheable i) addr))
       (m_segment_list mt) (adt_reset False adt, adt_reset False done)) (\<lambda>(adt, done). Inr adt)))"

text \<open>A table of \<open>use_bits\<close> and \<open>drop_bits\<close> that were computed as integers.\<close>

definition adt_of :: "int \<Rightarrow> int \<Rightarrow> 'o decoding_table result" where
  "adt_of use_bits drop_bits = check (0 \<le> use_bits \<and> 0 \<le> drop_bits) Undefined (adt_init (nat use_bits) (nat drop_bits))"

definition getLocalityTable :: "mapping_table \<Rightarrow> int_tab \<Rightarrow> bool decoding_table result" where
  "getLocalityTable mt index =
     andthen (int_tab_sum (m_level_addr_bits mt) (m_level index)) (\<lambda>nbits.
     andthen (adt_of nbits (int (m_addr_width mt) - nbits)) (\<lambda>adt.
     andthen (adt_of nbits (int (m_addr_width mt) - nbits)) (\<lambda>done.
     andthen (foldr_result (\<lambda>i. for_blocks (m_rt_size mt) i (\<lambda>addr. fill_cell (idMatches (seg_index i) index) addr))
       (m_segment_list mt) (adt_reset True adt, adt_reset False done)) (\<lambda>(adt, done). Inr adt))))"

definition getRoutingTable :: "mapping_table \<Rightarrow> int_tab \<Rightarrow> int \<Rightarrow> int decoding_table result" where
  "getRoutingTable mt index default_index =
     andthen (int_tab_sum (m_level_addr_bits mt) (m_level index)) (\<lambda>before.
     andthen (int_tab_nth (m_level_addr_bits mt) (m_level index)) (\<lambda>at.
     andthen (adt_of at (int (m_addr_width mt) - at - before)) (\<lambda>adt.
     andthen (adt_of at (int (m_addr_width mt) - at - before)) (\<lambda>done.
     andthen (foldr_result (\<lambda>i st.
         if \<not> idMatches (seg_index i) index then Inr st
         else for_blocks (m_rt_size mt) i (\<lambda>addr st.
           andthen (int_tab_nth (seg_index i) (m_level index)) (\<lambda>val. fill_cell val addr st)) st)
       (m_segment_list mt) (adt_reset default_index adt, adt_reset False done)) (\<lambda>(adt, done). Inr adt)))))"

definition indexForId :: "mapping_table \<Rightarrow> int_tab \<Rightarrow> u32 result" where
  "indexForId mt index = andthen (int_tab_mult index (m_level_id_bits mt)) (\<lambda>id. Inr (of_int id))"

definition getCoherenceTable :: "mapping_table \<Rightarrow> u32 option list result" where
  "getCoherenceTable mt =
     andthen (int_tab_sum (m_level_id_bits mt) s_max_level) (\<lambda>bits.
     andthen (c_shl 1 bits) (\<lambda>n.
     foldr_result (\<lambda>i table.
       if seg_initiator i then
         andthen (int_tab_mult (initiator_index i) (m_level_id_bits mt)) (\<lambda>val.
         check (val < n) AssertionFailed
           (check (0 \<le> val) Undefined (Inr (table[nat val := Some (ucast (baseAddress i))]))))
       else Inr table) (m_segment_list mt) (replicate (nat n) None)))"

definition getIdMaskingTable :: "mapping_table \<Rightarrow> nat \<Rightarrow> masking_table result" where
  "getIdMaskingTable mt level =
     andthen (int_tab_nth (m_level_id_bits mt) level) (\<lambda>use_bits.
     andthen (foldr_result (\<lambda>i drop_bits. andthen (int_tab_nth (m_level_id_bits mt) i) (\<lambda>w. c_int (drop_bits + w)))
       [Suc level..<m_level (m_level_id_bits mt)] 0) (\<lambda>drop_bits.
     check (0 \<le> use_bits \<and> 0 \<le> drop_bits) Undefined (amt_init (nat use_bits) (nat drop_bits))))"

definition getIdLocalityTable :: "mapping_table \<Rightarrow> int_tab \<Rightarrow> bool decoding_table result" where
  "getIdLocalityTable mt index =
     andthen (int_tab_sum (m_level_id_bits mt) (m_level index)) (\<lambda>nbits.
     andthen (int_tab_sum (m_level_id_bits mt) s_max_level) (\<lambda>id_width.
     andthen (adt_of nbits (id_width - nbits)) (\<lambda>adt.
     andthen (adt_of nbits (id_width - nbits)) (\<lambda>done.
     andthen (foldr_result (\<lambda>i st. andthen (indexForId mt (seg_index i)) (\<lambda>id.
         fill_cell (idMatches (seg_index i) index) id st))
       (m_segment_list mt) (adt_reset True adt, adt_reset False done)) (\<lambda>(adt, done). Inr adt)))))"

end
