(* ===== verification/Gcd_Engine.thy ===== *)
theory Gcd_Engine
  imports Prelude
begin

text \<open>
  What the two GCD coprocessors of the repository have in common: a state machine that compares two
  registers, subtracts the smaller from the larger and stops when they are equal. The interface is the
  locale \<open>gcd_engine\<close>; the FIFO coprocessor of TP1 and the VCI coprocessor of TP2 are interpretations.
  The locale \<open>gcd_platform\<close> is the interface of a master that draws operands, has them processed and
  displays the result: from one complete iteration it derives what the platform displays for ever.
\<close>

section \<open>Subtractive computation of the greatest common divisor\<close>

datatype gcd_phase = Comparing | Subtract_a | Subtract_b

text \<open>Facts on unsigned subtraction.\<close>

lemma unat_sub_less: "b < a \<Longrightarrow> unat (a - b :: u32) = unat a - unat b"
  by (intro unat_sub) simp

lemma gcd_sub_left: "(b :: nat) \<le> a \<Longrightarrow> gcd (a - b) b = gcd a b"
  by (simp add: gcd_diff1_nat)

lemma gcd_sub_right: "(a :: nat) \<le> b \<Longrightarrow> gcd a (b - a) = gcd a b"
  by (metis gcd.commute gcd_sub_left)

text \<open>
  \<open>step i s t\<close>: in state \<open>s\<close>, with input \<open>i\<close>, one clock edge leads to \<open>t\<close>. \<open>free i s\<close> says that nothing
  else writes the operand registers at that edge. \<open>phase s\<close> is \<open>None\<close> when the engine is not running.
\<close>

locale gcd_engine =
  fixes step :: "'i \<Rightarrow> 's \<Rightarrow> 's \<Rightarrow> bool"
    and free :: "'i \<Rightarrow> 's \<Rightarrow> bool"
    and phase :: "'s \<Rightarrow> gcd_phase option"
    and opa opb :: "'s \<Rightarrow> u32"
  assumes step_less: "step i s t \<Longrightarrow> free i s \<Longrightarrow> phase s = Some Comparing \<Longrightarrow> opa s < opb s \<Longrightarrow>
      phase t = Some Subtract_b \<and> opa t = opa s \<and> opb t = opb s"
    and step_greater: "step i s t \<Longrightarrow> free i s \<Longrightarrow> phase s = Some Comparing \<Longrightarrow> opb s < opa s \<Longrightarrow>
      phase t = Some Subtract_a \<and> opa t = opa s \<and> opb t = opb s"
    and step_equal: "step i s t \<Longrightarrow> free i s \<Longrightarrow> phase s = Some Comparing \<Longrightarrow> opa s = opb s \<Longrightarrow>
      phase t = None \<and> opa t = opa s \<and> opb t = opb s"
    and step_sub_a: "step i s t \<Longrightarrow> free i s \<Longrightarrow> phase s = Some Subtract_a \<Longrightarrow>
      phase t = Some Comparing \<and> opa t = opa s - opb s \<and> opb t = opb s"
    and step_sub_b: "step i s t \<Longrightarrow> free i s \<Longrightarrow> phase s = Some Subtract_b \<Longrightarrow>
      phase t = Some Comparing \<and> opb t = opb s - opa s \<and> opa t = opa s"
begin

text \<open>The invariant of the computation of the greatest common divisor \<open>g\<close>, and its measure.\<close>

definition computing :: "nat \<Rightarrow> 's \<Rightarrow> bool" where
  "computing g s \<longleftrightarrow> 0 < opa s \<and> 0 < opb s \<and> gcd (unat (opa s)) (unat (opb s)) = g \<and>
     (case phase s of None \<Rightarrow> False | Some Comparing \<Rightarrow> True | Some Subtract_a \<Rightarrow> opb s < opa s
      | Some Subtract_b \<Rightarrow> opa s < opb s)"

definition finished :: "nat \<Rightarrow> 's \<Rightarrow> bool" where
  "finished g s \<longleftrightarrow> phase s = None \<and> unat (opa s) = g \<and> unat (opb s) = g"

definition remaining :: "'s \<Rightarrow> nat" where
  "remaining s = 2 * (unat (opa s) + unat (opb s)) + (if phase s = Some Comparing then 1 else 0)"

lemma start_computing:
  "phase s = Some Comparing \<Longrightarrow> 0 < opa s \<Longrightarrow> 0 < opb s \<Longrightarrow> computing (gcd (unat (opa s)) (unat (opb s))) s"
  by (simp add: computing_def)

lemma step_computing:
  assumes "computing g s" and "step i s t" and "free i s"
  shows "computing g t \<and> remaining t < remaining s \<or> finished g t"
proof -
  have pos: "0 < opa s" "0 < opb s" and gcd: "gcd (unat (opa s)) (unat (opb s)) = g"
    using assms(1) by (simp_all add: computing_def)
  have upos: "0 < unat (opa s)" "0 < unat (opb s)" using pos by (simp_all add: word_less_nat_alt)
  have "\<exists>p. phase s = Some p" using assms(1) by (auto simp: computing_def split: option.splits)
  then obtain p where p: "phase s = Some p" by blast
  show ?thesis
  proof (cases p)
    case Comparing
    consider "opa s < opb s" | "opb s < opa s" | "opa s = opb s" by (meson linorder_less_linear)
    then show ?thesis
    proof cases
      case 1
      with step_less [OF assms(2,3)] p Comparing pos gcd show ?thesis by (simp add: computing_def remaining_def)
    next
      case 2
      with step_greater [OF assms(2,3)] p Comparing pos gcd show ?thesis by (simp add: computing_def remaining_def)
    next
      case 3
      with step_equal [OF assms(2,3)] p Comparing gcd show ?thesis by (simp add: finished_def)
    qed
  next
    case Subtract_a
    then have less: "opb s < opa s" using assms(1) p by (simp add: computing_def)
    have "0 < opa s - opb s" using less by (simp add: word_less_nat_alt unat_sub_less)
    with step_sub_a [OF assms(2,3)] p Subtract_a pos upos gcd less show ?thesis
      by (simp add: computing_def remaining_def unat_sub_less word_less_nat_alt gcd_sub_left)
  next
    case Subtract_b
    then have less: "opa s < opb s" using assms(1) p by (simp add: computing_def)
    have "0 < opb s - opa s" using less by (simp add: word_less_nat_alt unat_sub_less)
    with step_sub_b [OF assms(2,3)] p Subtract_b pos upos gcd less show ?thesis
      by (simp add: computing_def remaining_def unat_sub_less word_less_nat_alt gcd_sub_right)
  qed
qed

lemma computing_not_finished: "computing g s \<Longrightarrow> phase s \<noteq> None"
  by (auto simp: computing_def split: option.splits)

text \<open>A run of the engine inside a larger system: as long as it computes, the system steps it. Then it
  finishes within \<open>remaining\<close> edges.\<close>

lemma computes:
  assumes "computing g (eng S)" and "Inv S"
    and "\<And>S. Inv S \<Longrightarrow> phase (eng S) \<noteq> None \<Longrightarrow>
        \<exists>i. step i (eng S) (eng (sys S)) \<and> free i (eng S) \<and> Inv (sys S)"
  shows "\<exists>k. 0 < k \<and> k \<le> Suc (remaining (eng S)) \<and> finished g (eng ((sys ^^ k) S)) \<and> Inv ((sys ^^ k) S) \<and>
    (\<forall>j<k. computing g (eng ((sys ^^ j) S)) \<and> Inv ((sys ^^ j) S))"
  using assms(1,2)
proof (induction "remaining (eng S)" arbitrary: S rule: less_induct)
  case less
  obtain i where i: "step i (eng S) (eng (sys S))" "free i (eng S)" "Inv (sys S)"
    using assms(3) [OF less.prems(2)] computing_not_finished [OF less.prems(1)] by blast
  from step_computing [OF less.prems(1) i(1,2)] show ?case
  proof
    assume "finished g (eng (sys S))"
    with i(3) less.prems show ?thesis by (intro exI [of _ 1]) simp
  next
    assume c: "computing g (eng (sys S)) \<and> remaining (eng (sys S)) < remaining (eng S)"
    then obtain k where k: "k \<le> Suc (remaining (eng (sys S)))" "finished g (eng ((sys ^^ k) (sys S)))"
        "Inv ((sys ^^ k) (sys S))" "\<forall>j<k. computing g (eng ((sys ^^ j) (sys S))) \<and> Inv ((sys ^^ j) (sys S))"
      using less.hyps [of "sys S"] i(3) by blast
    have "computing g (eng ((sys ^^ j) S)) \<and> Inv ((sys ^^ j) S)" if "j < Suc k" for j
      using that k(4) less.prems by (cases j) (auto simp: funpow_swap1)
    with k c show ?thesis by (intro exI [of _ "Suc k"]) (auto simp: funpow_swap1)
  qed
qed

end

section \<open>What a master displays\<close>

text \<open>The lines a master prints at the end of an iteration.\<close>

record display =
  d_iteration :: u32
  d_cycle :: u32
  d_opa :: u32
  d_opb :: u32
  d_pgcd :: u32

text \<open>
  The specification of a session: the master draws two numbers \<open>rand() + 1\<close> per iteration from the
  generator \<open>rnd\<close>, and what it displays is the number of the iteration, the two operands and their
  greatest common divisor.
\<close>

fun session :: "('r \<Rightarrow> u32 \<times> 'r) \<Rightarrow> u32 \<Rightarrow> 'r \<Rightarrow> display list \<Rightarrow> bool" where
  "session rnd n r [] \<longleftrightarrow> True"
| "session rnd n r (d # ds) \<longleftrightarrow>
     (let (a, r1) = rnd r; (b, r2) = rnd r1
      in d_iteration d = n + 1 \<and> d_opa d = a + 1 \<and> d_opb d = b + 1 \<and>
         unat (d_pgcd d) = gcd (unat (a + 1)) (unat (b + 1)) \<and> session rnd (n + 1) r2 ds)"

text \<open>\<open>rand()\<close> returns a number between 0 and \<open>RAND_MAX\<close>, which is 2147483647.\<close>

definition rand_range :: "('r \<Rightarrow> u32 \<times> 'r) \<Rightarrow> bool" where
  "rand_range rnd \<longleftrightarrow> (\<forall>r. fst (rnd r) \<le> 0x7FFFFFFF)"

lemma rand_positive: "rand_range rnd \<Longrightarrow> 0 < fst (rnd r) + 1"
proof -
  assume "rand_range rnd"
  then have "fst (rnd r) \<le> 0x7FFFFFFF" by (simp add: rand_range_def)
  then have "unat (fst (rnd r)) \<le> 0x7FFFFFFF" by (simp add: word_le_nat_alt)
  then show ?thesis by (simp add: word_less_nat_alt unat_word_ariths)
qed

text \<open>A generator that counts, for the examples.\<close>

definition count_rand :: "nat \<Rightarrow> u32 \<times> nat" where
  "count_rand n = (of_nat (n mod 100), n + 1)"

lemma count_rand_range: "rand_range count_rand"
proof -
  have "(of_nat (n mod 100) :: u32) \<le> 0x7FFFFFFF" for n
  proof -
    have "n mod 100 < 100" by simp
    then show ?thesis by (simp add: word_le_nat_alt unat_of_nat)
  qed
  then show ?thesis by (simp add: rand_range_def count_rand_def)
qed

text \<open>A simulation of \<open>n\<close> clock cycles; \<open>None\<close> is a simulation that an assertion or an \<open>exit\<close> stopped.\<close>

fun sim_run :: "('s \<Rightarrow> 's option) \<Rightarrow> nat \<Rightarrow> 's \<Rightarrow> 's option" where
  "sim_run cycle 0 s = Some s"
| "sim_run cycle (Suc n) s = (case cycle s of None \<Rightarrow> None | Some t \<Rightarrow> sim_run cycle n t)"

lemma sim_run_add:
  "sim_run cycle (k + n) s = (case sim_run cycle k s of None \<Rightarrow> None | Some t \<Rightarrow> sim_run cycle n t)"
  by (induction k arbitrary: s) (auto split: option.splits)

lemma sim_run_funpow: "sim_run (\<lambda>s. Some (f s)) n s = Some ((f ^^ n) s)"
  by (induction n arbitrary: s) (simp_all add: funpow_swap1)

text \<open>A run that displays nothing before its last cycle.\<close>

definition silent_run :: "('s \<Rightarrow> 's option) \<Rightarrow> ('s \<Rightarrow> 'd) \<Rightarrow> nat \<Rightarrow> 's \<Rightarrow> 's \<Rightarrow> bool" where
  "silent_run cycle shown k s t \<longleftrightarrow> sim_run cycle k s = Some t \<and>
     (\<forall>j<k. \<exists>u. sim_run cycle j s = Some u \<and> shown u = shown s)"

lemma silent_run_step: "cycle s = Some t \<Longrightarrow> silent_run cycle shown 1 s t"
  by (simp add: silent_run_def)

lemma silent_run_trans:
  assumes "silent_run cycle shown k s t" and "shown t = shown s" and "silent_run cycle shown l t u"
  shows "silent_run cycle shown (k + l) s u"
proof -
  have "\<exists>v. sim_run cycle j s = Some v \<and> shown v = shown s" if "j < k + l" for j
  proof (cases "j < k")
    case True
    then show ?thesis using assms(1) by (simp add: silent_run_def)
  next
    case False
    then have "j = k + (j - k)" "j - k < l" using that by auto
    with assms sim_run_add [of cycle k "j - k" s] show ?thesis by (auto simp: silent_run_def)
  qed
  with assms(1,3) show ?thesis by (simp add: silent_run_def sim_run_add)
qed

lemma silent_run_Cons:
  assumes "cycle s = Some t" and "shown t = shown s" and "silent_run cycle shown k t u"
  shows "silent_run cycle shown (Suc k) s u"
  using silent_run_trans [OF silent_run_step [of cycle s t shown, OF assms(1)] assms(2,3)] by simp

text \<open>
  \<open>cycle\<close> is one clock cycle of the platform (\<open>None\<close> if the simulation stops), \<open>shown\<close> what was displayed so
  far, \<open>fresh n r s\<close> that \<open>s\<close> is about to start an iteration after \<open>n\<close> others, the generator being in state
  \<open>r\<close>. The one law: every iteration ends, and displays what the specification says.
\<close>

locale gcd_platform =
  fixes rnd :: "'r \<Rightarrow> u32 \<times> 'r"
    and cycle :: "'s \<Rightarrow> 's option"
    and shown :: "'s \<Rightarrow> display list"
    and fresh :: "u32 \<Rightarrow> 'r \<Rightarrow> 's \<Rightarrow> bool"
  assumes iteration: "rand_range rnd \<Longrightarrow> fresh n r s \<Longrightarrow> \<exists>k t d r'. 0 < k \<and> silent_run cycle shown k s t \<and>
      shown t = shown s @ [d] \<and> fresh (n + 1) r' t \<and> (\<forall>ds. session rnd (n + 1) r' ds \<longrightarrow> session rnd n r (d # ds))"
begin

text \<open>Safety: at every moment the display is a beginning of the session.\<close>

lemma displays:
  assumes "rand_range rnd" and "fresh n r s"
  shows "\<exists>t ds. sim_run cycle m s = Some t \<and> shown t = shown s @ ds \<and> session rnd n r ds"
  using assms(2)
proof (induction m arbitrary: n r s rule: less_induct)
  case (less m)
  obtain k t d r' where it: "0 < k" "silent_run cycle shown k s t" "shown t = shown s @ [d]" "fresh (n + 1) r' t"
      "\<forall>ds. session rnd (n + 1) r' ds \<longrightarrow> session rnd n r (d # ds)"
    using iteration [OF assms(1) less.prems] by blast
  show ?case
  proof (cases "m < k")
    case True
    then obtain u where "sim_run cycle m s = Some u" "shown u = shown s" using it(2) by (auto simp: silent_run_def)
    then show ?thesis by (intro exI [of _ u] exI [of _ "[]"]) simp
  next
    case False
    then have "m - k < m" "m = k + (m - k)" using it(1) by auto
    then obtain u ds where "sim_run cycle (m - k) t = Some u" "shown u = shown t @ ds" "session rnd (n + 1) r' ds"
      using less.IH [of "m - k"] it(4) by blast
    with it(2,3,5) sim_run_add [of cycle k "m - k" s] \<open>m = k + (m - k)\<close> show ?thesis
      by (intro exI [of _ u] exI [of _ "d # ds"]) (simp add: silent_run_def)
  qed
qed

text \<open>Liveness: every number of results is reached.\<close>

lemma keeps_displaying:
  assumes "rand_range rnd" and "fresh n r s"
  shows "\<exists>m t ds. sim_run cycle m s = Some t \<and> shown t = shown s @ ds \<and> length ds = l \<and> session rnd n r ds"
  using assms(2)
proof (induction l arbitrary: n r s)
  case 0
  show ?case by (intro exI [of _ 0] exI [of _ s] exI [of _ "[]"]) simp
next
  case (Suc l)
  obtain k t d r' where it: "silent_run cycle shown k s t" "shown t = shown s @ [d]" "fresh (n + 1) r' t"
      "\<forall>ds. session rnd (n + 1) r' ds \<longrightarrow> session rnd n r (d # ds)"
    using iteration [OF assms(1) Suc.prems] by blast
  obtain m u ds where "sim_run cycle m t = Some u" "shown u = shown t @ ds" "length ds = l" "session rnd (n + 1) r' ds"
    using Suc.IH [OF it(3)] by blast
  with it(1,2,4) show ?case
    by (intro exI [of _ "k + m"] exI [of _ u] exI [of _ "d # ds"]) (simp add: silent_run_def sim_run_add)
qed

end

end
