(* ===== verification/Vci_Gcd.thy ===== *)
theory Vci_Gcd
  imports Vci Mapping_Table Gcd_Engine
begin

text \<open>
  The VCI coprocessor and the VCI master of TP2 (\<open>vci_gcd_coprocessor\<close> and \<open>vci_gcd_master\<close> in
  \<open>TP2/TP2_etudiant\<close>). A register keeps its value until the end of the clock edge; a signal that is not
  driven keeps its value. \<open>None\<close> is a simulation stopped by a failed assertion or by \<open>exit\<close>.
\<close>

definition GCD_OPA :: nat where [simp]: "GCD_OPA = 0"
definition GCD_OPB :: nat where [simp]: "GCD_OPB = 1"
definition GCD_START :: nat where [simp]: "GCD_START = 2"
definition GCD_STATUS :: nat where [simp]: "GCD_STATUS = 3"

section \<open>The coprocessor\<close>

datatype vci_fsm_state = VCI_GET_CMD | VCI_RSP_OPA | VCI_RSP_OPB | VCI_RSP_START | VCI_RSP_STATUS | VCI_RSP_RESULT
datatype exe_fsm_state = EXE_IDLE | EXE_COMPARE | EXE_DECA | EXE_DECB

record vci_gcd_coprocessor =
  r_vci_fsm :: vci_fsm_state
  r_exe_fsm :: exe_fsm_state
  r_srcid :: vci_srcid
  r_trdid :: vci_bit
  r_pktid :: vci_bit
  c_opa :: vci_data
  c_opb :: vci_data

text \<open>The switch on \<open>r_exe_fsm\<close>.\<close>

definition exe_fsm_step :: "vci_gcd_coprocessor \<Rightarrow> vci_gcd_coprocessor" where
  "exe_fsm_step c = (case r_exe_fsm c of
       EXE_IDLE \<Rightarrow> if r_vci_fsm c = VCI_RSP_START then c\<lparr>r_exe_fsm := EXE_COMPARE\<rparr> else c
     | EXE_COMPARE \<Rightarrow>
         if c_opa c < c_opb c then c\<lparr>r_exe_fsm := EXE_DECB\<rparr>
         else if c_opb c < c_opa c then c\<lparr>r_exe_fsm := EXE_DECA\<rparr>
         else c\<lparr>r_exe_fsm := EXE_IDLE\<rparr>
     | EXE_DECA \<Rightarrow> c\<lparr>r_exe_fsm := EXE_COMPARE, c_opa := c_opa c - c_opb c\<rparr>
     | EXE_DECB \<Rightarrow> c\<lparr>r_exe_fsm := EXE_COMPARE, c_opb := c_opb c - c_opa c\<rparr>)"

text \<open>The register that an address selects: \<open>uint32_t cell = ( address - base ) / B\<close>.\<close>

definition vci_cell :: "segment \<Rightarrow> vci_addr \<Rightarrow> nat" where
  "vci_cell seg a = unat (ucast ((ucast a - baseAddress seg) div of_nat vci_B) :: u32)"

text \<open>The assertion on a command.\<close>

definition legal_command :: "segment \<Rightarrow> vci_signals \<Rightarrow> bool" where
  "legal_command seg p \<longleftrightarrow> eop p \<and> plen p = 4 \<and> vcmd p \<noteq> CMD_LOCKED_READ \<and> vcmd p \<noteq> CMD_STORE_COND \<and>
     seg_contains seg (ucast (vaddress p))"

text \<open>The switch on \<open>r_vci_fsm\<close>: \<open>c\<close> has the old values of the registers, \<open>c'\<close> the writes of the other switch.\<close>

definition vci_fsm_step ::
    "segment \<Rightarrow> vci_signals \<Rightarrow> vci_gcd_coprocessor \<Rightarrow> vci_gcd_coprocessor \<Rightarrow> vci_gcd_coprocessor option" where
  "vci_fsm_step seg p c c' =
     (if r_vci_fsm c = VCI_GET_CMD then
        if cmdval p then
          if \<not> legal_command seg p then None
          else
            let cell = vci_cell seg (vaddress p);
                c' = c'\<lparr>r_srcid := srcid p, r_trdid := trdid p, r_pktid := pktid p\<rparr>
            in if vcmd p = CMD_READ \<and> cell = GCD_OPA then Some (c'\<lparr>r_vci_fsm := VCI_RSP_RESULT\<rparr>)
               else if vcmd p = CMD_READ \<and> cell = GCD_STATUS then Some (c'\<lparr>r_vci_fsm := VCI_RSP_STATUS\<rparr>)
               else if vcmd p = CMD_WRITE \<and> cell = GCD_OPA then Some (c'\<lparr>r_vci_fsm := VCI_RSP_OPA, c_opa := wdata p\<rparr>)
               else if vcmd p = CMD_WRITE \<and> cell = GCD_OPB then Some (c'\<lparr>r_vci_fsm := VCI_RSP_OPB, c_opb := wdata p\<rparr>)
               else if vcmd p = CMD_WRITE \<and> cell = GCD_START then Some (c'\<lparr>r_vci_fsm := VCI_RSP_START\<rparr>)
               else None
        else Some c'
      else if rspack p then Some (c'\<lparr>r_vci_fsm := VCI_GET_CMD\<rparr>) else Some c')"

definition gcd_coproc_transition ::
    "segment \<Rightarrow> bool \<Rightarrow> vci_signals \<Rightarrow> vci_gcd_coprocessor \<Rightarrow> vci_gcd_coprocessor option" where
  "gcd_coproc_transition seg resetn p c =
     (if \<not> resetn then Some (c\<lparr>r_vci_fsm := VCI_GET_CMD, r_exe_fsm := EXE_IDLE\<rparr>)
      else vci_fsm_step seg p c (exe_fsm_step c))"

definition gcd_coproc_genMoore :: "vci_gcd_coprocessor \<Rightarrow> vci_signals \<Rightarrow> vci_signals" where
  "gcd_coproc_genMoore c p =
     (let p = p\<lparr>rsrcid := r_srcid c, rtrdid := r_trdid c, rpktid := r_pktid c, rerror := 0, reop := True\<rparr>
      in case r_vci_fsm c of
        VCI_GET_CMD \<Rightarrow> p\<lparr>cmdack := True, rspval := False, rdata := 0\<rparr>
      | VCI_RSP_OPA \<Rightarrow> p\<lparr>cmdack := False, rspval := True, rdata := 0\<rparr>
      | VCI_RSP_OPB \<Rightarrow> p\<lparr>cmdack := False, rspval := True, rdata := 0\<rparr>
      | VCI_RSP_START \<Rightarrow> p\<lparr>cmdack := False, rspval := True, rdata := 0\<rparr>
      | VCI_RSP_STATUS \<Rightarrow> p\<lparr>cmdack := False, rspval := True, rdata := (if r_exe_fsm c = EXE_IDLE then 0 else 1)\<rparr>
      | VCI_RSP_RESULT \<Rightarrow> p\<lparr>cmdack := False, rspval := True, rdata := c_opa c\<rparr>)"

section \<open>The master\<close>

datatype gcd_master_state = M_RANDOM | CMD_OPA | RSP_OPA | CMD_OPB | RSP_OPB | CMD_START | RSP_START | CMD_STATUS
  | RSP_STATUS | CMD_RESULT | RSP_RESULT | M_DISPLAY

record vci_gcd_master =
  r_fsm :: gcd_master_state
  r_opa :: vci_data
  r_opb :: vci_data
  r_res :: vci_data
  r_cycle :: u32
  r_iter :: u32
  r_cout :: "display list"

text \<open>The generator of the C library is shared by all masters, so it is a state of its own.\<close>

definition gcd_master_transition ::
    "('r \<Rightarrow> u32 \<times> 'r) \<Rightarrow> bool \<Rightarrow> vci_signals \<Rightarrow> vci_gcd_master \<times> 'r \<Rightarrow> vci_gcd_master \<times> 'r" where
  "gcd_master_transition rnd resetn p = (\<lambda>(m, r).
     if \<not> resetn then (m\<lparr>r_fsm := M_RANDOM, r_cycle := 0, r_iter := 0\<rparr>, r)
     else let (m', r') = (case r_fsm m of
         M_RANDOM \<Rightarrow>
           let (a, r1) = rnd r; (b, r2) = rnd r1
           in (m\<lparr>r_fsm := CMD_OPA, r_opa := a + 1, r_opb := b + 1, r_iter := r_iter m + 1\<rparr>, r2)
       | CMD_OPA \<Rightarrow> (if cmdack p then m\<lparr>r_fsm := RSP_OPA\<rparr> else m, r)
       | RSP_OPA \<Rightarrow> (if rspval p then m\<lparr>r_fsm := CMD_OPB\<rparr> else m, r)
       | CMD_OPB \<Rightarrow> (if cmdack p then m\<lparr>r_fsm := RSP_OPB\<rparr> else m, r)
       | RSP_OPB \<Rightarrow> (if rspval p then m\<lparr>r_fsm := CMD_START\<rparr> else m, r)
       | CMD_START \<Rightarrow> (if cmdack p then m\<lparr>r_fsm := RSP_START\<rparr> else m, r)
       | RSP_START \<Rightarrow> (if rspval p then m\<lparr>r_fsm := CMD_STATUS\<rparr> else m, r)
       | CMD_STATUS \<Rightarrow> (if cmdack p then m\<lparr>r_fsm := RSP_STATUS\<rparr> else m, r)
       | RSP_STATUS \<Rightarrow>
           (if rspval p then if rdata p = 0 then m\<lparr>r_fsm := CMD_RESULT\<rparr> else m\<lparr>r_fsm := CMD_STATUS\<rparr> else m, r)
       | CMD_RESULT \<Rightarrow> (if cmdack p then m\<lparr>r_fsm := RSP_RESULT\<rparr> else m, r)
       | RSP_RESULT \<Rightarrow> (if rspval p then m\<lparr>r_fsm := M_DISPLAY, r_res := rdata p\<rparr> else m, r)
       | M_DISPLAY \<Rightarrow> (m\<lparr>r_fsm := M_RANDOM,
           r_cout := r_cout m @ [\<lparr>d_iteration = r_iter m, d_cycle = r_cycle m, d_opa = r_opa m, d_opb = r_opb m,
             d_pgcd = r_res m\<rparr>]\<rparr>, r))
       in (m'\<lparr>r_cycle := r_cycle m + 1\<rparr>, r'))"

text \<open>A command: \<open>cmdval = true; cmd; address; wdata; rspack = false\<close>.\<close>

definition drive_cmd :: "vci_cmd \<Rightarrow> vci_addr \<Rightarrow> vci_data \<Rightarrow> vci_signals \<Rightarrow> vci_signals" where
  "drive_cmd c a w p = p\<lparr>cmdval := True, vcmd := c, vaddress := a, wdata := w, rspack := False\<rparr>"

definition drive_rsp :: "vci_signals \<Rightarrow> vci_signals" where
  "drive_rsp p = p\<lparr>cmdval := False, vcmd := CMD_NOP, vaddress := 0, wdata := 0, rspack := True\<rparr>"

definition gcd_master_genMoore :: "vci_srcid \<Rightarrow> vci_addr \<Rightarrow> vci_gcd_master \<Rightarrow> vci_signals \<Rightarrow> vci_signals" where
  "gcd_master_genMoore m_srcid m_base m p =
     (let p = p\<lparr>be := 4, plen := 4, eop := True, srcid := m_srcid, trdid := 0, pktid := 0, contig := True,
                vcons := False, vwrap := False, cfixed := False, clen := 0\<rparr>
      in case r_fsm m of
        M_RANDOM \<Rightarrow> p\<lparr>cmdval := False, rspack := True\<rparr>
      | M_DISPLAY \<Rightarrow> p\<lparr>cmdval := False, rspack := True\<rparr>
      | CMD_OPA \<Rightarrow> drive_cmd CMD_WRITE (m_base + 4 * of_nat GCD_OPA) (r_opa m) p
      | CMD_OPB \<Rightarrow> drive_cmd CMD_WRITE (m_base + 4 * of_nat GCD_OPB) (r_opb m) p
      | CMD_START \<Rightarrow> drive_cmd CMD_WRITE (m_base + 4 * of_nat GCD_START) 0 p
      | CMD_RESULT \<Rightarrow> drive_cmd CMD_READ (m_base + 4 * of_nat GCD_OPA) 0 p
      | CMD_STATUS \<Rightarrow> drive_cmd CMD_READ (m_base + 4 * of_nat GCD_STATUS) 0 p
      | RSP_OPA \<Rightarrow> drive_rsp p
      | RSP_OPB \<Rightarrow> drive_rsp p
      | RSP_START \<Rightarrow> drive_rsp p
      | RSP_RESULT \<Rightarrow> drive_rsp p
      | RSP_STATUS \<Rightarrow> drive_rsp p)"

end
