(* ===== verification/Mapping_Props.thy ===== *)
theory Mapping_Props
  imports Mapping_Table
begin

text \<open>
  The mapping table is correct: segments that \<open>add\<close> accepts are disjoint and have coherent cacheability
  attributes, the routing table built from them sends every address of a segment to its target, the
  cacheability table gives its attribute, and the identifiers of components decode level by level.
\<close>

section \<open>The addresses of a segment\<close>

definition seg_lo :: "segment \<Rightarrow> nat" where
  "seg_lo s = unat (baseAddress s)"

definition seg_hi :: "segment \<Rightarrow> nat" where
  "seg_hi s = unat (baseAddress s) + unat (seg_size s)"

definition seg_addresses :: "segment \<Rightarrow> u32 set" where
  "seg_addresses s = {a. seg_lo s \<le> unat a \<and> unat a < seg_hi s}"

lemma unat_ucast_64: "unat (ucast (a :: u32) :: u64) = unat a"
  using unat_less_u32 [of a] by (simp add: unsigned_ucast_eq take_bit_nat_eq_self)

lemma unat_add_64: "unat a + unat b < 2 ^ 64 \<Longrightarrow> unat (a + b :: u64) = unat a + unat b"
  by (simp add: unat_word_ariths)

lemma unat_less_u64: "unat (a :: u64) < 2 ^ 64"
  using unsigned_less [of a, where 'a = nat] by simp

text \<open>\<open>contains\<close> is right for every segment, also one that ends at the top of memory or beyond it.\<close>

lemma seg_contains_iff: "seg_contains s a \<longleftrightarrow> seg_lo s \<le> unat a \<and> unat a < seg_hi s"
proof (cases "seg_hi s < 2 ^ 64")
  case True
  then have "unat (baseAddress s + seg_size s) = seg_hi s" by (simp add: seg_hi_def unat_add_64)
  then show ?thesis by (auto simp: seg_contains_def seg_lo_def seg_hi_def word_le_nat_alt word_less_nat_alt)
next
  case False
  then have "unat (baseAddress s + seg_size s) = seg_hi s - 2 ^ 64"
    using unat_less_u64 [of "baseAddress s"] unat_less_u64 [of "seg_size s"]
    by (simp add: unat_word_ariths seg_hi_def mod_if)
  moreover have "seg_hi s - 2 ^ 64 < seg_lo s"
    using unat_less_u64 [of "seg_size s"] False by (simp add: seg_lo_def seg_hi_def)
  ultimately show ?thesis using False unat_less_u64 [of a]
    by (auto simp: seg_contains_def seg_lo_def word_le_nat_alt word_less_nat_alt)
qed

lemma seg_addresses_contains: "seg_addresses s = {a. seg_contains s (ucast a)}"
  by (simp add: seg_addresses_def seg_contains_iff unat_ucast_64)

text \<open>A segment of the 32-bit address space: not empty and below 4 GB. The loops of the table over its blocks
  of \<open>2 ^ k\<close> bytes end unless it reaches from the first block of the address space to the last one.\<close>

definition seg_fits :: "segment \<Rightarrow> bool" where
  "seg_fits s \<longleftrightarrow> seg_size s \<noteq> 0 \<and> seg_hi s \<le> 2 ^ 32"

definition all_blocks :: "nat \<Rightarrow> segment \<Rightarrow> bool" where
  "all_blocks k s \<longleftrightarrow> seg_lo s < 2 ^ k \<and> 2 ^ 32 - 2 ^ k < seg_hi s"

definition seg_ok :: "nat \<Rightarrow> segment \<Rightarrow> bool" where
  "seg_ok k s \<longleftrightarrow> k < 32 \<and> seg_size s \<noteq> 0 \<and> seg_hi s \<le> 2 ^ 32 \<and> (2 ^ k \<le> seg_lo s \<or> seg_hi s \<le> 2 ^ 32 - 2 ^ k)"

lemma seg_ok_iff: "seg_ok k s \<longleftrightarrow> k < 32 \<and> seg_fits s \<and> \<not> all_blocks k s"
  by (auto simp: seg_ok_def seg_fits_def all_blocks_def)

lemma seg_fits_bounds:
  assumes "seg_fits s"
  shows "seg_lo s < seg_hi s" "seg_lo s < 2 ^ 32" "unat (baseAddress s + seg_size s) = seg_hi s"
proof -
  have "0 < unat (seg_size s)" using assms by (simp add: seg_fits_def word_neq_0_conv unat_gt_0)
  then show "seg_lo s < seg_hi s" by (simp add: seg_lo_def seg_hi_def)
  with assms show "seg_lo s < 2 ^ 32" by (simp add: seg_fits_def)
  show "unat (baseAddress s + seg_size s) = seg_hi s"
    using assms by (simp add: seg_fits_def seg_hi_def unat_add_64)
qed

lemma seg_ok_fits: "seg_ok k s \<Longrightarrow> seg_fits s"
  by (simp add: seg_ok_iff)

lemmas seg_ok_bounds = seg_fits_bounds [OF seg_ok_fits]

lemma isOverlapping_iff:
  assumes "seg_fits s" and "seg_fits s'"
  shows "isOverlapping s s' \<longleftrightarrow> seg_addresses s \<inter> seg_addresses s' \<noteq> {}"
proof -
  note b = seg_fits_bounds [OF assms(1)] and b' = seg_fits_bounds [OF assms(2)]
  have "isOverlapping s s' \<longleftrightarrow> seg_lo s < seg_hi s' \<and> seg_lo s' < seg_hi s"
    using b(3) b'(3) by (auto simp: isOverlapping_def Let_def word_le_nat_alt seg_lo_def)
  moreover have "seg_addresses s \<inter> seg_addresses s' \<noteq> {} \<longleftrightarrow> seg_lo s < seg_hi s' \<and> seg_lo s' < seg_hi s"
  proof
    assume lt: "seg_lo s < seg_hi s' \<and> seg_lo s' < seg_hi s"
    let ?m = "max (seg_lo s) (seg_lo s')"
    have "unat (of_nat ?m :: u32) = ?m" using b(2) b'(2) by (intro unat_of_nat_u32) simp
    then have "of_nat ?m \<in> seg_addresses s \<inter> seg_addresses s'"
      using lt b(1) b'(1) by (simp add: seg_addresses_def)
    then show "seg_addresses s \<inter> seg_addresses s' \<noteq> {}" by blast
  qed (auto simp: seg_addresses_def)
  ultimately show ?thesis by simp
qed

section \<open>The loop over the blocks of a segment\<close>

definition blocks :: "nat \<Rightarrow> segment \<Rightarrow> u32 list" where
  "blocks k s = map (\<lambda>i. of_nat (i * 2 ^ k)) [seg_lo s div 2 ^ k..<Suc ((seg_hi s - 1) div 2 ^ k)]"

definition block_of :: "nat \<Rightarrow> u32 \<Rightarrow> u32" where
  "block_of k a = of_nat (unat a div 2 ^ k * 2 ^ k)"

lemma div_mult_le: "(a :: nat) div b * b \<le> a"
  by (metis div_mult_mod_eq le_add1)

lemma unat_block_of: "unat (block_of k a) = unat a div 2 ^ k * 2 ^ k"
  unfolding block_of_def using div_mult_le [of "unat a" "2 ^ k"] unat_less_u32 [of a]
  by (intro unat_of_nat_u32) (rule le_less_trans, assumption, simp)

lemma block_index_bound:
  assumes "seg_ok k s" and "i < Suc ((seg_hi s - 1) div 2 ^ k)"
  shows "i * 2 ^ k < seg_hi s"
proof -
  have "i * 2 ^ k \<le> (seg_hi s - 1) div 2 ^ k * 2 ^ k" using assms(2) by simp
  also have "\<dots> \<le> seg_hi s - 1" by (rule div_mult_le)
  finally show ?thesis using seg_ok_bounds(1) [OF assms(1)] by simp
qed

lemma set_blocks:
  assumes "seg_ok k s"
  shows "set (blocks k s) = block_of k ` seg_addresses s"
proof (intro set_eqI iffI)
  fix b assume "b \<in> set (blocks k s)"
  then obtain i where i: "seg_lo s div 2 ^ k \<le> i" "i < Suc ((seg_hi s - 1) div 2 ^ k)" "b = of_nat (i * 2 ^ k)"
    by (auto simp: blocks_def)
  note lt = block_index_bound [OF assms i(2)] and bd = seg_ok_bounds [OF assms]
  let ?a = "max (seg_lo s) (i * 2 ^ k)"
  have "?a < 2 ^ 32" using lt bd assms by (simp add: seg_ok_def)
  then have a: "unat (of_nat ?a :: u32) = ?a" by (rule unat_of_nat_u32)
  have "?a div 2 ^ k = i"
  proof (cases "seg_lo s \<le> i * 2 ^ k")
    case False
    then have "i \<le> seg_lo s div 2 ^ k" by (simp add: less_eq_div_iff_mult_less_eq)
    with i(1) False show ?thesis by (simp add: max_def)
  qed (simp add: max_def)
  then have "b = block_of k (of_nat ?a)" by (simp add: block_of_def a i(3))
  moreover have "of_nat ?a \<in> seg_addresses s" using lt bd(1) by (simp add: seg_addresses_def a)
  ultimately show "b \<in> block_of k ` seg_addresses s" by blast
next
  fix b assume "b \<in> block_of k ` seg_addresses s"
  then obtain a where a: "b = block_of k a" "seg_lo s \<le> unat a" "unat a < seg_hi s" by (auto simp: seg_addresses_def)
  have "unat a \<le> seg_hi s - 1" using a(3) by simp
  with a(2) have "unat a div 2 ^ k \<in> set [seg_lo s div 2 ^ k..<Suc ((seg_hi s - 1) div 2 ^ k)]"
    by (simp add: less_Suc_eq_le div_le_mono del: upt_Suc)
  then show "b \<in> set (blocks k s)" unfolding blocks_def set_map a(1) block_of_def by (rule imageI)
qed

lemma first_block:
  assumes "seg_fits s"
  shows "unat (baseAddress s AND ucast (NOT ((2 :: u32) ^ k - 1))) = seg_lo s div 2 ^ k * 2 ^ k"
proof -
  let ?b = "baseAddress s"
  have small: "n < 32" if "bit ?b n" for n
  proof (rule ccontr)
    assume "\<not> n < 32"
    have "unat ?b < 2 ^ 32" using seg_fits_bounds(2) [OF assms] by (simp add: seg_lo_def)
    then have "unat ?b < 2 ^ n" using \<open>\<not> n < 32\<close> by (meson not_less less_le_trans one_le_numeral power_increasing)
    then have "\<not> bit (unat ?b) n" by (simp add: bit_nat_def)
    then show False using that bit_imp_le_length [of ?b n] by (auto simp: bit_unsigned_iff)
  qed
  have "?b AND ucast (NOT ((2 :: u32) ^ k - 1)) = push_bit k (drop_bit k ?b)"
  proof (rule bit_word_eqI)
    fix n assume "n < LENGTH(64)"
    then show "bit (?b AND ucast (NOT ((2 :: u32) ^ k - 1))) n = bit (push_bit k (drop_bit k ?b)) n"
      using small [of n]
      by (auto simp: bit_simps bit_ucast_iff not_le mask_eq_exp_minus_1 [symmetric])
  qed
  also have "unat \<dots> = seg_lo s div 2 ^ k * 2 ^ k"
  proof -
    have "unat (drop_bit k ?b) = seg_lo s div 2 ^ k" by (simp only: unat_drop_bit_eq) (simp add: drop_bit_eq_div seg_lo_def)
    moreover have "seg_lo s div 2 ^ k * 2 ^ k < 2 ^ 64"
      using seg_fits_bounds(2) [OF assms] by (intro le_less_trans [OF div_mult_le]) simp
    ultimately show ?thesis
      by (subst unsigned_push_bit_eq) (simp add: push_bit_eq_mult take_bit_nat_eq_self)
  qed
  finally show ?thesis .
qed


lemma for_blocks_eq:
  assumes "seg_ok k s"
  shows "for_blocks (2 ^ k) s body st = foldr_result body (blocks k s) st"
proof -
  let ?first = "baseAddress s AND ucast (NOT ((2 :: u32) ^ k - 1))"
  let ?b = "\<lambda>(addr :: u32, r :: 'a result). (case r of Inl e \<Rightarrow> False | Inr _ \<Rightarrow> True) \<and>
              ucast addr < baseAddress s + seg_size s \<and> ucast addr \<ge> ?first"
  let ?c = "\<lambda>(addr, r). (addr + 2 ^ k, andthen r (body addr))"
  define q0 where "q0 = seg_lo s div 2 ^ k"
  define q1 where "q1 = Suc ((seg_hi s - 1) div 2 ^ k)"
  note bd = seg_ok_bounds [OF assms] and first = first_block [OF seg_ok_fits [OF assms], of k, folded q0_def]
  let ?addr = "\<lambda>i. of_nat (i * 2 ^ k) :: u32"
  have guard: "?b (a, Inr t) \<longleftrightarrow> unat a < seg_hi s \<and> q0 * 2 ^ k \<le> unat a" for a and t :: 'a
    using bd(3) first by (simp add: word_less_nat_alt word_le_nat_alt unat_ucast_64)
  have inside: "?b (?addr i, Inr t)" if "q0 \<le> i" "i < q1" for i and t :: 'a
  proof -
    have "i * 2 ^ k < seg_hi s" using block_index_bound [OF assms] that(2) by (simp add: q1_def)
    moreover have "unat (?addr i) = i * 2 ^ k"
      using calculation assms by (intro unat_of_nat_u32) (simp add: seg_ok_def)
    ultimately show ?thesis unfolding guard using that(1) by (metis mult_le_mono1)
  qed
  have outside: "\<not> ?b (?addr q1, Inr t)" for t :: 'a
  proof -
    have "seg_hi s - 1 < q1 * 2 ^ k" using dividend_less_div_times [of "2 ^ k" "seg_hi s - 1"] by (simp add: q1_def)
    then have ge: "seg_hi s \<le> q1 * 2 ^ k" by simp
    have "2 ^ 32 = 2 ^ (32 - k) * (2 :: nat) ^ k" using assms by (simp add: seg_ok_def flip: power_add)
    moreover have "seg_hi s - 1 < 2 ^ 32" using assms bd(1) unfolding seg_ok_def by linarith
    ultimately have q1: "q1 \<le> 2 ^ (32 - k)" by (simp add: q1_def less_mult_imp_div_less Suc_le_eq)
    have unat: "unat (?addr q1) = q1 * 2 ^ k mod 2 ^ 32" by (simp only: unat_of_nat) simp
    show ?thesis
    proof (cases "q1 = 2 ^ (32 - k)")
      case True
      then have top: "q1 * 2 ^ k = 2 ^ 32" using \<open>2 ^ 32 = _\<close> by simp
      have "q0 \<noteq> 0"
      proof
        assume "q0 = 0"
        then have "seg_lo s < 2 ^ k" by (simp add: q0_def div_eq_0_iff)
        then have "seg_hi s \<le> 2 ^ 32 - 2 ^ k" using assms by (simp add: seg_ok_def)
        moreover have "q1 * 2 ^ k \<le> seg_hi s - 1 + 2 ^ k"
          unfolding q1_def mult_Suc using div_mult_le [of "seg_hi s - 1" "2 ^ k"] by linarith
        moreover have "(2 :: nat) ^ k < 2 ^ 32" using assms unfolding seg_ok_def by (intro power_strict_increasing) auto
        ultimately show False using top bd(1) by linarith
      qed
      then show ?thesis unfolding guard unat top by simp
    next
      case False
      then have "q1 * 2 ^ k < 2 ^ (32 - k) * 2 ^ k" using q1 by simp
      then have "q1 * 2 ^ k < 2 ^ 32" by (simp only: \<open>2 ^ 32 = _\<close>)
      then show ?thesis unfolding guard unat using ge by simp
    qed
  qed
  have run: "\<exists>x. while_option ?b ?c (?addr i, r) = Some (x, andthen r (foldr_result body (map ?addr [i..<q1])))"
    if "q0 \<le> i" "i \<le> q1" for i r
    using that
  proof (induction "q1 - i" arbitrary: i r)
    case 0
    then have "\<not> ?b (?addr i, r)" using outside by (cases r) auto
    then show ?case using 0 by (subst while_option_unfold) (cases r, auto)
  next
    case (Suc n)
    show ?case
    proof (cases r)
      case (Inl e)
      then show ?thesis by (subst while_option_unfold) simp
    next
      case (Inr t)
      have i: "q0 \<le> i" "i < q1" using Suc by auto
      have "?addr i + 2 ^ k = ?addr (Suc i)" by (simp add: algebra_simps)
      then have "while_option ?b ?c (?addr i, r) = while_option ?b ?c (?addr (Suc i), body (?addr i) t)"
        using inside [OF i] Inr by (subst while_option_unfold) (simp add: add.commute)
      moreover have "map ?addr [i..<q1] = ?addr i # map ?addr [Suc i..<q1]"
        using i(2) by (simp add: upt_conv_Cons)
      ultimately show ?thesis using Suc.hyps(1) [of "Suc i" "body (?addr i) t"] Suc.hyps(2) i Inr by simp
    qed
  qed
  have "(ucast ?first :: u32) = ?addr q0"
  proof (rule word_unat_eq_iff [THEN iffD2])
    have lt: "q0 * 2 ^ k < 2 ^ 32" unfolding q0_def using bd(2) by (intro le_less_trans [OF div_mult_le])
    then have "unat (ucast ?first :: u32) = q0 * 2 ^ k"
      using first by (simp add: unsigned_ucast_eq take_bit_nat_eq_self)
    with lt show "unat (ucast ?first :: u32) = unat (?addr q0)" by (simp only: unat_of_nat_u32)
  qed
  moreover have "q0 \<le> q1"
    unfolding q0_def q1_def using bd(1) by (intro le_SucI div_le_mono) simp
  ultimately show ?thesis
    using run [of q0 "Inr st"] by (auto simp: for_blocks_def blocks_def q0_def q1_def simp del: upt_Suc)
qed


text \<open>The loop over a segment that reaches from the first block to the last one: the address wraps around and
  stays inside, so the loop ends only if its body throws.\<close>

lemma block_address_bound:
  assumes "k < 32" and "2 ^ k dvd unat (a :: u32)"
  shows "unat a \<le> 2 ^ 32 - 2 ^ k"
proof -
  have p: "2 ^ 32 = 2 ^ (32 - k) * (2 :: nat) ^ k" using assms(1) by (simp flip: power_add)
  obtain i where i: "unat a = 2 ^ k * i" using assms(2) by (elim dvdE)
  then have "i * 2 ^ k < 2 ^ (32 - k) * 2 ^ k" using unat_less_u32 [of a] p by (simp add: mult.commute)
  then have "i + 1 \<le> 2 ^ (32 - k)" by simp
  then have "(i + 1) * 2 ^ k \<le> 2 ^ (32 - k) * (2 :: nat) ^ k" by (rule mult_le_mono1)
  then have "unat a + 2 ^ k \<le> 2 ^ 32" unfolding p i by (simp add: algebra_simps)
  then show ?thesis by simp
qed

lemma block_address_add:
  assumes "k < 32" and "2 ^ k dvd unat (a :: u32)"
  shows "2 ^ k dvd unat (a + 2 ^ k)"
proof -
  have "(2 :: nat) ^ k < 2 ^ 32" using assms(1) by (intro power_strict_increasing) auto
  then have "unat (2 ^ k :: u32) = 2 ^ k" using unat_of_nat_u32 [of "2 ^ k"] by simp
  moreover have "(2 :: nat) ^ k dvd 2 ^ 32" using assms(1) by (intro le_imp_power_dvd) simp
  ultimately show ?thesis using assms(2) by (simp add: unat_word_ariths dvd_mod)
qed

lemma all_blocks_guard:
  assumes "seg_fits s" and "all_blocks k s" and "k < 32"
  shows "baseAddress s AND ucast (NOT ((2 :: u32) ^ k - 1)) = 0"
    and "2 ^ k dvd unat (a :: u32) \<Longrightarrow> ucast a < baseAddress s + seg_size s"
proof -
  have "seg_lo s div 2 ^ k = 0" using assms(2) by (simp add: all_blocks_def)
  then show "baseAddress s AND ucast (NOT ((2 :: u32) ^ k - 1)) = 0"
    using first_block [OF assms(1), of k] by (simp add: unat_eq_0)
  show "ucast a < baseAddress s + seg_size s" if "2 ^ k dvd unat a"
    using block_address_bound [OF assms(3) that] assms(2) seg_fits_bounds(3) [OF assms(1)]
    by (simp add: word_less_nat_alt unat_ucast_64 all_blocks_def)
qed

lemma for_blocks_endless:
  assumes "seg_fits s" and "all_blocks k s" and "k < 32" and "\<And>a t. \<exists>t'. body a t = Inr t'"
  shows "for_blocks (2 ^ k) s body st = Inl Endless"
proof -
  note g = all_blocks_guard [OF assms(1-3)]
  let ?b = "\<lambda>(addr :: u32, r :: 'a result). (case r of Inl e \<Rightarrow> False | Inr _ \<Rightarrow> True) \<and>
      ucast addr < baseAddress s + seg_size s \<and> ucast addr \<ge> (0 :: u64)"
  let ?c = "\<lambda>(addr, r). (addr + 2 ^ k, andthen r (body addr))"
  let ?P = "\<lambda>(addr :: u32, r :: 'a result). 2 ^ k dvd unat addr \<and> (\<exists>t. r = Inr t)"
  have "while_option ?b ?c (0, Inr st) = None"
  proof (rule ccontr)
    assume "while_option ?b ?c (0, Inr st) \<noteq> None"
    then obtain x where x: "while_option ?b ?c (0, Inr st) = Some x" by auto
    have "?P x"
      by (rule while_option_rule [OF _ x]) (use assms(3,4) block_address_add in \<open>auto simp: dvd_def\<close>)
    then have "?b x" using g(2) by auto
    with while_option_stop [OF x] show False by contradiction
  qed
  then show ?thesis by (simp add: for_blocks_def g(1))
qed

lemma for_blocks_throws:
  fixes s :: segment
  assumes "seg_fits s" and "all_blocks k s" and "k < 32" and "2 ^ k dvd unat a" and "Q a"
  shows "for_blocks (2 ^ k) s (\<lambda>a _. if Q a then Inl e else Inr ()) () = Inl e"
proof -
  note g = all_blocks_guard [OF assms(1-3)]
  let ?b = "\<lambda>(addr :: u32, r :: unit result). (case r of Inl e \<Rightarrow> False | Inr _ \<Rightarrow> True) \<and>
      ucast addr < baseAddress s + seg_size s"
  let ?c = "\<lambda>(addr, r). (addr + 2 ^ k, andthen r ((\<lambda>a _. if Q a then Inl e else Inr ()) addr))"
  have stop: "while_option ?b ?c (x, Inl e) = Some (x, Inl e)" for x by (subst while_option_unfold) simp
  obtain n where n: "unat a = 2 ^ k * n" using assms(4) by (elim dvdE)
  have run: "\<exists>x. while_option ?b ?c (of_nat (2 ^ k * (n - j)), Inr ()) = Some (x, Inl e)" if "j \<le> n" for j
    using that
  proof (induction j)
    case 0
    have a: "of_nat (2 ^ k * n) = a" using n by (metis of_nat_unat)
    have "ucast a < baseAddress s + seg_size s" using g(2) assms(4) by simp
    then show ?case using assms(5)
      by (subst while_option_unfold) (simp add: a stop del: of_nat_mult)
  next
    case (Suc j)
    define i where "i = n - Suc j"
    let ?a = "of_nat (2 ^ k * i) :: u32"
    have i: "n - j = Suc i" using Suc.prems by (simp add: i_def)
    have "2 ^ k * i \<le> unat a" unfolding n by (simp add: i_def)
    then have "unat ?a = 2 ^ k * i" using unat_less_u32 [of a] by (intro unat_of_nat_u32) simp
    then have "ucast ?a < baseAddress s + seg_size s" using g(2) [of ?a] by simp
    moreover have "?a + 2 ^ k = of_nat (2 ^ k * (n - j))" unfolding i by (simp add: algebra_simps)
    ultimately have "while_option ?b ?c (?a, Inr ()) = (if Q ?a then while_option ?b ?c (?a + 2 ^ k, Inl e)
        else while_option ?b ?c (of_nat (2 ^ k * (n - j)), Inr ()))"
      by (subst while_option_unfold) (simp del: of_nat_mult)
    then show ?case using Suc stop unfolding i_def [symmetric] by (cases "Q ?a") (simp_all del: of_nat_mult)
  qed
  from run [of n] obtain x where "while_option ?b ?c (0, Inr ()) = Some (x, Inl e)" by auto
  then show ?thesis by (simp add: for_blocks_def g(1))
qed

section \<open>Filling a decoding table\<close>

text \<open>A list of addresses with values is consistent if no cell gets two values.\<close>

definition consistent :: "nat \<Rightarrow> nat \<Rightarrow> (u32 \<times> 'o) list \<Rightarrow> bool" where
  "consistent u d ps \<longleftrightarrow> (\<forall>a v b w. (a, v) \<in> set ps \<longrightarrow> (b, w) \<in> set ps \<longrightarrow> cell u d a = cell u d b \<longrightarrow> v = w)"

definition filled :: "nat \<Rightarrow> nat \<Rightarrow> 'o \<Rightarrow> (u32 \<times> 'o) list \<Rightarrow> 'o decoding_table \<times> bool decoding_table \<Rightarrow> bool" where
  "filled u d dflt ps = (\<lambda>(adt, done). adt_ok adt \<and> adt_ok done \<and> adt_use_bits adt = u \<and> adt_drop_bits adt = d \<and>
     adt_use_bits done = u \<and> adt_drop_bits done = d \<and>
     (\<forall>a. adt_get done a \<longleftrightarrow> (\<exists>(b, v) \<in> set ps. cell u d b = cell u d a)) \<and>
     (\<forall>(b, v) \<in> set ps. \<forall>a. cell u d a = cell u d b \<longrightarrow> adt_get adt a = v) \<and>
     (\<forall>a. (\<forall>(b, v) \<in> set ps. cell u d b \<noteq> cell u d a) \<longrightarrow> adt_get adt a = dflt))"

lemma fill_cell_step:
  assumes "filled u d dflt ps st"
  shows "if consistent u d (ps @ [(b, v)])
    then \<exists>st'. fill_cell v b st = Inr st' \<and> filled u d dflt (ps @ [(b, v)]) st'
    else consistent u d ps \<longrightarrow> fill_cell v b st = Inl RunTimeError"
proof -
  obtain adt don where st: "st = (adt, don)" by (cases st)
  have ok: "adt_ok adt" "adt_ok don" "adt_use_bits adt = u" "adt_drop_bits adt = d"
      "adt_use_bits don = u" "adt_drop_bits don = d"
    and don: "\<And>a. adt_get don a \<longleftrightarrow> (\<exists>(b, v) \<in> set ps. cell u d b = cell u d a)"
    and val: "\<And>a b v. (b, v) \<in> set ps \<Longrightarrow> cell u d a = cell u d b \<Longrightarrow> adt_get adt a = v"
    and dfl: "\<And>a. (\<forall>(b, v) \<in> set ps. cell u d b \<noteq> cell u d a) \<Longrightarrow> adt_get adt a = dflt"
    using assms by (auto simp: filled_def st)
  obtain adt' where adt': "adt_set b v adt = Inr adt'" "adt_ok adt'" "adt_use_bits adt' = u" "adt_drop_bits adt' = d"
      "\<And>a. adt_get adt' a = (if cell u d a = cell u d b then v else adt_get adt a)"
    using adt_set_ok [OF ok(1), of b v] ok by auto
  obtain don' where don': "adt_set b True don = Inr don'" "adt_ok don'" "adt_use_bits don' = u" "adt_drop_bits don' = d"
      "\<And>a. adt_get don' a = (if cell u d a = cell u d b then True else adt_get don a)"
    using adt_set_ok [OF ok(2), of b True] ok by auto
  have run: "fill_cell v b st = (if adt_get don b \<and> adt_get adt b \<noteq> v then Inl RunTimeError else Inr (adt', don'))"
    by (simp add: fill_cell_def st adt_nth_ok ok(1,2) adt'(1) don'(1))
  show ?thesis
  proof (cases "consistent u d (ps @ [(b, v)])")
    case True
    then have same: "w = v" if "(a, w) \<in> set ps" "cell u d a = cell u d b" for a w
      using that by (auto simp: consistent_def)
    then have "\<not> (adt_get don b \<and> adt_get adt b \<noteq> v)" using don val by fastforce
    moreover have "filled u d dflt (ps @ [(b, v)]) (adt', don')"
      using adt' don' don val dfl same by (auto simp: filled_def split: if_splits)
    ultimately show ?thesis using True run by auto
  next
    case False
    have "fill_cell v b st = Inl RunTimeError" if "consistent u d ps"
    proof -
      from False that obtain a w where "(a, w) \<in> set ps" "cell u d a = cell u d b" "w \<noteq> v"
        unfolding consistent_def set_append by (fastforce)
      then have "adt_get don b \<and> adt_get adt b \<noteq> v" using don val [of a w b] by auto
      then show ?thesis using run by simp
    qed
    with False show ?thesis by simp
  qed
qed

lemma fill_cells:
  assumes "filled u d dflt ps st" and "consistent u d ps"
  shows "if consistent u d (ps @ qs)
    then \<exists>st'. foldr_result (\<lambda>(b, v). fill_cell v b) qs st = Inr st' \<and> filled u d dflt (ps @ qs) st'
    else foldr_result (\<lambda>(b, v). fill_cell v b) qs st = Inl RunTimeError"
  using assms
proof (induction qs arbitrary: ps st)
  case Nil
  then show ?case by simp
next
  case (Cons q qs)
  obtain b v where q: "q = (b, v)" by (cases q)
  note step = fill_cell_step [OF Cons.prems(1), of b v]
  show ?case
  proof (cases "consistent u d (ps @ [(b, v)])")
    case True
    then obtain st' where st': "fill_cell v b st = Inr st'" "filled u d dflt (ps @ [(b, v)]) st'"
      using step by auto
    from Cons.IH [OF st'(2) True] st'(1) q show ?thesis by (simp cong: if_cong)
  next
    case False
    then have "\<not> consistent u d (ps @ q # qs)" unfolding consistent_def q set_append by (metis UnCI Un_iff list.set_intros empty_iff insert_iff list.set)
    moreover have "fill_cell v b st = Inl RunTimeError" using step False Cons.prems(2) by simp
    ultimately show ?thesis by (simp add: q)
  qed
qed

lemma filled_start:
  assumes "adt_ok adt" "adt_ok don" "adt_use_bits adt = u" "adt_drop_bits adt = d" "adt_use_bits don = u"
    "adt_drop_bits don = d" "\<And>a. adt_get adt a = dflt" "\<And>a. \<not> adt_get don a"
  shows "filled u d dflt [] (adt, don)"
  using assms by (simp add: filled_def)

lemma foldr_result_concat:
  "foldr_result (\<lambda>x. foldr_result f (g x)) xs s = foldr_result f (concat (map g xs)) s"
proof (induction xs arbitrary: s)
  case (Cons x xs)
  have "foldr_result (\<lambda>x. foldr_result f (g x)) xs = foldr_result f (concat (map g xs))"
    using Cons by (rule ext)
  then show ?case by (simp add: foldr_result_append)
qed simp

lemma foldr_result_map: "foldr_result f (map g xs) s = foldr_result (\<lambda>x. f (g x)) xs s"
proof (induction xs arbitrary: s)
  case (Cons x xs)
  then have "foldr_result f (map g xs) = foldr_result (\<lambda>x. f (g x)) xs" by (rule ext)
  then show ?case by simp
qed simp

lemma foldr_result_cong:
  assumes "\<And>x s. x \<in> set xs \<Longrightarrow> f x s = g x s"
  shows "foldr_result f xs s = foldr_result g xs s"
  using assms
proof (induction xs arbitrary: s)
  case (Cons x xs)
  have "foldr_result f xs = foldr_result g xs" by (rule ext) (rule Cons.IH, simp add: Cons.prems)
  then show ?case using Cons.prems by simp
qed simp

text \<open>The loop of a table builder over the blocks of some segments, with a value per segment.\<close>

definition block_values :: "nat \<Rightarrow> (segment \<Rightarrow> 'o) \<Rightarrow> segment list \<Rightarrow> (u32 \<times> 'o) list" where
  "block_values k val segs = concat (map (\<lambda>s. map (\<lambda>b. (b, val s)) (blocks k s)) segs)"

lemma fill_segments:
  assumes "\<And>s. s \<in> set segs \<Longrightarrow> seg_ok k s" and "filled u d dflt [] st"
  shows "if consistent u d (block_values k val segs)
    then \<exists>st'. foldr_result (\<lambda>s. for_blocks (2 ^ k) s (fill_cell (val s))) segs st = Inr st' \<and>
      filled u d dflt (block_values k val segs) st'
    else foldr_result (\<lambda>s. for_blocks (2 ^ k) s (fill_cell (val s))) segs st = Inl RunTimeError"
proof -
  have "foldr_result (\<lambda>s. for_blocks (2 ^ k) s (fill_cell (val s))) segs st
      = foldr_result (\<lambda>s. foldr_result (\<lambda>(b, v). fill_cell v b) (map (\<lambda>b. (b, val s)) (blocks k s))) segs st"
    using assms(1) by (intro foldr_result_cong) (simp add: for_blocks_eq foldr_result_map)
  also have "\<dots> = foldr_result (\<lambda>(b, v). fill_cell v b) (block_values k val segs) st"
    by (simp add: foldr_result_concat block_values_def)
  finally have run: "foldr_result (\<lambda>s. for_blocks (2 ^ k) s (fill_cell (val s))) segs st = \<dots>" .
  have "consistent u d ([] :: (u32 \<times> 'b) list)" by (simp add: consistent_def)
  from fill_cells [OF assms(2) this, of "block_values k val segs"] run show ?thesis by (simp cong: if_cong)
qed

text \<open>Blocks are fine enough for a table that drops at least as many bits.\<close>

lemma cell_block_of:
  assumes "k \<le> d"
  shows "cell u d (block_of k a) = cell u d a"
proof -
  obtain e where d: "d = k + e" using assms le_Suc_ex by blast
  have "unat a div 2 ^ k * 2 ^ k div 2 ^ (k + e) = unat a div 2 ^ k div 2 ^ e"
    by (simp add: power_add div_mult2_eq)
  also have "\<dots> = unat a div 2 ^ (k + e)" by (simp add: power_add div_mult2_eq)
  finally show ?thesis by (simp add: cell_def unat_block_of d)
qed

lemma block_values_cells:
  assumes "\<And>s. s \<in> set segs \<Longrightarrow> seg_ok k s"
  shows "set (block_values k val segs) = {(block_of k a, val s) |a s. s \<in> set segs \<and> a \<in> seg_addresses s}"
  using assms set_blocks by (fastforce simp: block_values_def)

lemma filled_segments:
  assumes "\<And>s. s \<in> set segs \<Longrightarrow> seg_ok k s" and "k \<le> d" and "filled u d dflt (block_values k val segs) (adt, don)"
  shows "s \<in> set segs \<Longrightarrow> a \<in> seg_addresses s \<Longrightarrow> adt_nth adt a = Inr (val s)"
    and "(\<forall>s \<in> set segs. \<forall>b \<in> seg_addresses s. cell u d b \<noteq> cell u d a) \<Longrightarrow> adt_nth adt a = Inr dflt"
proof -
  have cells: "set (block_values k val segs) = {(block_of k a, val s) |a s. s \<in> set segs \<and> a \<in> seg_addresses s}"
    using assms(1) by (rule block_values_cells)
  have ok: "adt_ok adt"
    and val: "\<And>b v a. (b, v) \<in> set (block_values k val segs) \<Longrightarrow> cell u d a = cell u d b \<Longrightarrow> adt_get adt a = v"
    and dfl: "\<And>a. (\<forall>(b, v) \<in> set (block_values k val segs). cell u d b \<noteq> cell u d a) \<Longrightarrow> adt_get adt a = dflt"
    using assms(3) by (auto simp: filled_def)
  show "adt_nth adt a = Inr (val s)" if "s \<in> set segs" "a \<in> seg_addresses s"
    using val [of "block_of k a" "val s" a] that by (auto simp: cells cell_block_of assms(2) adt_nth_ok ok)
  show "adt_nth adt a = Inr dflt" if "\<forall>s \<in> set segs. \<forall>b \<in> seg_addresses s. cell u d b \<noteq> cell u d a"
  proof -
    have "\<forall>(b, v) \<in> set (block_values k val segs). cell u d b \<noteq> cell u d a"
      using that by (auto simp: cells cell_block_of assms(2))
    from dfl [OF this] show ?thesis by (simp add: adt_nth_ok ok)
  qed
qed

lemma consistent_segments:
  assumes "\<And>s. s \<in> set segs \<Longrightarrow> seg_ok k s" and "k \<le> d"
  shows "consistent u d (block_values k val segs) \<longleftrightarrow>
    (\<forall>s \<in> set segs. \<forall>s' \<in> set segs. \<forall>a \<in> seg_addresses s. \<forall>a' \<in> seg_addresses s'.
       cell u d a = cell u d a' \<longrightarrow> val s = val s')"
proof -
  have cells: "set (block_values k val segs) = {(block_of k a, val s) |a s. s \<in> set segs \<and> a \<in> seg_addresses s}"
    using assms(1) by (rule block_values_cells)
  show ?thesis unfolding consistent_def cells by (fastforce simp: cell_block_of [OF assms(2)])
qed


section \<open>The invariant of a mapping table\<close>

text \<open>Two segments are coherent for the cacheability mask of \<open>u\<close> bits above \<open>d\<close> others.\<close>

definition coherent :: "nat \<Rightarrow> nat \<Rightarrow> segment \<Rightarrow> segment \<Rightarrow> bool" where
  "coherent u d s s' \<longleftrightarrow> (\<forall>a \<in> seg_addresses s. \<forall>a' \<in> seg_addresses s'.
     cell u d a = cell u d a' \<longrightarrow> cacheable s = cacheable s')"

definition disjoint_segments :: "segment \<Rightarrow> segment \<Rightarrow> bool" where
  "disjoint_segments s s' \<longleftrightarrow> seg_addresses s \<inter> seg_addresses s' = {}"

definition widths_ok :: "int_tab \<Rightarrow> bool" where
  "widths_ok t \<longleftrightarrow> int_tab_ok t \<and> (\<forall>w \<in> set (indices t). 0 \<le> w) \<and> sum_list (indices t) \<le> 32"

definition mt_ok :: "nat \<Rightarrow> nat \<Rightarrow> nat \<Rightarrow> mapping_table \<Rightarrow> bool" where
  "mt_ok k u d mt \<longleftrightarrow> m_rt_size mt = 2 ^ k \<and> m_cacheability_mask mt = contiguous u d \<and> 0 < u \<and> u < 31 \<and> u + d \<le> 32 \<and>
     k \<le> d \<and> widths_ok (m_level_addr_bits mt) \<and> sum_list (indices (m_level_addr_bits mt)) + int k \<le> int (m_addr_width mt) \<and>
     m_addr_width mt \<le> 32 \<and>
     (\<forall>s \<in> set (m_segment_list mt). seg_ok k s \<and> int_tab_ok (seg_index s) \<and>
        m_level (seg_index s) = m_level (m_level_addr_bits mt)) \<and>
     sorted_wrt disjoint_segments (m_segment_list mt) \<and> sorted_wrt (coherent u d) (m_segment_list mt)"

lemma sum_prefix_bounds:
  assumes "\<forall>w \<in> set ws. 0 \<le> w" and "sum_list ws \<le> (b :: int)"
  shows "0 \<le> sum_list (take n ws) \<and> sum_list (take n ws) \<le> b"
proof -
  have "sum_list ws = sum_list (take n ws) + sum_list (drop n ws)" by (metis append_take_drop_id sum_list_append)
  moreover have "0 \<le> sum_list (take n ws)" "0 \<le> sum_list (drop n ws)"
    using assms(1) by (auto intro!: sum_list_nonneg dest: in_set_takeD in_set_dropD)
  ultimately show ?thesis using assms(2) by linarith
qed

lemma take_indices_Suc:
  assumes "int_tab_ok t" and "n < m_level t"
  shows "take (Suc n) (indices t) = take n (indices t) @ [m_values t ! n]"
  using assms by (simp add: length_indices nth_indices take_Suc_conv_app_nth)

lemma int_tab_sum_eq:
  assumes "widths_ok t"
  shows "int_tab_sum t level = Inr (sum_list (take level (indices t)))"
proof -
  have ok: "int_tab_ok t" and nonneg: "\<forall>w \<in> set (indices t). 0 \<le> w" and le: "sum_list (indices t) \<le> 32"
    using assms by (simp_all add: widths_ok_def)
  have "foldr_result (\<lambda>i s. c_int (s + m_values t ! i)) [0..<n] 0 = Inr (sum_list (take n (indices t)))"
    if "n \<le> m_level t" for n
    using that
  proof (induction n)
    case (Suc n)
    have "0 \<le> sum_list (take (Suc n) (indices t)) \<and> sum_list (take (Suc n) (indices t)) \<le> 32"
      using sum_prefix_bounds [OF nonneg le] .
    moreover have "sum_list (take (Suc n) (indices t)) = sum_list (take n (indices t)) + m_values t ! n"
      using Suc.prems take_indices_Suc [OF ok] by simp
    ultimately show ?case using Suc by (simp add: foldr_result_append c_int_def)
  qed simp
  from this [of "min (m_level t) level"] show ?thesis
    by (simp add: int_tab_sum_def length_indices [OF ok] min_def)
qed

lemma and_contiguous_iff:
  "contiguous u d AND a = contiguous u d AND b \<longleftrightarrow> cell u d a = cell u d b"
proof -
  have "cell u d a = cell u d b \<longleftrightarrow> take_bit u (drop_bit d a) = take_bit u (drop_bit d b)"
    by (simp only: word_unat_eq_iff unat_drop_and_mask [symmetric] mask_eq_exp_minus_1 [symmetric] take_bit_eq_mask)
  also have "\<dots> \<longleftrightarrow> (\<forall>n<u. bit a (d + n) = bit b (d + n))"
  proof
    assume L: "take_bit u (drop_bit d a) = take_bit u (drop_bit d b)"
    show "\<forall>n<u. bit a (d + n) = bit b (d + n)"
    proof (intro allI impI)
      fix n assume "n < u"
      moreover have "bit (take_bit u (drop_bit d a)) n = bit (take_bit u (drop_bit d b)) n" by (simp only: L)
      ultimately show "bit a (d + n) = bit b (d + n)" by (simp only: bit_take_bit_iff bit_drop_bit_eq o_def simp_thms)
    qed
  next
    assume "\<forall>n<u. bit a (d + n) = bit b (d + n)"
    then show "take_bit u (drop_bit d a) = take_bit u (drop_bit d b)"
      by (intro bit_word_eqI) (auto simp: bit_take_bit_iff bit_drop_bit_eq)
  qed
  also have "\<dots> \<longleftrightarrow> contiguous u d AND a = contiguous u d AND b"
  proof
    assume L: "\<forall>n<u. bit a (d + n) = bit b (d + n)"
    have "bit a n = bit b n" if "d \<le> n" "n < d + u" for n
      using L [rule_format, of "n - d"] that by simp
    then show "contiguous u d AND a = contiguous u d AND b"
      by (auto simp: bit_eq_iff bit_and_iff bit_contiguous)
  next
    assume R: "contiguous u d AND a = contiguous u d AND b"
    show "\<forall>n<u. bit a (d + n) = bit b (d + n)"
    proof (intro allI impI)
      fix n assume "n < u"
      have "bit (contiguous u d AND a) (d + n) = bit (contiguous u d AND b) (d + n)" using R by simp
      with \<open>n < u\<close> show "bit a (d + n) = bit b (d + n)"
        using bit_imp_le_length [of a "d + n"] bit_imp_le_length [of b "d + n"]
        by (auto simp: bit_and_iff bit_contiguous)
    qed
  qed
  finally show ?thesis by simp
qed

section \<open>Construction and extension\<close>

lemma min_power2: "min (2 ^ a) (2 ^ b :: u32) = 2 ^ min a b" if "a < 32" "b < 32"
proof -
  have unat: "unat ((2 :: u32) ^ m) = 2 ^ m" if "m < 32" for m
  proof -
    have "(2 :: nat) ^ m < 2 ^ 32" using that by (intro power_strict_increasing) auto
    from unat_of_nat_u32 [OF this] show ?thesis by simp
  qed
  have "(2 :: u32) ^ m \<le> 2 ^ n" if "m \<le> n" "n < 32" for m n
    using that by (simp add: word_le_nat_alt unat)
  then show ?thesis using that by (cases "a \<le> b") (auto simp: min_def intro: antisym)
qed

lemma MappingTable_ok:
  assumes "widths_ok ab" and "addr_width \<le> 32" and "0 < sum_list (indices ab)" and "sum_list (indices ab) \<le> int addr_width"
    and "0 < u" and "u < 31" and "u + d \<le> 32"
  shows "\<exists>mt k. MappingTable addr_width ab ib (contiguous u d) = Inr mt \<and> mt_ok k u d mt \<and> m_segment_list mt = [] \<and>
    m_level_addr_bits mt = ab \<and> m_level_id_bits mt = ib \<and> m_addr_width mt = addr_width \<and>
    k = min d (nat (int addr_width - sum_list (indices ab)))"
proof -
  let ?n = "nat (int addr_width - sum_list (indices ab))"
  have ok: "int_tab_ok ab" using assms(1) by (simp add: widths_ok_def)
  then have "take s_max_level (indices ab) = indices ab"
    using length_indices [OF ok] by (simp add: int_tab_ok_def)
  then have sum: "int_tab_sum ab s_max_level = Inr (sum_list (indices ab))"
    using int_tab_sum_eq [OF assms(1), of s_max_level] by simp
  have amt: "AddressMaskingTable (contiguous u d) = Inr \<lparr>amt_use_bits = u, amt_drop_bits = d, amt_low_mask = 2 ^ u - 1\<rparr>"
    using AddressMaskingTable_run [OF mask_run_contiguous [of u d]] assms(5-7) by simp
  have n: "?n < 32" "shift_one (int addr_width - sum_list (indices ab)) = Inr (2 ^ ?n)"
    using assms(2-4) by (auto simp: shift_one_def)
  have d: "d < 32" "shift_one (int d) = Inr (2 ^ d)" using assms(5,7) by (simp_all add: shift_one_def)
  let ?mt = "\<lparr>m_segment_list = [], m_addr_width = addr_width, m_level_addr_bits = ab, m_level_id_bits = ib,
    m_cacheability_mask = contiguous u d, m_rt_size = min (2 ^ d) (2 ^ ?n)\<rparr>"
  have "MappingTable addr_width ab ib (contiguous u d) = Inr ?mt"
    unfolding MappingTable_def sum amt andthen_simps n(2) masking_table.simps d(2) ..
  moreover have "mt_ok (min d ?n) u d ?mt"
    using assms n(1) d(1) by (simp add: mt_ok_def min_power2)
  ultimately show ?thesis by (intro exI [of _ ?mt] exI [of _ "min d ?n"]) simp
qed

lemma foldr_result_search:
  "foldr_result (\<lambda>x _. if Q x then Inl e else Inr ()) xs () = (if \<exists>x \<in> set xs. Q x then Inl e else Inr ())"
  by (induction xs) auto

lemma cacheability_check:
  assumes "seg_ok k s" and "seg_ok k seg" and "k \<le> d"
  shows "for_blocks (2 ^ k) s (\<lambda>address _. for_blocks (2 ^ k) seg (\<lambda>segaddress _.
      if contiguous u d AND address = contiguous u d AND segaddress \<and> cacheable s \<noteq> cacheable seg
      then Inl RunTimeError else Inr ()) ()) () = (if coherent u d s seg then Inr () else Inl RunTimeError)"
proof -
  have "(\<exists>x \<in> set (blocks k s). \<exists>y \<in> set (blocks k seg). cell u d x = cell u d y \<and> cacheable s \<noteq> cacheable seg) \<longleftrightarrow>
      \<not> coherent u d s seg"
    by (auto simp: set_blocks [OF assms(1)] set_blocks [OF assms(2)] coherent_def cell_block_of [OF assms(3)])
  then show ?thesis
    by (simp add: for_blocks_eq assms(1,2) foldr_result_search and_contiguous_iff)
qed

text \<open>\<open>add\<close> looks at the segments one after the other.\<close>

definition add_check :: "nat \<Rightarrow> nat \<Rightarrow> segment \<Rightarrow> segment \<Rightarrow> unit result" where
  "add_check u d seg s = (if \<not> disjoint_segments s seg then Inl Collision
     else if \<not> coherent u d s seg then Inl RunTimeError else Inr ())"

lemma add_eq:
  assumes "mt_ok k u d mt" and "seg_ok k seg"
  shows "add seg mt =
    (if m_level (seg_index seg) \<noteq> m_level (m_level_addr_bits mt) then Inl ValueError
     else andthen (foldr_result (\<lambda>s _. add_check u d seg s) (m_segment_list mt) ())
       (\<lambda>_. Inr (mt\<lparr>m_segment_list := m_segment_list mt @ [seg]\<rparr>)))"
proof -
  have mt: "m_rt_size mt = 2 ^ k" "m_cacheability_mask mt = contiguous u d" "k \<le> d"
      "\<And>s. s \<in> set (m_segment_list mt) \<Longrightarrow> seg_ok k s"
    using assms(1) by (auto simp: mt_ok_def)
  have "foldr_result (\<lambda>s _.
           if isOverlapping s seg then Inl Collision
           else for_blocks (m_rt_size mt) s (\<lambda>address _.
             for_blocks (m_rt_size mt) seg (\<lambda>segaddress _.
               if m_cacheability_mask mt AND address = m_cacheability_mask mt AND segaddress \<and>
                  cacheable s \<noteq> cacheable seg
               then Inl RunTimeError else Inr ()) ()) ()) (m_segment_list mt) ()
      = foldr_result (\<lambda>s _. add_check u d seg s) (m_segment_list mt) ()"
    using isOverlapping_iff [OF seg_ok_fits [OF mt(4)] seg_ok_fits [OF assms(2)]] cacheability_check [OF mt(4) assms(2) mt(3)]
    by (intro foldr_result_cong) (simp add: mt(1,2) add_check_def disjoint_segments_def)
  then show ?thesis by (simp add: add_def)
qed

lemma add_checks_Inr:
  "foldr_result (\<lambda>s _. add_check u d seg s) ss () = Inr () \<longleftrightarrow> (\<forall>s \<in> set ss. disjoint_segments s seg \<and> coherent u d s seg)"
  by (induction ss) (auto simp: add_check_def)

lemma add_checks_Inl:
  "foldr_result (\<lambda>s _. add_check u d seg s) ss () = Inl e \<Longrightarrow> e = Collision \<or> e = RunTimeError"
  by (induction ss) (auto simp: add_check_def split: if_splits)


section \<open>Properties\<close>

lemma add_Inr_iff:
  assumes "mt_ok k u d mt" and "seg_ok k seg"
  shows "add seg mt = Inr mt' \<longleftrightarrow> m_level (seg_index seg) = m_level (m_level_addr_bits mt) \<and>
    (\<forall>s \<in> set (m_segment_list mt). disjoint_segments s seg \<and> coherent u d s seg) \<and>
    mt' = mt\<lparr>m_segment_list := m_segment_list mt @ [seg]\<rparr>"
  using add_checks_Inr [of u d seg "m_segment_list mt"]
  by (cases "foldr_result (\<lambda>s _. add_check u d seg s) (m_segment_list mt) ()") (auto simp: add_eq [OF assms])

lemma add_ok:
  assumes "mt_ok k u d mt" and "seg_ok k seg" and "int_tab_ok (seg_index seg)" and "add seg mt = Inr mt'"
  shows "mt_ok k u d mt'"
  using assms(1,2,3) assms(4) [unfolded add_Inr_iff [OF assms(1,2)]]
  by (auto simp: mt_ok_def sorted_wrt_append)

text \<open>A segment that reaches from the first block to the last one is only ever compared with the first segment of
  the table.\<close>

lemma add_all_blocks:
  assumes "mt_ok k u d mt" and "seg_fits seg" and "all_blocks k seg"
  shows "add seg mt =
    (if m_level (seg_index seg) \<noteq> m_level (m_level_addr_bits mt) then Inl ValueError
     else case m_segment_list mt of [] \<Rightarrow> Inr (mt\<lparr>m_segment_list := [seg]\<rparr>)
       | s # _ \<Rightarrow> if seg_addresses s \<inter> seg_addresses seg \<noteq> {} then Inl Collision
         else if cacheable s \<noteq> cacheable seg then Inl RunTimeError else Inl Endless)"
proof (cases "m_segment_list mt")
  case Nil
  then show ?thesis by (simp add: add_def)
next
  case (Cons s ss)
  have k: "m_rt_size mt = 2 ^ k" "k < 32" and s: "seg_ok k s" using assms(1) Cons by (auto simp: mt_ok_def)
  let ?Q = "\<lambda>x y. m_cacheability_mask mt AND x = m_cacheability_mask mt AND y \<and> cacheable s \<noteq> cacheable seg"
  let ?inner = "\<lambda>x. for_blocks (2 ^ k) seg (\<lambda>y _. if ?Q x y then Inl RunTimeError else Inr ()) ()"
  have inner: "?inner x = (if cacheable s \<noteq> cacheable seg then Inl RunTimeError else Inl Endless)" if "2 ^ k dvd unat x" for x
  proof (cases "cacheable s \<noteq> cacheable seg")
    case True
    then show ?thesis using for_blocks_throws [OF assms(2,3) k(2) that, of "?Q x" RunTimeError] by simp
  next
    case False
    then show ?thesis using for_blocks_endless [OF assms(2,3) k(2), of "\<lambda>_ _. Inr ()" "()"] by simp
  qed
  have "unat (of_nat (seg_lo s) :: u32) = seg_lo s" using seg_ok_bounds(2) [OF s] by (rule unat_of_nat_u32)
  then have "of_nat (seg_lo s) \<in> seg_addresses s" using seg_ok_bounds(1) [OF s] by (simp add: seg_addresses_def)
  then have "block_of k (of_nat (seg_lo s)) \<in> set (blocks k s)" by (simp add: set_blocks [OF s])
  then obtain x xs where xs: "blocks k s = x # xs" by (cases "blocks k s") auto
  then have "x \<in> block_of k ` seg_addresses s" using set_blocks [OF s] by auto
  then have "2 ^ k dvd unat x" by (auto simp: unat_block_of)
  note first = inner [OF this]
  have "for_blocks (2 ^ k) s (\<lambda>x _. ?inner x) () = (if cacheable s \<noteq> cacheable seg then Inl RunTimeError else Inl Endless)"
    unfolding for_blocks_eq [OF s] xs using first by simp
  then show ?thesis
    using isOverlapping_iff [OF seg_ok_fits [OF s] assms(2)] by (simp add: add_def Cons k(1))
qed

text \<open>Two adjacent segments on which \<open>add\<close> does not return: the last word of the address space, and all the rest.\<close>

lemma add_adjacent_endless:
  assumes "mt_ok k u d mt" and "3 \<le> k" and "m_segment_list mt = [s]" and "seg_lo s = 2 ^ 32 - 4"
    and "baseAddress seg = 0" and "seg_size seg = 2 ^ 32 - 4"
    and "m_level (seg_index seg) = m_level (m_level_addr_bits mt)" and "cacheable seg = cacheable s"
  shows "add seg mt = Inl Endless"
proof -
  have "(2 :: nat) ^ 3 \<le> 2 ^ k" using assms(2) by (intro power_increasing) auto
  then have "seg_fits seg" "all_blocks k seg" using assms(5,6) by (simp_all add: seg_fits_def all_blocks_def seg_lo_def seg_hi_def)
  moreover have "seg_addresses s \<inter> seg_addresses seg = {}"
    using assms(4-6) by (auto simp: seg_addresses_def seg_lo_def seg_hi_def)
  ultimately show ?thesis using add_all_blocks [OF assms(1)] assms(3,7,8) by simp
qed

text \<open>C7. \<open>MappingTable::add\<close> on a well-formed table whose blocks have \<open>2 ^ k\<close> bytes, for every non-empty
  segment below 4 GB. Unless the segment reaches from the first block of the address space to the last one,
  \<open>add\<close> returns and decides exactly: it accepts a segment if and only if its index has the level of the
  table, it shares no address with a segment of the table, and no segment with the same bits under the
  cacheability mask has another cacheability attribute; it then appends the segment, and the table stays
  well-formed. Otherwise it throws \<open>ValueError\<close>, \<open>Collision\<close> or \<open>RunTimeError\<close>. A segment that does reach from
  the first block to the last one is rejected for its level, appended to an empty table, rejected if it
  overlaps the first segment of the table or has another attribute, and in the remaining case \<open>add\<close> does not
  return: the 32-bit address of its inner loop wraps around for ever.\<close>

theorem add_correct:
  assumes "mt_ok k u d mt" and "seg_size seg \<noteq> 0" and "seg_hi seg \<le> 2 ^ 32" and "int_tab_ok (seg_index seg)"
  shows "if 2 ^ k \<le> seg_lo seg \<or> seg_hi seg \<le> 2 ^ 32 - 2 ^ k then
    (case add seg mt of
      Inr mt' \<Rightarrow> mt_ok k u d mt' \<and> m_segment_list mt' = m_segment_list mt @ [seg]
    | Inl e \<Rightarrow> e = ValueError \<or> e = Collision \<or> e = RunTimeError) \<and>
    ((\<exists>mt'. add seg mt = Inr mt') \<longleftrightarrow> m_level (seg_index seg) = m_level (m_level_addr_bits mt) \<and>
      (\<forall>s \<in> set (m_segment_list mt). seg_addresses s \<inter> seg_addresses seg = {} \<and>
        (\<forall>a \<in> seg_addresses s. \<forall>b \<in> seg_addresses seg.
           m_cacheability_mask mt AND a = m_cacheability_mask mt AND b \<longrightarrow> cacheable s = cacheable seg)))
   else add seg mt =
    (if m_level (seg_index seg) \<noteq> m_level (m_level_addr_bits mt) then Inl ValueError
     else case m_segment_list mt of [] \<Rightarrow> Inr (mt\<lparr>m_segment_list := [seg]\<rparr>)
       | s # _ \<Rightarrow> if seg_addresses s \<inter> seg_addresses seg \<noteq> {} then Inl Collision
         else if cacheable s \<noteq> cacheable seg then Inl RunTimeError else Inl Endless)"
proof (cases "all_blocks k seg")
  case True
  then show ?thesis using add_all_blocks [OF assms(1) _ True] assms(2,3) by (simp add: seg_fits_def all_blocks_def)
next
  case False
  have m: "m_cacheability_mask mt = contiguous u d" and "k < 32" using assms(1) by (auto simp: mt_ok_def)
  then have ok: "seg_ok k seg" using assms(2,3) False by (simp add: seg_ok_iff seg_fits_def)
  have "case add seg mt of
      Inr mt' \<Rightarrow> mt_ok k u d mt' \<and> m_segment_list mt' = m_segment_list mt @ [seg]
    | Inl e \<Rightarrow> e = ValueError \<or> e = Collision \<or> e = RunTimeError"
  proof (cases "add seg mt")
    case (Inl e)
    then show ?thesis
      using add_checks_Inl [of u d seg "m_segment_list mt" e]
      by (auto simp: add_eq [OF assms(1) ok] andthen_def split: sum.splits if_splits)
  next
    case (Inr mt')
    then have "m_segment_list mt' = m_segment_list mt @ [seg]" by (simp add: add_Inr_iff [OF assms(1) ok])
    with add_ok [OF assms(1) ok assms(4) Inr] Inr show ?thesis by simp
  qed
  moreover have "(\<exists>mt'. add seg mt = Inr mt') \<longleftrightarrow> m_level (seg_index seg) = m_level (m_level_addr_bits mt) \<and>
      (\<forall>s \<in> set (m_segment_list mt). seg_addresses s \<inter> seg_addresses seg = {} \<and>
        (\<forall>a \<in> seg_addresses s. \<forall>b \<in> seg_addresses seg.
           m_cacheability_mask mt AND a = m_cacheability_mask mt AND b \<longrightarrow> cacheable s = cacheable seg))"
    by (simp add: add_Inr_iff [OF assms(1) ok] disjoint_segments_def coherent_def m and_contiguous_iff)
  ultimately show ?thesis using False by (simp add: all_blocks_def not_less)
qed

lemma mt_ok_pair:
  assumes "mt_ok k u d mt" and "s \<in> set (m_segment_list mt)" and "s' \<in> set (m_segment_list mt)"
    and "a \<in> seg_addresses s" and "a' \<in> seg_addresses s'" and "cell u d a = cell u d a'"
  shows "cacheable s = cacheable s'"
proof -
  obtain i j where ij: "i < length (m_segment_list mt)" "j < length (m_segment_list mt)"
      "s = m_segment_list mt ! i" "s' = m_segment_list mt ! j"
    using assms(2,3) by (auto simp: in_set_conv_nth)
  have "sorted_wrt (coherent u d) (m_segment_list mt)" using assms(1) by (simp add: mt_ok_def)
  note coh = sorted_wrt_nth_less [OF this]
  consider "i < j" | "j < i" | "i = j" by linarith
  then show ?thesis
  proof cases
    case 1
    with coh [of i j] ij assms(4-6) show ?thesis by (auto simp: coherent_def)
  next
    case 2
    with coh [of j i] ij assms(4-6) show ?thesis by (fastforce simp: coherent_def)
  qed (use ij in simp)
qed

lemma getCacheabilityTable_run:
  assumes "mt_ok k u d mt"
  shows "\<exists>t. getCacheabilityTable mt = Inr t \<and>
    (\<forall>s \<in> set (m_segment_list mt). \<forall>a \<in> seg_addresses s. adt_nth t a = Inr (cacheable s))"
proof -
  let ?segs = "m_segment_list mt"
  let ?t = "\<lparr>adt_use_bits = u, adt_drop_bits = d, adt_low_mask = 2 ^ u - 1, adt_table = replicate (2 ^ u) None\<rparr>"
  have mt: "m_rt_size mt = 2 ^ k" "m_cacheability_mask mt = contiguous u d" "0 < u" "u < 31" "u + d \<le> 32" "k \<le> d"
    and segs: "\<And>s. s \<in> set ?segs \<Longrightarrow> seg_ok k s"
    using assms by (auto simp: mt_ok_def)
  have adt: "AddressDecodingTable (contiguous u d) = Inr ?t" for type :: bool
    using AddressDecodingTable_run [OF mask_run_contiguous [OF mt(3,5)]] mt(4) by simp
  have start: "filled u d False [] (adt_reset False ?t, adt_reset False ?t)"
    using mt by (intro filled_start)
      (simp_all add: adt_ok_def adt_reset_def adt_get_def cell_less image_iff)
  have "consistent u d (block_values k cacheable ?segs)"
    using consistent_segments [OF segs mt(6)] mt_ok_pair [OF assms] by blast
  then obtain t don where run: "foldr_result (\<lambda>s. for_blocks (2 ^ k) s (fill_cell (cacheable s))) ?segs
        (adt_reset False ?t, adt_reset False ?t) = Inr (t, don)"
      and fl: "filled u d False (block_values k cacheable ?segs) (t, don)"
    using fill_segments [OF segs start, of ?segs cacheable] by auto
  from filled_segments(1) [OF segs mt(6) fl] run show ?thesis
    by (intro exI [of _ t]) (simp add: getCacheabilityTable_def mt(1,2) adt)
qed

text \<open>\<open>getCacheabilityTable\<close> never throws on a table built by \<open>add\<close>: the check at insertion is enough. The table
  it returns gives, for every address of every segment, the cacheability attribute of that segment.\<close>

theorem cacheability_table_correct:
  assumes "mt_ok k u d mt"
  shows "\<exists>t. getCacheabilityTable mt = Inr t \<and>
    (\<forall>s \<in> set (m_segment_list mt). \<forall>a \<in> seg_addresses s. adt_nth t a = Inr (cacheable s))"
  by (rule getCacheabilityTable_run [OF assms])


text \<open>The bits that a routing table at some level decodes.\<close>

definition routing_bits :: "mapping_table \<Rightarrow> nat \<Rightarrow> nat" where
  "routing_bits mt l = nat (indices (m_level_addr_bits mt) ! l)"

definition routing_drop :: "mapping_table \<Rightarrow> nat \<Rightarrow> nat" where
  "routing_drop mt l = nat (int (m_addr_width mt) - sum_list (take (Suc l) (indices (m_level_addr_bits mt))))"

lemma routing_start:
  assumes "mt_ok k u d mt" and "l < m_level (m_level_addr_bits mt)" and "routing_bits mt l < 31" "routing_drop mt l < 32"
  shows "\<exists>t :: 'o decoding_table.
    andthen (int_tab_sum (m_level_addr_bits mt) l) (\<lambda>before. andthen (int_tab_nth (m_level_addr_bits mt) l) (\<lambda>at.
      K at (int (m_addr_width mt) - at - before))) = K (int (routing_bits mt l)) (int (routing_drop mt l)) \<and>
    adt_of (int (routing_bits mt l)) (int (routing_drop mt l)) = Inr t \<and> adt_ok (adt_reset v t) \<and>
    adt_use_bits (adt_reset v t) = routing_bits mt l \<and> adt_drop_bits (adt_reset v t) = routing_drop mt l \<and>
    (\<forall>a. adt_get (adt_reset v t) a = v)"
  and "k \<le> routing_drop mt l"
proof -
  let ?ab = "m_level_addr_bits mt"
  have w: "widths_ok ?ab" and ok: "int_tab_ok ?ab" and nonneg: "\<forall>w \<in> set (indices ?ab). 0 \<le> w"
    and sum: "sum_list (indices ?ab) + int k \<le> int (m_addr_width mt)"
    using assms(1) by (auto simp: mt_ok_def widths_ok_def)
  have at: "int_tab_nth ?ab l = Inr (indices ?ab ! l)" "0 \<le> indices ?ab ! l"
    using assms(2) nth_indices [OF ok] nonneg length_indices [OF ok] by (auto simp: int_tab_nth_def)
  have "sum_list (take (Suc l) (indices ?ab)) \<le> sum_list (indices ?ab)"
    using sum_prefix_bounds [OF nonneg, of "sum_list (indices ?ab)" "Suc l"] by simp
  then have drp: "int (routing_drop mt l) = int (m_addr_width mt) - sum_list (take (Suc l) (indices ?ab))"
    and k: "k \<le> routing_drop mt l"
    using sum by (auto simp: routing_drop_def)
  have split: "sum_list (take (Suc l) (indices ?ab)) = sum_list (take l (indices ?ab)) + indices ?ab ! l"
    using assms(2) take_indices_Suc [OF ok] nth_indices [OF ok] by simp
  obtain t :: "'o decoding_table" where t: "adt_init (routing_bits mt l) (routing_drop mt l) = Inr t"
      "adt_ok (adt_reset v t)" "adt_use_bits (adt_reset v t) = routing_bits mt l"
      "adt_drop_bits (adt_reset v t) = routing_drop mt l" "\<forall>a. adt_get (adt_reset v t) a = v"
    using adt_init_reset [OF assms(3,4), of v] by (elim exE conjE) (rule that)
  have "andthen (int_tab_sum ?ab l) (\<lambda>before. andthen (int_tab_nth ?ab l) (\<lambda>at.
      K at (int (m_addr_width mt) - at - before))) = K (int (routing_bits mt l)) (int (routing_drop mt l))"
  proof -
    have "int (m_addr_width mt) - indices ?ab ! l - sum_list (take l (indices ?ab)) = int (routing_drop mt l)"
      using drp split by linarith
    moreover have "indices ?ab ! l = int (routing_bits mt l)" using at(2) by (simp add: routing_bits_def)
    ultimately show ?thesis by (simp only: int_tab_sum_eq [OF w] at(1) andthen_simps)
  qed
  with t show "\<exists>t :: 'o decoding_table.
    andthen (int_tab_sum ?ab l) (\<lambda>before. andthen (int_tab_nth ?ab l) (\<lambda>at.
      K at (int (m_addr_width mt) - at - before))) = K (int (routing_bits mt l)) (int (routing_drop mt l)) \<and>
    adt_of (int (routing_bits mt l)) (int (routing_drop mt l)) = Inr t \<and> adt_ok (adt_reset v t) \<and>
    adt_use_bits (adt_reset v t) = routing_bits mt l \<and> adt_drop_bits (adt_reset v t) = routing_drop mt l \<and>
    (\<forall>a. adt_get (adt_reset v t) a = v)"
    by (intro exI [of _ t]) (simp add: adt_of_def)
  show "k \<le> routing_drop mt l" by (rule k)
qed

lemma foldr_result_filter:
  "foldr_result (\<lambda>x s. if \<not> Q x then Inr s else f x s) xs s = foldr_result f (filter Q xs) s"
proof (induction xs arbitrary: s)
  case (Cons x xs)
  then have "foldr_result (\<lambda>x s. if \<not> Q x then Inr s else f x s) xs = foldr_result f (filter Q xs)" by (rule ext)
  then show ?case by simp
qed simp

text \<open>The run of \<open>getRoutingTable\<close>: it fills the table with the targets of the segments of the cluster.\<close>

lemma getRoutingTable_run:
  assumes "mt_ok k u d mt" and "int_tab_ok index" and "m_level index < m_level (m_level_addr_bits mt)"
    and "routing_bits mt (m_level index) < 31" and "routing_drop mt (m_level index) < 32"
  defines "segs \<equiv> filter (\<lambda>s. idMatches (seg_index s) index) (m_segment_list mt)"
    and "target \<equiv> \<lambda>s. indices (seg_index s) ! m_level index"
    and "bits \<equiv> routing_bits mt (m_level index)" and "below \<equiv> routing_drop mt (m_level index)"
  shows "if consistent bits below (block_values k target segs)
    then \<exists>t don. getRoutingTable mt index dflt = Inr t \<and> filled bits below dflt (block_values k target segs) (t, don)
    else getRoutingTable mt index dflt = Inl RunTimeError"
proof -
  let ?l = "m_level index" and ?ab = "m_level_addr_bits mt"
  let ?u = "routing_bits mt ?l" and ?d = "routing_drop mt ?l"
  have mt: "m_rt_size mt = 2 ^ k" and segs: "\<And>s. s \<in> set segs \<Longrightarrow> seg_ok k s"
      "\<And>s. s \<in> set segs \<Longrightarrow> int_tab_nth (seg_index s) ?l = Inr (target s)"
    using assms(1,3) nth_indices by (auto simp: mt_ok_def segs_def target_def int_tab_nth_def)
  define fillers where "fillers = foldr_result (\<lambda>i st.
         if \<not> idMatches (seg_index i) index then Inr st
         else for_blocks (m_rt_size mt) i (\<lambda>addr st.
           andthen (int_tab_nth (seg_index i) (m_level index)) (\<lambda>val. fill_cell val addr st)) st)
       (m_segment_list mt)"
  have fillers: "fillers st = foldr_result (\<lambda>s. for_blocks (2 ^ k) s (fill_cell (target s))) segs st" for st
    unfolding fillers_def foldr_result_filter mt segs_def [symmetric]
    by (rule foldr_result_cong) (simp add: segs(2))
  define K where "K at dr = andthen (adt_of at dr) (\<lambda>adt. andthen (adt_of at dr) (\<lambda>done.
     andthen (fillers (adt_reset dflt adt, adt_reset False done)) (\<lambda>(adt, done). Inr adt)))" for at dr
  obtain t1 :: "int decoding_table" where t1: "getRoutingTable mt index dflt = K (int ?u) (int ?d)"
      "adt_of (int ?u) (int ?d) = Inr t1" "adt_ok (adt_reset dflt t1)" "adt_use_bits (adt_reset dflt t1) = ?u"
      "adt_drop_bits (adt_reset dflt t1) = ?d" "\<forall>a. adt_get (adt_reset dflt t1) a = dflt"
    using routing_start(1) [OF assms(1,3-5), where K = K and v = dflt]
    by (auto simp: getRoutingTable_def K_def fillers_def)
  obtain t2 :: "bool decoding_table" where t2: "adt_of (int ?u) (int ?d) = Inr t2" "adt_ok (adt_reset False t2)"
      "adt_use_bits (adt_reset False t2) = ?u" "adt_drop_bits (adt_reset False t2) = ?d"
      "\<forall>a. adt_get (adt_reset False t2) a = False"
    using routing_start(1) [OF assms(1,3-5), where K = K and v = False] by auto
  have kd: "k \<le> ?d" by (rule routing_start(2) [OF assms(1,3-5)])
  have start: "filled ?u ?d dflt [] (adt_reset dflt t1, adt_reset False t2)"
    using t1 t2 by (intro filled_start) auto
  have run: "getRoutingTable mt index dflt = andthen (foldr_result (\<lambda>s. for_blocks (2 ^ k) s (fill_cell (target s))) segs
      (adt_reset dflt t1, adt_reset False t2)) (\<lambda>(adt, done). Inr adt)"
    by (simp add: t1(1) K_def t1(2) t2(1) fillers)
  show ?thesis
    using fill_segments [where segs = segs and val = target, OF segs(1) start] run
    by (auto simp: bits_def below_def split: if_splits)
qed


section \<open>Component identifiers\<close>

text \<open>The number that concatenates the first \<open>l\<close> indices, and the bits below an index.\<close>

primrec concat_bits :: "(nat \<Rightarrow> nat) \<Rightarrow> (nat \<Rightarrow> nat) \<Rightarrow> nat \<Rightarrow> nat" where
  "concat_bits x w 0 = 0"
| "concat_bits x w (Suc l) = concat_bits x w l * 2 ^ w l + x l"

lemma concat_bits_less:
  assumes "\<forall>i<l. x i < 2 ^ w i"
  shows "concat_bits x w l < 2 ^ sum w {..<l}"
  using assms
proof (induction l)
  case (Suc l)
  then have "concat_bits x w l + 1 \<le> 2 ^ sum w {..<l}" "x l < 2 ^ w l" by auto
  then have "(concat_bits x w l + 1) * 2 ^ w l \<le> 2 ^ sum w {..<l} * 2 ^ w l" by (intro mult_right_mono) auto
  with \<open>x l < 2 ^ w l\<close> show ?case by (simp add: power_add algebra_simps)
qed simp

lemma concat_bits_select:
  assumes "\<forall>i<n. x i < 2 ^ w i" and "l < n"
  shows "concat_bits x w n div 2 ^ sum w {Suc l..<n} mod 2 ^ w l = x l"
proof -
  have "concat_bits x w n div 2 ^ sum w {Suc l..<n} = concat_bits x w (Suc l)"
    using assms
  proof (induction n)
    case (Suc n)
    show ?case
    proof (cases "l = n")
      case False
      then have "l < n" using Suc.prems by simp
      have "x n < 2 ^ w n" using Suc.prems by simp
      then have "concat_bits x w (Suc n) div 2 ^ w n = concat_bits x w n" by simp
      moreover have "sum w {Suc l..<Suc n} = w n + sum w {Suc l..<n}" using \<open>l < n\<close> by simp
      ultimately have "concat_bits x w (Suc n) div 2 ^ sum w {Suc l..<Suc n} = concat_bits x w n div 2 ^ sum w {Suc l..<n}"
        by (simp only: power_add div_mult2_eq)
      with Suc \<open>l < n\<close> show ?thesis by simp
    qed simp
  qed simp
  with assms show ?thesis by simp
qed

lemma widths_nat:
  assumes "widths_ok ib" and "l \<le> m_level ib"
  shows "sum_list (take l (indices ib)) = int (\<Sum>i<l. nat (indices ib ! i))"
  using assms(2)
proof (induction l)
  case (Suc l)
  have ok: "int_tab_ok ib" and "0 \<le> indices ib ! l"
    using assms(1) Suc.prems length_indices [of ib] by (auto simp: widths_ok_def)
  with Suc take_indices_Suc [OF ok, of l] nth_indices [OF ok, of l] show ?case by simp
qed simp

lemma int_tab_mult_eq:
  fixes ib index :: int_tab
  defines "w \<equiv> \<lambda>l. nat (indices ib ! l)" and "x \<equiv> \<lambda>l. nat (indices index ! l)"
  assumes "widths_ok ib" and "sum_list (indices ib) < 31" and "int_tab_ok index" and "m_level index = m_level ib"
    and "\<forall>l<m_level ib. 0 \<le> indices index ! l \<and> indices index ! l < 2 ^ w l"
  shows "int_tab_mult index ib = Inr (int (concat_bits x w (m_level ib)))"
    and "concat_bits x w (m_level ib) < 2 ^ 31"
proof -
  have ok: "int_tab_ok ib" and nonneg: "\<forall>v \<in> set (indices ib). 0 \<le> v" using assms(3) by (simp_all add: widths_ok_def)
  have xw: "\<forall>i<l. x i < 2 ^ w i" if "l \<le> m_level ib" for l
  proof (intro allI impI)
    fix i assume "i < l"
    then have "0 \<le> indices index ! i" "indices index ! i < 2 ^ w i" using assms(7) that by auto
    then show "x i < 2 ^ w i" by (simp add: x_def nat_less_iff)
  qed
  have sum: "sum w {..<l} < 31" if "l \<le> m_level ib" for l
    using widths_nat [OF assms(3) that] sum_prefix_bounds [OF nonneg, of 30 l] assms(4) unfolding w_def by linarith
  have small: "concat_bits x w l < 2 ^ 31" if "l \<le> m_level ib" for l
  proof -
    have "concat_bits x w l < 2 ^ sum w {..<l}" by (rule concat_bits_less [OF xw [OF that]])
    also have "\<dots> \<le> 2 ^ 31" using sum [OF that] by (intro power_increasing) auto
    finally show ?thesis .
  qed
  let ?f = "\<lambda>l ret. andthen (int_tab_nth ib l) (\<lambda>w. andthen (c_shl ret w) (\<lambda>ret. c_int (ret + m_values index ! l)))"
  have "foldr_result ?f [0..<l] 0 = Inr (int (concat_bits x w l))" if "l \<le> m_level ib" for l
    using that
  proof (induction l)
    case (Suc l)
    have l: "l < m_level ib" using Suc.prems by simp
    have nth: "int_tab_nth ib l = Inr (int (w l))" "m_values index ! l = int (x l)"
      using l nth_indices [OF ok] nth_indices [OF assms(5)] nonneg length_indices [OF ok] assms(6,7)
      by (auto simp: int_tab_nth_def w_def x_def)
    have "w l \<le> sum w {..<Suc l}" by simp
    then have wl: "w l < 32" using sum [OF Suc.prems] by linarith
    have "int (concat_bits x w (Suc l)) < int (2 ^ 31)" unfolding of_nat_less_iff by (rule small [OF Suc.prems])
    then have lt: "int (concat_bits x w l) * 2 ^ w l + int (x l) < 2 ^ 31" by simp
    then have "int (concat_bits x w l) * 2 ^ w l < 2 ^ 31" by simp
    then have "c_shl (int (concat_bits x w l)) (int (w l)) = Inr (int (concat_bits x w l) * 2 ^ w l)"
      using wl by (simp add: c_shl_def c_int_def) (smt (verit) zero_le_power mult_nonneg_nonneg of_nat_0_le_iff)
    moreover have "c_int (int (concat_bits x w l) * 2 ^ w l + int (x l)) = Inr (int (concat_bits x w l) * 2 ^ w l + int (x l))"
      using lt by (simp add: c_int_def) (smt (verit) zero_le_power mult_nonneg_nonneg of_nat_0_le_iff)
    ultimately show ?case using Suc l by (simp add: foldr_result_append nth)
  qed simp
  then show "int_tab_mult index ib = Inr (int (concat_bits x w (m_level ib)))"
    by (simp add: int_tab_mult_def assms(6))
  show "concat_bits x w (m_level ib) < 2 ^ 31" by (rule small) simp
qed

lemma getIdMaskingTable_eq:
  fixes ib :: int_tab
  defines "w \<equiv> \<lambda>l. nat (indices ib ! l)"
  assumes "widths_ok ib" and "sum_list (indices ib) < 31" and "l < m_level ib" and "m_level_id_bits mt = ib"
  shows "getIdMaskingTable mt l = Inr \<lparr>amt_use_bits = w l, amt_drop_bits = sum w {Suc l..<m_level ib}, amt_low_mask = 2 ^ w l - 1\<rparr>"
proof -
  have ok: "int_tab_ok ib" and nonneg: "\<forall>v \<in> set (indices ib). 0 \<le> v" using assms(2) by (simp_all add: widths_ok_def)
  have nth: "int_tab_nth ib i = Inr (int (w i))" if "i < m_level ib" for i
    using that nth_indices [OF ok] nonneg length_indices [OF ok] by (auto simp: int_tab_nth_def w_def)
  have tot: "sum w {..<m_level ib} < 31"
  proof -
    have "take (m_level ib) (indices ib) = indices ib" using length_indices [OF ok] by simp
    then have "int (\<Sum>i<m_level ib. nat (indices ib ! i)) < 31"
      using widths_nat [OF assms(2) order_refl] assms(3) by (simp only:)
    then show ?thesis unfolding w_def by linarith
  qed
  have part: "sum w A < 31" if "A \<subseteq> {..<m_level ib}" for A
    using sum_mono2 [OF _ that, of w] tot by simp
  have "foldr_result (\<lambda>i drop_bits. andthen (int_tab_nth ib i) (\<lambda>w. c_int (drop_bits + w))) [Suc l..<n] 0
      = Inr (int (sum w {Suc l..<n}))" if "Suc l \<le> n" "n \<le> m_level ib" for n
    using that
  proof (induction n)
    case (Suc n)
    show ?case
    proof (cases "Suc l \<le> n")
      case True
      have eq: "int (sum w {Suc l..<n}) + int (w n) = int (sum w {Suc l..<Suc n})" using True by (simp del: of_nat_sum)
      have "sum w {Suc l..<Suc n} < 31" using Suc.prems by (intro part) auto
      then have "c_int (int (sum w {Suc l..<n}) + int (w n)) = Inr (int (sum w {Suc l..<Suc n}))"
        unfolding eq by (simp add: c_int_def del: of_nat_sum)
      with Suc True show ?thesis by (simp add: foldr_result_append nth del: of_nat_sum)
    qed (use Suc.prems in simp)
  qed simp
  from this [of "m_level ib"] assms(4) part [of "{l}"] show ?thesis
    by (simp add: getIdMaskingTable_def assms(5) nth amt_init_def low_mask_of_def del: of_nat_sum)
qed

text \<open>Component identifiers decode: \<open>indexForId\<close> concatenates the indices of a component, and at every level the
  table of \<open>getIdMaskingTable\<close> reads its index back, provided each index fits its width and the widths sum up
  to less than 31 bits.\<close>

theorem component_id_roundtrip:
  assumes "m_level_id_bits mt = ib" and "widths_ok ib" and "sum_list (indices ib) < 31" and "int_tab_ok index"
    and "m_level index = m_level ib" and "\<forall>l<m_level ib. 0 \<le> indices index ! l \<and> indices index ! l < 2 ^ nat (indices ib ! l)"
  shows "\<exists>id. indexForId mt index = Inr id \<and> (\<forall>l<m_level ib. \<exists>t. getIdMaskingTable mt l = Inr t \<and>
    int (unat (amt_nth t id)) = indices index ! l)"
proof -
  let ?w = "\<lambda>l. nat (indices ib ! l)" and ?x = "\<lambda>l. nat (indices index ! l)"
  let ?c = "concat_bits ?x ?w (m_level ib)"
  note mult = int_tab_mult_eq [OF assms(2-6)]
  have id: "indexForId mt index = Inr (of_nat ?c)" using mult(1) by (simp add: indexForId_def assms(1))
  have unat: "unat (of_nat ?c :: u32) = ?c" using mult(2) by (intro unat_of_nat_u32) simp
  have lt: "\<forall>i<m_level ib. ?x i < 2 ^ ?w i"
    using assms(6) by (simp add: nat_less_iff)
  have "int (unat (amt_nth \<lparr>amt_use_bits = ?w l, amt_drop_bits = sum ?w {Suc l..<m_level ib}, amt_low_mask = 2 ^ ?w l - 1\<rparr>
      (of_nat ?c))) = indices index ! l" if "l < m_level ib" for l
    using concat_bits_select [OF lt that] assms(6) that
    by (simp add: amt_nth_def unat_drop_and_mask cell_def unat)
  with id getIdMaskingTable_eq [OF assms(2,3) _ assms(1)] show ?thesis by blast
qed

end
