(* ===== verification/Tp2_Simple.thy ===== *)
theory Tp2_Simple
  imports Vci_Gcd Mapping_Props
begin

text \<open>
  The first platform of TP2 (\<open>tp2_simple_top.cpp\<close>): one VCI master connected to one VCI coprocessor. The
  theory shows that the two protocols fit: no command is ever refused, and the master displays the greatest
  common divisors of the operands it draws, forever.
\<close>

section \<open>The coprocessor is a GCD engine\<close>

definition exe_phase :: "vci_gcd_coprocessor \<Rightarrow> gcd_phase option" where
  "exe_phase c = (case r_exe_fsm c of EXE_IDLE \<Rightarrow> None | EXE_COMPARE \<Rightarrow> Some Comparing
     | EXE_DECA \<Rightarrow> Some Subtract_a | EXE_DECB \<Rightarrow> Some Subtract_b)"

text \<open>No command writes the operands at this clock edge.\<close>

definition no_write :: "segment \<times> vci_signals \<Rightarrow> vci_gcd_coprocessor \<Rightarrow> bool" where
  "no_write = (\<lambda>(seg, p) c. \<not> (r_vci_fsm c = VCI_GET_CMD \<and> cmdval p \<and> vcmd p = CMD_WRITE))"

lemma transition_engine:
  assumes "gcd_coproc_transition seg True p c = Some c'" and "no_write (seg, p) c"
  shows "r_exe_fsm c' = r_exe_fsm (exe_fsm_step c)" "c_opa c' = c_opa (exe_fsm_step c)" "c_opb c' = c_opb (exe_fsm_step c)"
  using assms
  by (auto simp: gcd_coproc_transition_def vci_fsm_step_def no_write_def Let_def split: if_splits)

interpretation vci_engine: gcd_engine
  "\<lambda>(seg, p) c c'. gcd_coproc_transition seg True p c = Some c'" no_write exe_phase c_opa c_opb
proof unfold_locales
  fix i c c'
  assume step: "(case i of (seg, p) \<Rightarrow> \<lambda>c c'. gcd_coproc_transition seg True p c = Some c') c c'" and free: "no_write i c"
  obtain seg p where i: "i = (seg, p)" by (cases i)
  have eq: "r_exe_fsm c' = r_exe_fsm (exe_fsm_step c)" "c_opa c' = c_opa (exe_fsm_step c)" "c_opb c' = c_opb (exe_fsm_step c)"
    using transition_engine [of seg p c c'] step free by (simp_all add: i)
  show "exe_phase c' = Some Subtract_b \<and> c_opa c' = c_opa c \<and> c_opb c' = c_opb c"
    if "exe_phase c = Some Comparing" "c_opa c < c_opb c"
    using that eq by (simp add: exe_phase_def exe_fsm_step_def split: exe_fsm_state.splits)
  show "exe_phase c' = Some Subtract_a \<and> c_opa c' = c_opa c \<and> c_opb c' = c_opb c"
    if "exe_phase c = Some Comparing" "c_opb c < c_opa c"
    using that order.asym [OF that(2)] eq by (simp add: exe_phase_def exe_fsm_step_def split: exe_fsm_state.splits)
  show "exe_phase c' = None \<and> c_opa c' = c_opa c \<and> c_opb c' = c_opb c"
    if "exe_phase c = Some Comparing" "c_opa c = c_opb c"
    using that eq by (simp add: exe_phase_def exe_fsm_step_def split: exe_fsm_state.splits)
  show "exe_phase c' = Some Comparing \<and> c_opa c' = c_opa c - c_opb c \<and> c_opb c' = c_opb c"
    if "exe_phase c = Some Subtract_a"
    using that eq by (simp add: exe_phase_def exe_fsm_step_def split: exe_fsm_state.splits)
  show "exe_phase c' = Some Comparing \<and> c_opb c' = c_opb c - c_opa c \<and> c_opa c' = c_opa c"
    if "exe_phase c = Some Subtract_b"
    using that eq by (simp add: exe_phase_def exe_fsm_step_def split: exe_fsm_state.splits)
qed

section \<open>The platform\<close>

record 'r tp2_simple =
  signal_vci :: vci_signals
  tp2_master :: vci_gcd_master
  tp2_coproc :: vci_gcd_coprocessor
  tp2_rng :: 'r

definition tp2_posedge ::
    "('r \<Rightarrow> u32 \<times> 'r) \<Rightarrow> segment \<Rightarrow> bool \<Rightarrow> 'r tp2_simple \<Rightarrow> 'r tp2_simple option" where
  "tp2_posedge rnd seg resetn s =
     (case gcd_coproc_transition seg resetn (signal_vci s) (tp2_coproc s) of None \<Rightarrow> None
      | Some c \<Rightarrow>
          let (m, r) = gcd_master_transition rnd resetn (signal_vci s) (tp2_master s, tp2_rng s)
          in Some (s\<lparr>tp2_master := m, tp2_coproc := c, tp2_rng := r\<rparr>))"

definition tp2_negedge :: "vci_srcid \<Rightarrow> vci_addr \<Rightarrow> 'r tp2_simple \<Rightarrow> 'r tp2_simple" where
  "tp2_negedge sid base s = s\<lparr>signal_vci :=
     gcd_coproc_genMoore (tp2_coproc s) (gcd_master_genMoore sid base (tp2_master s) (signal_vci s))\<rparr>"

definition tp2_cycle ::
    "('r \<Rightarrow> u32 \<times> 'r) \<Rightarrow> segment \<Rightarrow> vci_srcid \<Rightarrow> vci_addr \<Rightarrow> bool \<Rightarrow> 'r tp2_simple \<Rightarrow> 'r tp2_simple option" where
  "tp2_cycle rnd seg sid base resetn s = map_option (tp2_negedge sid base) (tp2_posedge rnd seg resetn s)"

text \<open>The segment and the identifier that the constructors get from the mapping table of \<open>sc_main\<close>.\<close>

definition GCD_BASE :: u64 where [simp]: "GCD_BASE = 0x00000000"
definition GCD_SIZE :: u64 where [simp]: "GCD_SIZE = 16"

definition tp2_simple_maptab :: "mapping_table result" where
  "tp2_simple_maptab =
     andthen (IntTab [8]) (\<lambda>ab. andthen (IntTab [8]) (\<lambda>ib. andthen (MappingTable 32 ab ib 0x03000000) (\<lambda>mt.
     andthen (mk_segment ''GCD'' GCD_BASE GCD_SIZE 0 True) (\<lambda>seg. add seg mt))))"

text \<open>\<open>sc_main\<close>: the mapping table, the components, one cycle of reset, then \<open>n\<close> cycles.\<close>

definition tp2_simple_main :: "('r \<Rightarrow> u32 \<times> 'r) \<Rightarrow> nat \<Rightarrow> 'r tp2_simple \<Rightarrow> 'r tp2_simple option" where
  "tp2_simple_main rnd n s =
     (case andthen tp2_simple_maptab (\<lambda>mt. andthen (IntTab [0]) (\<lambda>index.
        andthen (getSegment mt index) (\<lambda>seg. andthen (indexForId mt index) (\<lambda>sid. Inr (seg, sid))))) of
        Inl _ \<Rightarrow> None
      | Inr (seg, sid) \<Rightarrow>
          (case tp2_cycle rnd seg (ucast sid) (ucast GCD_BASE) False s of None \<Rightarrow> None
           | Some s \<Rightarrow> sim_run (tp2_cycle rnd seg (ucast sid) (ucast GCD_BASE) True) n s))"


section \<open>Signals\<close>

text \<open>A segment with the four registers of the coprocessor at \<open>base\<close>.\<close>

definition gcd_segment :: "segment \<Rightarrow> vci_addr \<Rightarrow> bool" where
  "gcd_segment seg base \<longleftrightarrow> seg_lo seg = unat base \<and> unat base + 16 \<le> seg_hi seg \<and> unat base + 16 \<le> 2 ^ 32"

lemma gcd_segment_address:
  assumes "gcd_segment seg base" and "r < 4"
  shows "seg_contains seg (ucast (base + 4 * of_nat r))" and "vci_cell seg (base + 4 * of_nat r) = r"
proof -
  have "unat (of_nat (unat base + 4 * r) :: u32) = unat base + 4 * r"
    using assms by (intro unat_of_nat_u32) (simp add: gcd_segment_def)
  then have a: "unat (base + 4 * of_nat r) = unat base + 4 * r" by simp
  then have a64: "unat (ucast (base + 4 * of_nat r) :: u64) = unat base + 4 * r" by (simp only: unat_ucast_64)
  then show "seg_contains seg (ucast (base + 4 * of_nat r))"
    using assms by (simp add: seg_contains_iff gcd_segment_def)
  have "baseAddress seg \<le> ucast (base + 4 * of_nat r)"
    using a64 assms(1) by (simp add: word_le_nat_alt gcd_segment_def seg_lo_def)
  then have "unat (ucast (base + 4 * of_nat r) - baseAddress seg) = 4 * r"
    using a64 assms(1) by (simp add: unat_sub gcd_segment_def seg_lo_def)
  then have "unat ((ucast (base + 4 * of_nat r) - baseAddress seg) div of_nat vci_B) = r"
    by (simp add: unat_div_distrib)
  then have "(ucast (base + 4 * of_nat r) - baseAddress seg) div of_nat vci_B = (of_nat r :: u64)"
    by (metis of_nat_unat)
  then show "vci_cell seg (base + 4 * of_nat r) = r"
    using assms(2) by (simp add: vci_cell_def unsigned_ucast_eq unat_of_nat take_bit_nat_eq_self)
qed

definition tp2_settled :: "vci_srcid \<Rightarrow> vci_addr \<Rightarrow> 'r tp2_simple \<Rightarrow> bool" where
  "tp2_settled sid base s \<longleftrightarrow>
     (\<exists>p. signal_vci s = gcd_coproc_genMoore (tp2_coproc s) (gcd_master_genMoore sid base (tp2_master s) p))"

definition is_cmd :: "gcd_master_state \<Rightarrow> bool" where
  "is_cmd f \<longleftrightarrow> f \<in> {CMD_OPA, CMD_OPB, CMD_START, CMD_STATUS, CMD_RESULT}"

lemma master_drives:
  fixes p :: vci_signals and m :: vci_gcd_master and sid :: vci_srcid and base :: vci_addr
  defines "q \<equiv> gcd_master_genMoore sid base m p"
  shows "cmdval q = is_cmd (r_fsm m)" "rspack q = (\<not> is_cmd (r_fsm m))" "eop q" "plen q = 4"
    "srcid q = sid" "trdid q = 0" "pktid q = 0"
    "r_fsm m = CMD_OPA \<Longrightarrow> vcmd q = CMD_WRITE \<and> vaddress q = base + 4 * of_nat 0 \<and> wdata q = r_opa m"
    "r_fsm m = CMD_OPB \<Longrightarrow> vcmd q = CMD_WRITE \<and> vaddress q = base + 4 * of_nat 1 \<and> wdata q = r_opb m"
    "r_fsm m = CMD_START \<Longrightarrow> vcmd q = CMD_WRITE \<and> vaddress q = base + 4 * of_nat 2"
    "r_fsm m = CMD_STATUS \<Longrightarrow> vcmd q = CMD_READ \<and> vaddress q = base + 4 * of_nat 3"
    "r_fsm m = CMD_RESULT \<Longrightarrow> vcmd q = CMD_READ \<and> vaddress q = base + 4 * of_nat 0"
  unfolding q_def
  by (auto simp: gcd_master_genMoore_def drive_cmd_def drive_rsp_def is_cmd_def Let_def split: gcd_master_state.splits)

lemma coproc_drives:
  fixes p :: vci_signals and c :: vci_gcd_coprocessor
  defines "q \<equiv> gcd_coproc_genMoore c p"
  shows "cmdack q = (r_vci_fsm c = VCI_GET_CMD)" "rspval q = (r_vci_fsm c \<noteq> VCI_GET_CMD)" "reop q"
    "rdata q = (case r_vci_fsm c of VCI_RSP_STATUS \<Rightarrow> if r_exe_fsm c = EXE_IDLE then 0 else 1 | VCI_RSP_RESULT \<Rightarrow> c_opa c | _ \<Rightarrow> 0)"
    "cmdval q = cmdval p" "rspack q = rspack p" "eop q = eop p" "plen q = plen p" "vcmd q = vcmd p"
    "vaddress q = vaddress p" "wdata q = wdata p" "srcid q = srcid p" "trdid q = trdid p" "pktid q = pktid p"
  unfolding q_def
  by (auto simp: gcd_coproc_genMoore_def Let_def split: vci_fsm_state.splits)

section \<open>The transaction-level model\<close>

text \<open>The state of the coprocessor that goes with a state of the master: every command is taken at once and
  answered at once.\<close>

fun expects :: "gcd_master_state \<Rightarrow> vci_fsm_state" where
  "expects RSP_OPA = VCI_RSP_OPA"
| "expects RSP_OPB = VCI_RSP_OPB"
| "expects RSP_START = VCI_RSP_START"
| "expects RSP_STATUS = VCI_RSP_STATUS"
| "expects RSP_RESULT = VCI_RSP_RESULT"
| "expects _ = VCI_GET_CMD"

definition in_step :: "'r tp2_simple \<Rightarrow> bool" where
  "in_step s \<longleftrightarrow> r_vci_fsm (tp2_coproc s) = expects (r_fsm (tp2_master s))"

fun next_fsm :: "bool \<Rightarrow> gcd_master_state \<Rightarrow> gcd_master_state" where
  "next_fsm idle M_RANDOM = CMD_OPA"
| "next_fsm idle CMD_OPA = RSP_OPA"
| "next_fsm idle RSP_OPA = CMD_OPB"
| "next_fsm idle CMD_OPB = RSP_OPB"
| "next_fsm idle RSP_OPB = CMD_START"
| "next_fsm idle CMD_START = RSP_START"
| "next_fsm idle RSP_START = CMD_STATUS"
| "next_fsm idle CMD_STATUS = RSP_STATUS"
| "next_fsm idle RSP_STATUS = (if idle then CMD_RESULT else CMD_STATUS)"
| "next_fsm idle CMD_RESULT = RSP_RESULT"
| "next_fsm idle RSP_RESULT = M_DISPLAY"
| "next_fsm idle M_DISPLAY = M_RANDOM"

lemma next_is_cmd: "is_cmd f \<Longrightarrow> expects (next_fsm b f) \<noteq> VCI_GET_CMD" "\<not> is_cmd f \<Longrightarrow> expects (next_fsm b f) = VCI_GET_CMD"
  by (cases f; simp add: is_cmd_def)+

text \<open>What a coprocessor in step with its master does, and what the master does.\<close>

lemma coproc_accepts:
  fixes q :: vci_signals
  assumes "gcd_segment seg base" and "p = gcd_coproc_genMoore c (gcd_master_genMoore sid base m q)"
    and "r_vci_fsm c = expects (r_fsm m)"
  shows "\<exists>c'. gcd_coproc_transition seg True p c = Some c' \<and> r_vci_fsm c' = expects (next_fsm b (r_fsm m)) \<and>
    r_exe_fsm c' = r_exe_fsm (exe_fsm_step c) \<and>
    c_opa c' = (if r_fsm m = CMD_OPA then r_opa m else c_opa (exe_fsm_step c)) \<and>
    c_opb c' = (if r_fsm m = CMD_OPB then r_opb m else c_opb (exe_fsm_step c)) \<and>
    (r_fsm m \<in> {CMD_STATUS, RSP_STATUS} \<longrightarrow> no_write (seg, p) c)"
proof -
  note drv = master_drives [where sid = sid and base = base and m = m and p = q]
    coproc_drives [where c = c and p = "gcd_master_genMoore sid base m q", folded assms(2)]
  have stay: "r_vci_fsm (exe_fsm_step c) = r_vci_fsm c"
    by (simp add: exe_fsm_step_def split: exe_fsm_state.splits)
  note addr = gcd_segment_address [OF assms(1), of 0] gcd_segment_address [OF assms(1), of 1]
    gcd_segment_address [OF assms(1), of 2] gcd_segment_address [OF assms(1), of 3]
  show ?thesis
    using drv addr assms(3) stay
    by (cases "r_fsm m")
      (simp_all add: gcd_coproc_transition_def vci_fsm_step_def legal_command_def is_cmd_def no_write_def Let_def)
qed

lemma master_advances:
  fixes q :: vci_signals
  assumes "p = gcd_coproc_genMoore c (gcd_master_genMoore sid base m q)" and "r_vci_fsm c = expects (r_fsm m)"
    and "gcd_master_transition rnd True p (m, r) = (m', r')"
  shows "r_fsm m' = next_fsm (r_exe_fsm c = EXE_IDLE) (r_fsm m)"
    "r' = (if r_fsm m = M_RANDOM then snd (rnd (snd (rnd r))) else r)"
    "r_opa m' = (if r_fsm m = M_RANDOM then fst (rnd r) + 1 else r_opa m)"
    "r_opb m' = (if r_fsm m = M_RANDOM then fst (rnd (snd (rnd r))) + 1 else r_opb m)"
    "r_iter m' = (if r_fsm m = M_RANDOM then r_iter m + 1 else r_iter m)"
    "r_res m' = (if r_fsm m = RSP_RESULT then c_opa c else r_res m)"
    "r_cout m' = (if r_fsm m = M_DISPLAY then r_cout m @ [\<lparr>d_iteration = r_iter m, d_cycle = r_cycle m,
       d_opa = r_opa m, d_opb = r_opb m, d_pgcd = r_res m\<rparr>] else r_cout m)"
proof -
  note drv = coproc_drives [where c = c and p = "gcd_master_genMoore sid base m q", folded assms(1)]
  have eq: "m' = fst (gcd_master_transition rnd True p (m, r))" "r' = snd (gcd_master_transition rnd True p (m, r))"
    using assms(3) by simp_all
  note [simp] = gcd_master_transition_def split_beta drv(1,2,4)
  show "r_fsm m' = next_fsm (r_exe_fsm c = EXE_IDLE) (r_fsm m)"
    unfolding eq using assms(2) by (cases "r_fsm m") simp_all
  show "r' = (if r_fsm m = M_RANDOM then snd (rnd (snd (rnd r))) else r)"
    unfolding eq by (cases "r_fsm m") simp_all
  show "r_opa m' = (if r_fsm m = M_RANDOM then fst (rnd r) + 1 else r_opa m)"
    unfolding eq by (cases "r_fsm m") simp_all
  show "r_opb m' = (if r_fsm m = M_RANDOM then fst (rnd (snd (rnd r))) + 1 else r_opb m)"
    unfolding eq by (cases "r_fsm m") simp_all
  show "r_iter m' = (if r_fsm m = M_RANDOM then r_iter m + 1 else r_iter m)"
    unfolding eq by (cases "r_fsm m") simp_all
  show "r_res m' = (if r_fsm m = RSP_RESULT then c_opa c else r_res m)"
    unfolding eq using assms(2) by (cases "r_fsm m") simp_all
  show "r_cout m' = (if r_fsm m = M_DISPLAY then r_cout m @ [\<lparr>d_iteration = r_iter m, d_cycle = r_cycle m,
       d_opa = r_opa m, d_opb = r_opb m, d_pgcd = r_res m\<rparr>] else r_cout m)"
    unfolding eq by (cases "r_fsm m") simp_all
qed

lemma tp2_step:
  fixes rnd :: "'r \<Rightarrow> u32 \<times> 'r"
  assumes "gcd_segment seg base" and "tp2_settled sid base s" and "in_step s"
  defines "m \<equiv> tp2_master s" and "c \<equiv> tp2_coproc s" and "r \<equiv> tp2_rng s"
  obtains t where "tp2_cycle rnd seg sid base True s = Some t" "tp2_settled sid base t" "in_step t"
    "r_fsm (tp2_master t) = next_fsm (r_exe_fsm c = EXE_IDLE) (r_fsm m)"
    "tp2_rng t = (if r_fsm m = M_RANDOM then snd (rnd (snd (rnd r))) else r)"
    "r_opa (tp2_master t) = (if r_fsm m = M_RANDOM then fst (rnd r) + 1 else r_opa m)"
    "r_opb (tp2_master t) = (if r_fsm m = M_RANDOM then fst (rnd (snd (rnd r))) + 1 else r_opb m)"
    "r_iter (tp2_master t) = (if r_fsm m = M_RANDOM then r_iter m + 1 else r_iter m)"
    "r_res (tp2_master t) = (if r_fsm m = RSP_RESULT then c_opa c else r_res m)"
    "r_cout (tp2_master t) = (if r_fsm m = M_DISPLAY then r_cout m @ [\<lparr>d_iteration = r_iter m, d_cycle = r_cycle m,
       d_opa = r_opa m, d_opb = r_opb m, d_pgcd = r_res m\<rparr>] else r_cout m)"
    "r_exe_fsm (tp2_coproc t) = r_exe_fsm (exe_fsm_step c)"
    "c_opa (tp2_coproc t) = (if r_fsm m = CMD_OPA then r_opa m else c_opa (exe_fsm_step c))"
    "c_opb (tp2_coproc t) = (if r_fsm m = CMD_OPB then r_opb m else c_opb (exe_fsm_step c))"
    "gcd_coproc_transition seg True (signal_vci s) c = Some (tp2_coproc t)"
    "r_fsm m \<in> {CMD_STATUS, RSP_STATUS} \<longrightarrow> no_write (seg, signal_vci s) c"
proof -
  obtain q where sig: "signal_vci s = gcd_coproc_genMoore c (gcd_master_genMoore sid base m q)"
    using assms(2) by (auto simp: tp2_settled_def m_def c_def)
  have vci: "r_vci_fsm c = expects (r_fsm m)" using assms(3) by (simp add: in_step_def m_def c_def)
  obtain c' where c': "gcd_coproc_transition seg True (signal_vci s) c = Some c'"
      "r_vci_fsm c' = expects (next_fsm (r_exe_fsm c = EXE_IDLE) (r_fsm m))"
      "r_exe_fsm c' = r_exe_fsm (exe_fsm_step c)"
      "c_opa c' = (if r_fsm m = CMD_OPA then r_opa m else c_opa (exe_fsm_step c))"
      "c_opb c' = (if r_fsm m = CMD_OPB then r_opb m else c_opb (exe_fsm_step c))"
      "r_fsm m \<in> {CMD_STATUS, RSP_STATUS} \<longrightarrow> no_write (seg, signal_vci s) c"
    using coproc_accepts [OF assms(1) sig vci, of "r_exe_fsm c = EXE_IDLE"] by blast
  obtain m' r' where m': "gcd_master_transition rnd True (signal_vci s) (m, r) = (m', r')" by fastforce
  note adv = master_advances [OF sig vci m']
  let ?t = "tp2_negedge sid base (s\<lparr>tp2_master := m', tp2_coproc := c', tp2_rng := r'\<rparr>)"
  have "tp2_cycle rnd seg sid base True s = Some ?t"
    using c'(1) m' by (simp add: tp2_cycle_def tp2_posedge_def m_def c_def r_def)
  moreover have "tp2_settled sid base ?t" by (auto simp: tp2_settled_def tp2_negedge_def)
  moreover have "in_step ?t" using c'(2) adv(1) by (simp add: in_step_def tp2_negedge_def)
  ultimately show ?thesis
    using c' adv by (intro that [of ?t]) (simp_all add: tp2_negedge_def)
qed


section \<open>One iteration\<close>

definition tp2_fresh :: "vci_srcid \<Rightarrow> vci_addr \<Rightarrow> u32 \<Rightarrow> 'r \<Rightarrow> 'r tp2_simple \<Rightarrow> bool" where
  "tp2_fresh sid base n r s \<longleftrightarrow> tp2_settled sid base s \<and> in_step s \<and> r_fsm (tp2_master s) = M_RANDOM \<and>
     r_exe_fsm (tp2_coproc s) = EXE_IDLE \<and> r_iter (tp2_master s) = n \<and> tp2_rng s = r"

text \<open>The master polls the status: what does not change until the computation is over.\<close>

definition polling :: "vci_srcid \<Rightarrow> vci_addr \<Rightarrow> 'r tp2_simple \<Rightarrow> 'r tp2_simple \<Rightarrow> bool" where
  "polling sid base s0 s \<longleftrightarrow> tp2_settled sid base s \<and> in_step s \<and> r_fsm (tp2_master s) \<in> {CMD_STATUS, RSP_STATUS} \<and>
     r_opa (tp2_master s) = r_opa (tp2_master s0) \<and> r_opb (tp2_master s) = r_opb (tp2_master s0) \<and>
     r_iter (tp2_master s) = r_iter (tp2_master s0) \<and> r_cout (tp2_master s) = r_cout (tp2_master s0) \<and>
     tp2_rng s = tp2_rng s0"

lemma exe_idle_step:
  "r_exe_fsm c = EXE_IDLE \<Longrightarrow> r_vci_fsm c \<noteq> VCI_RSP_START \<Longrightarrow> exe_fsm_step c = c"
  "r_exe_fsm c = EXE_IDLE \<Longrightarrow> r_vci_fsm c = VCI_RSP_START \<Longrightarrow> exe_fsm_step c = c\<lparr>r_exe_fsm := EXE_COMPARE\<rparr>"
  by (simp_all add: exe_fsm_step_def)

lemma exe_phase_None: "exe_phase c = None \<longleftrightarrow> r_exe_fsm c = EXE_IDLE"
  by (simp add: exe_phase_def split: exe_fsm_state.splits)

text \<open>\<open>n\<close> cycles that all succeed, as a function.\<close>

abbreviation "tp2_next rnd seg sid base s \<equiv> the (tp2_cycle rnd seg sid base True s)"

lemma polling_step:
  assumes "gcd_segment seg base" and "polling sid base s0 s" and "r_exe_fsm (tp2_coproc s) \<noteq> EXE_IDLE"
  shows "polling sid base s0 (tp2_next rnd seg sid base s)" "tp2_cycle rnd seg sid base True s = Some (tp2_next rnd seg sid base s)"
    "gcd_coproc_transition seg True (signal_vci s) (tp2_coproc s) = Some (tp2_coproc (tp2_next rnd seg sid base s))"
    "no_write (seg, signal_vci s) (tp2_coproc s)"
proof -
  have s: "tp2_settled sid base s" "in_step s" "r_fsm (tp2_master s) \<in> {CMD_STATUS, RSP_STATUS}"
    using assms(2) by (simp_all add: polling_def)
  obtain t where t: "tp2_cycle rnd seg sid base True s = Some t" "tp2_settled sid base t" "in_step t"
      "r_fsm (tp2_master t) = next_fsm (r_exe_fsm (tp2_coproc s) = EXE_IDLE) (r_fsm (tp2_master s))"
      "tp2_rng t = (if r_fsm (tp2_master s) = M_RANDOM then snd (rnd (snd (rnd (tp2_rng s)))) else tp2_rng s)"
      "r_opa (tp2_master t) = (if r_fsm (tp2_master s) = M_RANDOM then fst (rnd (tp2_rng s)) + 1 else r_opa (tp2_master s))"
      "r_opb (tp2_master t) = (if r_fsm (tp2_master s) = M_RANDOM then fst (rnd (snd (rnd (tp2_rng s)))) + 1 else r_opb (tp2_master s))"
      "r_iter (tp2_master t) = (if r_fsm (tp2_master s) = M_RANDOM then r_iter (tp2_master s) + 1 else r_iter (tp2_master s))"
      "r_cout (tp2_master t) = (if r_fsm (tp2_master s) = M_DISPLAY then r_cout (tp2_master s) @ [\<lparr>d_iteration = r_iter (tp2_master s),
         d_cycle = r_cycle (tp2_master s), d_opa = r_opa (tp2_master s), d_opb = r_opb (tp2_master s),
         d_pgcd = r_res (tp2_master s)\<rparr>] else r_cout (tp2_master s))"
      "gcd_coproc_transition seg True (signal_vci s) (tp2_coproc s) = Some (tp2_coproc t)"
      "r_fsm (tp2_master s) \<in> {CMD_STATUS, RSP_STATUS} \<longrightarrow> no_write (seg, signal_vci s) (tp2_coproc s)"
    by (rule tp2_step [OF assms(1) s(1,2), of rnd]) blast
  show "polling sid base s0 (tp2_next rnd seg sid base s)"
    using t(1-9) s(3) assms(2,3) by (auto simp: polling_def)
  show "tp2_cycle rnd seg sid base True s = Some (tp2_next rnd seg sid base s)"
    "gcd_coproc_transition seg True (signal_vci s) (tp2_coproc s) = Some (tp2_coproc (tp2_next rnd seg sid base s))"
    "no_write (seg, signal_vci s) (tp2_coproc s)"
    using t(1,10) t(11) [rule_format, OF s(3)] by simp_all
qed

lemma tp2_computes:
  fixes rnd :: "'r \<Rightarrow> u32 \<times> 'r" and s :: "'r tp2_simple"
  assumes "gcd_segment seg base" and "polling sid base s s" and "r_exe_fsm (tp2_coproc s) = EXE_COMPARE"
    and "0 < c_opa (tp2_coproc s)" and "0 < c_opb (tp2_coproc s)"
  defines "g \<equiv> gcd (unat (c_opa (tp2_coproc s))) (unat (c_opb (tp2_coproc s)))"
    and "f \<equiv> \<lambda>j. ((\<lambda>s. tp2_next rnd seg sid base s) ^^ j) s"
  shows "\<exists>k. polling sid base s (f k) \<and> r_exe_fsm (tp2_coproc (f k)) = EXE_IDLE \<and> unat (c_opa (tp2_coproc (f k))) = g \<and>
    (\<forall>j<k. polling sid base s (f j) \<and> tp2_cycle rnd seg sid base True (f j) = Some (f (Suc j)))"
proof -
  let ?sys = "\<lambda>s. tp2_next rnd seg sid base s"
  have step: "\<exists>i. (case i of (seg, p) \<Rightarrow> \<lambda>c c'. gcd_coproc_transition seg True p c = Some c') (tp2_coproc S)
      (tp2_coproc (?sys S)) \<and> no_write i (tp2_coproc S) \<and> polling sid base s (?sys S)"
    if "polling sid base s S" "exe_phase (tp2_coproc S) \<noteq> None" for S
    using polling_step(1,3) [OF assms(1) that(1), of rnd] polling_step(4) [OF assms(1) that(1)] that(2)
    by (intro exI [of _ "(seg, signal_vci S)"]) (simp add: exe_phase_None)
  have "vci_engine.computing g (tp2_coproc s)"
    unfolding g_def by (rule vci_engine.start_computing) (use assms(3-5) in \<open>simp_all add: exe_phase_def\<close>)
  from vci_engine.computes [OF this assms(2) step] obtain k where k:
      "vci_engine.finished g (tp2_coproc (f k))" "polling sid base s (f k)"
      "\<forall>j<k. vci_engine.computing g (tp2_coproc (f j)) \<and> polling sid base s (f j)"
    unfolding f_def by blast
  have "polling sid base s (f j) \<and> tp2_cycle rnd seg sid base True (f j) = Some (f (Suc j))" if "j < k" for j
  proof -
    have "r_exe_fsm (tp2_coproc (f j)) \<noteq> EXE_IDLE"
      using k(3) that vci_engine.computing_not_finished exe_phase_None by metis
    then show ?thesis using polling_step(2) [OF assms(1), of sid s "f j" rnd] k(3) that by (simp add: f_def)
  qed
  with k show ?thesis
    by (intro exI [of _ k]) (simp add: vci_engine.finished_def exe_phase_None)
qed


text \<open>What is known of a state between two computations.\<close>

definition tp2_at :: "vci_srcid \<Rightarrow> vci_addr \<Rightarrow> gcd_master_state \<Rightarrow> u32 \<Rightarrow> u32 \<Rightarrow> u32 \<Rightarrow> 'r \<Rightarrow> display list \<Rightarrow> 'r tp2_simple \<Rightarrow> bool" where
  "tp2_at sid base f a b n r out s \<longleftrightarrow> tp2_settled sid base s \<and> in_step s \<and> r_fsm (tp2_master s) = f \<and>
     r_exe_fsm (tp2_coproc s) = EXE_IDLE \<and> r_opa (tp2_master s) = a \<and> r_opb (tp2_master s) = b \<and>
     r_iter (tp2_master s) = n \<and> tp2_rng s = r \<and> r_cout (tp2_master s) = out"

lemma tp2_at_step:
  fixes rnd :: "'r \<Rightarrow> u32 \<times> 'r"
  assumes "gcd_segment seg base" and "tp2_at sid base f a b n r out s" and "f \<notin> {M_RANDOM, RSP_START, M_DISPLAY}"
  obtains t where "tp2_cycle rnd seg sid base True s = Some t" "tp2_at sid base (next_fsm True f) a b n r out t"
    "c_opa (tp2_coproc t) = (if f = CMD_OPA then a else c_opa (tp2_coproc s))"
    "c_opb (tp2_coproc t) = (if f = CMD_OPB then b else c_opb (tp2_coproc s))"
    "r_res (tp2_master t) = (if f = RSP_RESULT then c_opa (tp2_coproc s) else r_res (tp2_master s))"
proof -
  have s: "tp2_settled sid base s" "in_step s" "r_fsm (tp2_master s) = f" "r_exe_fsm (tp2_coproc s) = EXE_IDLE"
      "r_opa (tp2_master s) = a" "r_opb (tp2_master s) = b" "r_iter (tp2_master s) = n" "tp2_rng s = r" "r_cout (tp2_master s) = out"
    using assms(2) by (simp_all add: tp2_at_def)
  have "r_vci_fsm (tp2_coproc s) \<noteq> VCI_RSP_START" using s(2,3) assms(3) by (cases f) (simp_all add: in_step_def)
  then have idle: "exe_fsm_step (tp2_coproc s) = tp2_coproc s" using s(4) by (simp add: exe_idle_step)
  show ?thesis
    by (rule tp2_step [OF assms(1) s(1,2), of rnd], rule that) (use s assms(3) idle in \<open>simp_all add: tp2_at_def\<close>)
qed

lemma tp2_random_step:
  fixes rnd :: "'r \<Rightarrow> u32 \<times> 'r"
  assumes "gcd_segment seg base" and "tp2_fresh sid base n r s"
  obtains t where "tp2_cycle rnd seg sid base True s = Some t"
    "tp2_at sid base CMD_OPA (fst (rnd r) + 1) (fst (rnd (snd (rnd r))) + 1) (n + 1) (snd (rnd (snd (rnd r)))) (r_cout (tp2_master s)) t"
proof -
  have s: "tp2_settled sid base s" "in_step s" "r_fsm (tp2_master s) = M_RANDOM" "r_exe_fsm (tp2_coproc s) = EXE_IDLE"
      "r_iter (tp2_master s) = n" "tp2_rng s = r"
    using assms(2) by (simp_all add: tp2_fresh_def)
  have idle: "exe_fsm_step (tp2_coproc s) = tp2_coproc s" using s by (simp add: exe_idle_step in_step_def)
  show ?thesis
    by (rule tp2_step [OF assms(1) s(1,2), of rnd], rule that) (auto simp: tp2_at_def s idle)
qed

lemma tp2_start_step:
  fixes rnd :: "'r \<Rightarrow> u32 \<times> 'r"
  assumes "gcd_segment seg base" and "tp2_at sid base RSP_START a b n r out s"
  obtains t where "tp2_cycle rnd seg sid base True s = Some t" "polling sid base t t" "r_exe_fsm (tp2_coproc t) = EXE_COMPARE"
    "c_opa (tp2_coproc t) = c_opa (tp2_coproc s)" "c_opb (tp2_coproc t) = c_opb (tp2_coproc s)"
    "r_opa (tp2_master t) = a" "r_opb (tp2_master t) = b" "r_iter (tp2_master t) = n" "tp2_rng t = r" "r_cout (tp2_master t) = out"
proof -
  have s: "tp2_settled sid base s" "in_step s" "r_fsm (tp2_master s) = RSP_START" "r_exe_fsm (tp2_coproc s) = EXE_IDLE"
      "r_opa (tp2_master s) = a" "r_opb (tp2_master s) = b" "r_iter (tp2_master s) = n" "tp2_rng s = r" "r_cout (tp2_master s) = out"
    using assms(2) by (simp_all add: tp2_at_def)
  have idle: "exe_fsm_step (tp2_coproc s) = (tp2_coproc s)\<lparr>r_exe_fsm := EXE_COMPARE\<rparr>"
    using s by (intro exe_idle_step) (simp_all add: in_step_def)
  show ?thesis
    by (rule tp2_step [OF assms(1) s(1,2), of rnd], rule that) (auto simp: polling_def s idle)
qed

lemma tp2_display_step:
  fixes rnd :: "'r \<Rightarrow> u32 \<times> 'r"
  assumes "gcd_segment seg base" and "tp2_at sid base M_DISPLAY a b n r out s"
  obtains t d where "tp2_cycle rnd seg sid base True s = Some t" "tp2_fresh sid base n r t" "r_cout (tp2_master t) = out @ [d]"
    "d_iteration d = n" "d_opa d = a" "d_opb d = b" "d_pgcd d = r_res (tp2_master s)"
proof -
  have s: "tp2_settled sid base s" "in_step s" "r_fsm (tp2_master s) = M_DISPLAY" "r_exe_fsm (tp2_coproc s) = EXE_IDLE"
      "r_opa (tp2_master s) = a" "r_opb (tp2_master s) = b" "r_iter (tp2_master s) = n" "tp2_rng s = r" "r_cout (tp2_master s) = out"
    using assms(2) by (simp_all add: tp2_at_def)
  have idle: "exe_fsm_step (tp2_coproc s) = tp2_coproc s" using s by (simp add: exe_idle_step in_step_def)
  show ?thesis
    by (rule tp2_step [OF assms(1) s(1,2), of rnd], rule that) (auto simp: tp2_fresh_def s idle)
qed


abbreviation "tp2_silent rnd seg sid base \<equiv>
  silent_run (tp2_cycle rnd seg sid base True) (\<lambda>s. r_cout (tp2_master s))"

lemma tp2_silent_Cons:
  assumes "tp2_cycle rnd seg sid base True s = Some t" and "r_cout (tp2_master t) = r_cout (tp2_master s)"
    and "tp2_silent rnd seg sid base k t u"
  shows "tp2_silent rnd seg sid base (Suc k) s u"
  by (rule silent_run_Cons [where t = t]) (use assms in simp_all)

lemma tp2_at_cout: "tp2_at sid base f a b n r out s \<Longrightarrow> r_cout (tp2_master s) = out"
  by (simp add: tp2_at_def)

text \<open>The end of an iteration: the last poll, the reading of the result and the display.\<close>

lemma tp2_finish:
  fixes rnd :: "'r \<Rightarrow> u32 \<times> 'r"
  assumes "gcd_segment seg base" and "tp2_at sid base f a b n r out s" and "f \<in> {CMD_STATUS, RSP_STATUS}"
  shows "\<exists>k t d. tp2_silent rnd seg sid base k s t \<and> tp2_fresh sid base n r t \<and> r_cout (tp2_master t) = out @ [d] \<and>
    d_iteration d = n \<and> d_opa d = a \<and> d_opb d = b \<and> d_pgcd d = c_opa (tp2_coproc s)"
proof -
  have rsp: "\<exists>k t d. tp2_silent rnd seg sid base k s t \<and> tp2_fresh sid base n r t \<and> r_cout (tp2_master t) = out @ [d] \<and>
      d_iteration d = n \<and> d_opa d = a \<and> d_opb d = b \<and> d_pgcd d = c_opa (tp2_coproc s)"
    if s: "tp2_at sid base RSP_STATUS a b n r out s" for s
  proof -
    obtain t1 where t1: "tp2_cycle rnd seg sid base True s = Some t1" "tp2_at sid base CMD_RESULT a b n r out t1"
        "c_opa (tp2_coproc t1) = c_opa (tp2_coproc s)"
      by (rule tp2_at_step [OF assms(1) s, of rnd]) auto
    obtain t2 where t2: "tp2_cycle rnd seg sid base True t1 = Some t2" "tp2_at sid base RSP_RESULT a b n r out t2"
        "c_opa (tp2_coproc t2) = c_opa (tp2_coproc t1)"
      by (rule tp2_at_step [OF assms(1) t1(2), of rnd]) auto
    obtain t3 where t3: "tp2_cycle rnd seg sid base True t2 = Some t3" "tp2_at sid base M_DISPLAY a b n r out t3"
        "r_res (tp2_master t3) = c_opa (tp2_coproc t2)"
      by (rule tp2_at_step [OF assms(1) t2(2), of rnd]) auto
    obtain t4 d where t4: "tp2_cycle rnd seg sid base True t3 = Some t4" "tp2_fresh sid base n r t4"
        "r_cout (tp2_master t4) = out @ [d]" "d_iteration d = n" "d_opa d = a" "d_opb d = b" "d_pgcd d = r_res (tp2_master t3)"
      by (rule tp2_display_step [OF assms(1) t3(2), of rnd]) blast
    note c = s [THEN tp2_at_cout] t1(2) [THEN tp2_at_cout] t2(2) [THEN tp2_at_cout] t3(2) [THEN tp2_at_cout]
    have "tp2_silent rnd seg sid base 1 t3 t4" by (rule silent_run_step) (rule t4(1))
    then have "tp2_silent rnd seg sid base (Suc 1) t2 t4" by (rule tp2_silent_Cons [OF t3(1), rotated]) (simp add: c)
    then have "tp2_silent rnd seg sid base (Suc (Suc 1)) t1 t4" by (rule tp2_silent_Cons [OF t2(1), rotated]) (simp add: c)
    then have "tp2_silent rnd seg sid base (Suc (Suc (Suc 1))) s t4" by (rule tp2_silent_Cons [OF t1(1), rotated]) (simp add: c)
    with t1(3) t2(3) t3(3) t4(2-7) show ?thesis
      by (intro exI [of _ "Suc (Suc (Suc 1))"] exI [of _ t4] exI [of _ d]) simp
  qed
  show ?thesis
  proof (cases "f = RSP_STATUS")
    case True
    then show ?thesis using rsp assms(2) by blast
  next
    case False
    then have "tp2_at sid base CMD_STATUS a b n r out s" using assms(2,3) by simp
    then obtain t0 where t0: "tp2_cycle rnd seg sid base True s = Some t0" "tp2_at sid base RSP_STATUS a b n r out t0"
        "c_opa (tp2_coproc t0) = c_opa (tp2_coproc s)"
      by (rule tp2_at_step [OF assms(1), of sid _ a b n r out s rnd]) auto
    obtain k t d where k: "tp2_silent rnd seg sid base k t0 t" "tp2_fresh sid base n r t" "r_cout (tp2_master t) = out @ [d]"
        "d_iteration d = n" "d_opa d = a" "d_opb d = b" "d_pgcd d = c_opa (tp2_coproc t0)"
      using rsp [OF t0(2)] by blast
    have "tp2_silent rnd seg sid base (Suc k) s t"
      by (rule tp2_silent_Cons [OF t0(1) _ k(1)]) (simp add: tp2_at_cout [OF t0(2)] tp2_at_cout [OF assms(2)])
    with k t0(3) show ?thesis by (intro exI [of _ "Suc k"] exI [of _ t] exI [of _ d]) simp
  qed
qed

text \<open>The beginning: drawing the operands, writing them and starting the computation.\<close>

lemma tp2_load:
  fixes rnd :: "'r \<Rightarrow> u32 \<times> 'r"
  assumes "gcd_segment seg base" and "tp2_fresh sid base n r s"
  defines "a \<equiv> fst (rnd r) + 1" and "b \<equiv> fst (rnd (snd (rnd r))) + 1" and "r' \<equiv> snd (rnd (snd (rnd r)))"
  shows "\<exists>k t. 0 < k \<and> tp2_silent rnd seg sid base k s t \<and> polling sid base t t \<and> r_exe_fsm (tp2_coproc t) = EXE_COMPARE \<and>
    c_opa (tp2_coproc t) = a \<and> c_opb (tp2_coproc t) = b \<and> r_opa (tp2_master t) = a \<and> r_opb (tp2_master t) = b \<and>
    r_iter (tp2_master t) = n + 1 \<and> tp2_rng t = r' \<and> r_cout (tp2_master t) = r_cout (tp2_master s)"
proof -
  let ?out = "r_cout (tp2_master s)"
  obtain t1 where t1: "tp2_cycle rnd seg sid base True s = Some t1" "tp2_at sid base CMD_OPA a b (n + 1) r' ?out t1"
    unfolding a_def b_def r'_def by (rule tp2_random_step [OF assms(1,2), of rnd])
  obtain t2 where t2: "tp2_cycle rnd seg sid base True t1 = Some t2" "tp2_at sid base RSP_OPA a b (n + 1) r' ?out t2"
      "c_opa (tp2_coproc t2) = a"
    by (rule tp2_at_step [OF assms(1) t1(2), of rnd]) auto
  obtain t3 where t3: "tp2_cycle rnd seg sid base True t2 = Some t3" "tp2_at sid base CMD_OPB a b (n + 1) r' ?out t3"
      "c_opa (tp2_coproc t3) = a"
    by (rule tp2_at_step [OF assms(1) t2(2), of rnd]) (auto simp: t2(3))
  obtain t4 where t4: "tp2_cycle rnd seg sid base True t3 = Some t4" "tp2_at sid base RSP_OPB a b (n + 1) r' ?out t4"
      "c_opa (tp2_coproc t4) = a" "c_opb (tp2_coproc t4) = b"
    by (rule tp2_at_step [OF assms(1) t3(2), of rnd]) (auto simp: t3(3))
  obtain t5 where t5: "tp2_cycle rnd seg sid base True t4 = Some t5" "tp2_at sid base CMD_START a b (n + 1) r' ?out t5"
      "c_opa (tp2_coproc t5) = a" "c_opb (tp2_coproc t5) = b"
    by (rule tp2_at_step [OF assms(1) t4(2), of rnd]) (auto simp: t4(3,4))
  obtain t6 where t6: "tp2_cycle rnd seg sid base True t5 = Some t6" "tp2_at sid base RSP_START a b (n + 1) r' ?out t6"
      "c_opa (tp2_coproc t6) = a" "c_opb (tp2_coproc t6) = b"
    by (rule tp2_at_step [OF assms(1) t5(2), of rnd]) (auto simp: t5(3,4))
  obtain t7 where t7: "tp2_cycle rnd seg sid base True t6 = Some t7" "polling sid base t7 t7" "r_exe_fsm (tp2_coproc t7) = EXE_COMPARE"
      "c_opa (tp2_coproc t7) = a" "c_opb (tp2_coproc t7) = b" "r_opa (tp2_master t7) = a" "r_opb (tp2_master t7) = b"
      "r_iter (tp2_master t7) = n + 1" "tp2_rng t7 = r'" "r_cout (tp2_master t7) = ?out"
    by (rule tp2_start_step [OF assms(1) t6(2), of rnd]) (auto simp: t6(3,4))
  note c = t1(2) [THEN tp2_at_cout] t2(2) [THEN tp2_at_cout] t3(2) [THEN tp2_at_cout] t4(2) [THEN tp2_at_cout]
    t5(2) [THEN tp2_at_cout] t6(2) [THEN tp2_at_cout]
  have "tp2_silent rnd seg sid base 1 t6 t7" by (rule silent_run_step) (rule t7(1))
  then have "tp2_silent rnd seg sid base (Suc 1) t5 t7" by (rule tp2_silent_Cons [OF t6(1), rotated]) (simp add: c)
  then have "tp2_silent rnd seg sid base (Suc (Suc 1)) t4 t7" by (rule tp2_silent_Cons [OF t5(1), rotated]) (simp add: c)
  then have "tp2_silent rnd seg sid base (Suc (Suc (Suc 1))) t3 t7" by (rule tp2_silent_Cons [OF t4(1), rotated]) (simp add: c)
  then have "tp2_silent rnd seg sid base (Suc (Suc (Suc (Suc 1)))) t2 t7" by (rule tp2_silent_Cons [OF t3(1), rotated]) (simp add: c)
  then have "tp2_silent rnd seg sid base (Suc (Suc (Suc (Suc (Suc 1))))) t1 t7" by (rule tp2_silent_Cons [OF t2(1), rotated]) (simp add: c)
  then have "tp2_silent rnd seg sid base (Suc (Suc (Suc (Suc (Suc (Suc 1)))))) s t7" by (rule tp2_silent_Cons [OF t1(1), rotated]) (simp add: c)
  with t7 show ?thesis by blast
qed

lemma silent_run_funpow:
  assumes "\<forall>j<k. C (f j) = Some (f (Suc j)) \<and> sh (f j) = sh (f 0)"
  shows "silent_run C sh k (f 0) (f k)"
  using assms
proof (induction k)
  case 0
  then show ?case by (simp add: silent_run_def)
next
  case (Suc k)
  have "silent_run C sh k (f 0) (f k)" using Suc.IH Suc.prems less_SucI by blast
  moreover have "C (f k) = Some (f (Suc k))" "sh (f k) = sh (f 0)" using Suc.prems by blast+
  ultimately have "silent_run C sh (k + 1) (f 0) (f (Suc k))" using silent_run_step by (intro silent_run_trans)
  then show ?case by simp
qed

lemma tp2_iteration:
  fixes rnd :: "'r \<Rightarrow> u32 \<times> 'r"
  assumes "gcd_segment seg base" and "rand_range rnd" and "tp2_fresh sid base n r s"
  shows "\<exists>k t d r'. 0 < k \<and> tp2_silent rnd seg sid base k s t \<and> r_cout (tp2_master t) = r_cout (tp2_master s) @ [d] \<and>
    tp2_fresh sid base (n + 1) r' t \<and> (\<forall>ds. session rnd (n + 1) r' ds \<longrightarrow> session rnd n r (d # ds))"
proof -
  let ?a = "fst (rnd r) + 1" and ?b = "fst (rnd (snd (rnd r))) + 1" and ?r = "snd (rnd (snd (rnd r)))"
  obtain k1 t1 where t1: "0 < k1" "tp2_silent rnd seg sid base k1 s t1" "polling sid base t1 t1" "r_exe_fsm (tp2_coproc t1) = EXE_COMPARE"
      "c_opa (tp2_coproc t1) = ?a" "c_opb (tp2_coproc t1) = ?b" "r_opa (tp2_master t1) = ?a" "r_opb (tp2_master t1) = ?b"
      "r_iter (tp2_master t1) = n + 1" "tp2_rng t1 = ?r" "r_cout (tp2_master t1) = r_cout (tp2_master s)"
    using tp2_load [OF assms(1,3), of rnd] by blast
  define f where "f j = ((\<lambda>s. tp2_next rnd seg sid base s) ^^ j) t1" for j
  have f0: "f 0 = t1" by (simp add: f_def)
  obtain k2 where k2: "polling sid base t1 (f k2)" "r_exe_fsm (tp2_coproc (f k2)) = EXE_IDLE"
      "unat (c_opa (tp2_coproc (f k2))) = gcd (unat ?a) (unat ?b)"
      "\<forall>j<k2. polling sid base t1 (f j) \<and> tp2_cycle rnd seg sid base True (f j) = Some (f (Suc j))"
    using tp2_computes [OF assms(1) t1(3,4), of rnd] rand_positive [OF assms(2)] t1(5,6) unfolding f_def by auto
  have "tp2_silent rnd seg sid base k2 (f 0) (f k2)"
    using k2(4) by (intro silent_run_funpow) (auto simp: polling_def f0)
  then have mid: "tp2_silent rnd seg sid base k2 t1 (f k2)" by (simp only: f0)
  let ?f = "r_fsm (tp2_master (f k2))"
  have at: "tp2_at sid base ?f ?a ?b (n + 1) ?r (r_cout (tp2_master s)) (f k2)" "?f \<in> {CMD_STATUS, RSP_STATUS}"
    using k2(1,2) t1(7-11) by (simp_all add: polling_def tp2_at_def)
  obtain k3 t3 d where t3: "tp2_silent rnd seg sid base k3 (f k2) t3" "tp2_fresh sid base (n + 1) ?r t3"
      "r_cout (tp2_master t3) = r_cout (tp2_master s) @ [d]" "d_iteration d = n + 1" "d_opa d = ?a" "d_opb d = ?b"
      "d_pgcd d = c_opa (tp2_coproc (f k2))"
    using tp2_finish [OF assms(1) at, of rnd] by blast
  have "tp2_silent rnd seg sid base (k2 + k3) t1 t3"
    using k2(1) by (intro silent_run_trans [OF mid _ t3(1)]) (simp add: polling_def)
  then have "tp2_silent rnd seg sid base (k1 + (k2 + k3)) s t3"
    using t1(11) by (intro silent_run_trans [OF t1(2)]) simp_all
  moreover have "session rnd n r (d # ds)" if "session rnd (n + 1) ?r ds" for ds
    using that t3(4-7) k2(3) by (simp add: split_beta)
  ultimately show ?thesis
    using t1(1) t3(2,3) by (intro exI [of _ "k1 + (k2 + k3)"] exI [of _ t3] exI [of _ d] exI [of _ ?r]) simp
qed


section \<open>The mapping table of the platform\<close>

definition gcd_seg :: segment where
  "gcd_seg = \<lparr>seg_name = ''GCD'', baseAddress = 0, seg_size = 16, seg_index = tab [0], cacheable = True,
     seg_initiator = False, initiator_index = tab []\<rparr>"

lemma gcd_segment_gcd_seg: "gcd_segment gcd_seg 0"
  by (simp add: gcd_segment_def gcd_seg_def seg_lo_def seg_hi_def)

lemma tp2_simple_maptab_eq:
  "\<exists>mt. tp2_simple_maptab = Inr mt \<and> m_segment_list mt = [gcd_seg] \<and> m_level_id_bits mt = tab [8]"
proof -
  have mask: "0x03000000 = contiguous 2 24" by (simp add: contiguous_def push_bit_eq_mult)
  have w: "widths_ok (tab [8])" by (simp add: widths_ok_def)
  obtain mt k where mt: "MappingTable 32 (tab [8]) (tab [8]) (contiguous 2 24) = Inr mt" "mt_ok k 2 24 mt"
      "m_segment_list mt = []" "m_level_addr_bits mt = tab [8]" "m_level_id_bits mt = tab [8]" "k = 24"
    using MappingTable_ok [OF w, of 32 2 24 "tab [8]"] by auto
  have seg: "mk_segment ''GCD'' 0 16 0 True = Inr gcd_seg"
    by (simp add: mk_segment_def IntTab_small gcd_seg_def)
  have "seg_ok k gcd_seg" by (simp add: seg_ok_def seg_lo_def seg_hi_def gcd_seg_def mt(6))
  then have "add gcd_seg mt = Inr (mt\<lparr>m_segment_list := m_segment_list mt @ [gcd_seg]\<rparr>)"
    using add_Inr_iff [OF mt(2)] mt(3,4) by (simp add: gcd_seg_def)
  then show ?thesis
    using mt(1,3,5) by (simp add: tp2_simple_maptab_def IntTab_small mask seg)
qed

lemma tp2_simple_main_eq:
  "tp2_simple_main rnd n s = (case tp2_cycle rnd gcd_seg 0 0 False s of None \<Rightarrow> None
     | Some s \<Rightarrow> sim_run (tp2_cycle rnd gcd_seg 0 0 True) n s)"
proof -
  obtain mt where mt: "tp2_simple_maptab = Inr mt" "m_segment_list mt = [gcd_seg]" "m_level_id_bits mt = tab [8]"
    using tp2_simple_maptab_eq by blast
  have "int_tab_eq (tab [0]) (tab [0])" by (simp add: int_tab_eq_iff)
  then have "getSegment mt (tab [0]) = Inr gcd_seg"
    by (simp add: getSegment_def getSegmentList_def mt(2) Let_def gcd_seg_def)
  moreover have "indexForId mt (tab [0]) = Inr 0"
    by (simp add: indexForId_def mt(3) int_tab_mult_def int_tab_nth_def tab_def c_shl_def c_int_def)
  ultimately show ?thesis
    by (simp add: tp2_simple_main_def mt(1) IntTab_small cong: option.case_cong)
qed

interpretation tp2: gcd_platform rnd "tp2_cycle rnd gcd_seg 0 0 True" "\<lambda>s. r_cout (tp2_master s)" "tp2_fresh 0 0"
  for rnd :: "'r \<Rightarrow> u32 \<times> 'r"
  by unfold_locales (rule tp2_iteration [OF gcd_segment_gcd_seg])

lemma tp2_reset:
  "\<exists>t. tp2_cycle rnd seg sid base False s = Some t \<and> tp2_fresh sid base 0 (tp2_rng s) t \<and>
     r_cout (tp2_master t) = r_cout (tp2_master s)"
proof -
  let ?t = "tp2_negedge sid base (s\<lparr>tp2_master := (tp2_master s)\<lparr>r_fsm := M_RANDOM, r_cycle := 0, r_iter := 0\<rparr>,
    tp2_coproc := (tp2_coproc s)\<lparr>r_vci_fsm := VCI_GET_CMD, r_exe_fsm := EXE_IDLE\<rparr>\<rparr>)"
  have "tp2_cycle rnd seg sid base False s = Some ?t"
    by (simp add: tp2_cycle_def tp2_posedge_def gcd_coproc_transition_def gcd_master_transition_def)
  moreover have "tp2_fresh sid base 0 (tp2_rng s) ?t"
    by (auto simp: tp2_fresh_def tp2_settled_def tp2_negedge_def in_step_def)
  ultimately show ?thesis by (intro exI [of _ ?t]) (simp add: tp2_negedge_def)
qed

section \<open>Properties\<close>

text \<open>C16. The VCI platform of TP2 refines the specification of a session: from every power up state and for every
  number of cycles, the simulation is not stopped by the assertion or the \<open>exit\<close> of the coprocessor, and what the
  master has displayed is a beginning of the session of its generator.\<close>

theorem tp2_refines_session:
  assumes "rand_range rnd"
  shows "\<exists>t ds. tp2_simple_main rnd n s = Some t \<and> r_cout (tp2_master t) = r_cout (tp2_master s) @ ds \<and>
    session rnd 0 (tp2_rng s) ds"
proof -
  obtain u where u: "tp2_cycle rnd gcd_seg 0 0 False s = Some u" "tp2_fresh 0 0 0 (tp2_rng s) u"
      "r_cout (tp2_master u) = r_cout (tp2_master s)"
    using tp2_reset by blast
  from tp2.displays [OF assms u(2), of n] u(1,3) show ?thesis by (simp add: tp2_simple_main_eq)
qed

text \<open>A platform at power up.\<close>

definition idle_vci :: vci_signals where
  "idle_vci = \<lparr>rspack = False, rspval = False, rdata = 0, reop = False, rerror = 0, rsrcid = 0, rtrdid = 0, rpktid = 0,
     cmdack = False, cmdval = False, vaddress = 0, be = 0, vcmd = 0, contig = False, wdata = 0, eop = False,
     vcons = False, plen = 0, vwrap = False, cfixed = False, clen = 0, srcid = 0, trdid = 0, pktid = 0\<rparr>"

definition master_power_up :: vci_gcd_master where
  "master_power_up = \<lparr>r_fsm = M_RANDOM, r_opa = 0, r_opb = 0, r_res = 0, r_cycle = 0, r_iter = 0, r_cout = []\<rparr>"

definition coproc_power_up :: vci_gcd_coprocessor where
  "coproc_power_up = \<lparr>r_vci_fsm = VCI_GET_CMD, r_exe_fsm = EXE_IDLE, r_srcid = 0, r_trdid = 0, r_pktid = 0, c_opa = 0, c_opb = 0\<rparr>"

definition tp2_power_up :: "nat tp2_simple" where
  "tp2_power_up = \<lparr>signal_vci = idle_vci, tp2_master = master_power_up, tp2_coproc = coproc_power_up, tp2_rng = 3\<rparr>"

theorem tp2_refines_session_witness:
  "rand_range count_rand \<and> (\<exists>t ds. tp2_simple_main count_rand 40 tp2_power_up = Some t \<and>
     r_cout (tp2_master t) = [] @ ds \<and> session count_rand 0 3 ds)"
  using tp2_refines_session [OF count_rand_range, of 40 tp2_power_up] count_rand_range
  by (simp add: tp2_power_up_def master_power_up_def)

text \<open>The VCI platform of TP2 never gets stuck: every number of results is displayed after enough cycles.\<close>

theorem tp2_keeps_computing:
  assumes "rand_range rnd"
  shows "\<exists>n t ds. tp2_simple_main rnd n s = Some t \<and> r_cout (tp2_master t) = r_cout (tp2_master s) @ ds \<and>
    length ds = l \<and> session rnd 0 (tp2_rng s) ds"
proof -
  obtain u where u: "tp2_cycle rnd gcd_seg 0 0 False s = Some u" "tp2_fresh 0 0 0 (tp2_rng s) u"
      "r_cout (tp2_master u) = r_cout (tp2_master s)"
    using tp2_reset by blast
  from tp2.keeps_displaying [OF assms u(2), of l] u(1,3) show ?thesis by (simp add: tp2_simple_main_eq)
qed

theorem tp2_keeps_computing_witness:
  "\<exists>n t ds. tp2_simple_main count_rand n tp2_power_up = Some t \<and> r_cout (tp2_master t) = [] @ ds \<and> length ds = 2 \<and>
     session count_rand 0 3 ds"
  using tp2_keeps_computing [OF count_rand_range, of tp2_power_up 2] by (simp add: tp2_power_up_def master_power_up_def)

end
