(* ===== verification/Vgsb.thy ===== *)
theory Vgsb
  imports Vci Tables
begin

text \<open>
  The system bus of TP2 (\<open>vci_vgsb.h/.cpp\<close>): an arbiter and two multiplexers. The ports \<open>p_to_initiator\<close> and
  \<open>p_to_target\<close> are lists of signal bundles, which stand for the arrays of \<open>nb_initiator\<close> and \<open>nb_target\<close> elements that
  the constructor allocates. \<open>transition\<close> gives \<open>None\<close> if it reads or writes an array out of range. The four
  Mealy functions drive the signals of the ports from the registers and from the other signals.
\<close>

section \<open>The bus\<close>

datatype vgsb_fsm_state = FSM_IDLE | FSM_CMD | FSM_RSP

record vgsb =
  v_fsm :: vgsb_fsm_state
  r_initiator_index :: nat
  r_target_index :: nat
  r_vci_counter :: "u32 list list"

text \<open>The loop of the arbiter: the first initiator, in the order of the indices \<open>is\<close>, that has a command; \<open>None\<close> if an
  index that it reads is not an index of the array.\<close>

primrec first_command :: "nat \<Rightarrow> vci_signals list \<Rightarrow> nat list \<Rightarrow> nat option option" where
  "first_command nb_initiator p_to_initiator [] = Some None"
| "first_command nb_initiator p_to_initiator (ini # is) =
     (if \<not> ini < nb_initiator then None
      else if cmdval (p_to_initiator ! ini) then Some (Some ini)
      else first_command nb_initiator p_to_initiator is)"

definition arbiter_loop :: "nat \<Rightarrow> vci_signals list \<Rightarrow> nat \<Rightarrow> nat option option" where
  "arbiter_loop nb_initiator p_to_initiator cur =
     first_command nb_initiator p_to_initiator (map (\<lambda>x. (x + 1 + cur) mod nb_initiator) [0..<nb_initiator])"

text \<open>The initiator that the loop elects, when it stays in range.\<close>

definition arbitrate :: "nat \<Rightarrow> vci_signals list \<Rightarrow> nat \<Rightarrow> nat option" where
  "arbitrate n p_to_initiator cur =
     find (\<lambda>ini. cmdval (p_to_initiator ! ini)) (map (\<lambda>x. (x + 1 + cur) mod n) [0..<n])"

text \<open>The writes for the elected initiator: the indices and the counter.\<close>

definition allocate :: "int decoding_table \<Rightarrow> vci_signals list \<Rightarrow> nat \<Rightarrow> vgsb \<Rightarrow> vgsb option" where
  "allocate routing_table p_to_initiator ini b =
     (case adt_nth routing_table (vaddress (p_to_initiator ! ini)) of
        Inl e \<Rightarrow> None
      | Inr t \<Rightarrow>
          if 0 \<le> t \<and> ini < length (r_vci_counter b) \<and> nat t < length (r_vci_counter b ! ini)
          then Some (b\<lparr>r_initiator_index := ini, r_target_index := nat t,
            r_vci_counter := (r_vci_counter b)[ini := (r_vci_counter b ! ini)[nat t := r_vci_counter b ! ini ! nat t + 1]]\<rparr>)
          else None)"

definition vgsb_transition ::
    "int decoding_table \<Rightarrow> nat \<Rightarrow> nat \<Rightarrow> bool \<Rightarrow> vci_signals list \<Rightarrow> vci_signals list \<Rightarrow> vgsb \<Rightarrow> vgsb option" where
  "vgsb_transition routing_table nb_initiator nb_target resetn p_to_initiator p_to_target b =
     (if \<not> resetn then
        Some (b\<lparr>v_fsm := FSM_IDLE, r_initiator_index := 0, r_target_index := 0,
               r_vci_counter := replicate nb_initiator (replicate nb_target 0)\<rparr>)
      else case v_fsm b of
        FSM_IDLE \<Rightarrow>
          (case arbiter_loop nb_initiator p_to_initiator (r_initiator_index b) of
             None \<Rightarrow> None
           | Some None \<Rightarrow> Some b
           | Some (Some ini) \<Rightarrow> map_option (\<lambda>b. b\<lparr>v_fsm := FSM_CMD\<rparr>) (allocate routing_table p_to_initiator ini b))
      | FSM_CMD \<Rightarrow>
          if \<not> r_initiator_index b < nb_initiator then None
          else if eop (p_to_initiator ! r_initiator_index b) \<and> cmdval (p_to_initiator ! r_initiator_index b) then
            if \<not> r_target_index b < nb_target then None
            else if cmdack (p_to_target ! r_target_index b) then Some (b\<lparr>v_fsm := FSM_RSP\<rparr>) else Some b
          else Some b
      | FSM_RSP \<Rightarrow>
          if \<not> r_target_index b < nb_target then None
          else if reop (p_to_target ! r_target_index b) \<and> rspval (p_to_target ! r_target_index b) then
            if \<not> r_initiator_index b < nb_initiator then None
            else if rspack (p_to_initiator ! r_initiator_index b) then
              map_option (\<lambda>b. b\<lparr>v_fsm := FSM_IDLE\<rparr>)
                (case arbiter_loop nb_initiator p_to_initiator (r_initiator_index b) of
                   None \<Rightarrow> None
                 | Some None \<Rightarrow> Some b
                 | Some (Some ini) \<Rightarrow> map_option (\<lambda>b. b\<lparr>v_fsm := FSM_CMD\<rparr>) (allocate routing_table p_to_initiator ini b))
            else Some b
          else Some b)"

section \<open>The Mealy functions\<close>

definition genMealy_cmdval :: "vgsb \<Rightarrow> vci_signals list \<Rightarrow> vci_signals list \<Rightarrow> vci_signals list" where
  "genMealy_cmdval b p_to_initiator p_to_target =
     (let ini = r_initiator_index b; tgt = r_target_index b in
      if v_fsm b = FSM_CMD then
        map (\<lambda>x. if x = tgt then (p_to_target ! x)\<lparr>cmdval := cmdval (p_to_initiator ! ini),
              wdata := wdata (p_to_initiator ! ini), vaddress := vaddress (p_to_initiator ! ini),
              be := be (p_to_initiator ! ini), plen := plen (p_to_initiator ! ini),
              srcid := srcid (p_to_initiator ! ini), trdid := trdid (p_to_initiator ! ini),
              pktid := pktid (p_to_initiator ! ini), vcmd := vcmd (p_to_initiator ! ini),
              contig := contig (p_to_initiator ! ini), eop := eop (p_to_initiator ! ini)\<rparr>
            else (p_to_target ! x)\<lparr>cmdval := False\<rparr>) [0..<length p_to_target]
      else map (\<lambda>x. (p_to_target ! x)\<lparr>cmdval := False\<rparr>) [0..<length p_to_target])"

definition genMealy_cmdack :: "vgsb \<Rightarrow> vci_signals list \<Rightarrow> vci_signals list \<Rightarrow> vci_signals list" where
  "genMealy_cmdack b p_to_target p_to_initiator =
     (let ini = r_initiator_index b; tgt = r_target_index b in
      if v_fsm b = FSM_CMD then
        map (\<lambda>x. if x = ini then (p_to_initiator ! x)\<lparr>cmdack := cmdack (p_to_target ! tgt)\<rparr>
            else (p_to_initiator ! x)\<lparr>cmdack := False\<rparr>) [0..<length p_to_initiator]
      else map (\<lambda>x. (p_to_initiator ! x)\<lparr>cmdack := False\<rparr>) [0..<length p_to_initiator])"

definition genMealy_rspval :: "vgsb \<Rightarrow> vci_signals list \<Rightarrow> vci_signals list \<Rightarrow> vci_signals list" where
  "genMealy_rspval b p_to_target p_to_initiator =
     (let ini = r_initiator_index b; tgt = r_target_index b in
      if v_fsm b = FSM_RSP then
        map (\<lambda>x. if x = ini then (p_to_initiator ! x)\<lparr>rspval := rspval (p_to_target ! tgt),
              rdata := rdata (p_to_target ! tgt), rerror := rerror (p_to_target ! tgt),
              rsrcid := rsrcid (p_to_target ! tgt), rtrdid := rtrdid (p_to_target ! tgt),
              rpktid := rpktid (p_to_target ! tgt), reop := reop (p_to_target ! tgt)\<rparr>
            else (p_to_initiator ! x)\<lparr>rspval := False\<rparr>) [0..<length p_to_initiator]
      else map (\<lambda>x. (p_to_initiator ! x)\<lparr>rspval := False\<rparr>) [0..<length p_to_initiator])"

definition genMealy_rspack :: "vgsb \<Rightarrow> vci_signals list \<Rightarrow> vci_signals list \<Rightarrow> vci_signals list" where
  "genMealy_rspack b p_to_initiator p_to_target =
     (let ini = r_initiator_index b; tgt = r_target_index b in
      if v_fsm b = FSM_RSP then
        map (\<lambda>x. if x = tgt then (p_to_target ! x)\<lparr>rspack := rspack (p_to_initiator ! ini)\<rparr>
            else (p_to_target ! x)\<lparr>rspack := False\<rparr>) [0..<length p_to_target]
      else map (\<lambda>x. (p_to_target ! x)\<lparr>rspack := False\<rparr>) [0..<length p_to_target])"

section \<open>Facts on the arbiter\<close>

lemma first_command_in_range:
  "\<forall>i \<in> set is. i < n \<Longrightarrow> first_command n ps is = Some (find (\<lambda>ini. cmdval (ps ! ini)) is)"
  by (induction \<open>is\<close>) auto

text \<open>The loop stays in range, since its indices are remainders.\<close>

lemma arbiter_loop_eq [simp]: "arbiter_loop n ps cur = Some (arbitrate n ps cur)"
  unfolding arbiter_loop_def arbitrate_def by (rule first_command_in_range) auto

lemma arbitrate_Some:
  assumes "0 < n" and "arbitrate n ps cur = Some i"
  shows "i < n \<and> cmdval (ps ! i)"
  using assms by (auto simp: arbitrate_def find_Some_iff)

lemma arbitrate_None:
  assumes "arbitrate n ps cur = None" and "i < n"
  shows "\<not> cmdval (ps ! i)"
proof -
  have "0 < n" using assms(2) by simp
  have "(n - 1 + i) mod n < n \<and> ((i + n - 1 - cur mod n) mod n + 1 + cur) mod n = i"
  proof
    have "((i + n - 1 - cur mod n) mod n + 1 + cur) mod n = (i + n - 1 - cur mod n + 1 + cur mod n) mod n"
      by (simp add: mod_simps) (metis (no_types, opaque_lifting) add.assoc mod_add_left_eq mod_add_right_eq mod_Suc_eq)
    also have "i + n - 1 - cur mod n + 1 + cur mod n = i + n"
      using mod_less_divisor [OF \<open>0 < n\<close>, of cur] by linarith
    finally show "((i + n - 1 - cur mod n) mod n + 1 + cur) mod n = i" using assms(2) by simp
  qed (use \<open>0 < n\<close> in simp)
  moreover have "(i + n - 1 - cur mod n) mod n < n" using \<open>0 < n\<close> by simp
  ultimately show ?thesis using assms(1) unfolding arbitrate_def find_None_iff set_map set_upt
    by (metis atLeastLessThan_iff image_eqI zero_le)
qed

text \<open>If the initiator after the current one has a command, it wins.\<close>

lemma arbitrate_next:
  assumes "0 < n" and "cmdval (ps ! ((cur + 1) mod n))"
  shows "arbitrate n ps cur = Some ((cur + 1) mod n)"
proof -
  have "[0..<n] = 0 # [1..<n]" using assms(1) by (simp add: upt_conv_Cons)
  then show ?thesis using assms(2) by (simp add: arbitrate_def)
qed


section \<open>Well-formed buses\<close>

definition routes_below :: "nat \<Rightarrow> int decoding_table \<Rightarrow> bool" where
  "routes_below k rt \<longleftrightarrow> adt_ok rt \<and> (\<forall>a. 0 \<le> adt_get rt a \<and> adt_get rt a < int k)"

definition vgsb_ok :: "nat \<Rightarrow> nat \<Rightarrow> vgsb \<Rightarrow> bool" where
  "vgsb_ok n k b \<longleftrightarrow> r_initiator_index b < n \<and> r_target_index b < k \<and> length (r_vci_counter b) = n \<and>
     (\<forall>row \<in> set (r_vci_counter b). length row = k)"

lemma allocate_in_range:
  assumes "adt_ok rt" and "vgsb_ok n k b" and "i < n"
    and "0 \<le> adt_get rt (vaddress (ps ! i))" and "adt_get rt (vaddress (ps ! i)) < int k"
  shows "\<exists>b'. allocate rt ps i b = Some b' \<and> vgsb_ok n k b' \<and> v_fsm b' = v_fsm b \<and> r_initiator_index b' = i \<and>
    r_target_index b' = nat (adt_get rt (vaddress (ps ! i))) \<and>
    r_vci_counter b' ! i ! r_target_index b' = r_vci_counter b ! i ! r_target_index b' + 1"
proof -
  let ?t = "adt_get rt (vaddress (ps ! i))"
  have t: "0 \<le> ?t" "nat ?t < k" using assms(4,5) by (auto simp: nat_less_iff)
  have rows: "length (r_vci_counter b) = n" "length (r_vci_counter b ! i) = k"
    using assms(2,3) by (auto simp: vgsb_ok_def)
  let ?b = "b\<lparr>r_initiator_index := i, r_target_index := nat ?t,
    r_vci_counter := (r_vci_counter b)[i := (r_vci_counter b ! i)[nat ?t := r_vci_counter b ! i ! nat ?t + 1]]\<rparr>"
  have "allocate rt ps i b = Some ?b"
    using assms(1,3) t rows by (simp add: allocate_def adt_nth_ok)
  moreover have "vgsb_ok n k ?b"
  proof -
    have "length row = k" if "row \<in> set ((r_vci_counter b)[i := (r_vci_counter b ! i)[nat ?t := r_vci_counter b ! i ! nat ?t + 1]])" for row
      using subsetD [OF set_update_subset_insert that] assms(2) rows(2) by (auto simp: vgsb_ok_def)
    then show ?thesis using assms(3) t rows(1) by (simp add: vgsb_ok_def)
  qed
  ultimately show ?thesis using assms(3) t rows by simp
qed

lemma allocate_negative:
  assumes "adt_ok rt" and "adt_get rt (vaddress (ps ! i)) < 0"
  shows "allocate rt ps i b = None"
  using assms by (simp add: allocate_def adt_nth_ok)

lemma allocate_ok:
  assumes "routes_below k rt" and "vgsb_ok n k b" and "i < n"
  shows "\<exists>b'. allocate rt ps i b = Some b' \<and> vgsb_ok n k b' \<and> v_fsm b' = v_fsm b \<and> r_initiator_index b' = i \<and>
    r_target_index b' = nat (adt_get rt (vaddress (ps ! i))) \<and>
    r_vci_counter b' ! i ! r_target_index b' = r_vci_counter b ! i ! r_target_index b' + 1"
  using assms by (intro allocate_in_range) (auto simp: routes_below_def)

lemma vgsb_transition_in_range:
  assumes "0 < n" and "adt_ok rt" and "vgsb_ok n k b"
    and "\<forall>i<n. cmdval (inis ! i) \<longrightarrow> 0 \<le> adt_get rt (vaddress (inis ! i)) \<and> adt_get rt (vaddress (inis ! i)) < int k"
  shows "\<exists>b'. vgsb_transition rt n k True inis tgts b = Some b' \<and> vgsb_ok n k b'"
proof -
  have alloc: "\<exists>b'. allocate rt inis i b = Some b' \<and> vgsb_ok n k (b'\<lparr>v_fsm := f\<rparr>)"
    if "arbitrate n inis (r_initiator_index b) = Some i" for i f
  proof -
    have i: "i < n" "cmdval (inis ! i)" using arbitrate_Some [OF assms(1) that] by simp_all
    then have "0 \<le> adt_get rt (vaddress (inis ! i))" "adt_get rt (vaddress (inis ! i)) < int k" using assms(4) by blast+
    from allocate_in_range [OF assms(2,3) i(1) this] show ?thesis by (auto simp: vgsb_ok_def)
  qed
  have ok: "r_initiator_index b < n" "r_target_index b < k" and upd: "vgsb_ok n k (b\<lparr>v_fsm := f\<rparr>)" for f
    using assms(3) by (simp_all add: vgsb_ok_def)
  show ?thesis
  proof (cases "v_fsm b")
    case FSM_IDLE
    then show ?thesis
      using assms(3) alloc [of _ FSM_CMD]
      by (cases "arbitrate n inis (r_initiator_index b)") (fastforce simp: vgsb_transition_def)+
  next
    case FSM_CMD
    then show ?thesis using assms(3) ok upd by (simp add: vgsb_transition_def)
  next
    case FSM_RSP
    then show ?thesis
      using assms(3) ok upd alloc [of _ FSM_IDLE]
      by (cases "arbitrate n inis (r_initiator_index b)") (fastforce simp: vgsb_transition_def)+
  qed
qed

lemma allocate_keeps: "allocate rt ps i b = Some b' \<Longrightarrow> vgsb_ok n k b \<Longrightarrow> i < n \<Longrightarrow> vgsb_ok n k (b'\<lparr>v_fsm := f\<rparr>)"
  by (auto simp: allocate_def vgsb_ok_def split: sum.splits if_splits dest!: subsetD [OF set_update_subset_insert])

lemma vgsb_transition_keeps:
  assumes "0 < n" and "vgsb_transition rt n k True inis tgts b = Some b'" and "vgsb_ok n k b"
  shows "vgsb_ok n k b'"
proof -
  have upd: "vgsb_ok n k (b\<lparr>v_fsm := f\<rparr>)" for f using assms(3) by (simp add: vgsb_ok_def)
  show ?thesis
    using assms upd arbitrate_Some [OF assms(1)] allocate_keeps [OF _ assms(3)]
    by (cases "v_fsm b") (auto simp: vgsb_transition_def split: option.splits if_splits)
qed

lemma vgsb_transition_reset:
  "0 < n \<Longrightarrow> 0 < k \<Longrightarrow> \<exists>b'. vgsb_transition rt n k False inis tgts b = Some b' \<and> vgsb_ok n k b'"
  by (simp add: vgsb_transition_def vgsb_ok_def)

lemma vgsb_transition_ok:
  assumes "0 < n" and "0 < k" and "routes_below k rt" and "vgsb_ok n k b \<or> \<not> resetn"
  shows "\<exists>b'. vgsb_transition rt n k resetn inis tgts b = Some b' \<and> vgsb_ok n k b'"
  using assms vgsb_transition_reset [OF assms(1,2)] vgsb_transition_in_range [of n rt k b inis tgts]
  by (cases resetn) (auto simp: routes_below_def)

text \<open>What a transition that stays in range can do, state by state.\<close>

lemma vgsb_transition_cases:
  assumes "0 < n" and "vgsb_transition rt n k True inis tgts b = Some b'"
  shows "v_fsm b = FSM_IDLE \<Longrightarrow> b' = b \<or> v_fsm b' = FSM_CMD \<and> cmdval (inis ! r_initiator_index b') \<and>
      adt_nth rt (vaddress (inis ! r_initiator_index b')) = Inr (int (r_target_index b'))"
    and "v_fsm b = FSM_CMD \<Longrightarrow> b' = b \<or> b' = b\<lparr>v_fsm := FSM_RSP\<rparr> \<and> eop (inis ! r_initiator_index b) \<and>
      cmdval (inis ! r_initiator_index b) \<and> cmdack (tgts ! r_target_index b)"
    and "v_fsm b = FSM_RSP \<Longrightarrow> b' = b \<or> v_fsm b' = FSM_IDLE"
proof -
  have alloc: "v_fsm b'' = v_fsm b \<and> r_initiator_index b'' = i \<and> adt_nth rt (vaddress (inis ! i)) = Inr (int (r_target_index b''))"
    if "allocate rt inis i b = Some b''" for i b''
    using that by (auto simp: allocate_def split: sum.splits if_splits)
  show "v_fsm b = FSM_IDLE \<Longrightarrow> b' = b \<or> v_fsm b' = FSM_CMD \<and> cmdval (inis ! r_initiator_index b') \<and>
      adt_nth rt (vaddress (inis ! r_initiator_index b')) = Inr (int (r_target_index b'))"
    using assms arbitrate_Some [OF assms(1)] by (auto simp: vgsb_transition_def split: option.splits dest: alloc)
  show "v_fsm b = FSM_CMD \<Longrightarrow> b' = b \<or> b' = b\<lparr>v_fsm := FSM_RSP\<rparr> \<and> eop (inis ! r_initiator_index b) \<and>
      cmdval (inis ! r_initiator_index b) \<and> cmdack (tgts ! r_target_index b)"
    and "v_fsm b = FSM_RSP \<Longrightarrow> b' = b \<or> v_fsm b' = FSM_IDLE"
    using assms(2) by (auto simp: vgsb_transition_def split: option.splits if_splits)
qed

section \<open>Properties\<close>

text \<open>C28. The bus stays in range and well formed. The constructor accepts a routing table whose targets are all below
  the number of targets; it does not reject negative ones. With such a table, a reset makes the bus well formed; and
  from a well-formed bus a transition reads and writes its arrays in range, and leaves a well-formed bus (the indices of
  the selected initiator and target are in range and the counters have their dimensions), unless an initiator has a
  command to an address whose target is negative. In the idle state the failure does happen if that initiator is the one
  that the arbiter elects.\<close>

theorem vgsb_wellformed:
  assumes "0 < n" and "0 < k" and "adt_ok rt" and "isAllBelow (int k) rt = Inr True"
  shows "(\<exists>b'. vgsb_transition rt n k False inis tgts b = Some b' \<and> vgsb_ok n k b') \<and>
    (vgsb_ok n k b \<longrightarrow> (case vgsb_transition rt n k True inis tgts b of
        Some b' \<Rightarrow> vgsb_ok n k b'
      | None \<Rightarrow> \<exists>i<n. cmdval (inis ! i) \<and> adt_get rt (vaddress (inis ! i)) < 0)) \<and>
    (\<forall>x<n. v_fsm b = FSM_IDLE \<and> cmdval (inis ! ((r_initiator_index b + 1 + x) mod n)) \<and>
      (\<forall>y<x. \<not> cmdval (inis ! ((r_initiator_index b + 1 + y) mod n))) \<and>
      adt_get rt (vaddress (inis ! ((r_initiator_index b + 1 + x) mod n))) < 0 \<longrightarrow>
      vgsb_transition rt n k True inis tgts b = None)"
proof (intro conjI allI impI)
  show "\<exists>b'. vgsb_transition rt n k False inis tgts b = Some b' \<and> vgsb_ok n k b'"
    by (rule vgsb_transition_reset [OF assms(1,2)])
next
  assume ok: "vgsb_ok n k b"
  have below: "adt_get rt a < int k" for a
    using assms(4) nth_mem [OF adt_cell_bound [OF assms(3)], of a] by (simp add: isAllBelow_iff [OF assms(3)] adt_get_def)
  show "case vgsb_transition rt n k True inis tgts b of Some b' \<Rightarrow> vgsb_ok n k b'
      | None \<Rightarrow> \<exists>i<n. cmdval (inis ! i) \<and> adt_get rt (vaddress (inis ! i)) < 0"
  proof (cases "\<exists>i<n. cmdval (inis ! i) \<and> adt_get rt (vaddress (inis ! i)) < 0")
    case True
    then show ?thesis using vgsb_transition_keeps [OF assms(1) _ ok] by (simp split: option.splits)
  next
    case False
    then show ?thesis
      using vgsb_transition_in_range [OF assms(1,3) ok, of inis tgts] below by (fastforce simp: not_less)
  qed
next
  fix x
  assume x: "x < n" "v_fsm b = FSM_IDLE \<and> cmdval (inis ! ((r_initiator_index b + 1 + x) mod n)) \<and>
      (\<forall>y<x. \<not> cmdval (inis ! ((r_initiator_index b + 1 + y) mod n))) \<and>
      adt_get rt (vaddress (inis ! ((r_initiator_index b + 1 + x) mod n))) < 0"
  then have "arbitrate n inis (r_initiator_index b) = Some ((r_initiator_index b + 1 + x) mod n)"
    by (auto simp: arbitrate_def find_Some_iff add.commute add.left_commute intro!: exI [of _ x])
  then show "vgsb_transition rt n k True inis tgts b = None"
    using x allocate_negative [OF assms(3)] by (simp add: vgsb_transition_def)
qed

text \<open>Arbitration in the idle state: the bus stays idle if nobody has a command; otherwise it is allocated to an
  initiator with a command and to the target that decodes its address, every initiator between the previous
  owner and the new one (in circular order) having no command.\<close>

theorem vgsb_idle_arbitration:
  assumes "0 < n" and "routes_below k rt" and "vgsb_ok n k b" and "v_fsm b = FSM_IDLE"
  shows "if \<forall>i<n. \<not> cmdval (inis ! i) then vgsb_transition rt n k True inis tgts b = Some b
    else \<exists>b' x. vgsb_transition rt n k True inis tgts b = Some b' \<and> v_fsm b' = FSM_CMD \<and> x < n \<and>
      r_initiator_index b' = (r_initiator_index b + 1 + x) mod n \<and> cmdval (inis ! r_initiator_index b') \<and>
      (\<forall>y<x. \<not> cmdval (inis ! ((r_initiator_index b + 1 + y) mod n))) \<and>
      adt_nth rt (vaddress (inis ! r_initiator_index b')) = Inr (int (r_target_index b'))"
proof (cases "arbitrate n inis (r_initiator_index b)")
  case None
  then show ?thesis using arbitrate_None [OF None] assms(4) by (simp add: vgsb_transition_def)
next
  case (Some i)
  then obtain x where x: "x < n" "i = (x + 1 + r_initiator_index b) mod n"
      "\<forall>y<x. \<not> cmdval (inis ! ((y + 1 + r_initiator_index b) mod n))"
    by (auto simp: arbitrate_def find_Some_iff)
  have i: "i < n" "cmdval (inis ! i)" using arbitrate_Some [OF assms(1) Some] by simp_all
  obtain b' where b': "allocate rt inis i b = Some b'" "r_initiator_index b' = i"
      "r_target_index b' = nat (adt_get rt (vaddress (inis ! i)))"
    using allocate_ok [OF assms(2,3) i(1), of inis] by blast
  have "adt_nth rt (vaddress (inis ! i)) = Inr (int (r_target_index b'))"
    using assms(2) b'(3) by (simp add: routes_below_def adt_nth_ok)
  with b' x i Some assms(4) show ?thesis
    by (auto simp: vgsb_transition_def add.commute add.left_commute intro!: exI [of _ x])
qed

text \<open>A run of the bus: \<open>y\<close> gets the bus at time \<open>t0\<close> for the target \<open>x\<close> that its address decodes to, and keeps it in the
  state \<open>f\<close> from after \<open>t0\<close> until \<open>t\<close>.\<close>

definition gets_bus :: "int decoding_table \<Rightarrow> (nat \<Rightarrow> vci_signals list) \<Rightarrow> (nat \<Rightarrow> vgsb) \<Rightarrow> nat \<Rightarrow> nat \<Rightarrow> nat \<Rightarrow> bool" where
  "gets_bus rt inis b t0 y x \<longleftrightarrow> v_fsm (b t0) = FSM_IDLE \<and> cmdval (inis t0 ! y) \<and>
     adt_nth rt (vaddress (inis t0 ! y)) = Inr (int x)"

definition keeps_bus :: "(nat \<Rightarrow> vgsb) \<Rightarrow> vgsb_fsm_state \<Rightarrow> nat \<Rightarrow> nat \<Rightarrow> nat \<Rightarrow> nat \<Rightarrow> bool" where
  "keeps_bus b f t0 t y x \<longleftrightarrow> t0 < t \<and> (\<forall>u. t0 < u \<and> u \<le> t \<longrightarrow>
     v_fsm (b u) = f \<and> r_initiator_index (b u) = y \<and> r_target_index (b u) = x)"

lemma keeps_bus_Suc:
  "keeps_bus b f t0 (Suc t) y x \<longleftrightarrow> v_fsm (b (Suc t)) = f \<and> r_initiator_index (b (Suc t)) = y \<and>
     r_target_index (b (Suc t)) = x \<and> (t0 = t \<or> keeps_bus b f t0 t y x)"
  by (auto simp: keeps_bus_def le_Suc_eq less_Suc_eq)

text \<open>The command of \<open>y\<close> to \<open>x\<close>, from its election until the target has accepted its last word at time \<open>t1\<close>.\<close>

definition command_accepted ::
    "int decoding_table \<Rightarrow> (nat \<Rightarrow> vci_signals list) \<Rightarrow> (nat \<Rightarrow> vci_signals list) \<Rightarrow> (nat \<Rightarrow> vgsb) \<Rightarrow> nat \<Rightarrow> nat \<Rightarrow> nat \<Rightarrow> nat \<Rightarrow> bool" where
  "command_accepted rt inis tgts b t0 t1 y x \<longleftrightarrow> gets_bus rt inis b t0 y x \<and> keeps_bus b FSM_CMD t0 t1 y x \<and>
     eop (inis t1 ! y) \<and> cmdval (inis t1 ! y) \<and> cmdack (tgts t1 ! x)"

lemma bus_history:
  assumes "0 < n" and "v_fsm (b 0) = FSM_IDLE"
    and "\<forall>t. vgsb_transition rt n k True (inis t) (tgts t) (b t) = Some (b (Suc t))"
  shows "(v_fsm (b t) = FSM_CMD \<longrightarrow> (\<exists>t0. gets_bus rt inis b t0 (r_initiator_index (b t)) (r_target_index (b t)) \<and>
        keeps_bus b FSM_CMD t0 t (r_initiator_index (b t)) (r_target_index (b t)))) \<and>
    (v_fsm (b t) = FSM_RSP \<longrightarrow> (\<exists>t0 t1. command_accepted rt inis tgts b t0 t1 (r_initiator_index (b t)) (r_target_index (b t)) \<and>
        keeps_bus b FSM_RSP t1 t (r_initiator_index (b t)) (r_target_index (b t))))"
proof (induction t)
  case 0
  then show ?case using assms(2) by simp
next
  case (Suc t)
  note step = vgsb_transition_cases [OF assms(1) assms(3) [rule_format, of t]]
  show ?case
  proof (cases "v_fsm (b t)")
    case FSM_IDLE
    with step(1) show ?thesis by (auto simp: keeps_bus_Suc gets_bus_def)
  next
    case FSM_CMD
    with step(2) Suc show ?thesis by (fastforce simp: keeps_bus_Suc command_accepted_def)
  next
    case FSM_RSP
    with step(3) Suc show ?thesis by (fastforce simp: keeps_bus_Suc)
  qed
qed

text \<open>What a port is shown: the fields of a command and of a response that the bus forwards.\<close>

definition same_command :: "vci_signals \<Rightarrow> vci_signals \<Rightarrow> bool" where
  "same_command p q \<longleftrightarrow> cmdval p = cmdval q \<and> vaddress p = vaddress q \<and> vcmd p = vcmd q \<and> wdata p = wdata q \<and> be p = be q \<and>
     plen p = plen q \<and> eop p = eop q \<and> contig p = contig q \<and> srcid p = srcid q \<and> trdid p = trdid q \<and> pktid p = pktid q"

definition same_response :: "vci_signals \<Rightarrow> vci_signals \<Rightarrow> bool" where
  "same_response p q \<longleftrightarrow> rspval p = rspval q \<and> rdata p = rdata q \<and> rerror p = rerror q \<and> reop p = reop q \<and>
     rsrcid p = rsrcid q \<and> rtrdid p = rtrdid q \<and> rpktid p = rpktid q"

text \<open>\<open>y\<close> and \<open>x\<close> are connected for a command or a response: one is shown what the other gives, and nobody else is shown
  a valid command or response or an acknowledge.\<close>

definition connected_cmd :: "vgsb \<Rightarrow> vci_signals list \<Rightarrow> vci_signals list \<Rightarrow> nat \<Rightarrow> nat \<Rightarrow> bool" where
  "connected_cmd b inis tgts y x \<longleftrightarrow>
     (\<forall>z<length tgts. if z = x then same_command (genMealy_cmdval b inis tgts ! z) (inis ! y)
        else \<not> cmdval (genMealy_cmdval b inis tgts ! z)) \<and>
     (\<forall>z<length inis. cmdack (genMealy_cmdack b tgts inis ! z) \<longleftrightarrow> z = y \<and> cmdack (tgts ! x)) \<and>
     (\<forall>z<length inis. \<not> rspval (genMealy_rspval b tgts inis ! z)) \<and>
     (\<forall>z<length tgts. \<not> rspack (genMealy_rspack b inis tgts ! z))"

definition connected_rsp :: "vgsb \<Rightarrow> vci_signals list \<Rightarrow> vci_signals list \<Rightarrow> nat \<Rightarrow> nat \<Rightarrow> bool" where
  "connected_rsp b inis tgts y x \<longleftrightarrow>
     (\<forall>z<length inis. if z = y then same_response (genMealy_rspval b tgts inis ! z) (tgts ! x)
        else \<not> rspval (genMealy_rspval b tgts inis ! z)) \<and>
     (\<forall>z<length tgts. rspack (genMealy_rspack b inis tgts ! z) \<longleftrightarrow> z = x \<and> rspack (inis ! y)) \<and>
     (\<forall>z<length tgts. \<not> cmdval (genMealy_cmdval b inis tgts ! z)) \<and>
     (\<forall>z<length inis. \<not> cmdack (genMealy_cmdack b tgts inis ! z))"

lemmas mealy_defs = genMealy_cmdval_def genMealy_cmdack_def genMealy_rspval_def genMealy_rspack_def

lemma keeps_connected_cmd:
  assumes "keeps_bus b FSM_CMD t0 t1 y x" and "t0 < u" and "u \<le> t1"
  shows "connected_cmd (b u) inis tgts y x"
proof -
  have "v_fsm (b u) = FSM_CMD" "r_initiator_index (b u) = y" "r_target_index (b u) = x"
    using assms by (simp_all add: keeps_bus_def)
  then show ?thesis by (simp add: connected_cmd_def same_command_def mealy_defs)
qed

lemma keeps_connected_rsp:
  assumes "keeps_bus b FSM_RSP t0 t1 y x" and "t0 < u" and "u \<le> t1"
  shows "connected_rsp (b u) inis tgts y x"
proof -
  have "v_fsm (b u) = FSM_RSP" "r_initiator_index (b u) = y" "r_target_index (b u) = x"
    using assms by (simp_all add: keeps_bus_def)
  then show ?thesis by (simp add: connected_rsp_def same_response_def mealy_defs)
qed

text \<open>C29. Transactions are atomic and responses go home: in every run of the bus from the idle state, if an initiator \<open>y\<close>
  is shown a valid response at time \<open>t\<close>, then it was given the bus at some earlier time \<open>t0\<close> when it had a command, for the
  target \<open>x\<close> that its address decodes to; it has kept the bus since, with the same target; at some time \<open>t1\<close> in between
  that target has accepted the last word of its command, and from then on the bus has been in the response state. At every
  cycle of the command exactly \<open>x\<close> was shown the command of \<open>y\<close>, with all the fields that the bus forwards, and exactly \<open>y\<close>
  the acknowledge of \<open>x\<close>; at every cycle of the response up to \<open>t\<close> exactly \<open>y\<close> was shown the response of \<open>x\<close>, with all its
  fields, and exactly \<open>x\<close> the acknowledge of \<open>y\<close>; and the response at time \<open>t\<close> is a valid one of \<open>x\<close>.\<close>

theorem vgsb_transaction:
  assumes "0 < n" and "v_fsm (b 0) = FSM_IDLE"
    and "\<forall>t. vgsb_transition rt n k True (inis t) (tgts t) (b t) = Some (b (Suc t))"
    and "y < length (inis t)" and "rspval (genMealy_rspval (b t) (tgts t) (inis t) ! y)"
  shows "\<exists>t0 t1 x. command_accepted rt inis tgts b t0 t1 y x \<and> keeps_bus b FSM_RSP t1 t y x \<and> rspval (tgts t ! x) \<and>
    (\<forall>u. t0 < u \<and> u \<le> t1 \<longrightarrow> connected_cmd (b u) (inis u) (tgts u) y x) \<and>
    (\<forall>u. t1 < u \<and> u \<le> t \<longrightarrow> connected_rsp (b u) (inis u) (tgts u) y x)"
proof -
  have f: "v_fsm (b t) = FSM_RSP" and y: "y = r_initiator_index (b t)" and val: "rspval (tgts t ! r_target_index (b t))"
    using assms(4,5) by (auto simp: genMealy_rspval_def Let_def split: if_splits)
  obtain t0 t1 where h: "command_accepted rt inis tgts b t0 t1 y (r_target_index (b t))" "keeps_bus b FSM_RSP t1 t y (r_target_index (b t))"
    using bus_history [OF assms(1-3), of t] f y by blast
  then have "keeps_bus b FSM_CMD t0 t1 y (r_target_index (b t))" by (simp add: command_accepted_def)
  with h val show ?thesis using keeps_connected_cmd keeps_connected_rsp by blast
qed

text \<open>C36. The end of a response does not allocate the bus: if the initiator after the owner has a command when the last
  word of a response is transferred, the bus records it as the owner and counts a transaction for it, and yet
  goes to the idle state, where the arbitration starts again after it.\<close>

theorem vgsb_response_end:
  assumes "0 < n" and "routes_below k rt" and "vgsb_ok n k b" and "v_fsm b = FSM_RSP"
    and "reop (tgts ! r_target_index b)" and "rspval (tgts ! r_target_index b)" and "rspack (inis ! r_initiator_index b)"
    and "cmdval (inis ! ((r_initiator_index b + 1) mod n))"
  shows "\<exists>b'. vgsb_transition rt n k True inis tgts b = Some b' \<and> v_fsm b' = FSM_IDLE \<and>
    r_initiator_index b' = (r_initiator_index b + 1) mod n \<and>
    r_vci_counter b' ! r_initiator_index b' ! r_target_index b' = r_vci_counter b ! r_initiator_index b' ! r_target_index b' + 1"
proof -
  have "(r_initiator_index b + 1) mod n < n" using assms(1) by simp
  note alloc = allocate_ok [OF assms(2,3) this, of inis]
  have "r_initiator_index b < n" "r_target_index b < k" using assms(3) by (simp_all add: vgsb_ok_def)
  with alloc arbitrate_next [OF assms(1,8)] assms(4-7) show ?thesis
    by (auto simp: vgsb_transition_def)
qed

lemma mod_Suc_parity: "even n \<Longrightarrow> 0 < n \<Longrightarrow> even ((i + 1) mod n) \<longleftrightarrow> odd (i :: nat)"
  by (simp add: dvd_mod_iff)

lemma starvation_step:
  assumes "0 < n" and "even n" and "routes_below k rt" and "vgsb_ok n k b"
    and "\<forall>i<n. v_fsm b = FSM_IDLE \<or> i \<noteq> r_initiator_index b \<longrightarrow> cmdval (inis ! i)"
    and "vgsb_transition rt n k True inis tgts b = Some b'"
    and "even (r_initiator_index b) = (if v_fsm b = FSM_IDLE then \<not> p else p)"
  shows "even (r_initiator_index b') = (if v_fsm b' = FSM_IDLE then \<not> p else p)"
proof -
  let ?j = "(r_initiator_index b + 1) mod n"
  have j: "?j < n" using assms(1) by simp
  have "r_initiator_index b < n" using assms(4) by (simp add: vgsb_ok_def)
  have "even ?j \<longleftrightarrow> odd (r_initiator_index b)" by (rule mod_Suc_parity [OF assms(2,1)])
  then have "?j \<noteq> r_initiator_index b" by metis
  then have "cmdval (inis ! ?j)" using assms(5) j by blast
  then have arb: "arbitrate n inis (r_initiator_index b) = Some ?j" by (rule arbitrate_next [OF assms(1)])
  obtain b1 where b1: "allocate rt inis ?j b = Some b1" "r_initiator_index b1 = ?j" "v_fsm b1 = v_fsm b"
    using allocate_ok [OF assms(3,4) j, of inis] by blast
  show ?thesis
    using assms(6,7) arb b1 \<open>even ?j \<longleftrightarrow> _\<close>
    by (cases "v_fsm b") (auto simp: vgsb_transition_def split: if_splits)
qed

text \<open>C37. The arbitration is not a fair round robin: with an even number of initiators that all keep requesting (the
  owner may pause while it is served), the bus serves only the initiators whose index has the parity of the
  first owner, forever. With two initiators, one of them never gets the bus.\<close>

theorem vgsb_starvation:
  assumes "0 < n" and "even n" and "0 < k" and "routes_below k rt" and "vgsb_ok n k (b 0)" and "v_fsm (b 0) = FSM_CMD"
    and "\<forall>t. vgsb_transition rt n k True (inis t) (tgts t) (b t) = Some (b (Suc t))"
    and "\<forall>t. \<forall>i<n. v_fsm (b t) = FSM_IDLE \<or> i \<noteq> r_initiator_index (b t) \<longrightarrow> cmdval (inis t ! i)"
  shows "\<forall>t. v_fsm (b t) \<noteq> FSM_IDLE \<longrightarrow> even (r_initiator_index (b t)) = even (r_initiator_index (b 0))"
proof -
  let ?p = "even (r_initiator_index (b 0))"
  have "vgsb_ok n k (b t) \<and> even (r_initiator_index (b t)) = (if v_fsm (b t) = FSM_IDLE then \<not> ?p else ?p)" for t
  proof (induction t)
    case 0
    then show ?case using assms(5,6) by simp
  next
    case (Suc t)
    then have ok: "vgsb_ok n k (b t)" by simp
    have "vgsb_ok n k (b (Suc t))"
      using vgsb_transition_ok [OF assms(1,3,4), of "b t" True "inis t" "tgts t"] ok assms(7) by auto
    moreover have "even (r_initiator_index (b (Suc t))) = (if v_fsm (b (Suc t)) = FSM_IDLE then \<not> ?p else ?p)"
    proof (rule starvation_step [OF assms(1,2,4) ok])
      show "\<forall>i<n. v_fsm (b t) = FSM_IDLE \<or> i \<noteq> r_initiator_index (b t) \<longrightarrow> cmdval (inis t ! i)"
        using assms(8) by (rule spec)
      show "vgsb_transition rt n k True (inis t) (tgts t) (b t) = Some (b (Suc t))" using assms(7) by (rule spec)
    qed (use Suc in simp)
    ultimately show ?case by simp
  qed
  then show ?thesis by metis
qed

section \<open>Examples\<close>

text \<open>Two initiators and one target, always ready.\<close>

definition ready_vci :: vci_signals where
  "ready_vci = \<lparr>rspack = True, rspval = True, rdata = 7, reop = True, rerror = 0, rsrcid = 0, rtrdid = 0, rpktid = 0,
     cmdack = True, cmdval = True, vaddress = 0, be = 15, vcmd = CMD_READ, contig = True, wdata = 0, eop = True,
     vcons = False, plen = 4, vwrap = False, cfixed = False, clen = 0, srcid = 0, trdid = 0, pktid = 0\<rparr>"

definition one_target :: "int decoding_table" where
  "one_target = \<lparr>adt_use_bits = 0, adt_drop_bits = 0, adt_low_mask = 0, adt_table = [Some 0]\<rparr>"

lemma one_target_routes: "0 < k \<Longrightarrow> routes_below k one_target"
  by (simp add: routes_below_def adt_ok_def adt_get_def cell_def one_target_def)

definition bus_in :: "vgsb_fsm_state \<Rightarrow> nat \<Rightarrow> vgsb" where
  "bus_in f i = \<lparr>v_fsm = f, r_initiator_index = i, r_target_index = 0, r_vci_counter = [[0], [0]]\<rparr>"

lemma bus_in_ok: "i < 2 \<Longrightarrow> vgsb_ok 2 1 (bus_in f i)"
  by (simp add: vgsb_ok_def bus_in_def)

theorem vgsb_wellformed_witness:
  "\<exists>b'. vgsb_transition one_target 2 1 True [ready_vci, ready_vci] [ready_vci] (bus_in FSM_RSP 0) = Some b' \<and> vgsb_ok 2 1 b'"
proof -
  have adt: "adt_ok one_target" using one_target_routes [of 1] by (simp add: routes_below_def)
  then have "isAllBelow (int 1) one_target = Inr True" by (simp add: isAllBelow_iff) (simp add: one_target_def)
  from vgsb_wellformed [OF _ _ adt this, of 2 "[ready_vci, ready_vci]" "[ready_vci]" "bus_in FSM_RSP 0"] bus_in_ok [of 0 FSM_RSP]
  have "case vgsb_transition one_target 2 1 True [ready_vci, ready_vci] [ready_vci] (bus_in FSM_RSP 0) of
      Some b' \<Rightarrow> vgsb_ok 2 1 b'
    | None \<Rightarrow> \<exists>i<2. cmdval ([ready_vci, ready_vci] ! i) \<and> adt_get one_target (vaddress ([ready_vci, ready_vci] ! i)) < 0" by simp
  moreover have "adt_get one_target a = 0" for a by (simp add: adt_get_def cell_def one_target_def)
  ultimately show ?thesis by (simp split: option.splits)
qed

theorem vgsb_idle_arbitration_witness:
  "\<exists>b' x. vgsb_transition one_target 2 1 True [ready_vci, ready_vci] [ready_vci] (bus_in FSM_IDLE 1) = Some b' \<and>
     v_fsm b' = FSM_CMD \<and> x < 2 \<and> r_initiator_index b' = (1 + 1 + x) mod 2"
proof -
  have "\<not> (\<forall>i<2. \<not> cmdval ([ready_vci, ready_vci] ! i))" by (auto simp: ready_vci_def intro!: exI [of _ 0])
  with vgsb_idle_arbitration [of 2 1 one_target "bus_in FSM_IDLE 1" "[ready_vci, ready_vci]" "[ready_vci]"]
    one_target_routes [of 1] bus_in_ok [of 1 FSM_IDLE]
  show ?thesis by (simp add: bus_in_def split: if_splits) blast
qed

theorem vgsb_response_end_witness:
  "\<exists>b'. vgsb_transition one_target 2 1 True [ready_vci, ready_vci] [ready_vci] (bus_in FSM_RSP 0) = Some b' \<and>
     v_fsm b' = FSM_IDLE \<and> r_initiator_index b' = 1"
  using vgsb_response_end [of 2 1 one_target "bus_in FSM_RSP 0" "[ready_vci]" "[ready_vci, ready_vci]"]
    one_target_routes [of 1] bus_in_ok [of 0 FSM_RSP]
  by (simp add: bus_in_def ready_vci_def) blast

text \<open>The bus from the idle state, with everybody always ready: the initiator 0 is shown its response at the second cycle.\<close>

definition idle_run :: "nat \<Rightarrow> vgsb" where
  "idle_run t = ((\<lambda>b. the (vgsb_transition one_target 2 1 True [ready_vci, ready_vci] [ready_vci] b)) ^^ t) (bus_in FSM_IDLE 1)"

theorem vgsb_transaction_witness:
  "\<exists>t0 t1. command_accepted one_target (\<lambda>_. [ready_vci, ready_vci]) (\<lambda>_. [ready_vci]) idle_run t0 t1 0 0 \<and>
     keeps_bus idle_run FSM_RSP t1 2 0 0 \<and> (\<forall>u. t1 < u \<and> u \<le> 2 \<longrightarrow> connected_rsp (idle_run u) [ready_vci, ready_vci] [ready_vci] 0 0)"
proof -
  have ok: "vgsb_ok 2 1 (idle_run t)" for t
  proof (induction t)
    case 0
    then show ?case using bus_in_ok [of 1 FSM_IDLE] by (simp add: idle_run_def)
  next
    case (Suc t)
    with vgsb_transition_ok [of 2 1 one_target "idle_run t" True "[ready_vci, ready_vci]" "[ready_vci]"] one_target_routes [of 1]
    show ?case by (auto simp: idle_run_def)
  qed
  have run: "\<forall>t. vgsb_transition one_target 2 1 True [ready_vci, ready_vci] [ready_vci] (idle_run t) = Some (idle_run (Suc t))"
  proof
    fix t
    show "vgsb_transition one_target 2 1 True [ready_vci, ready_vci] [ready_vci] (idle_run t) = Some (idle_run (Suc t))"
      using vgsb_transition_ok [of 2 1 one_target "idle_run t" True "[ready_vci, ready_vci]" "[ready_vci]"] ok [of t] one_target_routes [of 1]
      by (auto simp: idle_run_def)
  qed
  have nxt: "arbitrate 2 [ready_vci, ready_vci] 1 = Some 0"
    using arbitrate_next [of 2 "[ready_vci, ready_vci]" 1] by (simp add: ready_vci_def)
  have adt: "adt_nth one_target a = Inr 0" for a
    using one_target_routes [of 1] by (simp add: routes_below_def adt_nth_ok) (simp add: adt_get_def cell_def one_target_def)
  have idle: "idle_run 0 = bus_in FSM_IDLE 1" by (simp add: idle_run_def)
  have 1: "idle_run 1 = bus_in FSM_CMD 0\<lparr>r_vci_counter := [[1], [0]]\<rparr>"
    using run [rule_format, of 0] nxt adt by (simp add: idle vgsb_transition_def bus_in_def allocate_def)
  have 2: "idle_run 2 = bus_in FSM_RSP 0\<lparr>r_vci_counter := [[1], [0]]\<rparr>"
    using run [rule_format, of 1] by (simp add: 1 [simplified] vgsb_transition_def bus_in_def ready_vci_def numeral_2_eq_2)
  have "rspval (genMealy_rspval (idle_run 2) [ready_vci] [ready_vci, ready_vci] ! 0)"
    unfolding 2 by (simp add: genMealy_rspval_def bus_in_def ready_vci_def)
  then have "\<exists>t0 t1 x. command_accepted one_target (\<lambda>_. [ready_vci, ready_vci]) (\<lambda>_. [ready_vci]) idle_run t0 t1 0 x \<and>
      keeps_bus idle_run FSM_RSP t1 2 0 x \<and> (\<forall>u. t1 < u \<and> u \<le> 2 \<longrightarrow> connected_rsp (idle_run u) [ready_vci, ready_vci] [ready_vci] 0 x)"
    using vgsb_transaction [of 2 idle_run one_target 1 "\<lambda>_. [ready_vci, ready_vci]" "\<lambda>_. [ready_vci]" 0 2] run
    by (simp add: idle bus_in_def) blast
  moreover have "x = 0" if "keeps_bus idle_run FSM_RSP t1 2 0 x" for t1 x
    using that 2 unfolding keeps_bus_def by (auto simp: bus_in_def)
  ultimately show ?thesis by blast
qed

definition busy_run :: "nat \<Rightarrow> vgsb" where
  "busy_run t = ((\<lambda>b. the (vgsb_transition one_target 2 1 True [ready_vci, ready_vci] [ready_vci] b)) ^^ t) (bus_in FSM_CMD 0)"

theorem vgsb_starvation_witness:
  "\<forall>t. v_fsm (busy_run t) = FSM_IDLE \<or> even (r_initiator_index (busy_run t))"
proof -
  have "vgsb_ok 2 1 (busy_run t) \<and>
      vgsb_transition one_target 2 1 True [ready_vci, ready_vci] [ready_vci] (busy_run t) = Some (busy_run (Suc t))" for t
  proof (induction t)
    case 0
    then show ?case
      using vgsb_transition_ok [of 2 1 one_target "bus_in FSM_CMD 0" True "[ready_vci, ready_vci]" "[ready_vci]"]
        one_target_routes [of 1] bus_in_ok [of 0 FSM_CMD]
      by (auto simp: busy_run_def)
  next
    case (Suc t)
    then have "vgsb_ok 2 1 (busy_run (Suc t))"
      using vgsb_transition_ok [of 2 1 one_target "busy_run t" True "[ready_vci, ready_vci]" "[ready_vci]"]
        one_target_routes [of 1] by auto
    with vgsb_transition_ok [of 2 1 one_target "busy_run (Suc t)" True "[ready_vci, ready_vci]" "[ready_vci]"]
      one_target_routes [of 1] show ?case by (auto simp: busy_run_def)
  qed
  moreover have "cmdval ([ready_vci, ready_vci] ! i)" if "i < 2" for i
    using that by (cases i) (auto simp: ready_vci_def less_Suc_eq)
  moreover have "v_fsm (busy_run 0) = FSM_CMD" "r_initiator_index (busy_run 0) = 0" by (simp_all add: busy_run_def bus_in_def)
  ultimately show ?thesis
    using vgsb_starvation [of 2 1 one_target busy_run "\<lambda>_. [ready_vci, ready_vci]" "\<lambda>_. [ready_vci]"] one_target_routes [of 1]
    by (simp add: disj_imp)
qed

end
