(* ===== verification/Tp2_Map.thy ===== *)
theory Tp2_Map
  imports Tp2_Simple Vgsb
begin

text \<open>
  The mapping table of the second platform of TP2 (\<open>tp2_parallel_top.cpp\<close>), and the routing table that the
  constructor of the bus derives from it: three coprocessors, one per segment, told apart by the eight upper
  bits of the address.
\<close>

section \<open>The mapping table and the constructor of the bus\<close>

definition tp2_parallel_maptab :: "mapping_table result" where
  "tp2_parallel_maptab =
     andthen (IntTab [8]) (\<lambda>ab. andthen (IntTab [8]) (\<lambda>ib. andthen (MappingTable 32 ab ib 0x03000000) (\<lambda>mt.
     andthen (mk_segment ''GCD0'' GCD_BASE GCD_SIZE 0 True) (\<lambda>seg. andthen (add seg mt) (\<lambda>mt.
     andthen (mk_segment ''GCD1'' (GCD_BASE + 0x10000000) GCD_SIZE 1 True) (\<lambda>seg. andthen (add seg mt) (\<lambda>mt.
     andthen (mk_segment ''GCD2'' (GCD_BASE + 0x20000000) GCD_SIZE 2 True) (\<lambda>seg. add seg mt))))))))"

text \<open>The constructor of the bus: the routing table, and the test that stops the program.\<close>

definition vgsb_routing_table :: "mapping_table \<Rightarrow> nat \<Rightarrow> int decoding_table result" where
  "vgsb_routing_table maptab nb_slave =
     andthen (IntTab []) (\<lambda>index. andthen (getRoutingTable maptab index 0) (\<lambda>routing_table.
     andthen (isAllBelow (int nb_slave) routing_table) (\<lambda>below. check below Exit (Inr routing_table))))"

section \<open>The three segments\<close>

definition gcd_seg_at :: "string \<Rightarrow> nat \<Rightarrow> segment" where
  "gcd_seg_at name i = \<lparr>seg_name = name, baseAddress = of_nat i * 0x10000000, seg_size = 16, seg_index = tab [int i],
     cacheable = True, seg_initiator = False, initiator_index = tab []\<rparr>"

lemma gcd_seg_at_bounds:
  assumes "i < 3"
  shows "seg_lo (gcd_seg_at name i) = i * 0x10000000" "seg_hi (gcd_seg_at name i) = i * 0x10000000 + 16"
proof -
  have "i = 0 \<or> i = 1 \<or> i = 2" using assms by auto
  then show "seg_lo (gcd_seg_at name i) = i * 0x10000000" "seg_hi (gcd_seg_at name i) = i * 0x10000000 + 16"
    by (auto simp: seg_lo_def seg_hi_def gcd_seg_at_def)
qed

lemma gcd_seg_at_ok: "i < 3 \<Longrightarrow> seg_ok 24 (gcd_seg_at name i)"
proof -
  assume "i < 3"
  then have "i = 0 \<or> i = 1 \<or> i = 2" by auto
  then show ?thesis by (auto simp: seg_ok_def gcd_seg_at_bounds) (simp_all add: gcd_seg_at_def)
qed

lemma gcd_seg_at_disjoint:
  assumes "i < 3" and "j < 3" and "i \<noteq> j"
  shows "disjoint_segments (gcd_seg_at name i) (gcd_seg_at name' j)"
proof -
  have "(i :: nat) * 0x10000000 + 16 \<le> j * 0x10000000 \<or> j * 0x10000000 + 16 \<le> i * 0x10000000" using assms(3) by arith
  then show ?thesis
    by (auto simp: disjoint_segments_def seg_addresses_def gcd_seg_at_bounds [OF assms(1)] gcd_seg_at_bounds [OF assms(2)])
qed

lemma gcd_seg_at_coherent: "coherent u d (gcd_seg_at name i) (gcd_seg_at name' j)"
  by (simp add: coherent_def gcd_seg_at_def)

lemma gcd_segment_at: "i < 3 \<Longrightarrow> gcd_segment (gcd_seg_at name i) (of_nat i * 0x10000000)"
proof -
  assume "i < 3"
  then have "i = 0 \<or> i = 1 \<or> i = 2" by auto
  then show ?thesis by (auto simp: gcd_segment_def gcd_seg_at_bounds)
qed

definition gcd_segs :: "segment list" where
  "gcd_segs = [gcd_seg_at ''GCD0'' 0, gcd_seg_at ''GCD1'' 1, gcd_seg_at ''GCD2'' 2]"

lemma mask_0x03000000: "0x03000000 = contiguous 2 24"
  by (simp add: contiguous_def push_bit_eq_mult)

lemma tp2_parallel_maptab_eq:
  "\<exists>mt. tp2_parallel_maptab = Inr mt \<and> mt_ok 24 2 24 mt \<and> m_segment_list mt = gcd_segs \<and>
     m_level_addr_bits mt = tab [8] \<and> m_level_id_bits mt = tab [8] \<and> m_addr_width mt = 32"
proof -
  have w: "widths_ok (tab [8])" by (simp add: widths_ok_def)
  obtain mt where mt: "MappingTable 32 (tab [8]) (tab [8]) (contiguous 2 24) = Inr mt" "mt_ok 24 2 24 mt"
      "m_segment_list mt = []" "m_level_addr_bits mt = tab [8]" "m_level_id_bits mt = tab [8]" "m_addr_width mt = 32"
    using MappingTable_ok [OF w, of 32 2 24 "tab [8]"] by auto
  let ?s0 = "gcd_seg_at ''GCD0'' 0" and ?s1 = "gcd_seg_at ''GCD1'' 1" and ?s2 = "gcd_seg_at ''GCD2'' 2"
  have seg: "mk_segment ''GCD0'' 0 16 0 True = Inr ?s0" "mk_segment ''GCD1'' 0x10000000 16 1 True = Inr ?s1"
      "mk_segment ''GCD2'' 0x20000000 16 2 True = Inr ?s2"
    by (simp_all add: mk_segment_def IntTab_small gcd_seg_at_def)
  have idx: "int_tab_ok (seg_index (gcd_seg_at name i))" "m_level (seg_index (gcd_seg_at name i)) = 1" for name i
    by (simp_all add: gcd_seg_at_def)
  let ?mt0 = "mt\<lparr>m_segment_list := [?s0]\<rparr>" and ?mt1 = "mt\<lparr>m_segment_list := [?s0, ?s1]\<rparr>" and ?mt2 = "mt\<lparr>m_segment_list := gcd_segs\<rparr>"
  have a0: "add ?s0 mt = Inr ?mt0"
    using add_Inr_iff [OF mt(2) gcd_seg_at_ok] mt(3,4) idx by simp
  have ok0: "mt_ok 24 2 24 ?mt0" using add_ok [OF mt(2) gcd_seg_at_ok idx(1) a0] by simp
  have a1: "add ?s1 ?mt0 = Inr ?mt1"
    using add_Inr_iff [OF ok0 gcd_seg_at_ok] mt(4) idx gcd_seg_at_disjoint gcd_seg_at_coherent by simp
  have ok1: "mt_ok 24 2 24 ?mt1" using add_ok [OF ok0 gcd_seg_at_ok idx(1) a1] by simp
  have a2: "add ?s2 ?mt1 = Inr ?mt2"
    using add_Inr_iff [OF ok1 gcd_seg_at_ok] mt(4) idx gcd_seg_at_disjoint gcd_seg_at_coherent by (simp add: gcd_segs_def)
  have ok2: "mt_ok 24 2 24 ?mt2" using add_ok [OF ok1 gcd_seg_at_ok idx(1) a2] by simp
  have "tp2_parallel_maptab = Inr ?mt2"
    using mt(1) seg a0 a1 a2 by (simp add: tp2_parallel_maptab_def IntTab_small mask_0x03000000)
  with ok2 mt(4-6) show ?thesis by (intro exI [of _ ?mt2]) simp
qed

section \<open>The routing table\<close>

lemma gcd_seg_at_cell:
  assumes "i < 3" and "a \<in> seg_addresses (gcd_seg_at name i)"
  shows "cell 8 24 a = i * 16"
proof -
  have "i * 16 \<le> unat a div 2 ^ 24" "unat a div 2 ^ 24 < i * 16 + 1"
    using assms(2) by (auto simp: seg_addresses_def gcd_seg_at_bounds [OF assms(1)])
  then have "unat a div 2 ^ 24 = i * 16" by simp
  then show ?thesis using assms(1) by (simp add: cell_def)
qed

lemma gcd_segs_cell:
  assumes "s \<in> set gcd_segs" and "s' \<in> set gcd_segs" and "a \<in> seg_addresses s" and "a' \<in> seg_addresses s'"
    and "cell 8 24 a = cell 8 24 a'"
  shows "s = s'"
  using assms gcd_seg_at_cell [of 0 a "''GCD0''"] gcd_seg_at_cell [of 1 a "''GCD1''"] gcd_seg_at_cell [of 2 a "''GCD2''"]
    gcd_seg_at_cell [of 0 a' "''GCD0''"] gcd_seg_at_cell [of 1 a' "''GCD1''"] gcd_seg_at_cell [of 2 a' "''GCD2''"]
  by (auto simp: gcd_segs_def)

text \<open>The constructor of the bus accepts a table in which the upper eight bits of an address determine the target;
  an address of a segment leads to its target, any other address to target 0.\<close>

definition seg_target :: "segment \<Rightarrow> int" where
  "seg_target s = indices (seg_index s) ! 0"

lemma vgsb_routing:
  assumes "mt_ok 24 u d mt" and "m_level_addr_bits mt = tab [8]" and "m_addr_width mt = 32"
    and decides: "\<And>s s' a a'. s \<in> set (m_segment_list mt) \<Longrightarrow> s' \<in> set (m_segment_list mt) \<Longrightarrow> a \<in> seg_addresses s \<Longrightarrow>
      a' \<in> seg_addresses s' \<Longrightarrow> cell 8 24 a = cell 8 24 a' \<Longrightarrow> seg_target s = seg_target s'"
    and targets: "\<And>s. s \<in> set (m_segment_list mt) \<Longrightarrow> 0 \<le> seg_target s \<and> seg_target s < int n" and "0 < n"
  shows "\<exists>rt. vgsb_routing_table mt n = Inr rt \<and> routes_below n rt \<and>
    (\<forall>s \<in> set (m_segment_list mt). \<forall>a \<in> seg_addresses s. adt_get rt a = seg_target s) \<and>
    (\<forall>a. (\<forall>s \<in> set (m_segment_list mt). \<forall>b \<in> seg_addresses s. cell 8 24 b \<noteq> cell 8 24 a) \<longrightarrow> adt_get rt a = 0)"
proof -
  let ?segs = "m_segment_list mt"
  have bits: "routing_bits mt 0 = 8" "routing_drop mt 0 = 24" by (simp_all add: routing_bits_def routing_drop_def assms(2,3))
  have segs: "filter (\<lambda>s. idMatches (seg_index s) (tab [])) ?segs = ?segs"
    by (simp add: idMatches_def tab_def)
  have ok: "\<And>s. s \<in> set ?segs \<Longrightarrow> seg_ok 24 s" using assms(1) by (simp add: mt_ok_def)
  have "consistent 8 24 (block_values 24 seg_target ?segs)"
  proof (subst consistent_segments [where k = 24])
    show "\<forall>s \<in> set ?segs. \<forall>s' \<in> set ?segs. \<forall>a \<in> seg_addresses s. \<forall>a' \<in> seg_addresses s'.
        cell 8 24 a = cell 8 24 a' \<longrightarrow> seg_target s = seg_target s'"
      using decides by blast
  qed (use ok in simp_all)
  then obtain rt don where rt: "getRoutingTable mt (tab []) 0 = Inr rt"
      and fl: "filled 8 24 0 (block_values 24 seg_target ?segs) (rt, don)"
    using getRoutingTable_run [OF assms(1), of "tab []" 0] bits segs assms(2)
    by (auto simp: seg_target_def [abs_def])
  have adt: "adt_ok rt" using fl by (simp add: filled_def)
  have get: "\<forall>s \<in> set ?segs. \<forall>a \<in> seg_addresses s. adt_get rt a = seg_target s"
    using filled_segments(1) [OF ok le_refl fl] by (metis adt_nth_ok [OF adt] Inr_inject)
  have dflt: "adt_get rt a = 0" if "\<forall>s \<in> set ?segs. \<forall>b \<in> seg_addresses s. cell 8 24 b \<noteq> cell 8 24 a" for a
    using filled_segments(2) [OF ok le_refl fl that] by (simp add: adt_nth_ok adt)
  have "0 \<le> adt_get rt a \<and> adt_get rt a < int n" for a
  proof (cases "\<exists>s \<in> set ?segs. \<exists>b \<in> seg_addresses s. cell 8 24 b = cell 8 24 a")
    case True
    then obtain s b where "s \<in> set ?segs" "b \<in> seg_addresses s" "cell 8 24 b = cell 8 24 a" by blast
    moreover from this have "adt_get rt a = adt_get rt b" using fl by (simp add: filled_def adt_get_def)
    ultimately show ?thesis using get targets by metis
  next
    case False
    then show ?thesis using dflt assms(6) by auto
  qed
  then have below: "routes_below n rt" using adt by (simp add: routes_below_def)
  have "the c < int n" if c: "c \<in> set (adt_table rt)" for c
  proof -
    have shape: "adt_use_bits rt = 8" "adt_drop_bits rt = 24" "length (adt_table rt) = 2 ^ 8"
      using fl adt by (simp_all add: filled_def adt_ok_def)
    obtain j where j: "j < 2 ^ 8" "c = adt_table rt ! j" using c shape(3) by (auto simp: in_set_conv_nth)
    have "unat (of_nat (j * 2 ^ 24) :: u32) = j * 2 ^ 24" using j(1) by (intro unat_of_nat_u32) simp
    then have "adt_get rt (of_nat (j * 2 ^ 24)) = the c" using j by (simp add: adt_get_def shape cell_def)
    then show ?thesis using below unfolding routes_below_def by metis
  qed
  then have "isAllBelow (int n) rt = Inr True" by (simp add: isAllBelow_iff [OF adt])
  with below get dflt rt show ?thesis by (intro exI [of _ rt]) (simp add: vgsb_routing_table_def IntTab_small)
qed

text \<open>On the platform, an address of a segment leads to its coprocessor.\<close>

lemma tp2_routing:
  assumes "mt_ok 24 2 24 mt" and "m_segment_list mt = gcd_segs" and "m_level_addr_bits mt = tab [8]" and "m_addr_width mt = 32"
  shows "\<exists>rt. vgsb_routing_table mt 3 = Inr rt \<and> routes_below 3 rt \<and>
    (\<forall>s \<in> set gcd_segs. \<forall>a \<in> seg_addresses s. adt_get rt a = seg_target s)"
proof -
  have "0 \<le> seg_target s \<and> seg_target s < int 3" if "s \<in> set gcd_segs" for s
    using that by (auto simp: seg_target_def gcd_seg_at_def gcd_segs_def)
  then show ?thesis
    using vgsb_routing [OF assms(1,3,4), of 3] gcd_segs_cell assms(2) by fastforce
qed

section \<open>Examples of the mapping table\<close>

lemma gcd1_register: "0x10000004 \<in> seg_addresses (gcd_seg_at name 1)"
  by (simp add: seg_addresses_def gcd_seg_at_bounds)

theorem add_correct_witness:
  "\<exists>mt e. tp2_parallel_maptab = Inr mt \<and> add (gcd_seg_at ''GCD3'' 1) mt = Inl e \<and> e \<noteq> Endless \<and> e \<noteq> Undefined"
proof -
  obtain mt where mt: "tp2_parallel_maptab = Inr mt" "mt_ok 24 2 24 mt" "m_segment_list mt = gcd_segs"
    using tp2_parallel_maptab_eq by blast
  have "int_tab_ok (seg_index (gcd_seg_at ''GCD3'' 1))" by (simp add: gcd_seg_at_def)
  then have correct: "(case add (gcd_seg_at ''GCD3'' 1) mt of
      Inr mt' \<Rightarrow> mt_ok 24 2 24 mt' \<and> m_segment_list mt' = m_segment_list mt @ [gcd_seg_at ''GCD3'' 1]
    | Inl e \<Rightarrow> e = ValueError \<or> e = Collision \<or> e = RunTimeError) \<and>
    ((\<exists>mt'. add (gcd_seg_at ''GCD3'' 1) mt = Inr mt') \<longrightarrow>
      (\<forall>s \<in> set (m_segment_list mt). seg_addresses s \<inter> seg_addresses (gcd_seg_at ''GCD3'' 1) = {}))"
    using add_correct [OF mt(2), of "gcd_seg_at ''GCD3'' 1"] gcd_seg_at_ok [of 1 "''GCD3''"] by (simp add: seg_ok_def)
  have "gcd_seg_at ''GCD1'' 1 \<in> set (m_segment_list mt)" by (simp add: mt(3) gcd_segs_def)
  then have "\<not> (\<exists>mt'. add (gcd_seg_at ''GCD3'' 1) mt = Inr mt')"
    using correct [THEN conjunct2] gcd1_register by fastforce
  then obtain e where "add (gcd_seg_at ''GCD3'' 1) mt = Inl e" by (cases "add (gcd_seg_at ''GCD3'' 1) mt") auto
  with correct [THEN conjunct1] mt(1) show ?thesis by auto
qed

theorem cacheability_table_correct_witness:
  "\<exists>mt t. tp2_parallel_maptab = Inr mt \<and> getCacheabilityTable mt = Inr t \<and> adt_nth t 0x10000004 = Inr True"
proof -
  obtain mt where mt: "tp2_parallel_maptab = Inr mt" "mt_ok 24 2 24 mt" "m_segment_list mt = gcd_segs"
    using tp2_parallel_maptab_eq by blast
  have "cacheable (gcd_seg_at ''GCD1'' 1)" by (simp add: gcd_seg_at_def)
  moreover have "gcd_seg_at ''GCD1'' 1 \<in> set (m_segment_list mt)" by (simp add: mt(3) gcd_segs_def)
  ultimately show ?thesis using cacheability_table_correct [OF mt(2)] mt(1) gcd1_register by fastforce
qed


theorem component_id_roundtrip_witness:
  "\<exists>mt id t. tp2_parallel_maptab = Inr mt \<and> indexForId mt (tab [2]) = Inr id \<and> getIdMaskingTable mt 0 = Inr t \<and>
     int (unat (amt_nth t id)) = 2"
proof -
  obtain mt where mt: "tp2_parallel_maptab = Inr mt" "m_level_id_bits mt = tab [8]"
    using tp2_parallel_maptab_eq by blast
  have w: "widths_ok (tab [8])" by (simp add: widths_ok_def)
  from component_id_roundtrip [OF mt(2) w, of "tab [2]"] mt(1) show ?thesis by auto
qed

end
