(* ===== verification/Tp3.thy ===== *)
theory Tp3
  imports Input Tp2_Map
begin

text \<open>
  TP3: the program \<open>soft/main.c\<close> and the boot code \<open>soft/reset.s\<close> on top of the kernel, and the address map of the
  platform \<open>tp3_top.cpp\<close> on which they run. The processor, the memories and the terminal of the platform are
  components of SoCLib that are not in the repository; the mapping table and the bus are the classes of TP2. The
  theory relates the two sides: the linker script \<open>seg.ld\<close>, whose addresses the drivers use, and the segments.
\<close>

section \<open>The address map\<close>

definition TGTID_ROM :: int where [simp]: "TGTID_ROM = 0"
definition TGTID_RAM :: int where [simp]: "TGTID_RAM = 1"
definition TGTID_TTY :: int where [simp]: "TGTID_TTY = 2"
definition TGTID_GCD :: int where [simp]: "TGTID_GCD = 3"

text \<open>The arguments of the calls of \<open>maptab.add\<close>, in order.\<close>

definition tp3_segments :: "(string \<times> u64 \<times> u64 \<times> int \<times> bool) list" where
  "tp3_segments =
     [(''seg_reset'', 0xBFC00000, 0x1000, TGTID_ROM, True),
      (''seg_kcode'', 0x80000000, 0x10000, TGTID_RAM, True),
      (''seg_kdata'', 0x81000000, 0x10000, TGTID_RAM, True),
      (''seg_kunc'', 0x82000000, 0x10000, TGTID_RAM, False),
      (''seg_code'', 0x00400000, 0x10000, TGTID_RAM, True),
      (''seg_data'', 0x01000000, 0x10000, TGTID_RAM, True),
      (''seg_stack'', 0x02000000, 0x10000, TGTID_RAM, True),
      (''seg_tty'', 0x90000000, 0x40, TGTID_TTY, False),
      (''seg_gcd'', 0x95000000, 0x10, TGTID_GCD, False)]"

fun add_segments :: "(string \<times> u64 \<times> u64 \<times> int \<times> bool) list \<Rightarrow> mapping_table \<Rightarrow> mapping_table result" where
  "add_segments [] mt = Inr mt"
| "add_segments ((name, base, len, tgt, cached) # ss) mt =
     andthen (mk_segment name base len tgt cached) (\<lambda>seg. andthen (add seg mt) (add_segments ss))"

definition tp3_maptab :: "mapping_table result" where
  "tp3_maptab =
     andthen (IntTab [8]) (\<lambda>ab. andthen (IntTab [2]) (\<lambda>ib. andthen (MappingTable 32 ab ib 0xFF000000) (\<lambda>mt.
     add_segments tp3_segments mt)))"

section \<open>Segments that are told apart by the upper byte\<close>

fun seg_of :: "string \<times> u64 \<times> u64 \<times> int \<times> bool \<Rightarrow> segment" where
  "seg_of (name, base, len, tgt, cached) = \<lparr>seg_name = name, baseAddress = base, seg_size = len, seg_index = tab [tgt],
     cacheable = cached, seg_initiator = False, initiator_index = tab []\<rparr>"

fun top_byte :: "string \<times> u64 \<times> u64 \<times> int \<times> bool \<Rightarrow> nat" where
  "top_byte (name, base, len, tgt, cached) = unat base div 2 ^ 24"

text \<open>The segment has a target, is not empty and lies between two multiples of \<open>2 ^ 24\<close>.\<close>

fun one_block :: "string \<times> u64 \<times> u64 \<times> int \<times> bool \<Rightarrow> bool" where
  "one_block (name, base, len, tgt, cached) \<longleftrightarrow> 0 \<le> tgt \<and> 0 < unat len \<and> unat base < 2 ^ 32 \<and>
     unat base mod 2 ^ 24 + unat len \<le> 2 ^ 24"

lemma same_block:
  assumes "(b :: nat) \<le> a" and "a < b + l" and "b mod m + l \<le> m"
  shows "a div m = b div m"
proof -
  have b: "m * (b div m) + b mod m = b" by simp
  show ?thesis
  proof (rule div_nat_eqI)
    show "m * (b div m) \<le> a" using b assms(1) by linarith
    show "a < m * Suc (b div m)" using b assms unfolding mult_Suc_right by linarith
  qed
qed

lemma top_byte_bound: "one_block x \<Longrightarrow> top_byte x \<le> 255"
  by (cases x) (simp add: less_mult_imp_div_less less_Suc_eq_le [symmetric])

lemma one_block_addresses:
  assumes "one_block x" and "a \<in> seg_addresses (seg_of x)"
  shows "cell 8 24 a = top_byte x"
proof -
  obtain name base len tgt cached where x: "x = (name, base, len, tgt, cached)" by (cases x)
  have "unat a div 2 ^ 24 = unat base div 2 ^ 24"
    using assms by (intro same_block [where l = "unat len"]) (simp_all add: x seg_addresses_def seg_lo_def seg_hi_def)
  moreover have "unat base div 2 ^ 24 < 2 ^ 8" using top_byte_bound [OF assms(1)] by (simp add: x)
  ultimately show ?thesis by (simp add: cell_def x)
qed

lemma one_block_ok:
  assumes "one_block x"
  shows "seg_ok 24 (seg_of x)"
proof -
  obtain name base len tgt cached where x: "x = (name, base, len, tgt, cached)" by (cases x)
  let ?q = "unat base div 16777216" and ?r = "unat base mod 16777216"
  have b: "unat base = ?q * 16777216 + ?r" by simp
  have q: "?q \<le> 255" "?r + unat len \<le> 16777216" "0 < unat len" using assms top_byte_bound [OF assms] by (simp_all add: x)
  then have "unat base + unat len \<le> 4294967296" using b by linarith
  moreover have "16777216 \<le> unat base \<or> unat base + unat len \<le> 4294967296 - 16777216"
  proof (cases "?q = 0")
    case True
    then show ?thesis using b q by linarith
  qed (use b in linarith)
  moreover note q(3)
  ultimately have "unat base + unat len \<le> 4294967296 \<and> (16777216 \<le> unat base \<or> unat base + unat len \<le> 4294967296 - 16777216) \<and> 0 < unat len"
    by blast
  then show ?thesis by (auto simp: x seg_ok_def seg_lo_def seg_hi_def)
qed

lemma other_block:
  assumes "one_block x" and "one_block y" and "top_byte x \<noteq> top_byte y"
  shows "disjoint_segments (seg_of x) (seg_of y)" and "coherent 8 24 (seg_of x) (seg_of y)"
proof -
  have differ: "cell 8 24 a \<noteq> cell 8 24 a'" if "a \<in> seg_addresses (seg_of x)" "a' \<in> seg_addresses (seg_of y)" for a a'
    using one_block_addresses [OF assms(1) that(1)] one_block_addresses [OF assms(2) that(2)] assms(3) by simp
  show "disjoint_segments (seg_of x) (seg_of y)" unfolding disjoint_segments_def using differ by blast
  show "coherent 8 24 (seg_of x) (seg_of y)" unfolding coherent_def using differ by blast
qed

lemma add_segments_eq:
  assumes "mt_ok 24 8 24 mt" and "m_level_addr_bits mt = tab [8]" and "m_segment_list mt = map seg_of ss"
    and "\<forall>x \<in> set (ss @ ss'). one_block x" and "distinct (map top_byte (ss @ ss'))"
  shows "\<exists>mt'. add_segments ss' mt = Inr mt' \<and> mt' = mt\<lparr>m_segment_list := map seg_of (ss @ ss')\<rparr> \<and> mt_ok 24 8 24 mt'"
  using assms
proof (induction ss' arbitrary: ss mt)
  case Nil
  then show ?case by simp
next
  case (Cons x ss')
  let ?seg = "seg_of x" and ?mt = "mt\<lparr>m_segment_list := map seg_of (ss @ [x])\<rparr>"
  have idx: "int_tab_ok (seg_index ?seg)" "m_level (seg_index ?seg) = 1" 
    using Cons.prems(4) by (cases x, simp, cases x, simp)
  have ok: "seg_ok 24 ?seg" using Cons.prems(4) by (intro one_block_ok) simp
  have mk: "(case x of (name, base, len, tgt, cached) \<Rightarrow> mk_segment name base len tgt cached) = Inr ?seg"
    using Cons.prems(4) by (cases x) (simp add: mk_segment_def IntTab_small)
  have "disjoint_segments (seg_of y) ?seg \<and> coherent 8 24 (seg_of y) ?seg" if "y \<in> set ss" for y
  proof -
    have "top_byte y \<noteq> top_byte x" using that Cons.prems(5) by simp (metis image_eqI)
    then show ?thesis using that Cons.prems(4) other_block [of y x] by auto
  qed
  then have add: "add ?seg mt = Inr ?mt" using add_Inr_iff [OF Cons.prems(1) ok] Cons.prems(2,3) idx by simp
  then have ok': "mt_ok 24 8 24 ?mt" using add_ok [OF Cons.prems(1) ok idx(1)] by simp
  have "\<exists>mt'. add_segments ss' ?mt = Inr mt' \<and> mt' = ?mt\<lparr>m_segment_list := map seg_of ((ss @ [x]) @ ss')\<rparr> \<and> mt_ok 24 8 24 mt'"
    using Cons.prems ok' by (intro Cons.IH) simp_all
  moreover have "add_segments (x # ss') mt = add_segments ss' ?mt" using mk add by (cases x) simp
  ultimately show ?case by simp
qed

section \<open>The tables of the platform\<close>

lemma mask_0xFF000000: "0xFF000000 = contiguous 8 24"
  by (simp add: contiguous_def push_bit_eq_mult)

lemma tp3_segments_blocks: "\<forall>x \<in> set tp3_segments. one_block x" "distinct (map top_byte tp3_segments)"
  by (simp_all add: tp3_segments_def)

lemma tp3_maptab_eq:
  "\<exists>mt. tp3_maptab = Inr mt \<and> mt_ok 24 8 24 mt \<and> m_segment_list mt = map seg_of tp3_segments \<and>
     m_level_addr_bits mt = tab [8] \<and> m_addr_width mt = 32"
proof -
  have w: "widths_ok (tab [8])" by (simp add: widths_ok_def)
  obtain mt where mt: "MappingTable 32 (tab [8]) (tab [2]) (contiguous 8 24) = Inr mt" "mt_ok 24 8 24 mt"
      "m_segment_list mt = []" "m_level_addr_bits mt = tab [8]" "m_addr_width mt = 32"
    using MappingTable_ok [OF w, of 32 8 24 "tab [2]"] by auto
  obtain mt' where "add_segments tp3_segments mt = Inr mt'" "mt' = mt\<lparr>m_segment_list := map seg_of tp3_segments\<rparr>" "mt_ok 24 8 24 mt'"
    using add_segments_eq [OF mt(2,4), of "[]" tp3_segments] mt(3) tp3_segments_blocks by auto
  with mt show ?thesis by (intro exI [of _ mt']) (simp add: tp3_maptab_def IntTab_small mask_0xFF000000)
qed

definition tp3_tables :: "(int decoding_table \<times> bool decoding_table) result" where
  "tp3_tables = andthen tp3_maptab (\<lambda>mt. andthen (vgsb_routing_table mt 4) (\<lambda>rt. andthen (getCacheabilityTable mt) (\<lambda>ct. Inr (rt, ct))))"

lemma tp3_tables_eq:
  "\<exists>rt ct. tp3_tables = Inr (rt, ct) \<and> routes_below 4 rt \<and>
     (\<forall>x \<in> set tp3_segments. \<forall>a \<in> seg_addresses (seg_of x).
        adt_nth rt a = Inr (seg_target (seg_of x)) \<and> adt_nth ct a = Inr (cacheable (seg_of x))) \<and>
     (\<forall>a. cell 8 24 a \<notin> top_byte ` set tp3_segments \<longrightarrow> adt_nth rt a = Inr TGTID_ROM)"
proof -
  obtain mt where mt: "tp3_maptab = Inr mt" "mt_ok 24 8 24 mt" "m_segment_list mt = map seg_of tp3_segments"
      "m_level_addr_bits mt = tab [8]" "m_addr_width mt = 32"
    using tp3_maptab_eq by blast
  obtain ct where ct: "getCacheabilityTable mt = Inr ct"
      "\<forall>s \<in> set (m_segment_list mt). \<forall>a \<in> seg_addresses s. adt_nth ct a = Inr (cacheable s)"
    using getCacheabilityTable_run [OF mt(2)] by blast
  have inj: "x = y" if "x \<in> set tp3_segments" "y \<in> set tp3_segments" "top_byte x = top_byte y" for x y
    using tp3_segments_blocks(2) that by (simp add: distinct_map inj_on_def)
  have decides: "seg_target s = seg_target s'" if s: "s \<in> set (m_segment_list mt)" "s' \<in> set (m_segment_list mt)" "a \<in> seg_addresses s"
      "a' \<in> seg_addresses s'" "cell 8 24 a = cell 8 24 a'" for s s' a a'
  proof -
    from s(1,2) obtain x y where xy: "x \<in> set tp3_segments" "s = seg_of x" "y \<in> set tp3_segments" "s' = seg_of y"
      by (auto simp: mt(3))
    with s(3-5) one_block_addresses [of x a] one_block_addresses [of y a'] tp3_segments_blocks(1) have "x = y"
      by (intro inj) auto
    with xy show ?thesis by simp
  qed
  have targets: "0 \<le> seg_target s \<and> seg_target s < int 4" if "s \<in> set (m_segment_list mt)" for s
    using that by (auto simp: mt(3) tp3_segments_def seg_target_def)
  have "\<exists>rt. vgsb_routing_table mt 4 = Inr rt \<and> routes_below 4 rt \<and>
      (\<forall>s \<in> set (m_segment_list mt). \<forall>a \<in> seg_addresses s. adt_get rt a = seg_target s) \<and>
      (\<forall>a. (\<forall>s \<in> set (m_segment_list mt). \<forall>b \<in> seg_addresses s. cell 8 24 b \<noteq> cell 8 24 a) \<longrightarrow> adt_get rt a = 0)"
    by (rule vgsb_routing [OF mt(2,4,5)]) (erule (4) decides, erule targets, simp)
  then obtain rt where rt: "vgsb_routing_table mt 4 = Inr rt" "routes_below 4 rt"
      "\<forall>s \<in> set (m_segment_list mt). \<forall>a \<in> seg_addresses s. adt_get rt a = seg_target s"
      "\<forall>a. (\<forall>s \<in> set (m_segment_list mt). \<forall>b \<in> seg_addresses s. cell 8 24 b \<noteq> cell 8 24 a) \<longrightarrow> adt_get rt a = 0"
    by blast
  have adt: "adt_nth rt a = Inr (adt_get rt a)" for a using rt(2) by (simp add: routes_below_def adt_nth_ok)
  have "adt_nth rt a = Inr TGTID_ROM" if a: "cell 8 24 a \<notin> top_byte ` set tp3_segments" for a
  proof -
    have "cell 8 24 b \<noteq> cell 8 24 a" if s: "s \<in> set (m_segment_list mt)" "b \<in> seg_addresses s" for s b
    proof -
      from s(1) obtain x where x: "x \<in> set tp3_segments" "s = seg_of x" by (auto simp: mt(3))
      with s(2) have "cell 8 24 b = top_byte x" using tp3_segments_blocks(1) by (intro one_block_addresses) auto
      with a x(1) show ?thesis by (metis image_eqI)
    qed
    with rt(4) show ?thesis by (simp add: adt)
  qed
  moreover have "tp3_tables = Inr (rt, ct)" by (simp add: tp3_tables_def mt(1) rt(1) ct(1))
  ultimately show ?thesis
    using ct(2) rt(2,3) adt by (intro exI [of _ rt] exI [of _ ct]) (simp add: mt(3))
qed

text \<open>An access to a segment of the map.\<close>

lemma tp3_access:
  assumes "tp3_tables = Inr (rt, ct)" and "(name, base, len, tgt, cached) \<in> set tp3_segments"
    and "unat base \<le> unat a" and "unat a < unat base + unat len"
  shows "adt_nth rt a = Inr tgt" "adt_nth ct a = Inr cached"
proof -
  have "a \<in> seg_addresses (seg_of (name, base, len, tgt, cached))" using assms(3,4) by (simp add: seg_addresses_def seg_lo_def seg_hi_def)
  with tp3_tables_eq assms(1,2) have "adt_nth rt a = Inr (seg_target (seg_of (name, base, len, tgt, cached))) \<and>
      adt_nth ct a = Inr (cacheable (seg_of (name, base, len, tgt, cached)))" by (metis Inr_inject prod.inject)
  then show "adt_nth rt a = Inr tgt" "adt_nth ct a = Inr cached" by (simp_all add: seg_target_def)
qed

lemma tp3_absent:
  assumes "tp3_tables = Inr (rt, ct)" and "unat a div 2 ^ 24 \<notin> top_byte ` set tp3_segments"
  shows "adt_nth rt a = Inr TGTID_ROM"
proof -
  have "unat a div 2 ^ 24 < 2 ^ 8" using unat_less_u32 [of a] by simp
  then have "cell 8 24 a = unat a div 2 ^ 24" by (simp add: cell_def)
  with tp3_tables_eq assms show ?thesis by (metis Inr_inject prod.inject)
qed

lemma word_at_unat:
  assumes "unat base + 4 * unat r < 2 ^ 32"
  shows "unat (word_at base r) = unat base + 4 * unat r"
  using assms by (simp add: word_at_def unat_word_ariths)

section \<open>The boot code\<close>

text \<open>The addresses of \<open>seg.ld\<close> that the boot code uses.\<close>

definition seg_stack_base :: u32 where [simp]: "seg_stack_base = 0x02000000"
definition seg_data_base :: u32 where [simp]: "seg_data_base = 0x01000000"

text \<open>\<open>reset\<close>: the program counter and the state after it.\<close>

definition reset :: "'d machine \<Rightarrow> u32 \<times> 'd machine" where
  "reset s =
     (let s = set_gpr 27 seg_stack_base s;
          s = set_gpr 26 0x10000 s;
          s = set_gpr 29 (gpr (core s) 27 + gpr (core s) 26) s;
          s = set_gpr 26 0x0000FF13 s;
          s = s\<lparr>core := (core s)\<lparr>cp0_sr := gpr (core s) 26\<rparr>\<rparr>;
          s = set_gpr 26 seg_data_base s;
          s = set_gpr 26 (load_word (mem s) (gpr (core s) 26)) s;
          s = s\<lparr>core := (core s)\<lparr>cp0_epc := gpr (core s) 26\<rparr>\<rparr>
      in eret s)"

section \<open>The application\<close>

text \<open>\<open>main\<close>: the local variable \<open>byte\<close> and the string literal are at the addresses that are its arguments.\<close>

definition greeting :: "u8 list" where
  "greeting = 0x0A # ascii ''hello world'' @ [0x0A]"

definition main_body :: "'d platform \<Rightarrow> u32 \<Rightarrow> u32 \<Rightarrow> ('d machine, unit + unit) prog" where
  "main_body P byte str = bnd (tty_puts P str) (\<lambda>_. bnd (tty_getc P byte) (\<lambda>_. ret (Inl ())))"

definition main :: "'d platform \<Rightarrow> u32 \<Rightarrow> u32 \<Rightarrow> ('d machine, unit) prog" where
  "main P byte str = loop (\<lambda>_. main_body P byte str) ()"

lemma interacts_puts:
  assumes "awaits P poll A rest s" and "mem_has (mem s) str (cs @ [0])" and "0 \<notin> set cs" and "length cs < 2 ^ 32"
  shows "interacts P poll A B rest s cs (of_nat (length cs)) (tty_puts P str s)"
proof -
  have ok: "running_ok P s" "tty_free P s" using typing_listening [OF awaits_typing [OF assms(1)]] by (simp_all add: listening_def)
  have has: "mem_has (mem s) str cs" "mem s (str + of_nat (length cs)) = 0"
    using assms(2) by (simp_all add: mem_has_append mem_has_Cons)
  have sc: "scan (\<lambda>c. c = 0) str s = Ret (of_nat (length cs)) s"
    using assms(3) by (intro scan_finds [OF assms(2) _ refl assms(4)]) metis
  obtain t where t: "k_tty_write P cs s = Ret (of_nat (length cs)) t" "prints P s cs t" using tty_write_prints [OF ok] by blast
  have "tty_puts P str s = Ret (of_nat (length cs)) t"
    using t(1) mem_has_read [OF has(1)] assms(4)
    by (simp add: tty_puts_def bnd_simps(1) [where m = "scan _ _", OF sc] sys_call_tty_write unat_of_nat_u32 del: SYSCALL_TTY_WRITE_def)
  moreover have m: "mem t = mem s" using prints_frame(2) [OF t(2)] .
  moreover have "task_acts P A s t" using t(2) m by (auto simp: task_acts_def)
  then have "awaits P poll A rest t" using assms(1) task_acts_trans unfolding awaits_def by blast
  moreover have "says P s cs t" using prints_says [where s = s and m = "mem s"] t(2) by simp
  ultimately show ?thesis by (simp add: interacts_def)
qed

lemma interacts_getc:
  assumes "awaits P (tty_poll P) A (c # cs) s" and "fp \<in> A \<inter> B"
  shows "interacts P (tty_poll P) A B cs s [] 0 (tty_getc P fp s)"
  using tty_getc_typed [OF awaits_typing [OF assms(1)], of fp] assms(2) by (auto simp: interacts_def reads_def)

lemma main_body_interacts:
  assumes "awaits P (tty_poll P) A (c # cs) s" and "byte \<in> A" and "mem_has (mem s) str (greeting @ [0])"
  shows "interacts P (tty_poll P) A {byte} cs s greeting (Inl ()) (main_body P byte str s)"
proof -
  have g: "0 \<notin> set greeting" "length greeting < 2 ^ 32" by (simp_all add: greeting_def ascii_def)
  have "interacts P (tty_poll P) A {byte} cs s (greeting @ [] @ []) (Inl ()) (main_body P byte str s)"
    unfolding main_body_def
    by (rule interacts_bnd, rule interacts_puts [OF assms(1,3) g], rule interacts_bnd, erule interacts_getc)
      (use assms(2) in \<open>simp_all add: interacts_ret\<close>)
  then show ?thesis by simp
qed

lemma main_rounds:
  assumes "awaits P (tty_poll P) A (cs @ rest) s" and "byte \<in> A" and "mem_has (mem s) str (greeting @ [0])"
    and "\<And>k. k \<le> 13 \<Longrightarrow> str + of_nat k \<in> A - {byte}"
  shows "\<exists>t. turns (length cs) (\<lambda>_. main_body P byte str) () s = Ret (Inl ()) t \<and>
    says P s (concat (replicate (length cs) greeting)) t \<and>
    awaits P (tty_poll P) A rest t \<and> (\<forall>a \<in> A - {byte}. mem t a = mem s a)"
  using assms(1,3)
proof (induction cs arbitrary: s)
  case Nil
  then show ?case by (intro exI [of _ s]) (simp add: says_Nil)
next
  case (Cons c cs)
  obtain t where t: "main_body P byte str s = Ret (Inl ()) t" "awaits P (tty_poll P) A (cs @ rest) t" "says P s greeting t"
      "\<forall>a \<in> A - {byte}. mem t a = mem s a"
    using main_body_interacts [of P A c "cs @ rest" s byte str] Cons.prems assms(2) by (auto simp: interacts_def)
  have "mem_has (mem t) str (greeting @ [0])"
    using Cons.prems(2) by (rule mem_has_cong) (use t(4) assms(4) in \<open>simp add: greeting_def ascii_def\<close>)
  from Cons.IH [OF t(2) this] obtain u where u: "turns (length cs) (\<lambda>_. main_body P byte str) () t = Ret (Inl ()) u"
      "says P t (concat (replicate (length cs) greeting)) u" "awaits P (tty_poll P) A rest u"
      "\<forall>a \<in> A - {byte}. mem u a = mem t a" by blast
  have "turns (length (c # cs)) (\<lambda>_. main_body P byte str) () s = Ret (Inl ()) u"
    using turns_Suc [where body = "\<lambda>_. main_body P byte str", OF t(1)] u(1) by simp
  with u t(4) says_trans [OF t(3) u(2)] show ?case by (intro exI [of _ u]) simp
qed

lemma loop_never_returns:
  fixes body :: "'x \<Rightarrow> ('s, 'x + 'r) prog"
  assumes "\<And>x s r t. body x s \<noteq> Ret (Inr r) t"
  shows "loop body x s \<noteq> Ret r t"
proof
  let ?b = "\<lambda>out. case out of Ret (Inl x) t \<Rightarrow> True | _ \<Rightarrow> False"
  let ?c = "\<lambda>out. case out of Ret (Inl x) t \<Rightarrow> body x t | out \<Rightarrow> out"
  assume "loop body x s = Ret r t"
  then have w: "while_option ?b ?c (Ret (Inl x) s) = Some (Ret (Inr r) t)"
    by (auto simp: loop_def split: option.splits outcome.splits sum.splits)
  define open_end where "open_end = (\<lambda>out. \<forall>r t. out \<noteq> Ret (Inr r :: 'x + 'r) (t :: 's))"
  have "open_end (?c out)" if "open_end out" "?b out" for out
    using that assms by (auto simp: open_end_def split: outcome.splits sum.splits)
  then have "open_end (Ret (Inr r) t)"
    by (rule while_option_rule [OF _ w]) (simp_all add: open_end_def)
  then show False by (simp add: open_end_def)
qed

lemma main_body_continues: "main_body P byte str s \<noteq> Ret (Inr r) t"
  by (auto simp: main_body_def bnd_def ret_def split: outcome.splits)

section \<open>Keys that are polled\<close>

lemma kbd_ok_mem:
  assumes "kbd_ok s"
  shows "kbd_ok (s\<lparr>mem := m\<rparr>)"
proof -
  have "k_procid (s\<lparr>mem := m\<rparr>) = k_procid s" "current_task (s\<lparr>mem := m\<rparr>) = current_task s"
    by (simp_all add: k_procid_def current_task_def)
  with assms terminal_cong [of "s\<lparr>mem := m\<rparr>" s kbd] show ?thesis by (simp add: kbd_ok_def)
qed

lemma kbd_polled: "kbd_ok s \<Longrightarrow> dev s = cs \<Longrightarrow> typing kbd (tty_poll kbd) A cs s"
proof (induction cs arbitrary: s)
  case Nil
  then show ?case by (simp add: typing_nothing kbd_listening)
next
  case (Cons c cs)
  let ?s = "s\<lparr>dev := cs, trace := trace s @ [Rd 0x90000004 1, Rd 0x90000008 (ucast c)]\<rparr>"
  have c: "ucast (ucast c :: u32) = c" by transfer simp
  have poll: "tty_poll kbd s = (Some c, ?s)"
    using Cons.prems by (simp add: tty_poll_def kbd_base kbd_ok_def kbd_read_def word_at_def c)
  have ok: "kbd_ok ?s"
    using Cons.prems(1) terminal_cong [of ?s s kbd] running_ok_cong [of ?s s kbd]
    by (auto simp: kbd_ok_def arrays_ok_def k_procid_def current_task_def)
  show ?case
    by (rule typing_got [where poll = "tty_poll kbd" and s = s, OF kbd_listening [OF Cons.prems(1)] poll])
      (use kbd_acts [OF _ ok] Cons.IH in simp)
qed

section \<open>The command line of the simulator\<close>

record tp3_options =
  opt_ncycles :: int
  opt_debug :: bool
  opt_from_cycle :: int
  opt_sys_path :: string
  opt_app_path :: string

definition default_options :: tp3_options where
  "default_options = \<lparr>opt_ncycles = 1000000000, opt_debug = False, opt_from_cycle = 0,
     opt_sys_path = ''soft/sys.bin'', opt_app_path = ''soft/app.bin''\<rparr>"

text \<open>\<open>atoi\<close> of the C library: white space, a sign, decimal digits; a value that is not an \<open>int\<close> is undefined.\<close>

definition char_code :: "char \<Rightarrow> int" where
  "char_code c = of_char c"

definition c_atoi :: "string \<Rightarrow> int result" where
  "c_atoi s =
     (let t = dropWhile (\<lambda>c. char_code c = 32 \<or> 9 \<le> char_code c \<and> char_code c \<le> 13) s;
          (sign, u) = (case t of [] \<Rightarrow> (1, []) | c # cs \<Rightarrow> if char_code c = 45 then (- 1, cs) else if char_code c = 43 then (1, cs) else (1, t));
          n = sign * foldl (\<lambda>n c. n * 10 + (char_code c - 48)) 0 (takeWhile (\<lambda>c. 48 \<le> char_code c \<and> char_code c \<le> 57) u)
      in if - (2 ^ 31) \<le> n \<and> n < 2 ^ 31 then Inr n else Inl Undefined)"

text \<open>\<open>strcpy\<close> into an array of 256 characters.\<close>

definition copy_path :: "string \<Rightarrow> string result" where
  "copy_path s = (if length s < 256 then Inr s else Inl Undefined)"

definition tp3_option :: "string \<Rightarrow> string \<Rightarrow> tp3_options \<Rightarrow> tp3_options result" where
  "tp3_option key val opts =
     (if key = ''-DEBUG'' then andthen (c_atoi val) (\<lambda>n. Inr (opts\<lparr>opt_debug := True, opt_from_cycle := n\<rparr>))
      else if key = ''-NCYCLES'' then andthen (c_atoi val) (\<lambda>n. Inr (opts\<lparr>opt_ncycles := n\<rparr>))
      else if key = ''-SYS'' then andthen (copy_path val) (\<lambda>p. Inr (opts\<lparr>opt_sys_path := p\<rparr>))
      else if key = ''-APP'' then andthen (copy_path val) (\<lambda>p. Inr (opts\<lparr>opt_app_path := p\<rparr>))
      else Inl Exit)"

text \<open>The loop over \<open>argv[1]\<close>, \dots: a key without a value prints the help and exits.\<close>

fun tp3_arguments :: "string list \<Rightarrow> tp3_options \<Rightarrow> tp3_options result" where
  "tp3_arguments [] opts = Inr opts"
| "tp3_arguments [key] opts = Inl Exit"
| "tp3_arguments (key # val # args) opts = andthen (tp3_option key val opts) (tp3_arguments args)"

text \<open>The options that couples of keys and values ask for, whatever their order; the last value of a key counts.\<close>

fun valid_option :: "string \<times> string \<Rightarrow> bool" where
  "valid_option (key, val) \<longleftrightarrow>
     key \<in> {''-DEBUG'', ''-NCYCLES''} \<and> (\<exists>n. c_atoi val = Inr n) \<or> key \<in> {''-SYS'', ''-APP''} \<and> length val < 256"

definition options_of :: "(string \<rightharpoonup> string) \<Rightarrow> tp3_options \<Rightarrow> tp3_options" where
  "options_of m opts =
     \<lparr>opt_ncycles = (case m ''-NCYCLES'' of None \<Rightarrow> opt_ncycles opts | Some v \<Rightarrow> projr (c_atoi v)),
      opt_debug = (m ''-DEBUG'' \<noteq> None \<or> opt_debug opts),
      opt_from_cycle = (case m ''-DEBUG'' of None \<Rightarrow> opt_from_cycle opts | Some v \<Rightarrow> projr (c_atoi v)),
      opt_sys_path = (case m ''-SYS'' of None \<Rightarrow> opt_sys_path opts | Some v \<Rightarrow> v),
      opt_app_path = (case m ''-APP'' of None \<Rightarrow> opt_app_path opts | Some v \<Rightarrow> v)\<rparr>"

fun couples :: "(string \<times> string) list \<Rightarrow> string list" where
  "couples [] = []"
| "couples ((key, val) # ps) = key # val # couples ps"

lemma options_of_add: "options_of m2 (options_of m1 opts) = options_of (m1 ++ m2) opts"
  by (simp add: options_of_def map_add_def split: option.split)

lemma options_of_empty: "options_of Map.empty opts = opts"
  by (simp add: options_of_def)

lemma tp3_option_eq: "tp3_option key val opts = Inr opts' \<longleftrightarrow> valid_option (key, val) \<and> opts' = options_of [key \<mapsto> val] opts"
proof -
  consider "key = ''-DEBUG''" | "key = ''-NCYCLES''" | "key = ''-SYS''" | "key = ''-APP''"
    | "key \<noteq> ''-DEBUG''" "key \<noteq> ''-NCYCLES''" "key \<noteq> ''-SYS''" "key \<noteq> ''-APP''" by blast
  then show ?thesis
  proof cases
    case 1
    then show ?thesis by (cases opts, cases "c_atoi val") (simp_all add: tp3_option_def options_of_def eq_commute [of opts'])
  next
    case 2
    then show ?thesis by (cases opts, cases "c_atoi val") (simp_all add: tp3_option_def options_of_def eq_commute [of opts'])
  next
    case 3
    then show ?thesis by (cases opts, cases "length val < 256") (simp_all add: tp3_option_def options_of_def copy_path_def eq_commute [of opts'])
  next
    case 4
    then show ?thesis by (cases opts, cases "length val < 256") (simp_all add: tp3_option_def options_of_def copy_path_def eq_commute [of opts'])
  next
    case 5
    then show ?thesis by (simp add: tp3_option_def)
  qed
qed

lemma couples_split: "tp3_arguments args opts = Inr opts' \<Longrightarrow> \<exists>ps. args = couples ps"
proof (induction args opts rule: tp3_arguments.induct)
  case (1 opts)
  then show ?case by (intro exI [of _ "[]"]) simp
next
  case (2 key opts)
  then show ?case by simp
next
  case (3 key val args opts)
  then obtain o1 where "tp3_option key val opts = Inr o1" "tp3_arguments args o1 = Inr opts'"
    by (auto simp: andthen_def split: sum.splits)
  with 3 obtain ps where "args = couples ps" by blast
  then show ?case by (intro exI [of _ "(key, val) # ps"]) simp
qed

lemma tp3_arguments_couples:
  "tp3_arguments (couples ps) opts = Inr opts' \<longleftrightarrow>
     (\<forall>p \<in> set ps. valid_option p) \<and> opts' = options_of (map_of (rev ps)) opts"
proof (induction ps arbitrary: opts)
  case Nil
  then show ?case by (auto simp: options_of_empty)
next
  case (Cons p ps)
  obtain key val where p: "p = (key, val)" by (cases p)
  have "tp3_arguments (couples (p # ps)) opts = Inr opts' \<longleftrightarrow>
      (\<exists>o1. tp3_option key val opts = Inr o1 \<and> tp3_arguments (couples ps) o1 = Inr opts')"
    by (auto simp: p andthen_def split: sum.splits)
  also have "\<dots> \<longleftrightarrow> valid_option p \<and> (\<forall>p \<in> set ps. valid_option p) \<and> opts' = options_of (map_of (rev ps)) (options_of [key \<mapsto> val] opts)"
    by (simp add: tp3_option_eq Cons.IH p)
  also have "options_of (map_of (rev ps)) (options_of [key \<mapsto> val] opts) = options_of (map_of (rev (p # ps))) opts"
    by (simp add: options_of_add p)
  finally show ?case by simp
qed

section \<open>Properties\<close>

text \<open>C12. The program of TP3, from the application to the terminal: if the reads of the task get the characters \<open>cs\<close>,
  then the loop of \<open>main\<close> makes one turn for each of them, all its turns together display exactly one greeting for
  each character, read these characters and nothing more, and change no other memory of the task; \<open>main\<close> goes on
  from there as from its start, and it never returns.\<close>

theorem hello_world:
  assumes "awaits P (tty_poll P) A (cs @ rest) s" and "byte \<in> A" and "mem_has (mem s) str (greeting @ [0])"
    and "\<And>k. k \<le> 13 \<Longrightarrow> str + of_nat k \<in> A - {byte}"
  shows "(\<exists>t. turns (length cs) (\<lambda>_. main_body P byte str) () s = Ret (Inl ()) t \<and>
      says P s (concat (replicate (length cs) greeting)) t \<and> awaits P (tty_poll P) A rest t \<and>
      (\<forall>a \<in> A - {byte}. mem t a = mem s a) \<and> main P byte str s = main P byte str t) \<and>
    (\<forall>r u. main P byte str s \<noteq> Ret r u)"
  using main_rounds [OF assms] loop_turns [where body = "\<lambda>_. main_body P byte str"]
    loop_never_returns [of "\<lambda>_. main_body P byte str"] main_body_continues
  unfolding main_def by metis

text \<open>Two keys are pressed; the string is at 0x100.\<close>

definition hello_start :: "u8 list machine" where
  "hello_start = (kbd_start [0x61, 0x62])\<lparr>mem := (\<lambda>a. if 0x100 \<le> a \<and> a < 0x10D then greeting ! unat (a - 0x100) else 0)\<rparr>"

theorem hello_world_witness:
  "\<exists>t. turns 2 (\<lambda>_. main_body kbd 0x200 0x100) () hello_start = Ret (Inl ()) t \<and>
     main kbd 0x200 0x100 hello_start = main kbd 0x200 0x100 t \<and> says kbd hello_start (greeting @ greeting) t"
proof -
  have ok: "kbd_ok hello_start"
    unfolding hello_start_def by (rule kbd_ok_mem [OF kbd_start_ok])
  have "dev hello_start = [0x61, 0x62]" by (simp add: hello_start_def kbd_start_def boot_machine_def)
  then have a: "awaits kbd (tty_poll kbd) UNIV ([0x61, 0x62] @ []) hello_start"
    using kbd_acts [OF _ ok] kbd_polled by (simp add: awaits_def)
  have k: "k = 0 \<or> k = 1 \<or> k = 2 \<or> k = 3 \<or> k = 4 \<or> k = 5 \<or> k = 6 \<or> k = 7 \<or> k = 8 \<or> k = 9 \<or> k = 10 \<or> k = 11 \<or> k = 12 \<or> k = 13"
    if "k \<le> 13" for k :: nat using that by arith
  have "mem_has (mem hello_start) 0x100 (greeting @ [0])"
    by (simp add: hello_start_def greeting_def ascii_def mem_has_Cons)
  moreover have "0x100 + of_nat k \<in> UNIV - {0x200 :: u32}" if "k \<le> 13" for k using k [OF that] by auto
  ultimately have "\<exists>t. turns (length [0x61, 0x62 :: u8]) (\<lambda>_. main_body kbd 0x200 0x100) () hello_start = Ret (Inl ()) t \<and>
      says kbd hello_start (concat (replicate (length [0x61, 0x62 :: u8]) greeting)) t \<and>
      main kbd 0x200 0x100 hello_start = main kbd 0x200 0x100 t"
    using hello_world [OF a, of "0x200" "0x100"] by blast
  moreover have "length [0x61, 0x62 :: u8] = 2" by simp
  moreover have "concat (replicate 2 greeting) = greeting @ greeting" by (simp add: numeral_2_eq_2)
  ultimately show ?thesis by (metis (no_types))
qed

text \<open>The command line of the simulator is read as couples of a key and a value, in any order: the program goes on
  if and only if the arguments are such couples with known keys, numbers that are an \<open>int\<close> and paths that fit
  in their array, and then every option has the last value given for its key, or its default.\<close>

theorem tp3_arguments_correct:
  "tp3_arguments args opts = Inr opts' \<longleftrightarrow>
     (\<exists>ps. args = couples ps \<and> (\<forall>p \<in> set ps. valid_option p) \<and> opts' = options_of (map_of (rev ps)) opts)"
  using couples_split [of args opts opts'] tp3_arguments_couples by blast

theorem tp3_arguments_correct_witness:
  "tp3_arguments [''-DEBUG'', ''12'', ''-NCYCLES'', ''500''] default_options =
     Inr (default_options\<lparr>opt_debug := True, opt_from_cycle := 12, opt_ncycles := 500\<rparr>)"
proof -
  let ?ps = "[(''-DEBUG'', ''12''), (''-NCYCLES'', ''500'')]"
  have n: "c_atoi ''12'' = Inr 12" "c_atoi ''500'' = Inr 500" by (simp_all add: c_atoi_def char_code_def)
  have "\<forall>p \<in> set ?ps. valid_option p" by (simp add: n)
  moreover have "options_of (map_of (rev ?ps)) default_options = default_options\<lparr>opt_debug := True, opt_from_cycle := 12, opt_ncycles := 500\<rparr>"
    by (simp add: options_of_def default_options_def n)
  moreover have "[''-DEBUG'', ''12'', ''-NCYCLES'', ''500''] = couples ?ps" by simp
  ultimately show ?thesis unfolding tp3_arguments_correct by metis
qed

text \<open>C13. The map of the platform fits the addresses of the kernel: the constructors of the mapping table and of the bus
  succeed; every address of a segment is sent to its target and has its cacheability attribute; the registers of
  the four terminals and of the coprocessor that the drivers address are those of the terminal and of the coprocessor, and
  are not cached; the registers of the devices that the platform does not have are sent to the ROM.\<close>

theorem tp3_memory_map:
  assumes "P = tp3_platform rd wr oth"
  shows "\<exists>rt ct. tp3_tables = Inr (rt, ct) \<and>
    (\<forall>(name, base, len, tgt, cached) \<in> set tp3_segments. \<forall>a. unat base \<le> unat a \<and> unat a < unat base + unat len \<longrightarrow>
       adt_nth rt a = Inr tgt \<and> adt_nth ct a = Inr cached) \<and>
    (\<forall>tty r. unat tty < 4 \<and> unat r < 4 \<longrightarrow> (let a = word_at (word_at (seg_tty_base P) (tty * TTY_SPAN)) r
       in adt_nth rt a = Inr TGTID_TTY \<and> adt_nth ct a = Inr False)) \<and>
    (\<forall>r. unat r < 4 \<longrightarrow> adt_nth rt (word_at (seg_gcd_base P) r) = Inr TGTID_GCD \<and> adt_nth ct (word_at (seg_gcd_base P) r) = Inr False) \<and>
    (\<forall>base \<in> {seg_icu_base P, seg_timer_base P, seg_dma_base P, seg_fb_base P, seg_ioc_base P}. \<forall>r. unat r < 2 ^ 20 \<longrightarrow>
       adt_nth rt (word_at base r) = Inr TGTID_ROM)"
proof -
  obtain rt ct where t: "tp3_tables = Inr (rt, ct)" using tp3_tables_eq by blast
  have P: "seg_tty_base P = 0x90000000" "seg_gcd_base P = 0x95000000" "seg_icu_base P = 0x9F000000" "seg_timer_base P = 0x91000000"
      "seg_dma_base P = 0x93000000" "seg_fb_base P = 0x96000000" "seg_ioc_base P = 0x92000000"
    by (simp_all add: assms tp3_platform_def)
  have segs: "(''seg_tty'', 0x90000000, 0x40, TGTID_TTY, False) \<in> set tp3_segments" "(''seg_gcd'', 0x95000000, 0x10, TGTID_GCD, False) \<in> set tp3_segments"
    by (simp_all add: tp3_segments_def)
  have tty: "adt_nth rt (word_at (word_at (seg_tty_base P) (tty * TTY_SPAN)) r) = Inr TGTID_TTY \<and>
      adt_nth ct (word_at (word_at (seg_tty_base P) (tty * TTY_SPAN)) r) = Inr False" if "unat tty < 4" "unat r < 4" for tty r
  proof -
    have "unat (tty * TTY_SPAN) = unat tty * 4" using that by (simp add: unat_word_ariths)
    then have "unat (word_at (word_at (seg_tty_base P) (tty * TTY_SPAN)) r) = 0x90000000 + 16 * unat tty + 4 * unat r"
      using that by (simp add: word_at_unat P)
    then show ?thesis using tp3_access [OF t segs(1)] that by simp
  qed
  have gcd: "adt_nth rt (word_at (seg_gcd_base P) r) = Inr TGTID_GCD \<and> adt_nth ct (word_at (seg_gcd_base P) r) = Inr False"
    if "unat r < 4" for r
    using that tp3_access [OF t segs(2), of "word_at (seg_gcd_base P) r"] by (simp add: word_at_unat P)
  have rom: "adt_nth rt (word_at base r) = Inr TGTID_ROM"
    if "base \<in> {seg_icu_base P, seg_timer_base P, seg_dma_base P, seg_fb_base P, seg_ioc_base P}" "unat r < 2 ^ 20" for base r
  proof (rule tp3_absent [OF t])
    have b: "unat base \<in> {0x9F000000, 0x91000000, 0x93000000, 0x96000000, 0x92000000}" using that(1) by (auto simp: P)
    then have "unat (word_at base r) = unat base + 4 * unat r" using that(2) by (intro word_at_unat) auto
    then have "unat (word_at base r) div 2 ^ 24 = unat base div 2 ^ 24"
      using that(2) b by (intro same_block [where l = "2 ^ 22"]) auto
    then show "unat (word_at base r) div 2 ^ 24 \<notin> top_byte ` set tp3_segments" using b by (auto simp: tp3_segments_def)
  qed
  show ?thesis
  proof (intro exI [of _ rt] exI [of _ ct] conjI ballI allI impI)
    fix x a
    assume x: "x \<in> set tp3_segments"
    obtain name base len tgt cached where eq: "x = (name, base, len, tgt, cached)" by (cases x)
    show "case x of (name, base, len, tgt, cached) \<Rightarrow> \<forall>a. unat base \<le> unat a \<and> unat a < unat base + unat len \<longrightarrow>
        adt_nth rt a = Inr tgt \<and> adt_nth ct a = Inr cached"
      using tp3_access [OF t x [unfolded eq]] by (simp add: eq)
  qed (use t tty gcd rom in \<open>simp_all only: Let_def\<close>)
qed

theorem tp3_memory_map_witness:
  "\<exists>rt ct. tp3_tables = Inr (rt, ct) \<and> adt_nth rt 0x90000004 = Inr TGTID_TTY \<and> adt_nth ct 0x00400010 = Inr True \<and>
     adt_nth rt 0x9F000010 = Inr TGTID_ROM"
proof -
  obtain rt ct where t: "tp3_tables = Inr (rt, ct)"
    and segs: "\<forall>(name, base, len, tgt, cached) \<in> set tp3_segments. \<forall>a. unat base \<le> unat a \<and> unat a < unat base + unat len \<longrightarrow>
       adt_nth rt a = Inr tgt \<and> adt_nth ct a = Inr cached"
    and tty: "\<forall>tty r. unat tty < 4 \<and> unat r < 4 \<longrightarrow> (let a = word_at (word_at (seg_tty_base tp3_regs) (tty * TTY_SPAN)) r
       in adt_nth rt a = Inr TGTID_TTY \<and> adt_nth ct a = Inr False)"
    and rom: "\<forall>base \<in> {seg_icu_base tp3_regs, seg_timer_base tp3_regs, seg_dma_base tp3_regs, seg_fb_base tp3_regs, seg_ioc_base tp3_regs}.
       \<forall>r. unat r < 2 ^ 20 \<longrightarrow> adt_nth rt (word_at base r) = Inr TGTID_ROM"
    using tp3_memory_map [OF refl, of regs_read regs_write id] by blast
  have base: "seg_tty_base tp3_regs = 0x90000000" "seg_icu_base tp3_regs = 0x9F000000" by (simp_all add: tp3_platform_def)
  have "(''seg_code'', 0x00400000, 0x10000, TGTID_RAM, True) \<in> set tp3_segments" by (simp add: tp3_segments_def)
  with segs have "adt_nth ct 0x00400010 = Inr True" by fastforce
  moreover have "adt_nth rt 0x90000004 = Inr TGTID_TTY" using tty [rule_format, of 0 1] by (simp add: base word_at_def)
  moreover have "adt_nth rt 0x9F000010 = Inr TGTID_ROM" using rom [rule_format, of "0x9F000000" 4] by (simp add: base word_at_def)
  ultimately show ?thesis using t by blast
qed

text \<open>The boot code starts the application: execution goes on at the address stored at the start of the data segment, where the
  linker script puts the constructor \<open>main\<close>, in user mode with interrupts enabled and without changing the memory; the
  stack pointer is the end of the stack segment, and the 64 kilobytes below it are in the RAM and cached.\<close>

theorem reset_correct:
  assumes "tp3_tables = Inr (rt, ct)"
  shows "\<exists>pc t. reset s = (pc, t) \<and> pc = load_word (mem s) seg_data_base \<and> mem t = mem s \<and> cp0_sr (core t) = 0xFF11 \<and>
    gpr (core t) 29 = seg_stack_base + 0x10000 \<and>
    (\<forall>n. 0 < unat n \<and> unat n \<le> 0x10000 \<longrightarrow>
       adt_nth rt (gpr (core t) 29 - n) = Inr TGTID_RAM \<and> adt_nth ct (gpr (core t) 29 - n) = Inr True)"
proof -
  have seg: "(''seg_stack'', 0x02000000, 0x10000, TGTID_RAM, True) \<in> set tp3_segments" by (simp add: tp3_segments_def)
  have "adt_nth rt (0x02010000 - n) = Inr TGTID_RAM \<and> adt_nth ct (0x02010000 - n) = Inr True"
    if n: "0 < unat n" "unat n \<le> 0x10000" for n
  proof -
    have "n \<le> 0x02010000" using n(2) by (simp add: word_le_nat_alt)
    then have "unat (0x02010000 - n) = 0x02010000 - unat n" by (simp add: unat_sub)
    then show ?thesis using tp3_access [OF assms seg, of "0x02010000 - n"] n by simp
  qed
  then show ?thesis by (simp add: reset_def eret_def set_gpr_def Let_def)
qed

theorem reset_correct_witness:
  "\<exists>rt ct pc t. tp3_tables = Inr (rt, ct) \<and> reset (hello_start\<lparr>mem := (\<lambda>_. 0)(0x01000001 := 0x02)\<rparr>) = (pc, t) \<and> pc = 0x200 \<and>
     gpr (core t) 29 = 0x02010000 \<and> adt_nth rt 0x0200FFFC = Inr TGTID_RAM"
proof -
  obtain rt ct where t: "tp3_tables = Inr (rt, ct)" using tp3_tables_eq by blast
  obtain pc u where "reset (hello_start\<lparr>mem := (\<lambda>_. 0)(0x01000001 := 0x02)\<rparr>) = (pc, u)"
      and pc: "pc = load_word ((\<lambda>_. 0)(0x01000001 := 0x02)) seg_data_base" and sp: "gpr (core u) 29 = 0x02010000"
      and ram: "\<forall>n. 0 < unat n \<and> unat n \<le> 0x10000 \<longrightarrow> adt_nth rt (gpr (core u) 29 - n) = Inr TGTID_RAM \<and>
        adt_nth ct (gpr (core u) 29 - n) = Inr True"
    using reset_correct [OF t, of "hello_start\<lparr>mem := (\<lambda>_. 0)(0x01000001 := 0x02)\<rparr>"] by auto
  moreover have "load_word ((\<lambda>_. 0)(0x01000001 := 0x02)) seg_data_base = 0x200" by (simp add: load_word_def)
  moreover have "adt_nth rt 0x0200FFFC = Inr TGTID_RAM" using ram [rule_format, of 4] sp by simp
  ultimately show ?thesis using t pc sp by metis
qed

end
