(* ===== verification/Fifo_Gcd.thy ===== *)
theory Fifo_Gcd
  imports Gcd_Engine
begin

text \<open>
  The platform of TP1 (\<open>TP1/TP1_etudiant\<close>): a hardwired master and a GCD coprocessor that talk through two
  FIFO interfaces. A register keeps its value until the end of the clock edge, so \<open>transition\<close> is a
  function of the old registers and of the signals; \<open>genMoore\<close> drives the signals from the registers at the
  falling edge. What the master prints is part of the state of the platform.
\<close>

section \<open>FIFO signals and ports\<close>

record fifo_signals =
  f_data :: u32
  r_wok :: bool
  w_rok :: bool

text \<open>\<open>FifoInput\<close> binds \<open>r\<close> to \<open>r_wok\<close> and \<open>rok\<close> to \<open>w_rok\<close>.\<close>

definition fifo_input_rok :: "fifo_signals \<Rightarrow> bool" where
  "fifo_input_rok sig = w_rok sig"

definition fifo_input_data :: "fifo_signals \<Rightarrow> u32" where
  "fifo_input_data sig = f_data sig"

definition drive_fifo_input :: "bool \<Rightarrow> fifo_signals \<Rightarrow> fifo_signals" where
  "drive_fifo_input r sig = sig\<lparr>r_wok := r\<rparr>"

text \<open>\<open>FifoOutput\<close> binds \<open>wok\<close> to \<open>r_wok\<close> and \<open>w\<close> to \<open>w_rok\<close>.\<close>

definition fifo_output_wok :: "fifo_signals \<Rightarrow> bool" where
  "fifo_output_wok sig = r_wok sig"

definition drive_fifo_output :: "bool \<Rightarrow> u32 \<Rightarrow> fifo_signals \<Rightarrow> fifo_signals" where
  "drive_fifo_output w data sig = sig\<lparr>f_data := data, w_rok := w\<rparr>"

lemmas fifo_port_defs = fifo_input_rok_def fifo_input_data_def drive_fifo_input_def fifo_output_wok_def
  drive_fifo_output_def

section \<open>The coprocessor\<close>

datatype coprocessor_fsm_state = READ_OPA | READ_OPB | COMPARE | DECR_A | DECR_B | WRITE_RES

record fifo_gcd_coprocessor =
  co_fsm :: coprocessor_fsm_state
  co_opa :: u32
  co_opb :: u32

definition coprocessor_transition ::
    "bool \<Rightarrow> fifo_signals \<Rightarrow> fifo_signals \<Rightarrow> fifo_gcd_coprocessor \<Rightarrow> fifo_gcd_coprocessor" where
  "coprocessor_transition resetn p_in p_out c =
     (if \<not> resetn then c\<lparr>co_fsm := READ_OPA\<rparr>
      else case co_fsm c of
        READ_OPA \<Rightarrow> if fifo_input_rok p_in then c\<lparr>co_opa := fifo_input_data p_in, co_fsm := READ_OPB\<rparr> else c
      | READ_OPB \<Rightarrow> if fifo_input_rok p_in then c\<lparr>co_opb := fifo_input_data p_in, co_fsm := COMPARE\<rparr> else c
      | COMPARE \<Rightarrow> if co_opa c < co_opb c then c\<lparr>co_fsm := DECR_B\<rparr>
                   else if co_opa c > co_opb c then c\<lparr>co_fsm := DECR_A\<rparr>
                   else c\<lparr>co_fsm := WRITE_RES\<rparr>
      | DECR_A \<Rightarrow> c\<lparr>co_opa := co_opa c - co_opb c, co_fsm := COMPARE\<rparr>
      | DECR_B \<Rightarrow> c\<lparr>co_opb := co_opb c - co_opa c, co_fsm := COMPARE\<rparr>
      | WRITE_RES \<Rightarrow> if fifo_output_wok p_out then c\<lparr>co_fsm := READ_OPA\<rparr> else c)"

text \<open>The pair of signals \<open>(p_in, p_out)\<close> driven by the coprocessor.\<close>

definition coprocessor_genMoore ::
    "fifo_gcd_coprocessor \<Rightarrow> fifo_signals \<times> fifo_signals \<Rightarrow> fifo_signals \<times> fifo_signals" where
  "coprocessor_genMoore c = (\<lambda>(p_in, p_out).
     case co_fsm c of
       READ_OPA \<Rightarrow> (drive_fifo_input True p_in, drive_fifo_output False 0 p_out)
     | READ_OPB \<Rightarrow> (drive_fifo_input True p_in, drive_fifo_output False 0 p_out)
     | COMPARE \<Rightarrow> (drive_fifo_input False p_in, drive_fifo_output False 0 p_out)
     | DECR_A \<Rightarrow> (drive_fifo_input False p_in, drive_fifo_output False 0 p_out)
     | DECR_B \<Rightarrow> (drive_fifo_input False p_in, drive_fifo_output False 0 p_out)
     | WRITE_RES \<Rightarrow> (drive_fifo_input False p_in, drive_fifo_output True (co_opa c) p_out))"

section \<open>The master\<close>

datatype master_fsm_state = RANDOM | WRITE_OPA | WRITE_OPB | READ_RES | DISPLAY

text \<open>The state of the C library's random generator and what was printed are part of the master.\<close>

record 'r fifo_gcd_master =
  ma_fsm :: master_fsm_state
  ma_opa :: u32
  ma_opb :: u32
  ma_res :: u32
  ma_cyclecount :: u32
  ma_iterationcount :: u32
  ma_rng :: 'r
  ma_cout :: "display list"

definition master_transition ::
    "('r \<Rightarrow> u32 \<times> 'r) \<Rightarrow> bool \<Rightarrow> fifo_signals \<Rightarrow> fifo_signals \<Rightarrow> 'r fifo_gcd_master \<Rightarrow> 'r fifo_gcd_master" where
  "master_transition rnd resetn p_in p_out m =
     (if \<not> resetn then m\<lparr>ma_fsm := RANDOM, ma_cyclecount := 0, ma_iterationcount := 0\<rparr>
      else (case ma_fsm m of
        RANDOM \<Rightarrow>
          let (a, r1) = rnd (ma_rng m); (b, r2) = rnd r1
          in m\<lparr>ma_fsm := WRITE_OPA, ma_opa := a + 1, ma_opb := b + 1,
               ma_iterationcount := ma_iterationcount m + 1, ma_rng := r2\<rparr>
      | WRITE_OPA \<Rightarrow> if fifo_output_wok p_out then m\<lparr>ma_fsm := WRITE_OPB\<rparr> else m
      | WRITE_OPB \<Rightarrow> if fifo_output_wok p_out then m\<lparr>ma_fsm := READ_RES\<rparr> else m
      | READ_RES \<Rightarrow> if fifo_input_rok p_in then m\<lparr>ma_fsm := DISPLAY, ma_res := fifo_input_data p_in\<rparr> else m
      | DISPLAY \<Rightarrow> m\<lparr>ma_fsm := RANDOM,
          ma_cout := ma_cout m @ [\<lparr>d_iteration = ma_iterationcount m, d_cycle = ma_cyclecount m,
             d_opa = ma_opa m, d_opb = ma_opb m, d_pgcd = ma_res m\<rparr>]\<rparr>)
        \<lparr>ma_cyclecount := ma_cyclecount m + 1\<rparr>)"

definition master_genMoore ::
    "'r fifo_gcd_master \<Rightarrow> fifo_signals \<times> fifo_signals \<Rightarrow> fifo_signals \<times> fifo_signals" where
  "master_genMoore m = (\<lambda>(p_in, p_out).
     case ma_fsm m of
       RANDOM \<Rightarrow> (drive_fifo_input False p_in, drive_fifo_output False 0 p_out)
     | DISPLAY \<Rightarrow> (drive_fifo_input False p_in, drive_fifo_output False 0 p_out)
     | WRITE_OPA \<Rightarrow> (drive_fifo_input False p_in, drive_fifo_output True (ma_opa m) p_out)
     | WRITE_OPB \<Rightarrow> (drive_fifo_input False p_in, drive_fifo_output True (ma_opb m) p_out)
     | READ_RES \<Rightarrow> (drive_fifo_input True p_in, drive_fifo_output False 0 p_out))"

section \<open>The platform\<close>

record 'r tp1 =
  signal_fifo_m2c :: fifo_signals
  signal_fifo_c2m :: fifo_signals
  tp1_master :: "'r fifo_gcd_master"
  tp1_coproc :: fifo_gcd_coprocessor

definition tp1_posedge :: "('r \<Rightarrow> u32 \<times> 'r) \<Rightarrow> bool \<Rightarrow> 'r tp1 \<Rightarrow> 'r tp1" where
  "tp1_posedge rnd resetn s = s\<lparr>
     tp1_master := master_transition rnd resetn (signal_fifo_c2m s) (signal_fifo_m2c s) (tp1_master s),
     tp1_coproc := coprocessor_transition resetn (signal_fifo_m2c s) (signal_fifo_c2m s) (tp1_coproc s)\<rparr>"

definition tp1_negedge :: "'r tp1 \<Rightarrow> 'r tp1" where
  "tp1_negedge s =
     (let (c2m, m2c) = master_genMoore (tp1_master s) (signal_fifo_c2m s, signal_fifo_m2c s);
          (m2c, c2m) = coprocessor_genMoore (tp1_coproc s) (m2c, c2m)
      in s\<lparr>signal_fifo_m2c := m2c, signal_fifo_c2m := c2m\<rparr>)"

definition tp1_cycle :: "('r \<Rightarrow> u32 \<times> 'r) \<Rightarrow> bool \<Rightarrow> 'r tp1 \<Rightarrow> 'r tp1" where
  "tp1_cycle rnd resetn s = tp1_negedge (tp1_posedge rnd resetn s)"

text \<open>\<open>sc_main\<close>: one cycle of reset, then \<open>n\<close> cycles.\<close>

definition tp1_main :: "('r \<Rightarrow> u32 \<times> 'r) \<Rightarrow> nat \<Rightarrow> 'r tp1 \<Rightarrow> 'r tp1" where
  "tp1_main rnd n s = (tp1_cycle rnd True ^^ n) (tp1_cycle rnd False s)"

section \<open>The coprocessor is a GCD engine\<close>

definition coprocessor_phase :: "fifo_gcd_coprocessor \<Rightarrow> gcd_phase option" where
  "coprocessor_phase c = (case co_fsm c of COMPARE \<Rightarrow> Some Comparing | DECR_A \<Rightarrow> Some Subtract_a
     | DECR_B \<Rightarrow> Some Subtract_b | _ \<Rightarrow> None)"

interpretation fifo_engine: gcd_engine
  "\<lambda>(p_in, p_out) c c'. c' = coprocessor_transition True p_in p_out c" "\<lambda>_ _. True"
  coprocessor_phase co_opa co_opb
  by unfold_locales
    (auto simp: coprocessor_transition_def coprocessor_phase_def dest: order.asym
      split: coprocessor_fsm_state.splits if_splits)

section \<open>One iteration\<close>

text \<open>After a falling edge the signals are those of the registers.\<close>

definition tp1_settled :: "'r tp1 \<Rightarrow> bool" where
  "tp1_settled s \<longleftrightarrow> tp1_negedge s = s"

definition tp1_fresh :: "u32 \<Rightarrow> 'r \<Rightarrow> 'r tp1 \<Rightarrow> bool" where
  "tp1_fresh n r s \<longleftrightarrow> tp1_settled s \<and> ma_fsm (tp1_master s) = RANDOM \<and> co_fsm (tp1_coproc s) = READ_OPA \<and>
     ma_iterationcount (tp1_master s) = n \<and> ma_rng (tp1_master s) = r"

lemmas tp1_defs = tp1_posedge_def tp1_negedge_def master_genMoore_def coprocessor_genMoore_def
  master_transition_def coprocessor_transition_def fifo_port_defs

lemma tp1_negedge_idem: "tp1_negedge (tp1_negedge s) = tp1_negedge s"
  by (cases s) (simp add: tp1_defs split: coprocessor_fsm_state.splits master_fsm_state.splits)

lemma tp1_cycle_settled: "tp1_settled (tp1_cycle rnd b s)"
  by (simp add: tp1_settled_def tp1_cycle_def tp1_negedge_idem)

lemma tp1_registers [simp]:
  "tp1_master (tp1_cycle rnd b s) =
     master_transition rnd b (signal_fifo_c2m s) (signal_fifo_m2c s) (tp1_master s)"
  "tp1_coproc (tp1_cycle rnd b s) =
     coprocessor_transition b (signal_fifo_m2c s) (signal_fifo_c2m s) (tp1_coproc s)"
  by (simp_all add: tp1_cycle_def tp1_negedge_def tp1_posedge_def split: prod.splits)

text \<open>The signals of a settled state.\<close>

lemma negedge_signals:
  "w_rok (signal_fifo_m2c (tp1_negedge s)) \<longleftrightarrow> ma_fsm (tp1_master s) \<in> {WRITE_OPA, WRITE_OPB}"
  "r_wok (signal_fifo_m2c (tp1_negedge s)) \<longleftrightarrow> co_fsm (tp1_coproc s) \<in> {READ_OPA, READ_OPB}"
  "w_rok (signal_fifo_c2m (tp1_negedge s)) \<longleftrightarrow> co_fsm (tp1_coproc s) = WRITE_RES"
  "r_wok (signal_fifo_c2m (tp1_negedge s)) \<longleftrightarrow> ma_fsm (tp1_master s) = READ_RES"
  "ma_fsm (tp1_master s) = WRITE_OPA \<Longrightarrow> f_data (signal_fifo_m2c (tp1_negedge s)) = ma_opa (tp1_master s)"
  "ma_fsm (tp1_master s) = WRITE_OPB \<Longrightarrow> f_data (signal_fifo_m2c (tp1_negedge s)) = ma_opb (tp1_master s)"
  "co_fsm (tp1_coproc s) = WRITE_RES \<Longrightarrow> f_data (signal_fifo_c2m (tp1_negedge s)) = co_opa (tp1_coproc s)"
  by (auto simp: tp1_negedge_def master_genMoore_def coprocessor_genMoore_def fifo_port_defs
      split: coprocessor_fsm_state.splits master_fsm_state.splits)

lemma settled_signals:
  assumes "tp1_settled s"
  shows "fifo_input_rok (signal_fifo_m2c s) \<longleftrightarrow> ma_fsm (tp1_master s) \<in> {WRITE_OPA, WRITE_OPB}"
    and "fifo_output_wok (signal_fifo_m2c s) \<longleftrightarrow> co_fsm (tp1_coproc s) \<in> {READ_OPA, READ_OPB}"
    and "fifo_input_rok (signal_fifo_c2m s) \<longleftrightarrow> co_fsm (tp1_coproc s) = WRITE_RES"
    and "fifo_output_wok (signal_fifo_c2m s) \<longleftrightarrow> ma_fsm (tp1_master s) = READ_RES"
    and "ma_fsm (tp1_master s) = WRITE_OPA \<Longrightarrow> fifo_input_data (signal_fifo_m2c s) = ma_opa (tp1_master s)"
    and "ma_fsm (tp1_master s) = WRITE_OPB \<Longrightarrow> fifo_input_data (signal_fifo_m2c s) = ma_opb (tp1_master s)"
    and "co_fsm (tp1_coproc s) = WRITE_RES \<Longrightarrow> fifo_input_data (signal_fifo_c2m s) = co_opa (tp1_coproc s)"
  using negedge_signals [of s] assms by (simp_all add: tp1_settled_def fifo_port_defs)

text \<open>A cycle that leaves the master waiting for the result steps the coprocessor.\<close>

definition tp1_waiting :: "'r tp1 \<Rightarrow> 'r tp1 \<Rightarrow> bool" where
  "tp1_waiting s0 s \<longleftrightarrow> tp1_settled s \<and> (\<exists>n. tp1_master s = (tp1_master s0)\<lparr>ma_cyclecount := n\<rparr>) \<and>
     ma_fsm (tp1_master s) = READ_RES"

lemma waiting_step:
  assumes "tp1_waiting s0 s" and "coprocessor_phase (tp1_coproc s) \<noteq> None"
  shows "tp1_waiting s0 (tp1_cycle rnd True s)"
proof -
  have "co_fsm (tp1_coproc s) \<noteq> WRITE_RES" using assms(2) by (auto simp: coprocessor_phase_def)
  then have "\<not> fifo_input_rok (signal_fifo_c2m s)"
    using assms(1) settled_signals(3) [of s] by (simp add: tp1_waiting_def)
  with assms(1) show ?thesis by (auto simp: tp1_waiting_def tp1_cycle_settled master_transition_def)
qed

lemma tp1_computes:
  assumes "tp1_settled s" and "ma_fsm (tp1_master s) = READ_RES" and "co_fsm (tp1_coproc s) = COMPARE"
    and "0 < co_opa (tp1_coproc s)" and "0 < co_opb (tp1_coproc s)"
  defines "g \<equiv> gcd (unat (co_opa (tp1_coproc s))) (unat (co_opb (tp1_coproc s)))"
  shows "\<exists>k. tp1_waiting s ((tp1_cycle rnd True ^^ k) s) \<and> co_fsm (tp1_coproc ((tp1_cycle rnd True ^^ k) s)) = WRITE_RES \<and>
    unat (co_opa (tp1_coproc ((tp1_cycle rnd True ^^ k) s))) = g \<and> (\<forall>j<k. tp1_waiting s ((tp1_cycle rnd True ^^ j) s))"
proof -
  let ?sys = "tp1_cycle rnd True"
  let ?Inv = "\<lambda>S. tp1_waiting s S \<and> (co_fsm (tp1_coproc S) \<in> {COMPARE, DECR_A, DECR_B, WRITE_RES})"
  have w: "?Inv s" using assms(1-3) by (auto simp: tp1_waiting_def intro: exI [of _ "ma_cyclecount (tp1_master s)"])
  have step: "\<exists>i. (case i of (p_in, p_out) \<Rightarrow> \<lambda>c c'. c' = coprocessor_transition True p_in p_out c)
      (tp1_coproc S) (tp1_coproc (?sys S)) \<and> True \<and> ?Inv (?sys S)"
    if "?Inv S" "coprocessor_phase (tp1_coproc S) \<noteq> None" for S
  proof (intro exI [of _ "(signal_fifo_m2c S, signal_fifo_c2m S)"] conjI)
    show "tp1_waiting s (?sys S)" using that waiting_step by blast
    show "co_fsm (tp1_coproc (?sys S)) \<in> {COMPARE, DECR_A, DECR_B, WRITE_RES}"
      using that by (auto simp: coprocessor_transition_def coprocessor_phase_def)
  qed simp_all
  have "fifo_engine.computing g (tp1_coproc s)"
    unfolding g_def by (rule fifo_engine.start_computing) (use assms(3-5) in \<open>simp_all add: coprocessor_phase_def\<close>)
  from fifo_engine.computes [OF this w step] obtain k where k: "fifo_engine.finished g (tp1_coproc ((?sys ^^ k) s))"
      "?Inv ((?sys ^^ k) s)" "\<forall>j<k. tp1_waiting s ((?sys ^^ j) s)"
    by blast
  then have "co_fsm (tp1_coproc ((?sys ^^ k) s)) = WRITE_RES"
    by (auto simp: fifo_engine.finished_def coprocessor_phase_def)
  with k show ?thesis by (auto simp: fifo_engine.finished_def)
qed


text \<open>The three cycles that hand the operands over.\<close>

lemma tp1_operands:
  assumes "rand_range rnd" and "tp1_fresh n r s"
  defines "s1 \<equiv> tp1_cycle rnd True s"
  defines "s2 \<equiv> tp1_cycle rnd True s1"
  defines "s3 \<equiv> tp1_cycle rnd True s2"
  defines "a \<equiv> fst (rnd r) + 1"
  defines "b \<equiv> fst (rnd (snd (rnd r))) + 1"
  shows "ma_cout (tp1_master s1) = ma_cout (tp1_master s)" "ma_cout (tp1_master s2) = ma_cout (tp1_master s)"
    and "tp1_settled s3" "ma_fsm (tp1_master s3) = READ_RES" "co_fsm (tp1_coproc s3) = COMPARE"
      "co_opa (tp1_coproc s3) = a" "co_opb (tp1_coproc s3) = b" "ma_opa (tp1_master s3) = a" "ma_opb (tp1_master s3) = b"
      "ma_iterationcount (tp1_master s3) = n + 1" "ma_rng (tp1_master s3) = snd (rnd (snd (rnd r)))"
      "ma_cout (tp1_master s3) = ma_cout (tp1_master s)"
proof -
  have s: "tp1_settled s" "ma_fsm (tp1_master s) = RANDOM" "co_fsm (tp1_coproc s) = READ_OPA"
      "ma_iterationcount (tp1_master s) = n" "ma_rng (tp1_master s) = r"
    using assms(2) by (simp_all add: tp1_fresh_def)
  note sig = settled_signals [OF s(1)]
  have m1: "ma_fsm (tp1_master s1) = WRITE_OPA" "ma_opa (tp1_master s1) = a" "ma_opb (tp1_master s1) = b"
      "ma_iterationcount (tp1_master s1) = n + 1" "ma_rng (tp1_master s1) = snd (rnd (snd (rnd r)))"
      "ma_cout (tp1_master s1) = ma_cout (tp1_master s)"
    using s by (simp_all add: s1_def a_def b_def master_transition_def split: prod.splits)
  have c1: "co_fsm (tp1_coproc s1) = READ_OPA"
    using s sig by (simp add: s1_def coprocessor_transition_def)
  have st1: "tp1_settled s1" and st2: "tp1_settled s2" and st3: "tp1_settled s3"
    by (simp_all only: s1_def s2_def s3_def tp1_cycle_settled)
  note sig1 = settled_signals [OF st1] and sig2 = settled_signals [OF st2]
  have m2: "ma_fsm (tp1_master s2) = WRITE_OPB" "ma_opa (tp1_master s2) = a" "ma_opb (tp1_master s2) = b"
      "ma_iterationcount (tp1_master s2) = n + 1" "ma_rng (tp1_master s2) = snd (rnd (snd (rnd r)))"
      "ma_cout (tp1_master s2) = ma_cout (tp1_master s)"
    using m1 c1 sig1 by (simp_all add: s2_def master_transition_def)
  have c2: "co_fsm (tp1_coproc s2) = READ_OPB" "co_opa (tp1_coproc s2) = a"
    using m1 c1 sig1 by (simp_all add: s2_def coprocessor_transition_def)
  show "ma_fsm (tp1_master s3) = READ_RES" "ma_opa (tp1_master s3) = a" "ma_opb (tp1_master s3) = b"
      "ma_iterationcount (tp1_master s3) = n + 1" "ma_rng (tp1_master s3) = snd (rnd (snd (rnd r)))"
      "ma_cout (tp1_master s3) = ma_cout (tp1_master s)"
    using m2 c2 sig2 by (simp_all add: s3_def master_transition_def)
  show "co_fsm (tp1_coproc s3) = COMPARE" "co_opa (tp1_coproc s3) = a" "co_opb (tp1_coproc s3) = b"
    using m2 c2 sig2 by (simp_all add: s3_def coprocessor_transition_def)
  show "tp1_settled s3" "ma_cout (tp1_master s1) = ma_cout (tp1_master s)" "ma_cout (tp1_master s2) = ma_cout (tp1_master s)"
    using st3 m1 m2 by simp_all
qed

text \<open>The two cycles that hand the result over and display it.\<close>

lemma tp1_result:
  fixes rnd :: "'r \<Rightarrow> u32 \<times> 'r" and u s0 :: "'r tp1"
  assumes "tp1_waiting s0 u" and "co_fsm (tp1_coproc u) = WRITE_RES"
  defines "u1 \<equiv> tp1_cycle rnd True u"
  defines "u2 \<equiv> tp1_cycle rnd True u1"
  shows "ma_cout (tp1_master u1) = ma_cout (tp1_master s0)"
    and "tp1_fresh (ma_iterationcount (tp1_master s0)) (ma_rng (tp1_master s0)) u2"
    and "\<exists>d. ma_cout (tp1_master u2) = ma_cout (tp1_master s0) @ [d] \<and>
      d_iteration d = ma_iterationcount (tp1_master s0) \<and> d_opa d = ma_opa (tp1_master s0) \<and>
      d_opb d = ma_opb (tp1_master s0) \<and> d_pgcd d = co_opa (tp1_coproc u)"
proof -
  obtain n where u: "tp1_settled u" "tp1_master u = (tp1_master s0)\<lparr>ma_cyclecount := n\<rparr>"
      "ma_fsm (tp1_master u) = READ_RES"
    using assms(1) by (auto simp: tp1_waiting_def)
  note sig = settled_signals [OF u(1)]
  have m1: "tp1_master u1 = (tp1_master s0)\<lparr>ma_fsm := DISPLAY, ma_res := co_opa (tp1_coproc u), ma_cyclecount := n + 1\<rparr>"
    using u sig assms(2) by (simp add: u1_def master_transition_def)
  have c1: "co_fsm (tp1_coproc u1) = READ_OPA"
    using u(3) sig(4) assms(2) by (simp add: u1_def coprocessor_transition_def)
  have "tp1_settled u1" by (simp add: u1_def tp1_cycle_settled)
  note sig1 = settled_signals [OF this]
  have c2: "co_fsm (tp1_coproc u2) = READ_OPA"
    using m1 c1 sig1(1) by (simp add: u2_def coprocessor_transition_def)
  have "tp1_settled u2" by (simp add: u2_def tp1_cycle_settled)
  with c2 m1 show "tp1_fresh (ma_iterationcount (tp1_master s0)) (ma_rng (tp1_master s0)) u2"
    by (simp add: tp1_fresh_def u2_def master_transition_def)
  show "ma_cout (tp1_master u1) = ma_cout (tp1_master s0)" using m1 by simp
  show "\<exists>d. ma_cout (tp1_master u2) = ma_cout (tp1_master s0) @ [d] \<and>
      d_iteration d = ma_iterationcount (tp1_master s0) \<and> d_opa d = ma_opa (tp1_master s0) \<and>
      d_opb d = ma_opb (tp1_master s0) \<and> d_pgcd d = co_opa (tp1_coproc u)"
    using m1 by (simp add: u2_def master_transition_def)
qed

lemma tp1_iteration:
  assumes "rand_range rnd" and "tp1_fresh n r s"
  shows "\<exists>k t d r'. 0 < k \<and> silent_run (\<lambda>s. Some (tp1_cycle rnd True s)) (\<lambda>s. ma_cout (tp1_master s)) k s t \<and>
      ma_cout (tp1_master t) = ma_cout (tp1_master s) @ [d] \<and> tp1_fresh (n + 1) r' t \<and>
      (\<forall>ds. session rnd (n + 1) r' ds \<longrightarrow> session rnd n r (d # ds))"
proof -
  let ?c = "tp1_cycle rnd True" and ?out = "\<lambda>s. ma_cout (tp1_master s)"
  let ?run = "silent_run (\<lambda>s. Some (?c s)) ?out"
  define s3 where "s3 = ?c (?c (?c s))"
  note ops = tp1_operands [OF assms, folded s3_def]
  obtain k where k: "tp1_waiting s3 ((?c ^^ k) s3)" "co_fsm (tp1_coproc ((?c ^^ k) s3)) = WRITE_RES"
      "unat (co_opa (tp1_coproc ((?c ^^ k) s3))) = gcd (unat (co_opa (tp1_coproc s3))) (unat (co_opb (tp1_coproc s3)))"
      "\<forall>j<k. tp1_waiting s3 ((?c ^^ j) s3)"
    using tp1_computes [OF ops(3-5), where rnd = rnd] ops(6,7) rand_positive [OF assms(1)] by auto
  define u where "u = (?c ^^ k) s3"
  note res = tp1_result [OF k(1,2), of rnd, folded u_def]
  obtain d where d: "?out (?c (?c u)) = ?out s3 @ [d]" "d_iteration d = n + 1"
      "d_opa d = fst (rnd r) + 1" "d_opb d = fst (rnd (snd (rnd r))) + 1" "d_pgcd d = co_opa (tp1_coproc u)"
    using res(3) ops(8-10) by auto
  have w: "?out v = ?out s3" if "tp1_waiting s3 v" for v using that by (auto simp: tp1_waiting_def)
  have cons: "?run (Suc j) v x" if "?out (?c v) = ?out v" "?run j (?c v) x" for v x j
    by (rule silent_run_Cons [of "\<lambda>s. Some (?c s)" v "?c v" ?out j x, OF refl that])
  have stop: "?run 1 v (?c v)" for v by (rule silent_run_step) (rule refl)
  have out_u: "?out u = ?out s3" unfolding u_def by (rule w [OF k(1)])
  have last: "?run (Suc 1) u (?c (?c u))" by (rule cons [OF _ stop]) (simp only: res(1) out_u)
  have "?run k s3 u" using k(4) w by (simp add: silent_run_def sim_run_funpow u_def)
  from silent_run_trans [OF this out_u last] have mid: "?run (k + Suc 1) (?c (?c (?c s))) (?c (?c u))"
    by (simp only: s3_def)
  have "?run (Suc (Suc (Suc (k + Suc 1)))) s (?c (?c u))"
    by (rule cons [OF ops(1) cons [OF _ cons [OF _ mid]]]) (simp_all only: ops(1,2,12) s3_def [symmetric])
  moreover have "tp1_fresh (n + 1) (snd (rnd (snd (rnd r)))) (?c (?c u))" using res(2) ops(10,11) by simp
  moreover have "session rnd n r (d # ds)" if "session rnd (n + 1) (snd (rnd (snd (rnd r)))) ds" for ds
    using that d(2-5) k(3) ops(6,7) by (simp add: split_beta u_def)
  ultimately show ?thesis
    using d(1) ops(12) by (intro exI [of _ "Suc (Suc (Suc (k + Suc 1)))"] exI [of _ "?c (?c u)"] exI [of _ d]
      exI [of _ "snd (rnd (snd (rnd r)))"]) simp
qed

interpretation tp1: gcd_platform rnd "\<lambda>s. Some (tp1_cycle rnd True s)" "\<lambda>s. ma_cout (tp1_master s)" tp1_fresh
  for rnd :: "'r \<Rightarrow> u32 \<times> 'r"
  by unfold_locales (rule tp1_iteration)


section \<open>Properties\<close>

lemma tp1_reset_fresh: "tp1_fresh 0 (ma_rng (tp1_master s)) (tp1_cycle rnd False s)"
  by (simp add: tp1_fresh_def tp1_cycle_settled master_transition_def coprocessor_transition_def)

lemma tp1_reset_cout: "ma_cout (tp1_master (tp1_cycle rnd False s)) = ma_cout (tp1_master s)"
  by (simp add: master_transition_def)

text \<open>C15. The platform of TP1 refines the specification of a session: whatever the registers and the signals are
  at power up, and however many cycles are simulated, what the master has displayed since is a beginning of
  the session of its generator: consecutive iterations, the operands it drew, and their greatest common
  divisor.\<close>

theorem tp1_refines_session:
  assumes "rand_range rnd"
  shows "\<exists>ds. ma_cout (tp1_master (tp1_main rnd n s)) = ma_cout (tp1_master s) @ ds \<and>
    session rnd 0 (ma_rng (tp1_master s)) ds"
  using tp1.displays [OF assms tp1_reset_fresh [of s rnd], of n]
  by (auto simp: sim_run_funpow tp1_main_def tp1_reset_cout simp del: tp1_registers)

text \<open>A platform at power up.\<close>

definition idle_fifo :: fifo_signals where
  "idle_fifo = \<lparr>f_data = 0, r_wok = False, w_rok = False\<rparr>"

definition tp1_power_up :: "nat tp1" where
  "tp1_power_up = \<lparr>signal_fifo_m2c = idle_fifo, signal_fifo_c2m = idle_fifo,
     tp1_master = \<lparr>ma_fsm = RANDOM, ma_opa = 0, ma_opb = 0, ma_res = 0, ma_cyclecount = 0, ma_iterationcount = 0,
       ma_rng = 3, ma_cout = []\<rparr>,
     tp1_coproc = \<lparr>co_fsm = READ_OPA, co_opa = 0, co_opb = 0\<rparr>\<rparr>"

theorem tp1_refines_session_witness:
  "rand_range count_rand \<and>
   (\<exists>ds. ma_cout (tp1_master (tp1_main count_rand 30 tp1_power_up)) = [] @ ds \<and> session count_rand 0 3 ds)"
  using tp1_refines_session [OF count_rand_range, of 30 tp1_power_up] count_rand_range
  by (simp add: tp1_power_up_def)

text \<open>C26. The platform of TP1 never gets stuck: for every number of results there is a number of cycles after
  which the master has displayed that many, all of them right.\<close>

theorem tp1_keeps_computing:
  assumes "rand_range rnd"
  shows "\<exists>n ds. ma_cout (tp1_master (tp1_main rnd n s)) = ma_cout (tp1_master s) @ ds \<and> length ds = l \<and>
    session rnd 0 (ma_rng (tp1_master s)) ds"
  using tp1.keeps_displaying [OF assms tp1_reset_fresh [of s rnd], of l]
  by (auto simp: sim_run_funpow tp1_main_def tp1_reset_cout simp del: tp1_registers)

theorem tp1_keeps_computing_witness:
  "\<exists>n ds. ma_cout (tp1_master (tp1_main count_rand n tp1_power_up)) = [] @ ds \<and> length ds = 2 \<and>
     session count_rand 0 3 ds"
  using tp1_keeps_computing [OF count_rand_range, of tp1_power_up 2] by (simp add: tp1_power_up_def)

text \<open>C27. The coprocessor terminates: once it holds two non-zero operands, it proposes their greatest common
  divisor on its output after at most \<open>2 (opa + opb) + 2\<close> cycles, whatever its inputs do meanwhile.\<close>

theorem coprocessor_terminates:
  assumes "co_fsm c = COMPARE" and "0 < co_opa c" and "0 < co_opb c"
  shows "\<exists>k \<le> 2 * (unat (co_opa c) + unat (co_opb c)) + 2.
    let c' = ((\<lambda>(j, c). (Suc j, coprocessor_transition True (p_in j) (p_out j) c)) ^^ k) (0, c) in
    co_fsm (snd c') = WRITE_RES \<and> unat (co_opa (snd c')) = gcd (unat (co_opa c)) (unat (co_opb c))"
proof -
  let ?sys = "\<lambda>(j, c). (Suc j, coprocessor_transition True (p_in j) (p_out j) c)"
  let ?Inv = "\<lambda>S :: nat \<times> fifo_gcd_coprocessor. co_fsm (snd S) \<in> {COMPARE, DECR_A, DECR_B, WRITE_RES}"
  let ?g = "gcd (unat (co_opa c)) (unat (co_opb c))"
  have "fifo_engine.computing ?g (snd (0 :: nat, c))"
    by (simp, rule fifo_engine.start_computing) (use assms in \<open>simp_all add: coprocessor_phase_def\<close>)
  moreover have "?Inv (0, c)" using assms(1) by simp
  moreover have "\<exists>i. (case i of (p_in, p_out) \<Rightarrow> \<lambda>c c'. c' = coprocessor_transition True p_in p_out c)
      (snd S) (snd (?sys S)) \<and> True \<and> ?Inv (?sys S)"
    if "?Inv S" "coprocessor_phase (snd S) \<noteq> None" for S
    using that by (intro exI [of _ "(p_in (fst S), p_out (fst S))"])
      (auto simp: split_beta coprocessor_transition_def coprocessor_phase_def)
  ultimately obtain k where k: "k \<le> Suc (fifo_engine.remaining (snd (0 :: nat, c)))"
      "fifo_engine.finished ?g (snd ((?sys ^^ k) (0, c)))" "?Inv ((?sys ^^ k) (0, c))"
    using fifo_engine.computes [where eng = snd and S = "(0, c)" and g = ?g and sys = ?sys and Inv = ?Inv] by blast
  have "k \<le> 2 * (unat (co_opa c) + unat (co_opb c)) + 2"
    using k(1) assms(1) by (simp add: fifo_engine.remaining_def coprocessor_phase_def)
  with k(2,3) show ?thesis
    by (intro exI [of _ k]) (auto simp: Let_def fifo_engine.finished_def coprocessor_phase_def)
qed

theorem coprocessor_terminates_witness:
  "\<exists>k \<le> 2 * (12 + 18) + 2.
    let c' = ((\<lambda>(j :: nat, c). (Suc j, coprocessor_transition True idle_fifo idle_fifo c)) ^^ k)
      (0, \<lparr>co_fsm = COMPARE, co_opa = 12, co_opb = 18\<rparr>) in
    co_fsm (snd c') = WRITE_RES \<and> unat (co_opa (snd c')) = 6"
proof -
  have "gcd (12 :: nat) 18 = 6" by (simp add: gcd_non_0_nat)
  then show ?thesis
    using coprocessor_terminates [of "\<lparr>co_fsm = COMPARE, co_opa = 12, co_opb = 18\<rparr>" "\<lambda>_. idle_fifo" "\<lambda>_. idle_fifo"]
    by simp
qed

end
