(* ===== verification/Tp2_Parallel.thy ===== *)
theory Tp2_Parallel
  imports Tp2_Map
begin

text \<open>
  The second platform of TP2 (\<open>tp2_parallel_top.cpp\<close>): three masters and three coprocessors on the bus. The
  components are lists; component \<open>i\<close> has the segment, the identifier and the base address number \<open>i\<close>. The
  masters share the generator of the C library: at a clock edge they run in the order of their construction.
  At the falling edge the Moore functions drive the signals, then the Mealy functions of the bus, which are
  sensitive to all the signals they read, forward them. The theory shows that no master ever gets a wrong result,
  however the bus interleaves the transactions.
\<close>

section \<open>The platform\<close>

record 'r tp2_parallel =
  signal_vci_master :: "vci_signals list"
  signal_vci_coproc :: "vci_signals list"
  par_masters :: "vci_gcd_master list"
  par_coprocs :: "vci_gcd_coprocessor list"
  par_bus :: vgsb
  par_rng :: 'r

record par_config =
  cfg_segs :: "segment list"
  cfg_ids :: "vci_srcid list"
  cfg_bases :: "vci_addr list"
  cfg_routing_table :: "int decoding_table"

fun masters_posedge ::
    "('r \<Rightarrow> u32 \<times> 'r) \<Rightarrow> bool \<Rightarrow> vci_signals list \<Rightarrow> vci_gcd_master list \<Rightarrow> 'r \<Rightarrow> vci_gcd_master list \<times> 'r" where
  "masters_posedge rnd resetn (p # ps) (m # ms) r =
     (let (m', r') = gcd_master_transition rnd resetn p (m, r); (ms', r'') = masters_posedge rnd resetn ps ms r'
      in (m' # ms', r''))"
| "masters_posedge rnd resetn _ _ r = ([], r)"

definition coprocs_posedge ::
    "segment list \<Rightarrow> bool \<Rightarrow> vci_signals list \<Rightarrow> vci_gcd_coprocessor list \<Rightarrow> vci_gcd_coprocessor list option" where
  "coprocs_posedge segs resetn ps cs =
     those (map (\<lambda>i. gcd_coproc_transition (segs ! i) resetn (ps ! i) (cs ! i)) [0..<length cs])"

definition par_posedge :: "('r \<Rightarrow> u32 \<times> 'r) \<Rightarrow> par_config \<Rightarrow> bool \<Rightarrow> 'r tp2_parallel \<Rightarrow> 'r tp2_parallel option" where
  "par_posedge rnd cfg resetn s =
     (case coprocs_posedge (cfg_segs cfg) resetn (signal_vci_coproc s) (par_coprocs s) of None \<Rightarrow> None
      | Some cs \<Rightarrow>
          (case vgsb_transition (cfg_routing_table cfg) 3 3 resetn (signal_vci_master s) (signal_vci_coproc s) (par_bus s) of
             None \<Rightarrow> None
           | Some b \<Rightarrow>
               let (ms, r) = masters_posedge rnd resetn (signal_vci_master s) (par_masters s) (par_rng s)
               in Some (s\<lparr>par_masters := ms, par_coprocs := cs, par_bus := b, par_rng := r\<rparr>)))"

definition par_negedge :: "par_config \<Rightarrow> 'r tp2_parallel \<Rightarrow> 'r tp2_parallel" where
  "par_negedge cfg s =
     (let inis = map (\<lambda>i. gcd_master_genMoore (cfg_ids cfg ! i) (cfg_bases cfg ! i) (par_masters s ! i) (signal_vci_master s ! i)) [0..<3];
          tgts = map (\<lambda>i. gcd_coproc_genMoore (par_coprocs s ! i) (signal_vci_coproc s ! i)) [0..<3]
      in s\<lparr>signal_vci_master := genMealy_rspval (par_bus s) tgts (genMealy_cmdack (par_bus s) tgts inis),
           signal_vci_coproc := genMealy_rspack (par_bus s) inis (genMealy_cmdval (par_bus s) inis tgts)\<rparr>)"

definition par_cycle :: "('r \<Rightarrow> u32 \<times> 'r) \<Rightarrow> par_config \<Rightarrow> bool \<Rightarrow> 'r tp2_parallel \<Rightarrow> 'r tp2_parallel option" where
  "par_cycle rnd cfg resetn s = map_option (par_negedge cfg) (par_posedge rnd cfg resetn s)"

text \<open>What the constructors of master and coprocessor \<open>i\<close> read in the mapping table, and the whole configuration.\<close>

definition component_config :: "mapping_table \<Rightarrow> int \<Rightarrow> (segment \<times> vci_srcid) result" where
  "component_config maptab i = andthen (IntTab [i]) (\<lambda>index. andthen (getSegment maptab index) (\<lambda>seg.
     andthen (indexForId maptab index) (\<lambda>sid. Inr (seg, ucast sid))))"

definition tp2_parallel_config :: "par_config result" where
  "tp2_parallel_config =
     andthen tp2_parallel_maptab (\<lambda>maptab.
     andthen (component_config maptab 0) (\<lambda>(seg0, sid0). andthen (component_config maptab 1) (\<lambda>(seg1, sid1).
     andthen (component_config maptab 2) (\<lambda>(seg2, sid2). andthen (vgsb_routing_table maptab 3) (\<lambda>rt.
     Inr \<lparr>cfg_segs = [seg0, seg1, seg2], cfg_ids = [sid0, sid1, sid2],
          cfg_bases = [ucast GCD_BASE, ucast (GCD_BASE + 0x10000000), ucast (GCD_BASE + 0x20000000)],
          cfg_routing_table = rt\<rparr>)))))"

text \<open>\<open>sc_main\<close>: the mapping table, the components, one cycle of reset, then \<open>n\<close> cycles.\<close>

definition tp2_parallel_main :: "('r \<Rightarrow> u32 \<times> 'r) \<Rightarrow> nat \<Rightarrow> 'r tp2_parallel \<Rightarrow> 'r tp2_parallel option" where
  "tp2_parallel_main rnd n s =
     (case tp2_parallel_config of Inl _ \<Rightarrow> None
      | Inr cfg \<Rightarrow> (case par_cycle rnd cfg False s of None \<Rightarrow> None | Some s \<Rightarrow> sim_run (par_cycle rnd cfg True) n s))"

section \<open>What a transition reads\<close>

lemma master_transition_cong:
  assumes "is_cmd (r_fsm m) \<Longrightarrow> cmdack p = cmdack p'"
    and "expects (r_fsm m) \<noteq> VCI_GET_CMD \<Longrightarrow> rspval p = rspval p' \<and> rdata p = rdata p'"
  shows "gcd_master_transition rnd True p (m, r) = gcd_master_transition rnd True p' (m, r)"
  using assms by (cases "r_fsm m") (simp_all add: gcd_master_transition_def is_cmd_def)

lemma coproc_transition_cong:
  assumes "r_vci_fsm c = VCI_GET_CMD \<Longrightarrow> cmdval p = cmdval p'"
    and "r_vci_fsm c = VCI_GET_CMD \<Longrightarrow> cmdval p \<Longrightarrow> vcmd p = vcmd p' \<and> vaddress p = vaddress p' \<and> wdata p = wdata p' \<and>
      eop p = eop p' \<and> plen p = plen p' \<and> srcid p = srcid p' \<and> trdid p = trdid p' \<and> pktid p = pktid p'"
    and "r_vci_fsm c \<noteq> VCI_GET_CMD \<Longrightarrow> rspack p = rspack p'"
  shows "gcd_coproc_transition seg True p c = gcd_coproc_transition seg True p' c"
proof (cases "r_vci_fsm c = VCI_GET_CMD \<and> cmdval p")
  case True
  then show ?thesis
    using assms(1) [OF True [THEN conjunct1]] assms(2) [OF True [THEN conjunct1] True [THEN conjunct2]]
    by (simp add: gcd_coproc_transition_def vci_fsm_step_def legal_command_def cong: if_cong)
next
  case False
  then show ?thesis using assms(1,3) by (simp add: gcd_coproc_transition_def vci_fsm_step_def)
qed

lemma master_stalls:
  "is_cmd (r_fsm m) \<Longrightarrow> \<not> cmdack p \<Longrightarrow> gcd_master_transition rnd True p (m, r) = (m\<lparr>r_cycle := r_cycle m + 1\<rparr>, r)"
  by (cases "r_fsm m") (simp_all add: gcd_master_transition_def is_cmd_def)

lemma coproc_waits:
  "r_vci_fsm c = VCI_GET_CMD \<Longrightarrow> \<not> cmdval p \<Longrightarrow> gcd_coproc_transition seg True p c = Some (exe_fsm_step c)"
  by (simp add: gcd_coproc_transition_def vci_fsm_step_def)

lemma masters_posedge_nth:
  assumes "length ps = length ms"
  shows "length (fst (masters_posedge rnd resetn ps ms r)) = length ms"
    "i < length ms \<Longrightarrow> \<exists>ri. fst (masters_posedge rnd resetn ps ms r) ! i = fst (gcd_master_transition rnd resetn (ps ! i) (ms ! i, ri))"
  using assms
proof (induction ps ms arbitrary: r i rule: list_induct2)
  case (Cons p ps m ms)
  {
    case 1
    then show ?case using Cons(2) by (simp add: split_beta)
  next
    case 2
    then show ?case using Cons(3) by (cases i) (auto simp: split_beta)
  }
qed simp_all

section \<open>A master and its coprocessor\<close>

text \<open>What a master has displayed: numbered results, each the greatest common divisor of its operands.\<close>

definition results :: "display list \<Rightarrow> bool" where
  "results ds \<longleftrightarrow> (\<forall>j<length ds. d_iteration (ds ! j) = of_nat (j + 1) \<and>
     unat (d_pgcd (ds ! j)) = gcd (unat (d_opa (ds ! j))) (unat (d_opb (ds ! j))))"

lemma results_snoc:
  "results (ds @ [d]) \<longleftrightarrow> results ds \<and> d_iteration d = of_nat (length ds + 1) \<and>
     unat (d_pgcd d) = gcd (unat (d_opa d)) (unat (d_opb d))"
  by (auto simp: results_def nth_append less_Suc_eq)

definition shown_ok :: "display list \<Rightarrow> vci_gcd_master \<Rightarrow> bool" where
  "shown_ok out m \<longleftrightarrow> (\<exists>ds. r_cout m = out @ ds \<and> results ds \<and>
     r_iter m = (if r_fsm m = M_RANDOM then of_nat (length ds) else of_nat (length ds + 1)))"

abbreviation "goal_gcd m \<equiv> gcd (unat (r_opa m)) (unat (r_opb m))"
abbreviation "exe_idle c \<equiv> r_exe_fsm c = EXE_IDLE"

text \<open>The operands and the result, between the two components.\<close>

definition data_ok :: "vci_gcd_master \<Rightarrow> vci_gcd_coprocessor \<Rightarrow> bool" where
  "data_ok m c \<longleftrightarrow> (r_fsm m \<noteq> M_RANDOM \<longrightarrow> 0 < r_opa m \<and> 0 < r_opb m) \<and>
     (case r_fsm m of
        M_RANDOM \<Rightarrow> exe_idle c
      | CMD_OPA \<Rightarrow> exe_idle c
      | RSP_OPA \<Rightarrow> exe_idle c \<and> c_opa c = r_opa m
      | CMD_OPB \<Rightarrow> exe_idle c \<and> c_opa c = r_opa m
      | RSP_OPB \<Rightarrow> exe_idle c \<and> c_opa c = r_opa m \<and> c_opb c = r_opb m
      | CMD_START \<Rightarrow> exe_idle c \<and> c_opa c = r_opa m \<and> c_opb c = r_opb m
      | RSP_START \<Rightarrow> exe_idle c \<and> c_opa c = r_opa m \<and> c_opb c = r_opb m
      | CMD_STATUS \<Rightarrow> vci_engine.computing (goal_gcd m) c \<or> vci_engine.finished (goal_gcd m) c
      | RSP_STATUS \<Rightarrow> vci_engine.computing (goal_gcd m) c \<or> vci_engine.finished (goal_gcd m) c
      | CMD_RESULT \<Rightarrow> vci_engine.finished (goal_gcd m) c
      | RSP_RESULT \<Rightarrow> vci_engine.finished (goal_gcd m) c
      | M_DISPLAY \<Rightarrow> exe_idle c \<and> unat (r_res m) = goal_gcd m)"

lemma finished_iff: "vci_engine.finished g c \<longleftrightarrow> exe_idle c \<and> unat (c_opa c) = g \<and> unat (c_opb c) = g"
  by (simp add: vci_engine.finished_def exe_phase_None)

lemma computing_not_idle: "vci_engine.computing g c \<Longrightarrow> \<not> exe_idle c"
  using vci_engine.computing_not_finished exe_phase_None by metis

text \<open>The engine alone: a step without a write keeps it computing, or finishes it, or leaves it finished.\<close>

lemma engine_step:
  assumes "gcd_coproc_transition seg True p c = Some c'" and "no_write (seg, p) c" and "r_vci_fsm c \<noteq> VCI_RSP_START"
    and "vci_engine.computing g c \<or> vci_engine.finished g c"
  shows "vci_engine.computing g c' \<or> vci_engine.finished g c'"
  using assms(4)
proof
  assume "vci_engine.computing g c"
  from vci_engine.step_computing [OF this, of "(seg, p)" c'] assms(1,2) show ?thesis by auto
next
  assume fin: "vci_engine.finished g c"
  then have "exe_fsm_step c = c" using assms(3) by (simp add: finished_iff exe_idle_step)
  with fin transition_engine [OF assms(1,2)] show ?thesis by (simp add: finished_iff)
qed

text \<open>A step in which the master and the coprocessor see each other.\<close>

lemma data_linked:
  fixes q :: vci_signals
  assumes "gcd_segment seg base" and p: "p = gcd_coproc_genMoore c (gcd_master_genMoore sid base m q)"
    and vci: "r_vci_fsm c = expects (r_fsm m)" and "data_ok m c" and "rand_range rnd"
    and m': "gcd_master_transition rnd True p (m, r) = (m', r')"
  shows "\<exists>c'. gcd_coproc_transition seg True p c = Some c' \<and> r_vci_fsm c' = expects (r_fsm m') \<and> data_ok m' c'"
proof -
  obtain c' where c': "gcd_coproc_transition seg True p c = Some c'"
      "r_vci_fsm c' = expects (next_fsm (r_exe_fsm c = EXE_IDLE) (r_fsm m))"
      "r_exe_fsm c' = r_exe_fsm (exe_fsm_step c)"
      "c_opa c' = (if r_fsm m = CMD_OPA then r_opa m else c_opa (exe_fsm_step c))"
      "c_opb c' = (if r_fsm m = CMD_OPB then r_opb m else c_opb (exe_fsm_step c))"
      "r_fsm m \<in> {CMD_STATUS, RSP_STATUS} \<longrightarrow> no_write (seg, p) c"
    using coproc_accepts [OF assms(1) p vci, of "r_exe_fsm c = EXE_IDLE"] by blast
  note adv = master_advances [OF p vci m']
  note pos = rand_positive [OF assms(5), of r] rand_positive [OF assms(5), of "snd (rnd r)"]
  have start: "vci_engine.computing (gcd (unat (r_opa m)) (unat (r_opb m))) c'"
    if "r_fsm m = RSP_START" 
    using vci_engine.start_computing [of c'] that assms(4) vci c'(3-5)
    by (simp add: data_ok_def exe_idle_step exe_phase_def)
  have "data_ok m' c'"
  proof (cases "r_fsm m \<in> {CMD_STATUS, RSP_STATUS}")
    case True
    then have "r_vci_fsm c \<noteq> VCI_RSP_START" using vci by auto
    moreover have inv: "vci_engine.computing (goal_gcd m) c \<or> vci_engine.finished (goal_gcd m) c"
      using True assms(4) by (auto simp: data_ok_def)
    ultimately have eng: "vci_engine.computing (goal_gcd m) c' \<or> vci_engine.finished (goal_gcd m) c'"
      using engine_step [OF c'(1) c'(6) [rule_format, OF True]] by blast
    have fin: "vci_engine.finished (goal_gcd m) c'" if "exe_idle c"
    proof -
      have "vci_engine.finished (goal_gcd m) c" using inv computing_not_idle that by blast
      moreover have "exe_fsm_step c = c" using that \<open>r_vci_fsm c \<noteq> VCI_RSP_START\<close> by (simp add: exe_idle_step)
      ultimately show ?thesis using True c'(3-5) by (auto simp: finished_iff)
    qed
    from True show ?thesis
      using eng fin adv(1,3,4) assms(4) by (auto simp: data_ok_def split: if_splits)
  next
    case False
    have "exe_fsm_step c = c" if "r_fsm m \<noteq> RSP_START"
      using that False assms(4) vci
      by (cases "r_fsm m") (simp_all add: data_ok_def exe_idle_step finished_iff)
    with False start c'(3-5) adv(1,3,4,6) assms(4) pos show ?thesis
      by (cases "r_fsm m") (simp_all add: data_ok_def finished_iff)
  qed
  with c'(1,2) adv(1) show ?thesis by auto
qed

text \<open>A step in which the master has a command and waits for the bus.\<close>

lemma data_stalled:
  assumes "is_cmd (r_fsm m)" and "r_vci_fsm c = VCI_GET_CMD" and "data_ok m c"
  shows "data_ok (m\<lparr>r_cycle := x\<rparr>) (exe_fsm_step c)" "r_vci_fsm (exe_fsm_step c) = VCI_GET_CMD"
proof -
  show vci: "r_vci_fsm (exe_fsm_step c) = VCI_GET_CMD"
    using assms(2) by (simp add: exe_fsm_step_def split: exe_fsm_state.splits)
  have trans: "gcd_coproc_transition seg True (p\<lparr>cmdval := False\<rparr>) c = Some (exe_fsm_step c)" for seg and p :: vci_signals
    using assms(2) by (simp add: coproc_waits)
  have "no_write (seg, p\<lparr>cmdval := False\<rparr>) c" for seg and p :: vci_signals by (simp add: no_write_def)
  from engine_step [OF trans this] have eng: "vci_engine.computing g (exe_fsm_step c) \<or> vci_engine.finished g (exe_fsm_step c)"
    if "vci_engine.computing g c \<or> vci_engine.finished g c" for g
    using that assms(2) by auto
  have idle: "exe_fsm_step c = c" if "exe_idle c" using that assms(2) by (simp add: exe_idle_step)
  show "data_ok (m\<lparr>r_cycle := x\<rparr>) (exe_fsm_step c)"
    using assms(1,3) eng [of "goal_gcd m"] idle by (auto simp: data_ok_def is_cmd_def finished_iff)
qed

lemma shown_linked:
  fixes q :: vci_signals
  assumes p: "p = gcd_coproc_genMoore c (gcd_master_genMoore sid base m q)"
    and vci: "r_vci_fsm c = expects (r_fsm m)" and "data_ok m c" and shown: "shown_ok out m"
    and m': "gcd_master_transition rnd True p (m, r) = (m', r')"
  shows "shown_ok out m'"
proof -
  note adv = master_advances [OF p vci m']
  obtain ds where ds: "r_cout m = out @ ds" "results ds"
      "r_iter m = (if r_fsm m = M_RANDOM then of_nat (length ds) else of_nat (length ds + 1))"
    using shown by (auto simp: shown_ok_def)
  let ?d = "\<lparr>d_iteration = r_iter m, d_cycle = r_cycle m, d_opa = r_opa m, d_opb = r_opb m, d_pgcd = r_res m\<rparr>"
  show ?thesis
  proof (cases "r_fsm m = M_DISPLAY")
    case True
    then have "results (ds @ [?d])" using ds(2,3) assms(3) by (simp add: results_snoc data_ok_def)
    with True adv(1,5,7) ds(1,3) show ?thesis unfolding shown_ok_def by (intro exI [of _ "ds @ [?d]"]) simp
  next
    case False
    then have "r_cout m' = out @ ds" using adv(7) ds(1) by simp
    moreover have "r_iter m' = (if r_fsm m' = M_RANDOM then of_nat (length ds) else of_nat (length ds + 1))"
      using adv(1,5) ds(3) False by (cases "r_fsm m") simp_all
    ultimately show ?thesis using ds(2) by (auto simp: shown_ok_def)
  qed
qed

lemma shown_stalled: "is_cmd (r_fsm m) \<Longrightarrow> shown_ok out m \<Longrightarrow> shown_ok out (m\<lparr>r_cycle := x\<rparr>)"
  by (simp add: shown_ok_def)

section \<open>The signals\<close>

text \<open>The signals after a falling edge: \<open>I\<close> and \<open>T\<close> are what the Moore functions drive.\<close>

definition driven :: "par_config \<Rightarrow> 'r tp2_parallel \<Rightarrow> vci_signals list \<Rightarrow> vci_signals list \<Rightarrow> bool" where
  "driven cfg s I T \<longleftrightarrow> length I = 3 \<and> length T = 3 \<and>
     (\<forall>i<3. \<exists>q. I ! i = gcd_master_genMoore (cfg_ids cfg ! i) (cfg_bases cfg ! i) (par_masters s ! i) q) \<and>
     (\<forall>i<3. \<exists>q. T ! i = gcd_coproc_genMoore (par_coprocs s ! i) q) \<and>
     signal_vci_master s = genMealy_rspval (par_bus s) T (genMealy_cmdack (par_bus s) T I) \<and>
     signal_vci_coproc s = genMealy_rspack (par_bus s) I (genMealy_cmdval (par_bus s) I T)"

lemma driven_negedge: "\<exists>I T. driven cfg (par_negedge cfg s) I T"
proof -
  let ?I = "map (\<lambda>i. gcd_master_genMoore (cfg_ids cfg ! i) (cfg_bases cfg ! i) (par_masters s ! i) (signal_vci_master s ! i)) [0..<3]"
  let ?T = "map (\<lambda>i. gcd_coproc_genMoore (par_coprocs s ! i) (signal_vci_coproc s ! i)) [0..<3]"
  have "driven cfg (par_negedge cfg s) ?I ?T"
    unfolding driven_def by (auto simp: par_negedge_def Let_def simp del: upt_rec_numeral)
  then show ?thesis by blast
qed

text \<open>The ports of the components.\<close>

lemma bus_length:
  "length (genMealy_rspval b T I) = length I" "length (genMealy_cmdack b T I) = length I"
  "length (genMealy_rspack b I T) = length T" "length (genMealy_cmdval b I T) = length T"
  by (simp_all add: genMealy_rspval_def genMealy_cmdack_def genMealy_rspack_def genMealy_cmdval_def Let_def)

lemma master_port:
  fixes b :: vgsb and I T :: "vci_signals list" and i :: nat
  assumes "i < length I"
  defines "p \<equiv> genMealy_rspval b T (genMealy_cmdack b T I) ! i"
  shows "cmdval p = cmdval (I ! i)" "vaddress p = vaddress (I ! i)" "eop p = eop (I ! i)" "rspack p = rspack (I ! i)"
    "cmdack p \<longleftrightarrow> v_fsm b = FSM_CMD \<and> i = r_initiator_index b \<and> cmdack (T ! r_target_index b)"
    "rspval p \<longleftrightarrow> v_fsm b = FSM_RSP \<and> i = r_initiator_index b \<and> rspval (T ! r_target_index b)"
    "v_fsm b = FSM_RSP \<Longrightarrow> i = r_initiator_index b \<Longrightarrow> rdata p = rdata (T ! r_target_index b)"
  using assms(1) unfolding p_def by (auto simp: genMealy_rspval_def genMealy_cmdack_def Let_def)

lemma coproc_port:
  fixes b :: vgsb and I T :: "vci_signals list" and i :: nat
  assumes "i < length T"
  defines "p \<equiv> genMealy_rspack b I (genMealy_cmdval b I T) ! i"
  shows "cmdval p \<longleftrightarrow> v_fsm b = FSM_CMD \<and> i = r_target_index b \<and> cmdval (I ! r_initiator_index b)"
    "rspack p \<longleftrightarrow> v_fsm b = FSM_RSP \<and> i = r_target_index b \<and> rspack (I ! r_initiator_index b)"
    "cmdack p = cmdack (T ! i)" "rspval p = rspval (T ! i)" "reop p = reop (T ! i)"
    "v_fsm b = FSM_CMD \<Longrightarrow> i = r_target_index b \<Longrightarrow> vcmd p = vcmd (I ! r_initiator_index b) \<and>
       vaddress p = vaddress (I ! r_initiator_index b) \<and> wdata p = wdata (I ! r_initiator_index b) \<and>
       eop p = eop (I ! r_initiator_index b) \<and> plen p = plen (I ! r_initiator_index b) \<and>
       srcid p = srcid (I ! r_initiator_index b) \<and> trdid p = trdid (I ! r_initiator_index b) \<and>
       pktid p = pktid (I ! r_initiator_index b)"
  using assms(1) unfolding p_def by (auto simp: genMealy_rspack_def genMealy_cmdval_def Let_def)

section \<open>The bus between the components\<close>

text \<open>The state of the bus and that of component \<open>i\<close>: a response is under way exactly between the owner and its
  coprocessor, and the owner of a command phase has a command.\<close>

definition link_ok :: "vgsb \<Rightarrow> nat \<Rightarrow> vci_gcd_master \<Rightarrow> vci_gcd_coprocessor \<Rightarrow> bool" where
  "link_ok b i m c \<longleftrightarrow> r_vci_fsm c = expects (r_fsm m) \<and>
     (expects (r_fsm m) \<noteq> VCI_GET_CMD \<longleftrightarrow> v_fsm b = FSM_RSP \<and> r_initiator_index b = i) \<and>
     (v_fsm b = FSM_CMD \<and> r_initiator_index b = i \<longrightarrow> is_cmd (r_fsm m))"

definition bus_link :: "vgsb \<Rightarrow> bool" where
  "bus_link b \<longleftrightarrow> (v_fsm b \<noteq> FSM_IDLE \<longrightarrow> r_target_index b = r_initiator_index b)"

lemma is_cmd_expects: "is_cmd f \<Longrightarrow> expects f = VCI_GET_CMD"
  by (cases f) (simp_all add: is_cmd_def)

text \<open>What becomes of component \<open>i\<close> at a rising edge.\<close>

lemma component_step:
  assumes "gcd_segment (cfg_segs cfg ! i) (cfg_bases cfg ! i)" and "rand_range rnd" and "driven cfg s I T" and "i < 3"
    and "bus_link b" and "b = par_bus s" and "m = par_masters s ! i" and "c = par_coprocs s ! i"
    and link: "link_ok b i m c" and "data_ok m c" and "shown_ok out m"
    and m': "m' = fst (gcd_master_transition rnd True (signal_vci_master s ! i) (m, r))"
  shows "\<exists>c'. gcd_coproc_transition (cfg_segs cfg ! i) True (signal_vci_coproc s ! i) c = Some c' \<and>
    r_vci_fsm c' = expects (r_fsm m') \<and> data_ok m' c' \<and> shown_ok out m' \<and>
    (if is_cmd (r_fsm m) \<and> \<not> (v_fsm b = FSM_CMD \<and> r_initiator_index b = i) then r_fsm m' = r_fsm m
     else r_fsm m' = next_fsm (exe_idle c) (r_fsm m))"
proof -
  obtain q1 q2 where I: "I ! i = gcd_master_genMoore (cfg_ids cfg ! i) (cfg_bases cfg ! i) m q1"
      and T: "T ! i = gcd_coproc_genMoore c q2"
    using assms(3,4) unfolding driven_def assms(7,8) by blast
  have len: "i < length I" "i < length T" using assms(3,4) by (simp_all add: driven_def)
  have sigs: "signal_vci_master s = genMealy_rspval b T (genMealy_cmdack b T I)"
      "signal_vci_coproc s = genMealy_rspack b I (genMealy_cmdval b I T)"
    using assms(3,6) by (simp_all add: driven_def)
  note mp = master_port [OF len(1), of b T, folded sigs] and cp = coproc_port [OF len(2), of b I, folded sigs]
  let ?p = "gcd_coproc_genMoore c (I ! i)"
  have p: "?p = gcd_coproc_genMoore c (gcd_master_genMoore (cfg_ids cfg ! i) (cfg_bases cfg ! i) m q1)" by (simp add: I)
  have vci: "r_vci_fsm c = expects (r_fsm m)" using link by (simp add: link_ok_def)
  note md = master_drives [where sid = "cfg_ids cfg ! i" and base = "cfg_bases cfg ! i" and m = m and p = q1, folded I]
  note cd = coproc_drives [where c = c and p = "I ! i"] and cdT = coproc_drives [where c = c and p = q2, folded T]
  show ?thesis
  proof (cases "is_cmd (r_fsm m) \<and> \<not> (v_fsm b = FSM_CMD \<and> r_initiator_index b = i)")
    case True
    then have get: "r_vci_fsm c = VCI_GET_CMD" using vci is_cmd_expects by simp
    have "\<not> cmdack (signal_vci_master s ! i)" using mp(5) True by auto
    then have m'_eq: "m' = m\<lparr>r_cycle := r_cycle m + 1\<rparr>" using m' True by (simp add: master_stalls)
    have "\<not> cmdval (signal_vci_coproc s ! i)"
      using cp(1) True assms(5) by (auto simp: bus_link_def)
    then have "gcd_coproc_transition (cfg_segs cfg ! i) True (signal_vci_coproc s ! i) c = Some (exe_fsm_step c)"
      using get by (simp add: coproc_waits)
    moreover have "data_ok m' (exe_fsm_step c)" "r_vci_fsm (exe_fsm_step c) = VCI_GET_CMD" "shown_ok out m'"
      using data_stalled [OF _ get assms(10)] shown_stalled [OF _ assms(11)] True by (simp_all add: m'_eq)
    moreover have "r_fsm m' = r_fsm m" by (simp add: m'_eq)
    ultimately show ?thesis using True is_cmd_expects by (intro exI [of _ "exe_fsm_step c"]) simp
  next
    case False
    have bst: "expects (r_fsm m) \<noteq> VCI_GET_CMD \<Longrightarrow> v_fsm b = FSM_RSP \<and> r_initiator_index b = i"
        "is_cmd (r_fsm m) \<Longrightarrow> v_fsm b = FSM_CMD \<and> r_initiator_index b = i"
      using False link unfolding link_ok_def by blast+
    have own: "r_target_index b = i \<and> r_initiator_index b = i" if "expects (r_fsm m) \<noteq> VCI_GET_CMD \<or> is_cmd (r_fsm m)"
      using that bst assms(5) unfolding bus_link_def by (metis vgsb_fsm_state.distinct(1,3))
    have mt: "gcd_master_transition rnd True (signal_vci_master s ! i) (m, r) = gcd_master_transition rnd True ?p (m, r)"
    proof (rule master_transition_cong)
      assume "is_cmd (r_fsm m)"
      with own bst(2) mp(5) cd(1) cdT(1) show "cmdack (signal_vci_master s ! i) = cmdack ?p" by simp
    next
      assume "expects (r_fsm m) \<noteq> VCI_GET_CMD"
      with own bst(1) mp(6,7) cd(2,4) cdT(2,4)
      show "rspval (signal_vci_master s ! i) = rspval ?p \<and> rdata (signal_vci_master s ! i) = rdata ?p" by simp
    qed
    have ct: "gcd_coproc_transition (cfg_segs cfg ! i) True (signal_vci_coproc s ! i) c =
        gcd_coproc_transition (cfg_segs cfg ! i) True ?p c"
    proof (rule coproc_transition_cong)
      assume "r_vci_fsm c = VCI_GET_CMD"
      show cv: "cmdval (signal_vci_coproc s ! i) = cmdval ?p"
      proof (cases "is_cmd (r_fsm m)")
        case True
        then show ?thesis using own bst(2) cp(1) cd(5) md(1) by simp
      next
        case notc: False
        then have "\<not> (v_fsm b = FSM_CMD \<and> r_initiator_index b = i)" using link by (auto simp: link_ok_def)
        then show ?thesis using notc cp(1) cd(5) md(1) assms(5) by (auto simp: bus_link_def)
      qed
      assume "cmdval (signal_vci_coproc s ! i)"
      then have "is_cmd (r_fsm m)" using cv cd(5) md(1) by simp
      then show "vcmd (signal_vci_coproc s ! i) = vcmd ?p \<and> vaddress (signal_vci_coproc s ! i) = vaddress ?p \<and>
          wdata (signal_vci_coproc s ! i) = wdata ?p \<and> eop (signal_vci_coproc s ! i) = eop ?p \<and>
          plen (signal_vci_coproc s ! i) = plen ?p \<and> srcid (signal_vci_coproc s ! i) = srcid ?p \<and>
          trdid (signal_vci_coproc s ! i) = trdid ?p \<and> pktid (signal_vci_coproc s ! i) = pktid ?p"
        using own bst(2) cp(6) cd by simp
    next
      assume "r_vci_fsm c \<noteq> VCI_GET_CMD"
      with vci own bst(1) cp(2) cd(6) show "rspack (signal_vci_coproc s ! i) = rspack ?p" by simp
    qed
    obtain r' where tr: "gcd_master_transition rnd True ?p (m, r) = (m', r')"
      using m' mt by (metis prod.collapse)
    from data_linked [OF assms(1) p vci assms(10,2) tr] shown_linked [OF p vci assms(10,11) tr]
      master_advances(1) [OF p vci tr] ct show ?thesis unfolding if_not_P [OF False] by auto
  qed
qed

section \<open>The step of the bus\<close>

text \<open>A transaction takes one cycle of command and one of response.\<close>

lemma bus_step:
  assumes "0 < n" and "routes_below k rt" and "vgsb_ok n k b"
    and "v_fsm b = FSM_CMD \<Longrightarrow> eop (inis ! r_initiator_index b) \<and> cmdval (inis ! r_initiator_index b) \<and> cmdack (tgts ! r_target_index b)"
    and "v_fsm b = FSM_RSP \<Longrightarrow> reop (tgts ! r_target_index b) \<and> rspval (tgts ! r_target_index b) \<and> rspack (inis ! r_initiator_index b)"
  obtains b' where "vgsb_transition rt n k True inis tgts b = Some b'" "v_fsm b = FSM_CMD \<longrightarrow> b' = b\<lparr>v_fsm := FSM_RSP\<rparr>"
    "v_fsm b = FSM_RSP \<longrightarrow> v_fsm b' = FSM_IDLE"
    "v_fsm b = FSM_IDLE \<longrightarrow> v_fsm b' = FSM_IDLE \<or> v_fsm b' = FSM_CMD \<and> cmdval (inis ! r_initiator_index b') \<and>
       r_target_index b' = nat (adt_get rt (vaddress (inis ! r_initiator_index b')))"
proof -
  have alloc: "\<exists>b'. allocate rt inis i b = Some b' \<and> v_fsm b' = v_fsm b \<and> r_initiator_index b' = i \<and>
      r_target_index b' = nat (adt_get rt (vaddress (inis ! i))) \<and> cmdval (inis ! i)"
    if "arbitrate n inis (r_initiator_index b) = Some i" for i
    using allocate_ok [OF assms(2,3)] arbitrate_Some [OF assms(1) that] by metis
  have range: "r_initiator_index b < n" "r_target_index b < k" using assms(3) by (simp_all add: vgsb_ok_def)
  show ?thesis
  proof (cases "v_fsm b")
    case FSM_CMD
    with assms(4) range show ?thesis by (intro that [of "b\<lparr>v_fsm := FSM_RSP\<rparr>"]) (simp_all add: vgsb_transition_def)
  next
    case FSM_RSP
    then obtain b' where "vgsb_transition rt n k True inis tgts b = Some b'" "v_fsm b' = FSM_IDLE"
      using assms(5) alloc range by (cases "arbitrate n inis (r_initiator_index b)") (auto simp: vgsb_transition_def)
    with FSM_RSP show ?thesis by (intro that [of b']) simp_all
  next
    case FSM_IDLE
    show ?thesis
    proof (cases "arbitrate n inis (r_initiator_index b)")
      case None
      with FSM_IDLE show ?thesis by (intro that [of b]) (simp_all add: vgsb_transition_def)
    next
      case (Some i)
      from alloc [OF this] obtain b' where b': "allocate rt inis i b = Some b'" "r_initiator_index b' = i"
          "r_target_index b' = nat (adt_get rt (vaddress (inis ! i)))" "cmdval (inis ! i)" by blast
      with Some FSM_IDLE show ?thesis
        by (intro that [of "b'\<lparr>v_fsm := FSM_CMD\<rparr>"]) (simp_all add: vgsb_transition_def)
    qed
  qed
qed

section \<open>The invariant of the platform\<close>

definition par_config_ok :: "par_config \<Rightarrow> bool" where
  "par_config_ok cfg \<longleftrightarrow> routes_below 3 (cfg_routing_table cfg) \<and>
     (\<forall>i<3. gcd_segment (cfg_segs cfg ! i) (cfg_bases cfg ! i) \<and>
        (\<forall>r<4. adt_get (cfg_routing_table cfg) (cfg_bases cfg ! i + 4 * of_nat r) = int i))"

definition par_ok :: "par_config \<Rightarrow> display list list \<Rightarrow> 'r tp2_parallel \<Rightarrow> bool" where
  "par_ok cfg outs s \<longleftrightarrow> length (par_masters s) = 3 \<and> length (par_coprocs s) = 3 \<and> vgsb_ok 3 3 (par_bus s) \<and>
     bus_link (par_bus s) \<and> (\<exists>I T. driven cfg s I T) \<and>
     (\<forall>i<3. link_ok (par_bus s) i (par_masters s ! i) (par_coprocs s ! i) \<and>
        data_ok (par_masters s ! i) (par_coprocs s ! i) \<and> shown_ok (outs ! i) (par_masters s ! i))"

lemma those_all:
  assumes "\<forall>x \<in> set xs. \<exists>y. f x = Some y"
  shows "those (map f xs) = Some (map (\<lambda>x. the (f x)) xs)"
  using assms by (induction xs) auto

text \<open>A command addresses the coprocessor of its master.\<close>

lemma command_route:
  fixes q :: vci_signals
  assumes "par_config_ok cfg" and "i < 3" and "is_cmd (r_fsm m)"
  shows "nat (adt_get (cfg_routing_table cfg) (vaddress (gcd_master_genMoore sid (cfg_bases cfg ! i) m q))) = i"
proof -
  let ?a = "vaddress (gcd_master_genMoore sid (cfg_bases cfg ! i) m q)"
  have "?a = cfg_bases cfg ! i + 4 * of_nat 0 \<or> ?a = cfg_bases cfg ! i + 4 * of_nat 1 \<or>
      ?a = cfg_bases cfg ! i + 4 * of_nat 2 \<or> ?a = cfg_bases cfg ! i + 4 * of_nat 3"
    using assms(3) master_drives(8-12) [where sid = sid and base = "cfg_bases cfg ! i" and m = m and p = q]
    unfolding is_cmd_def by blast
  then obtain r where "r < 4" "?a = cfg_bases cfg ! i + 4 * of_nat r"
    by (metis less_numeral_extra(1) one_less_numeral_iff numeral_less_iff semiring_norm(75-81) zero_less_numeral)
  then show ?thesis using assms(1,2) by (simp add: par_config_ok_def)
qed

text \<open>The next state of the bus fits the next state of the components.\<close>

lemma next_link:
  assumes fsm: "if is_cmd f \<and> \<not> (v_fsm b = FSM_CMD \<and> r_initiator_index b = i) then f' = f else f' = next_fsm idle f"
  shows "expects f' \<noteq> VCI_GET_CMD \<longleftrightarrow> is_cmd f \<and> v_fsm b = FSM_CMD \<and> r_initiator_index b = i"
  using fsm next_is_cmd is_cmd_expects by (cases "is_cmd f \<and> \<not> (v_fsm b = FSM_CMD \<and> r_initiator_index b = i)") auto

lemma link_next:
  assumes "link_ok b i m c" and "r_vci_fsm c' = expects (r_fsm m')"
    and "if is_cmd (r_fsm m) \<and> \<not> (v_fsm b = FSM_CMD \<and> r_initiator_index b = i) then r_fsm m' = r_fsm m
      else r_fsm m' = next_fsm idle (r_fsm m)"
    and "v_fsm b = FSM_CMD \<Longrightarrow> b' = b\<lparr>v_fsm := FSM_RSP\<rparr>" and "v_fsm b = FSM_RSP \<Longrightarrow> v_fsm b' = FSM_IDLE"
    and "v_fsm b = FSM_IDLE \<Longrightarrow> v_fsm b' = FSM_IDLE \<or> v_fsm b' = FSM_CMD \<and> (r_initiator_index b' = i \<longrightarrow> is_cmd (r_fsm m))"
  shows "link_ok b' i m' c'"
proof -
  note nl = next_link [OF assms(3)]
  show ?thesis
  proof (cases "v_fsm b")
    case FSM_CMD
    then have "r_initiator_index b = i \<longrightarrow> is_cmd (r_fsm m)" using assms(1) by (simp add: link_ok_def)
    with FSM_CMD assms(2,4) nl show ?thesis by (auto simp: link_ok_def)
  next
    case FSM_RSP
    with assms(2,5) nl show ?thesis by (simp add: link_ok_def)
  next
    case FSM_IDLE
    with assms(2,3,6) nl show ?thesis by (auto simp: link_ok_def split: if_splits)
  qed
qed

text \<open>The next states \<open>ms\<close> and \<open>cs\<close> of the masters and coprocessors, in terms of the ones before.\<close>

definition components_next :: "par_config \<Rightarrow> display list list \<Rightarrow> 'r tp2_parallel \<Rightarrow> vci_gcd_master list \<Rightarrow> vci_gcd_coprocessor list \<Rightarrow> bool" where
  "components_next cfg outs s ms cs \<longleftrightarrow> length ms = 3 \<and> length cs = 3 \<and> (\<forall>i<3.
     r_vci_fsm (cs ! i) = expects (r_fsm (ms ! i)) \<and> data_ok (ms ! i) (cs ! i) \<and> shown_ok (outs ! i) (ms ! i) \<and>
     (if is_cmd (r_fsm (par_masters s ! i)) \<and> \<not> (v_fsm (par_bus s) = FSM_CMD \<and> r_initiator_index (par_bus s) = i)
      then r_fsm (ms ! i) = r_fsm (par_masters s ! i)
      else r_fsm (ms ! i) = next_fsm (exe_idle (par_coprocs s ! i)) (r_fsm (par_masters s ! i))))"

lemma par_ok_lengths:
  assumes "par_ok cfg outs s"
  shows "length (signal_vci_master s) = 3" "length (signal_vci_coproc s) = 3" "length (par_masters s) = 3" "length (par_coprocs s) = 3"
  using assms by (auto simp: par_ok_def driven_def bus_length)

lemma components_step:
  fixes rnd :: "'r \<Rightarrow> u32 \<times> 'r"
  assumes cfg: "par_config_ok cfg" and rnd: "rand_range rnd" and ok: "par_ok cfg outs s"
  obtains cs where "coprocs_posedge (cfg_segs cfg) True (signal_vci_coproc s) (par_coprocs s) = Some cs"
    "components_next cfg outs s (fst (masters_posedge rnd True (signal_vci_master s) (par_masters s) (par_rng s))) cs"
proof -
  define ms where "ms = fst (masters_posedge rnd True (signal_vci_master s) (par_masters s) (par_rng s))"
  define f where "f i = gcd_coproc_transition (cfg_segs cfg ! i) True (signal_vci_coproc s ! i) (par_coprocs s ! i)" for i
  define cs where "cs = map (\<lambda>i. the (f i)) [0..<3]"
  note len = par_ok_lengths [OF ok]
  note nth = masters_posedge_nth [where ps = "signal_vci_master s" and ms = "par_masters s" and rnd = rnd and resetn = True and r = "par_rng s", unfolded len, OF refl, folded ms_def]
  obtain I T where drv: "driven cfg s I T" using ok by (auto simp: par_ok_def)
  have step: "f i = Some (cs ! i) \<and> r_vci_fsm (cs ! i) = expects (r_fsm (ms ! i)) \<and> data_ok (ms ! i) (cs ! i) \<and> shown_ok (outs ! i) (ms ! i) \<and>
     (if is_cmd (r_fsm (par_masters s ! i)) \<and> \<not> (v_fsm (par_bus s) = FSM_CMD \<and> r_initiator_index (par_bus s) = i)
      then r_fsm (ms ! i) = r_fsm (par_masters s ! i)
      else r_fsm (ms ! i) = next_fsm (exe_idle (par_coprocs s ! i)) (r_fsm (par_masters s ! i)))" if i: "i < 3" for i
  proof -
    have comp: "link_ok (par_bus s) i (par_masters s ! i) (par_coprocs s ! i)" "data_ok (par_masters s ! i) (par_coprocs s ! i)"
        "shown_ok (outs ! i) (par_masters s ! i)" "bus_link (par_bus s)"
      using ok i by (simp_all add: par_ok_def)
    have seg: "gcd_segment (cfg_segs cfg ! i) (cfg_bases cfg ! i)" using cfg i by (simp add: par_config_ok_def)
    obtain ri where "ms ! i = fst (gcd_master_transition rnd True (signal_vci_master s ! i) (par_masters s ! i, ri))"
      using nth(2) [OF i] by blast
    from component_step [OF seg rnd drv i comp(4) refl refl refl comp(1-3) this, folded f_def]
    have "\<exists>c'. f i = Some c' \<and> r_vci_fsm c' = expects (r_fsm (ms ! i)) \<and> data_ok (ms ! i) c' \<and> shown_ok (outs ! i) (ms ! i) \<and>
     (if is_cmd (r_fsm (par_masters s ! i)) \<and> \<not> (v_fsm (par_bus s) = FSM_CMD \<and> r_initiator_index (par_bus s) = i)
      then r_fsm (ms ! i) = r_fsm (par_masters s ! i)
      else r_fsm (ms ! i) = next_fsm (exe_idle (par_coprocs s ! i)) (r_fsm (par_masters s ! i)))" .
    moreover have "cs ! i = the (f i)" using i by (simp add: cs_def del: upt_rec_numeral)
    ultimately show ?thesis by auto
  qed
  have "coprocs_posedge (cfg_segs cfg) True (signal_vci_coproc s) (par_coprocs s) = Some cs"
    unfolding coprocs_posedge_def len cs_def f_def [symmetric] by (rule those_all) (use step in \<open>auto simp del: upt_rec_numeral\<close>)
  moreover have "components_next cfg outs s ms cs"
    using step nth(1) by (simp add: components_next_def cs_def del: upt_rec_numeral)
  ultimately show ?thesis by (rule that [folded ms_def])
qed

text \<open>What the bus sees of the components.\<close>

lemma bus_sees:
  assumes "par_ok cfg outs s" and "i < 3" and "b = par_bus s"
  shows "eop (signal_vci_master s ! i)" "cmdval (signal_vci_master s ! i) \<longleftrightarrow> is_cmd (r_fsm (par_masters s ! i))"
    "rspack (signal_vci_master s ! i) \<longleftrightarrow> \<not> is_cmd (r_fsm (par_masters s ! i))"
    "\<exists>q. vaddress (signal_vci_master s ! i) = vaddress (gcd_master_genMoore (cfg_ids cfg ! i) (cfg_bases cfg ! i) (par_masters s ! i) q)"
    "cmdack (signal_vci_coproc s ! i) \<longleftrightarrow> r_vci_fsm (par_coprocs s ! i) = VCI_GET_CMD"
    "rspval (signal_vci_coproc s ! i) \<longleftrightarrow> r_vci_fsm (par_coprocs s ! i) \<noteq> VCI_GET_CMD" "reop (signal_vci_coproc s ! i)"
proof -
  obtain I T where drv: "driven cfg s I T" using assms(1) by (auto simp: par_ok_def)
  then obtain q1 q2 where I: "I ! i = gcd_master_genMoore (cfg_ids cfg ! i) (cfg_bases cfg ! i) (par_masters s ! i) q1"
      and T: "T ! i = gcd_coproc_genMoore (par_coprocs s ! i) q2"
    using assms(2) unfolding driven_def by blast
  have len: "i < length I" "i < length T" using drv assms(2) by (simp_all add: driven_def)
  have sigs: "signal_vci_master s = genMealy_rspval b T (genMealy_cmdack b T I)"
      "signal_vci_coproc s = genMealy_rspack b I (genMealy_cmdval b I T)"
    using drv assms(3) by (simp_all add: driven_def)
  note mp = master_port [OF len(1), of b T, folded sigs] and cp = coproc_port [OF len(2), of b I, folded sigs]
  note md = master_drives [where sid = "cfg_ids cfg ! i" and base = "cfg_bases cfg ! i" and m = "par_masters s ! i" and p = q1, folded I]
  note cd = coproc_drives [where c = "par_coprocs s ! i" and p = q2, folded T]
  show "eop (signal_vci_master s ! i)" "cmdval (signal_vci_master s ! i) \<longleftrightarrow> is_cmd (r_fsm (par_masters s ! i))"
    "rspack (signal_vci_master s ! i) \<longleftrightarrow> \<not> is_cmd (r_fsm (par_masters s ! i))"
    using mp(1,3,4) md(1-3) by simp_all
  show "\<exists>q. vaddress (signal_vci_master s ! i) = vaddress (gcd_master_genMoore (cfg_ids cfg ! i) (cfg_bases cfg ! i) (par_masters s ! i) q)"
    using mp(2) I by auto
  show "cmdack (signal_vci_coproc s ! i) \<longleftrightarrow> r_vci_fsm (par_coprocs s ! i) = VCI_GET_CMD"
    "rspval (signal_vci_coproc s ! i) \<longleftrightarrow> r_vci_fsm (par_coprocs s ! i) \<noteq> VCI_GET_CMD" "reop (signal_vci_coproc s ! i)"
    using cp(3-5) cd(1-3) by simp_all
qed

lemma bus_follows:
  assumes cfg: "par_config_ok cfg" and ok: "par_ok cfg outs s" and "b = par_bus s"
  obtains b' where
    "vgsb_transition (cfg_routing_table cfg) 3 3 True (signal_vci_master s) (signal_vci_coproc s) b = Some b'"
    "vgsb_ok 3 3 b'" "bus_link b'"
    "v_fsm b = FSM_CMD \<longrightarrow> b' = b\<lparr>v_fsm := FSM_RSP\<rparr>" "v_fsm b = FSM_RSP \<longrightarrow> v_fsm b' = FSM_IDLE"
    "v_fsm b = FSM_IDLE \<longrightarrow> v_fsm b' = FSM_IDLE \<or> v_fsm b' = FSM_CMD \<and> is_cmd (r_fsm (par_masters s ! r_initiator_index b'))"
proof -
  let ?o = "r_initiator_index b"
  have vok: "vgsb_ok 3 3 b" and bl: "bus_link b" using ok assms(3) by (simp_all add: par_ok_def)
  have rt: "routes_below 3 (cfg_routing_table cfg)" using cfg by (simp add: par_config_ok_def)
  have o: "?o < 3" using vok by (simp add: vgsb_ok_def)
  have link: "link_ok b ?o (par_masters s ! ?o) (par_coprocs s ! ?o)" using ok o assms(3) by (simp add: par_ok_def)
  note sees = bus_sees [OF ok o assms(3)]
  have cmd: "eop (signal_vci_master s ! ?o) \<and> cmdval (signal_vci_master s ! ?o) \<and> cmdack (signal_vci_coproc s ! r_target_index b)"
    if "v_fsm b = FSM_CMD"
    using that link bl sees is_cmd_expects by (simp add: link_ok_def bus_link_def)
  have rsp: "reop (signal_vci_coproc s ! r_target_index b) \<and> rspval (signal_vci_coproc s ! r_target_index b) \<and> rspack (signal_vci_master s ! ?o)"
    if "v_fsm b = FSM_RSP"
    using that link bl sees is_cmd_expects by (auto simp: link_ok_def bus_link_def)
  obtain b' where b': "vgsb_transition (cfg_routing_table cfg) 3 3 True (signal_vci_master s) (signal_vci_coproc s) b = Some b'"
      "v_fsm b = FSM_CMD \<longrightarrow> b' = b\<lparr>v_fsm := FSM_RSP\<rparr>" "v_fsm b = FSM_RSP \<longrightarrow> v_fsm b' = FSM_IDLE"
      "v_fsm b = FSM_IDLE \<longrightarrow> v_fsm b' = FSM_IDLE \<or> v_fsm b' = FSM_CMD \<and> cmdval (signal_vci_master s ! r_initiator_index b') \<and>
         r_target_index b' = nat (adt_get (cfg_routing_table cfg) (vaddress (signal_vci_master s ! r_initiator_index b')))"
    by (rule bus_step [OF zero_less_numeral rt vok cmd rsp])
  have vok': "vgsb_ok 3 3 b'"
    using vgsb_transition_ok [of 3 3 "cfg_routing_table cfg" b True "signal_vci_master s" "signal_vci_coproc s"] rt vok b'(1) by simp
  then have o': "r_initiator_index b' < 3" by (simp add: vgsb_ok_def)
  note sees' = bus_sees [OF ok o' assms(3)]
  have route: "nat (adt_get (cfg_routing_table cfg) (vaddress (signal_vci_master s ! r_initiator_index b'))) = r_initiator_index b'"
    if "cmdval (signal_vci_master s ! r_initiator_index b')"
    using command_route [OF cfg o'] sees'(2,4) that by metis
  have "bus_link b'"
    using b'(2-4) bl route by (cases "v_fsm b") (auto simp: bus_link_def)
  with b' vok' sees'(2) show ?thesis by (intro that [of b']) auto
qed

lemma par_step:
  fixes rnd :: "'r \<Rightarrow> u32 \<times> 'r"
  assumes cfg: "par_config_ok cfg" and rnd: "rand_range rnd" and ok: "par_ok cfg outs s"
  shows "\<exists>t. par_cycle rnd cfg True s = Some t \<and> par_ok cfg outs t"
proof -
  obtain ms r where ms: "masters_posedge rnd True (signal_vci_master s) (par_masters s) (par_rng s) = (ms, r)" by fastforce
  obtain cs where cs: "coprocs_posedge (cfg_segs cfg) True (signal_vci_coproc s) (par_coprocs s) = Some cs"
      "components_next cfg outs s ms cs"
    using components_step [OF assms] ms by auto
  obtain b' where b': "vgsb_transition (cfg_routing_table cfg) 3 3 True (signal_vci_master s) (signal_vci_coproc s) (par_bus s) = Some b'"
      "vgsb_ok 3 3 b'" "bus_link b'"
    and fsm: "v_fsm (par_bus s) = FSM_CMD \<longrightarrow> b' = (par_bus s)\<lparr>v_fsm := FSM_RSP\<rparr>" "v_fsm (par_bus s) = FSM_RSP \<longrightarrow> v_fsm b' = FSM_IDLE"
      "v_fsm (par_bus s) = FSM_IDLE \<longrightarrow> v_fsm b' = FSM_IDLE \<or>
         v_fsm b' = FSM_CMD \<and> is_cmd (r_fsm (par_masters s ! r_initiator_index b'))"
    by (rule bus_follows [OF cfg ok refl]) blast
  let ?t = "par_negedge cfg (s\<lparr>par_masters := ms, par_coprocs := cs, par_bus := b', par_rng := r\<rparr>)"
  have t: "par_masters ?t = ms" "par_coprocs ?t = cs" "par_bus ?t = b'" by (simp_all add: par_negedge_def Let_def)
  have "par_cycle rnd cfg True s = Some ?t" by (simp add: par_cycle_def par_posedge_def cs(1) b'(1) ms)
  moreover have "link_ok b' i (ms ! i) (cs ! i)" if "i < 3" for i
  proof (rule link_next [OF _ _ _ fsm(1,2) [rule_format]])
    show "link_ok (par_bus s) i (par_masters s ! i) (par_coprocs s ! i)" using ok that by (simp add: par_ok_def)
    show "v_fsm (par_bus s) = FSM_IDLE \<Longrightarrow> v_fsm b' = FSM_IDLE \<or>
        v_fsm b' = FSM_CMD \<and> (r_initiator_index b' = i \<longrightarrow> is_cmd (r_fsm (par_masters s ! i)))"
      using fsm(3) by auto
  qed (use cs(2) that in \<open>unfold components_next_def, blast+\<close>)
  then have "par_ok cfg outs ?t"
    using cs(2) b'(2,3) driven_negedge by (auto simp: par_ok_def t components_next_def)
  ultimately show ?thesis by blast
qed

section \<open>The configuration of the program\<close>

lemma component_config_eq:
  assumes "m_segment_list mt = gcd_segs" and "m_level_id_bits mt = tab [8]" and "i < 3"
  shows "component_config mt (int i) = Inr (gcd_segs ! i, of_nat i)"
proof -
  have i: "i = 0 \<or> i = 1 \<or> i = 2" using assms(3) by auto
  have eq: "int_tab_eq (tab [x]) (tab [y]) \<longleftrightarrow> x = y" if "x \<noteq> - 1" "y \<noteq> - 1" for x y
  proof -
    have "tab [x] = tab [y] \<longleftrightarrow> x = y" by (simp add: tab_def)
    then show ?thesis using int_tab_eq_iff [of "tab [x]" "tab [y]"] that by simp
  qed
  have "getSegment mt (tab [int i]) = Inr (gcd_segs ! i)"
    using i by (auto simp: getSegment_def getSegmentList_def assms(1) gcd_segs_def gcd_seg_at_def eq Let_def)
  moreover have "indexForId mt (tab [int i]) = Inr (of_nat i)"
    using i by (auto simp: indexForId_def assms(2) int_tab_mult_def int_tab_nth_def tab_def c_shl_def c_int_def)
  ultimately show ?thesis using i by (auto simp: component_config_def IntTab_small)
qed

lemma tp2_parallel_config_ok: "\<exists>cfg. tp2_parallel_config = Inr cfg \<and> par_config_ok cfg"
proof -
  obtain mt where mt: "tp2_parallel_maptab = Inr mt" "mt_ok 24 2 24 mt" "m_segment_list mt = gcd_segs"
      "m_level_addr_bits mt = tab [8]" "m_level_id_bits mt = tab [8]" "m_addr_width mt = 32"
    using tp2_parallel_maptab_eq by blast
  obtain rt where rt: "vgsb_routing_table mt 3 = Inr rt" "routes_below 3 rt"
      "\<forall>s \<in> set gcd_segs. \<forall>a \<in> seg_addresses s. adt_get rt a = indices (seg_index s) ! 0"
    using tp2_routing [OF mt(2-4,6)] unfolding seg_target_def by blast
  let ?cfg = "\<lparr>cfg_segs = gcd_segs, cfg_ids = [0, 1, 2], cfg_bases = [0, 0x10000000, 0x20000000], cfg_routing_table = rt\<rparr>"
  have base: "cfg_bases ?cfg ! i = of_nat i * 0x10000000" if "i < 3" for i
    using that by (auto simp: less_Suc_eq numeral_3_eq_3)
  have seg: "\<exists>name. gcd_segs ! i = gcd_seg_at name i" if "i < 3" for i
    using that by (auto simp: gcd_segs_def less_Suc_eq numeral_3_eq_3 numeral_2_eq_2)
  have "gcd_segment (gcd_segs ! i) (cfg_bases ?cfg ! i) \<and>
      (\<forall>r<4. adt_get rt (cfg_bases ?cfg ! i + 4 * of_nat r) = int i)" if i: "i < 3" for i
  proof -
    obtain name where name: "gcd_segs ! i = gcd_seg_at name i" using seg [OF i] by blast
    have gs: "gcd_segment (gcd_segs ! i) (cfg_bases ?cfg ! i)" unfolding name base [OF i] by (rule gcd_segment_at [OF i])
    have "adt_get rt (cfg_bases ?cfg ! i + 4 * of_nat r) = int i" if "r < 4" for r
    proof -
      have "cfg_bases ?cfg ! i + 4 * of_nat r \<in> seg_addresses (gcd_segs ! i)"
        using gcd_segment_address(1) [OF gs that] by (simp add: seg_addresses_contains)
      moreover have "gcd_segs ! i \<in> set gcd_segs" using i by (intro nth_mem) (simp add: gcd_segs_def)
      moreover have "indices (seg_index (gcd_segs ! i)) ! 0 = int i" unfolding name by (simp add: gcd_seg_at_def)
      ultimately show ?thesis using rt(3) by metis
    qed
    with gs show ?thesis by blast
  qed
  then have "par_config_ok ?cfg" using rt(2) by (simp add: par_config_ok_def)
  moreover have "tp2_parallel_config = Inr ?cfg"
    using component_config_eq [OF mt(3,5), of 0] component_config_eq [OF mt(3,5), of 1] component_config_eq [OF mt(3,5), of 2]
    by (simp add: tp2_parallel_config_def mt(1) rt(1) gcd_segs_def)
  ultimately show ?thesis by blast
qed

section \<open>The simulation\<close>

definition par_shape :: "'r tp2_parallel \<Rightarrow> bool" where
  "par_shape s \<longleftrightarrow> length (signal_vci_master s) = 3 \<and> length (signal_vci_coproc s) = 3 \<and> length (par_masters s) = 3 \<and>
     length (par_coprocs s) = 3"

lemma par_reset:
  fixes rnd :: "'r \<Rightarrow> u32 \<times> 'r"
  assumes "par_shape s"
  shows "\<exists>t. par_cycle rnd cfg False s = Some t \<and> par_ok cfg (map r_cout (par_masters s)) t \<and>
    (\<forall>i<3. r_cout (par_masters t ! i) = r_cout (par_masters s ! i))"
proof -
  have len: "length (signal_vci_master s) = length (par_masters s)" "length (par_masters s) = 3" "length (par_coprocs s) = 3"
    using assms by (simp_all add: par_shape_def)
  obtain ms r where ms: "masters_posedge rnd False (signal_vci_master s) (par_masters s) (par_rng s) = (ms, r)" by fastforce
  note nth = masters_posedge_nth [where ps = "signal_vci_master s" and ms = "par_masters s" and rnd = rnd and resetn = False
      and r = "par_rng s", OF len(1), unfolded ms fst_conv len(2)]
  let ?cs = "map (\<lambda>i. (par_coprocs s ! i)\<lparr>r_vci_fsm := VCI_GET_CMD, r_exe_fsm := EXE_IDLE\<rparr>) [0..<3]"
  let ?b = "(par_bus s)\<lparr>v_fsm := FSM_IDLE, r_initiator_index := 0, r_target_index := 0, r_vci_counter := replicate 3 (replicate 3 0)\<rparr>"
  have "coprocs_posedge (cfg_segs cfg) False (signal_vci_coproc s) (par_coprocs s) = Some ?cs"
    unfolding coprocs_posedge_def len(3) by (subst those_all) (simp_all add: gcd_coproc_transition_def del: upt_rec_numeral)
  moreover have "vgsb_transition (cfg_routing_table cfg) 3 3 False (signal_vci_master s) (signal_vci_coproc s) (par_bus s) = Some ?b"
    by (simp add: vgsb_transition_def)
  ultimately have run: "par_cycle rnd cfg False s =
      Some (par_negedge cfg (s\<lparr>par_masters := ms, par_coprocs := ?cs, par_bus := ?b, par_rng := r\<rparr>))"
    by (simp add: par_cycle_def par_posedge_def ms)
  let ?t = "par_negedge cfg (s\<lparr>par_masters := ms, par_coprocs := ?cs, par_bus := ?b, par_rng := r\<rparr>)"
  have t: "par_masters ?t = ms" "par_coprocs ?t = ?cs" "par_bus ?t = ?b" by (simp_all add: par_negedge_def Let_def)
  have m: "r_fsm (ms ! i) = M_RANDOM \<and> r_iter (ms ! i) = 0 \<and> r_cout (ms ! i) = r_cout (par_masters s ! i)" if "i < 3" for i
    using nth(2) [OF that] by (auto simp: gcd_master_transition_def)
  have "link_ok ?b i (ms ! i) (?cs ! i) \<and> data_ok (ms ! i) (?cs ! i) \<and> shown_ok (map r_cout (par_masters s) ! i) (ms ! i)"
    if i: "i < 3" for i
  proof -
    have c: "r_vci_fsm (?cs ! i) = VCI_GET_CMD" "exe_idle (?cs ! i)" using i by (simp_all del: upt_rec_numeral)
    have "shown_ok (map r_cout (par_masters s) ! i) (ms ! i)"
      unfolding shown_ok_def using m [OF i] i len(2) by (intro exI [of _ "[]"]) (simp add: results_def)
    with m [OF i] c show ?thesis by (simp add: link_ok_def data_ok_def del: upt_rec_numeral)
  qed
  then have "par_ok cfg (map r_cout (par_masters s)) ?t"
    using nth(1) driven_negedge by (simp add: par_ok_def t vgsb_ok_def bus_link_def del: upt_rec_numeral)
  with run m t(1) show ?thesis by auto
qed

lemma par_run:
  assumes "par_config_ok cfg" and "rand_range rnd" and "par_ok cfg outs s"
  shows "\<exists>t. sim_run (par_cycle rnd cfg True) n s = Some t \<and> par_ok cfg outs t"
  using assms(3)
proof (induction n arbitrary: s)
  case (Suc n)
  from par_step [OF assms(1,2) Suc.prems] obtain t where "par_cycle rnd cfg True s = Some t" "par_ok cfg outs t" by blast
  with Suc.IH [of t] show ?case by simp
qed simp

text \<open>C1. The platform with three masters, three coprocessors and the bus: for every number of cycles, the simulation
  is not stopped by an assertion, an \<open>exit\<close> or an exception, and each master has displayed results numbered from 1,
  each the greatest common divisor of the operands displayed with it. The bus never mixes the transactions of
  different masters, however it interleaves them.\<close>

theorem tp2_parallel_results:
  assumes "rand_range rnd" and "par_shape s"
  shows "\<exists>t. tp2_parallel_main rnd n s = Some t \<and>
    (\<forall>i<3. \<exists>ds. r_cout (par_masters t ! i) = r_cout (par_masters s ! i) @ ds \<and> results ds)"
proof -
  obtain cfg where cfg: "tp2_parallel_config = Inr cfg" "par_config_ok cfg" using tp2_parallel_config_ok by blast
  obtain u where u: "par_cycle rnd cfg False s = Some u" "par_ok cfg (map r_cout (par_masters s)) u"
    using par_reset [OF assms(2)] by blast
  obtain t where t: "sim_run (par_cycle rnd cfg True) n u = Some t" "par_ok cfg (map r_cout (par_masters s)) t"
    using par_run [OF cfg(2) assms(1) u(2)] by blast
  have "\<exists>ds. r_cout (par_masters t ! i) = r_cout (par_masters s ! i) @ ds \<and> results ds" if "i < 3" for i
    using t(2) that assms(2) by (auto simp: par_ok_def shown_ok_def par_shape_def)
  moreover have "tp2_parallel_main rnd n s = Some t" by (simp add: tp2_parallel_main_def cfg(1) u(1) t(1))
  ultimately show ?thesis by blast
qed

definition par_power_up :: "nat tp2_parallel" where
  "par_power_up = \<lparr>signal_vci_master = replicate 3 idle_vci, signal_vci_coproc = replicate 3 idle_vci,
     par_masters = replicate 3 master_power_up, par_coprocs = replicate 3 coproc_power_up,
     par_bus = \<lparr>v_fsm = FSM_IDLE, r_initiator_index = 0, r_target_index = 0, r_vci_counter = []\<rparr>, par_rng = 5\<rparr>"

theorem tp2_parallel_results_witness:
  "\<exists>t ds. tp2_parallel_main count_rand 100 par_power_up = Some t \<and> r_cout (par_masters t ! 2) = ds \<and> results ds"
proof -
  have "par_shape par_power_up" by (simp add: par_shape_def par_power_up_def)
  from tp2_parallel_results [OF count_rand_range this, of 100] obtain t where t: "tp2_parallel_main count_rand 100 par_power_up = Some t"
      "\<forall>i<3. \<exists>ds. r_cout (par_masters t ! i) = r_cout (par_masters par_power_up ! i) @ ds \<and> results ds" by blast
  from t(2) [rule_format, of 2] t(1) show ?thesis by (simp add: par_power_up_def master_power_up_def)
qed

end
