(* ===== verification/Tp2_Progress.thy ===== *)
theory Tp2_Progress
  imports Tp2_Parallel
begin

text \<open>
  The second platform of TP2 never gets stuck: as long as the simulation runs, results keep being displayed.
  The proof gives every state a measure that decreases at each cycle in which no master displays a
  result: first the states that the masters have before them, then the steps of the coprocessors that
  compute, then the polls and the state of the bus.
\<close>

section \<open>What is left to do\<close>

fun stage :: "gcd_master_state \<Rightarrow> nat" where
  "stage M_RANDOM = 11"
| "stage CMD_OPA = 10"
| "stage RSP_OPA = 9"
| "stage CMD_OPB = 8"
| "stage RSP_OPB = 7"
| "stage CMD_START = 6"
| "stage RSP_START = 5"
| "stage CMD_STATUS = 4"
| "stage RSP_STATUS = 4"
| "stage CMD_RESULT = 3"
| "stage RSP_RESULT = 2"
| "stage M_DISPLAY = 1"

definition engine_left :: "vci_gcd_coprocessor \<Rightarrow> nat" where
  "engine_left c = (if exe_idle c then 0 else Suc (vci_engine.remaining c))"

definition poll :: "gcd_master_state \<Rightarrow> nat" where
  "poll f = (if f = CMD_STATUS then 1 else 0)"

definition work_left :: "'r tp2_parallel \<Rightarrow> nat \<times> nat \<times> nat" where
  "work_left s = (\<Sum>i<3. stage (r_fsm (par_masters s ! i)), \<Sum>i<3. engine_left (par_coprocs s ! i),
     2 * (\<Sum>i<3. poll (r_fsm (par_masters s ! i))) + (if v_fsm (par_bus s) = FSM_IDLE then 1 else 0))"

definition work_order :: "((nat \<times> nat \<times> nat) \<times> (nat \<times> nat \<times> nat)) set" where
  "work_order = less_than <*lex*> less_than <*lex*> less_than"

lemma wf_work_order: "wf work_order"
  by (simp add: work_order_def wf_lex_prod)

definition total_displays :: "'r tp2_parallel \<Rightarrow> nat" where
  "total_displays s = (\<Sum>i<3. length (r_cout (par_masters s ! i)))"

section \<open>One master and its coprocessor\<close>

lemma stage_next: "f \<noteq> M_DISPLAY \<Longrightarrow> stage (next_fsm idle f) \<le> stage f"
  by (cases f) simp_all

lemma stage_stays:
  "f \<noteq> M_DISPLAY \<Longrightarrow> stage (next_fsm idle f) = stage f \<Longrightarrow> f = CMD_STATUS \<or> f = RSP_STATUS \<and> \<not> idle"
  by (cases f) (simp_all split: if_splits)

lemma engine_runs:
  assumes "data_ok m c" and "gcd_coproc_transition seg True p c = Some c'" and "r_vci_fsm c = expects (r_fsm m)"
    and "r_fsm m \<in> {CMD_STATUS, RSP_STATUS} \<Longrightarrow> no_write (seg, p) c"
    and "r_fsm m \<noteq> RSP_START"
  shows "engine_left c' \<le> engine_left c" "\<not> exe_idle c \<Longrightarrow> engine_left c' < engine_left c"
proof -
  have busy: "r_fsm m \<in> {CMD_STATUS, RSP_STATUS} \<and> vci_engine.computing (goal_gcd m) c" if "\<not> exe_idle c"
    using assms(1) that by (auto simp: data_ok_def finished_iff split: gcd_master_state.splits)
  show less: "engine_left c' < engine_left c" if "\<not> exe_idle c"
  proof -
    from vci_engine.step_computing [of "goal_gcd m" c "(seg, p)" c'] busy [OF that] assms(2,4)
    have "vci_engine.remaining c' < vci_engine.remaining c \<or> exe_idle c'" by (auto simp: finished_iff)
    with that show ?thesis by (auto simp: engine_left_def)
  qed
  show "engine_left c' \<le> engine_left c"
  proof (cases "exe_idle c")
    case True
    have "r_vci_fsm c \<noteq> VCI_RSP_START" using assms(3,5) by (cases "r_fsm m") simp_all
    with True have "exe_idle (exe_fsm_step c)" by (simp add: exe_idle_step)
    then have "exe_idle c'"
      using assms(2) by (auto simp: gcd_coproc_transition_def vci_fsm_step_def Let_def split: if_splits)
    then show ?thesis by (simp add: engine_left_def)
  qed (use less in simp)
qed

lemma master_cout:
  "r_cout (fst (gcd_master_transition rnd True p (m, r))) = (if r_fsm m = M_DISPLAY then r_cout m @
     [\<lparr>d_iteration = r_iter m, d_cycle = r_cycle m, d_opa = r_opa m, d_opb = r_opb m, d_pgcd = r_res m\<rparr>] else r_cout m)"
  by (cases "r_fsm m") (simp_all add: gcd_master_transition_def split_beta)

text \<open>While the master polls, its coprocessor gets no write.\<close>

lemma status_no_write:
  assumes "driven cfg s I T" and "i < 3" and "bus_link b" and "b = par_bus s"
    and "link_ok b i (par_masters s ! i) (par_coprocs s ! i)" and "r_fsm (par_masters s ! i) \<in> {CMD_STATUS, RSP_STATUS}"
  shows "no_write (seg, signal_vci_coproc s ! i) (par_coprocs s ! i)"
proof -
  obtain q where I: "I ! i = gcd_master_genMoore (cfg_ids cfg ! i) (cfg_bases cfg ! i) (par_masters s ! i) q"
    using assms(1,2) unfolding driven_def by blast
  have T: "i < length T" and sig: "signal_vci_coproc s = genMealy_rspack b I (genMealy_cmdval b I T)"
    using assms(1,2,4) by (simp_all add: driven_def)
  note cp = coproc_port [OF T, of b I, folded sig]
  note md = master_drives(11) [where sid = "cfg_ids cfg ! i" and base = "cfg_bases cfg ! i" and m = "par_masters s ! i" and p = q, folded I]
  have "vcmd (signal_vci_coproc s ! i) \<noteq> CMD_WRITE"
    if "r_vci_fsm (par_coprocs s ! i) = VCI_GET_CMD" "cmdval (signal_vci_coproc s ! i)"
  proof -
    have "v_fsm b = FSM_CMD" "i = r_target_index b" using cp(1) that(2) by simp_all
    then have "vcmd (signal_vci_coproc s ! i) = vcmd (I ! i)" using cp(6) assms(3) by (simp add: bus_link_def)
    moreover have "r_fsm (par_masters s ! i) = CMD_STATUS" using assms(5,6) that(1) by (auto simp: link_ok_def)
    ultimately show ?thesis using md by simp
  qed
  then show ?thesis by (auto simp: no_write_def)
qed

section \<open>One cycle\<close>

lemma those_nth:
  assumes "those (map f xs) = Some ys" and "i < length xs"
  shows "f (xs ! i) = Some (ys ! i)"
  using assms
proof (induction xs arbitrary: ys i)
  case (Cons x xs)
  then obtain z zs where "f x = Some z" "those (map f xs) = Some zs" "ys = z # zs"
    by (auto split: option.splits)
  with Cons show ?case by (cases i) auto
qed simp

text \<open>The registers after a cycle.\<close>

lemma par_cycle_parts:
  assumes "par_cycle rnd cfg True s = Some t" and "length (par_coprocs s) = 3"
  shows "par_masters t = fst (masters_posedge rnd True (signal_vci_master s) (par_masters s) (par_rng s))"
    "i < 3 \<Longrightarrow> gcd_coproc_transition (cfg_segs cfg ! i) True (signal_vci_coproc s ! i) (par_coprocs s ! i) = Some (par_coprocs t ! i)"
    "vgsb_transition (cfg_routing_table cfg) 3 3 True (signal_vci_master s) (signal_vci_coproc s) (par_bus s) = Some (par_bus t)"
proof -
  obtain cs b where run: "coprocs_posedge (cfg_segs cfg) True (signal_vci_coproc s) (par_coprocs s) = Some cs"
      "vgsb_transition (cfg_routing_table cfg) 3 3 True (signal_vci_master s) (signal_vci_coproc s) (par_bus s) = Some b"
      "par_masters t = fst (masters_posedge rnd True (signal_vci_master s) (par_masters s) (par_rng s))"
      "par_coprocs t = cs" "par_bus t = b"
    using assms(1) by (auto simp: par_cycle_def par_posedge_def par_negedge_def Let_def split_beta split: option.splits)
  then show "par_masters t = fst (masters_posedge rnd True (signal_vci_master s) (par_masters s) (par_rng s))"
    "vgsb_transition (cfg_routing_table cfg) 3 3 True (signal_vci_master s) (signal_vci_coproc s) (par_bus s) = Some (par_bus t)"
    by simp_all
  show "gcd_coproc_transition (cfg_segs cfg ! i) True (signal_vci_coproc s ! i) (par_coprocs s ! i) = Some (par_coprocs t ! i)" if "i < 3"
    using those_nth [OF run(1) [unfolded coprocs_posedge_def assms(2)], of i] that run(4) by (simp del: upt_rec_numeral)
qed

text \<open>What a cycle does to component \<open>i\<close>, in terms of the measure.\<close>

definition advances :: "'r tp2_parallel \<Rightarrow> 'r tp2_parallel \<Rightarrow> nat \<Rightarrow> bool" where
  "advances s t i \<longleftrightarrow>
     (let m = par_masters s ! i; m' = par_masters t ! i; c = par_coprocs s ! i; c' = par_coprocs t ! i; b = par_bus s in
      stage (r_fsm m') \<le> stage (r_fsm m) \<and>
      (stage (r_fsm m') = stage (r_fsm m) \<longrightarrow> engine_left c' \<le> engine_left c \<and> (\<not> exe_idle c \<longrightarrow> engine_left c' < engine_left c)) \<and>
      (stage (r_fsm m') = stage (r_fsm m) \<and> exe_idle c \<longrightarrow>
         (if v_fsm b = FSM_CMD \<and> r_initiator_index b = i then r_fsm m = CMD_STATUS \<and> r_fsm m' = RSP_STATUS
          else is_cmd (r_fsm m) \<and> r_fsm m' = r_fsm m)))"

lemma component_advances:
  assumes cfg: "par_config_ok cfg" and rnd: "rand_range rnd" and ok: "par_ok cfg outs s"
    and run: "par_cycle rnd cfg True s = Some t" and i: "i < 3" and nd: "r_fsm (par_masters s ! i) \<noteq> M_DISPLAY"
  shows "advances s t i"
proof -
  let ?m = "par_masters s ! i" and ?m' = "par_masters t ! i" and ?c = "par_coprocs s ! i" and ?c' = "par_coprocs t ! i"
  let ?f = "r_fsm ?m" and ?own = "v_fsm (par_bus s) = FSM_CMD \<and> r_initiator_index (par_bus s) = i"
  have comp: "link_ok (par_bus s) i ?m ?c" "data_ok ?m ?c" "bus_link (par_bus s)" using ok i by (simp_all add: par_ok_def)
  obtain I T where drv: "driven cfg s I T" using ok by (auto simp: par_ok_def)
  note parts = par_cycle_parts [OF run par_ok_lengths(4) [OF ok]]
  obtain cs where nxt: "components_next cfg outs s (par_masters t) cs"
    using components_step [OF cfg rnd ok] unfolding parts(1) by blast
  then have fsm: "if is_cmd ?f \<and> \<not> ?own then r_fsm ?m' = ?f else r_fsm ?m' = next_fsm (exe_idle ?c) ?f"
    using i by (simp add: components_next_def)
  have le: "stage (r_fsm ?m') \<le> stage ?f" using fsm stage_next [OF nd] by (auto split: if_splits)
  have stay: "is_cmd ?f \<and> \<not> ?own \<and> r_fsm ?m' = ?f \<or> (?f = CMD_STATUS \<and> ?own \<and> r_fsm ?m' = RSP_STATUS) \<or> ?f = RSP_STATUS \<and> \<not> exe_idle ?c"
    if "stage (r_fsm ?m') = stage ?f"
  proof (cases "is_cmd ?f \<and> \<not> ?own")
    case False
    then have nx: "r_fsm ?m' = next_fsm (exe_idle ?c) ?f" using fsm by (simp only: if_False)
    with stage_stays [OF nd] that have "?f = CMD_STATUS \<or> ?f = RSP_STATUS \<and> \<not> exe_idle ?c" by simp
    then show ?thesis using False nx by (auto simp: is_cmd_def)
  qed (use fsm in simp)
  have eng: "engine_left ?c' \<le> engine_left ?c \<and> (\<not> exe_idle ?c \<longrightarrow> engine_left ?c' < engine_left ?c)" if "stage (r_fsm ?m') = stage ?f"
  proof -
    have "?f \<noteq> RSP_START" using stay [OF that] by (auto simp: is_cmd_def)
    moreover have "r_vci_fsm ?c = expects ?f" using comp(1) by (simp add: link_ok_def)
    ultimately show ?thesis
      using engine_runs [OF comp(2) parts(2) [OF i]] status_no_write [OF drv i comp(3) refl comp(1)] by blast
  qed
  have "if ?own then ?f = CMD_STATUS \<and> r_fsm ?m' = RSP_STATUS else is_cmd ?f \<and> r_fsm ?m' = ?f"
    if "stage (r_fsm ?m') = stage ?f" "exe_idle ?c"
  proof -
    have "?own \<longrightarrow> is_cmd ?f" using comp(1) by (simp add: link_ok_def)
    then show ?thesis using stay [OF that(1)] that(2) by auto
  qed
  with le eng show ?thesis by (simp add: advances_def Let_def)
qed

lemma bus_requested:
  assumes "v_fsm b = FSM_IDLE" and "i < n" and "cmdval (inis ! i)" and "vgsb_transition rt n k True inis tgts b = Some b'"
  shows "v_fsm b' = FSM_CMD"
  using assms arbitrate_None [of n inis "r_initiator_index b" i]
  by (cases "arbitrate n inis (r_initiator_index b)") (auto simp: vgsb_transition_def)

text \<open>A cycle without a display decreases the measure.\<close>

lemma work_decreases:
  assumes cfg: "par_config_ok cfg" and rnd: "rand_range rnd" and ok: "par_ok cfg outs s"
    and run: "par_cycle rnd cfg True s = Some t" and nd: "\<forall>i<3. r_fsm (par_masters s ! i) \<noteq> M_DISPLAY"
  shows "(work_left t, work_left s) \<in> work_order"
proof -
  let ?b = "par_bus s" and ?b' = "par_bus t"
  let ?st = "\<lambda>s i. stage (r_fsm (par_masters s ! i))" and ?en = "\<lambda>s i. engine_left (par_coprocs s ! i)"
  let ?po = "\<lambda>s i. poll (r_fsm (par_masters s ! i))"
  have adv: "advances s t i" if "i < 3" for i using component_advances [OF cfg rnd ok run that] nd that by blast
  have st: "?st t i \<le> ?st s i" if "i \<in> {..<3}" for i using adv [of i] that by (simp add: advances_def Let_def)
  have "sum (?st t) {..<3} \<le> sum (?st s) {..<3}" by (rule sum_mono) (rule st)
  then consider (stage) "sum (?st t) {..<3} < sum (?st s) {..<3}"
    | (engine) "sum (?st t) {..<3} = sum (?st s) {..<3}" "sum (?en t) {..<3} < sum (?en s) {..<3}"
    | (poll) "sum (?st t) {..<3} = sum (?st s) {..<3}" "\<not> sum (?en t) {..<3} < sum (?en s) {..<3}"
    by linarith
  then show ?thesis
  proof cases
    case stage
    then show ?thesis by (simp add: work_order_def work_left_def)
  next
    case engine
    then show ?thesis by (simp add: work_order_def work_left_def)
  next
    case poll
    have same: "?st t i = ?st s i" if "i < 3" for i
      using sum_mono_inv [OF poll(1) st] that by simp
    have en: "?en t i \<le> ?en s i" if "i \<in> {..<3}" for i using adv [of i] same [of i] that by (simp add: advances_def Let_def)
    have "sum (?en t) {..<3} \<le> sum (?en s) {..<3}" by (rule sum_mono) (rule en)
    with poll(2) have eq: "sum (?en t) {..<3} = sum (?en s) {..<3}" by linarith
    have "?en t i = ?en s i" if "i < 3" for i using sum_mono_inv [OF eq en] that by simp
    then have idle: "exe_idle (par_coprocs s ! i)" if "i < 3" for i
      using adv [of i] same [of i] that by (auto simp: advances_def Let_def)
    have fsm: "if v_fsm ?b = FSM_CMD \<and> r_initiator_index ?b = i
        then r_fsm (par_masters s ! i) = CMD_STATUS \<and> r_fsm (par_masters t ! i) = RSP_STATUS
        else is_cmd (r_fsm (par_masters s ! i)) \<and> r_fsm (par_masters t ! i) = r_fsm (par_masters s ! i)" if "i < 3" for i
      using adv [OF that] same [OF that] idle [OF that] by (simp add: advances_def Let_def)
    have po: "?po t i \<le> ?po s i" if "i \<in> {..<3}" for i
      using fsm [of i] that by (auto simp: poll_def split: if_splits)
    let ?o = "r_initiator_index ?b"
    have o: "?o < 3" using ok by (simp add: par_ok_def vgsb_ok_def)
    note parts = par_cycle_parts [OF run par_ok_lengths(4) [OF ok]]
    obtain b' where b': "vgsb_transition (cfg_routing_table cfg) 3 3 True (signal_vci_master s) (signal_vci_coproc s) ?b = Some b'"
        "v_fsm ?b = FSM_CMD \<longrightarrow> b' = ?b\<lparr>v_fsm := FSM_RSP\<rparr>"
      by (rule bus_follows [OF cfg ok refl]) (rule that; assumption)
    then have cmd: "v_fsm ?b = FSM_CMD \<Longrightarrow> v_fsm ?b' = FSM_RSP" using parts(3) by auto
    have "2 * sum (?po t) {..<3} + (if v_fsm ?b' = FSM_IDLE then 1 else 0) < 2 * sum (?po s) {..<3} + (if v_fsm ?b = FSM_IDLE then 1 else 0)"
    proof (cases "v_fsm ?b")
      case FSM_IDLE
      then have "is_cmd (r_fsm (par_masters s ! 0))" using fsm [of 0] by simp
      then have "cmdval (signal_vci_master s ! 0)" using bus_sees(2) [OF ok _ refl, of 0] by simp
      then have "v_fsm ?b' = FSM_CMD" using bus_requested [OF FSM_IDLE _ _ parts(3), of 0] by simp
      moreover have "sum (?po t) {..<3} \<le> sum (?po s) {..<3}" by (rule sum_mono) (rule po)
      ultimately show ?thesis using FSM_IDLE by simp
    next
      case FSM_CMD
      then have "?po t ?o < ?po s ?o" using fsm [OF o] by (simp add: poll_def)
      then have "sum (?po t) {..<3} < sum (?po s) {..<3}" using po o by (intro sum_strict_mono_ex1) auto
      with FSM_CMD cmd show ?thesis by simp
    next
      case FSM_RSP
      then have "is_cmd (r_fsm (par_masters s ! ?o))" using fsm [OF o] by simp
      moreover have "link_ok ?b ?o (par_masters s ! ?o) (par_coprocs s ! ?o)" using ok o by (simp add: par_ok_def)
      ultimately show ?thesis using FSM_RSP is_cmd_expects by (auto simp: link_ok_def)
    qed
    with poll(1) eq show ?thesis by (simp add: work_order_def work_left_def)
  qed
qed

section \<open>Results keep coming\<close>

lemma displays_step:
  assumes "par_ok cfg outs s" and "par_cycle rnd cfg True s = Some t"
  shows "total_displays t = total_displays s + (\<Sum>i<3. if r_fsm (par_masters s ! i) = M_DISPLAY then 1 else 0)"
proof -
  note len = par_ok_lengths [OF assms(1)] and parts = par_cycle_parts [OF assms(2) par_ok_lengths(4) [OF assms(1)]]
  have "length (r_cout (par_masters t ! i)) = length (r_cout (par_masters s ! i)) + (if r_fsm (par_masters s ! i) = M_DISPLAY then 1 else 0)"
    if "i < 3" for i
    using masters_posedge_nth(2) [of "signal_vci_master s" "par_masters s" i rnd True "par_rng s"] that len
    by (auto simp: parts(1) master_cout)
  then show ?thesis by (simp add: total_displays_def sum.distrib)
qed

lemma next_display:
  assumes "par_config_ok cfg" and "rand_range rnd" and "par_ok cfg outs s"
  shows "\<exists>k t. sim_run (par_cycle rnd cfg True) k s = Some t \<and> par_ok cfg outs t \<and> total_displays s < total_displays t"
  using assms(3)
proof (induction "work_left s" arbitrary: s rule: wf_induct_rule [OF wf_work_order])
  case 1
  obtain t where t: "par_cycle rnd cfg True s = Some t" "par_ok cfg outs t"
    using par_step [OF assms(1,2) 1(2)] by blast
  note shown = displays_step [OF 1(2) t(1)]
  show ?case
  proof (cases "\<forall>i<3. r_fsm (par_masters s ! i) \<noteq> M_DISPLAY")
    case True
    from 1(1) [OF work_decreases [OF assms(1,2) 1(2) t(1) True] t(2)] obtain k u where
      "sim_run (par_cycle rnd cfg True) k t = Some u" "par_ok cfg outs u" "total_displays t < total_displays u" by blast
    moreover have "total_displays s \<le> total_displays t" using shown by simp
    ultimately show ?thesis using t(1) by (intro exI [of _ "Suc k"] exI [of _ u]) simp
  next
    case False
    then obtain i where "i < 3" "r_fsm (par_masters s ! i) = M_DISPLAY" by blast
    then have "0 < (\<Sum>i<3. if r_fsm (par_masters s ! i) = M_DISPLAY then 1 else 0 :: nat)"
      by (intro sum_pos2 [of _ i]) auto
    with shown t show ?thesis by (intro exI [of _ 1] exI [of _ t]) simp
  qed
qed

lemma many_displays:
  assumes "par_config_ok cfg" and "rand_range rnd" and "par_ok cfg outs s"
  shows "\<exists>k t. sim_run (par_cycle rnd cfg True) k s = Some t \<and> par_ok cfg outs t \<and> total_displays s + l \<le> total_displays t"
  using assms(3)
proof (induction l arbitrary: s)
  case 0
  then show ?case by (intro exI [of _ 0] exI [of _ s]) simp
next
  case (Suc l)
  obtain k t where t: "sim_run (par_cycle rnd cfg True) k s = Some t" "par_ok cfg outs t" "total_displays s < total_displays t"
    using next_display [OF assms(1,2) Suc.prems] by blast
  obtain j u where "sim_run (par_cycle rnd cfg True) j t = Some u" "par_ok cfg outs u" "total_displays t + l \<le> total_displays u"
    using Suc.IH [OF t(2)] by blast
  with t show ?case by (intro exI [of _ "k + j"] exI [of _ u]) (simp add: sim_run_add)
qed

text \<open>C2. The platform with three masters and the bus has no deadlock and no livelock: after enough cycles, the masters
  together have displayed as many results as one likes. (The arbitration of the bus does not guarantee this for
  each master.)\<close>

theorem tp2_parallel_progress:
  assumes "rand_range rnd" and "par_shape s"
  shows "\<exists>n t. tp2_parallel_main rnd n s = Some t \<and> total_displays s + l \<le> total_displays t"
proof -
  obtain cfg where cfg: "tp2_parallel_config = Inr cfg" "par_config_ok cfg" using tp2_parallel_config_ok by blast
  obtain u where u: "par_cycle rnd cfg False s = Some u" "par_ok cfg (map r_cout (par_masters s)) u"
      "\<forall>i<3. r_cout (par_masters u ! i) = r_cout (par_masters s ! i)"
    using par_reset [OF assms(2)] by blast
  obtain k t where t: "sim_run (par_cycle rnd cfg True) k u = Some t" "total_displays u + l \<le> total_displays t"
    using many_displays [OF cfg(2) assms(1) u(2)] by blast
  have "total_displays u = total_displays s" using u(3) by (simp add: total_displays_def)
  moreover have "tp2_parallel_main rnd k s = Some t" by (simp add: tp2_parallel_main_def cfg(1) u(1) t(1))
  ultimately show ?thesis using t(2) by auto
qed

theorem tp2_parallel_progress_witness:
  "\<exists>n t. tp2_parallel_main count_rand n par_power_up = Some t \<and> 7 \<le> total_displays t"
proof -
  have "par_shape par_power_up" by (simp add: par_shape_def par_power_up_def)
  from tp2_parallel_progress [OF count_rand_range this, of 7] show ?thesis by (auto intro: add_leD2)
qed

end
