(* ===== verification/Alloc.thy ===== *)
theory Alloc
  imports Tp2_Map Positional
begin

text \<open>
  The arrays of named objects of \<open>alloc_elems.h\<close>, and the constructor and destructor of the bus, which use them. The
  heap is explicit: a partial map from addresses to blocks, where a cell of a block is raw storage, a pointer or an object
  with the name given to its constructor. A dereference out of a block, the destruction of what is not an object and the
  release of what is not allocated are undefined; so is the release of a block with an object whose destructor has not
  run, since the destructors of the objects in these arrays (ports and signals) have effects the program depends on.
  \<open>malloc\<close> is a parameter that chooses the address of a block, 0 for the null pointer, and gives the number of elements
  for which the block has room: for \<open>malloc(sizeof(elem_t)*n)\<close> that is less than \<open>n\<close> if the product wraps around.
\<close>

section \<open>The heap\<close>

datatype cell = Raw | Pointer nat | Object string

type_synonym heap = "nat \<rightharpoonup> cell list"
type_synonym allocator = "heap \<Rightarrow> nat \<Rightarrow> nat \<times> nat"

definition malloc :: "allocator \<Rightarrow> nat \<Rightarrow> (heap, nat) prog" where
  "malloc new n h = (let (p, room) = new h n in Ret p (if p = 0 then h else h(p \<mapsto> replicate room Raw)))"

definition has_object :: "cell list \<Rightarrow> bool" where
  "has_object cs = list_ex (\<lambda>c. case c of Object _ \<Rightarrow> True | _ \<Rightarrow> False) cs"

definition free_block :: "nat \<Rightarrow> (heap, unit) prog" where
  "free_block p h = (if p = 0 then Ret () h else case h p of
     Some cs \<Rightarrow> if has_object cs then Ub h else Ret () (h(p := None))
   | None \<Rightarrow> Ub h)"

definition put :: "nat \<Rightarrow> nat \<Rightarrow> cell \<Rightarrow> (heap, unit) prog" where
  "put p i c h = (case h p of
     Some cs \<Rightarrow> if i < length cs then Ret () (h(p \<mapsto> cs[i := c])) else Ub h
   | None \<Rightarrow> Ub h)"

definition load :: "nat \<Rightarrow> nat \<Rightarrow> (heap, nat) prog" where
  "load p i h = (case h p of
     Some cs \<Rightarrow> if i < length cs then (case cs ! i of Pointer q \<Rightarrow> Ret q h | _ \<Rightarrow> Ub h) else Ub h
   | None \<Rightarrow> Ub h)"

definition destroy :: "nat \<Rightarrow> nat \<Rightarrow> (heap, unit) prog" where
  "destroy p i h = (case h p of
     Some cs \<Rightarrow> if i < length cs then (case cs ! i of Object s \<Rightarrow> Ret () (h(p \<mapsto> cs[i := Raw])) | _ \<Rightarrow> Ub h) else Ub h
   | None \<Rightarrow> Ub h)"

primrec for_each :: "nat list \<Rightarrow> (nat \<Rightarrow> ('s, unit) prog) \<Rightarrow> ('s, unit) prog" where
  "for_each [] body = ret ()"
| "for_each (i # is) body = bnd (body i) (\<lambda>_. for_each is body)"

section \<open>The functions\<close>

text \<open>\<open>"[" << i << "]"\<close>\<close>

definition bracket :: "nat \<Rightarrow> string" where
  "bracket i = ''['' @ to_digits 10 (\<lambda>d. char_of (48 + d)) i @ '']''"

definition alloc_elems1 :: "allocator \<Rightarrow> string \<Rightarrow> nat \<Rightarrow> (heap, nat) prog" where
  "alloc_elems1 new prefix n =
     bnd (malloc new n) (\<lambda>elem.
     bnd (for_each [0..<n] (\<lambda>i. put elem i (Object (prefix @ bracket i)))) (\<lambda>_.
     ret elem))"

definition alloc_elems2 :: "allocator \<Rightarrow> string \<Rightarrow> nat \<Rightarrow> nat \<Rightarrow> (heap, nat) prog" where
  "alloc_elems2 new prefix m n =
     bnd (malloc new m) (\<lambda>elem.
     bnd (for_each [0..<m] (\<lambda>i.
       bnd (malloc new n) (\<lambda>q. bnd (put elem i (Pointer q)) (\<lambda>_.
       for_each [0..<n] (\<lambda>j.
         bnd (load elem i) (\<lambda>q. put q j (Object (prefix @ bracket i @ bracket j)))))))) (\<lambda>_.
     ret elem))"

definition alloc_elems3 :: "allocator \<Rightarrow> string \<Rightarrow> nat \<Rightarrow> nat \<Rightarrow> nat \<Rightarrow> (heap, nat) prog" where
  "alloc_elems3 new prefix m n p =
     bnd (malloc new m) (\<lambda>elem.
     bnd (for_each [0..<m] (\<lambda>i.
       bnd (malloc new n) (\<lambda>q. bnd (put elem i (Pointer q)) (\<lambda>_.
       for_each [0..<n] (\<lambda>j.
         bnd (malloc new p) (\<lambda>r. bnd (load elem i) (\<lambda>q. bnd (put q j (Pointer r)) (\<lambda>_.
         for_each [0..<p] (\<lambda>k.
           bnd (load elem i) (\<lambda>q. bnd (load q j) (\<lambda>r. put r k (Object (prefix @ bracket i @ bracket j @ bracket k))))))))))))) (\<lambda>_.
     ret elem))"

definition alloc_elems4 :: "allocator \<Rightarrow> string \<Rightarrow> nat \<Rightarrow> nat \<Rightarrow> nat \<Rightarrow> nat \<Rightarrow> (heap, nat) prog" where
  "alloc_elems4 new prefix m n p q =
     bnd (malloc new m) (\<lambda>elem.
     bnd (for_each [0..<m] (\<lambda>i.
       bnd (malloc new n) (\<lambda>a. bnd (put elem i (Pointer a)) (\<lambda>_.
       for_each [0..<n] (\<lambda>j.
         bnd (malloc new p) (\<lambda>b. bnd (load elem i) (\<lambda>a. bnd (put a j (Pointer b)) (\<lambda>_.
         for_each [0..<p] (\<lambda>k.
           bnd (malloc new q) (\<lambda>c. bnd (load elem i) (\<lambda>a. bnd (load a j) (\<lambda>b. bnd (put b k (Pointer c)) (\<lambda>_.
           for_each [0..<q] (\<lambda>l.
             bnd (load elem i) (\<lambda>a. bnd (load a j) (\<lambda>b. bnd (load b k) (\<lambda>c.
               put c l (Object (prefix @ bracket i @ bracket j @ bracket k @ bracket l))))))))))))))))))) (\<lambda>_.
     ret elem))"

definition dealloc_elems1 :: "nat \<Rightarrow> nat \<Rightarrow> (heap, unit) prog" where
  "dealloc_elems1 elems n = bnd (for_each [0..<n] (\<lambda>i. destroy elems i)) (\<lambda>_. free_block elems)"

definition dealloc_elems2 :: "nat \<Rightarrow> nat \<Rightarrow> nat \<Rightarrow> (heap, unit) prog" where
  "dealloc_elems2 elems m n =
     bnd (for_each [0..<m] (\<lambda>i.
       bnd (for_each [0..<n] (\<lambda>j. bnd (load elems i) (\<lambda>q. destroy q j))) (\<lambda>_.
       bnd (load elems i) free_block))) (\<lambda>_.
     free_block elems)"

definition dealloc_elems3 :: "nat \<Rightarrow> nat \<Rightarrow> nat \<Rightarrow> nat \<Rightarrow> (heap, unit) prog" where
  "dealloc_elems3 elems m n p =
     bnd (for_each [0..<m] (\<lambda>i.
       bnd (for_each [0..<n] (\<lambda>j.
         bnd (for_each [0..<p] (\<lambda>k. bnd (load elems i) (\<lambda>q. bnd (load q j) (\<lambda>r. destroy r k)))) (\<lambda>_.
         bnd (load elems i) (\<lambda>q. bnd (load q j) free_block)))) (\<lambda>_.
       bnd (load elems i) free_block))) (\<lambda>_.
     free_block elems)"

section \<open>One function for every number of dimensions\<close>

text \<open>\<open>at\<close> evaluates the expression for the block whose cells are filled: \<open>elem\<close>, \<open>elem[i]\<close>, \<open>elem[i][j]\<close>, \dots\<close>

fun fill :: "allocator \<Rightarrow> (heap, nat) prog \<Rightarrow> string \<Rightarrow> nat list \<Rightarrow> (heap, unit) prog" where
  "fill new at prefix [] = ret ()"
| "fill new at prefix [n] = for_each [0..<n] (\<lambda>i. bnd at (\<lambda>e. put e i (Object (prefix @ bracket i))))"
| "fill new at prefix (n # d # ds) = for_each [0..<n] (\<lambda>i.
     bnd (malloc new d) (\<lambda>q. bnd at (\<lambda>e. bnd (put e i (Pointer q)) (\<lambda>_.
     fill new (bnd at (\<lambda>e. load e i)) (prefix @ bracket i) (d # ds)))))"

definition alloc_array :: "allocator \<Rightarrow> string \<Rightarrow> nat list \<Rightarrow> (heap, nat) prog" where
  "alloc_array new prefix ds = bnd (malloc new (hd ds)) (\<lambda>elem. bnd (fill new (ret elem) prefix ds) (\<lambda>_. ret elem))"

fun wipe :: "(heap, nat) prog \<Rightarrow> nat list \<Rightarrow> (heap, unit) prog" where
  "wipe at [] = ret ()"
| "wipe at [n] = for_each [0..<n] (\<lambda>i. bnd at (\<lambda>e. destroy e i))"
| "wipe at (n # d # ds) = for_each [0..<n] (\<lambda>i.
     bnd (wipe (bnd at (\<lambda>e. load e i)) (d # ds)) (\<lambda>_. bnd (bnd at (\<lambda>e. load e i)) free_block))"

definition dealloc_array :: "nat \<Rightarrow> nat list \<Rightarrow> (heap, unit) prog" where
  "dealloc_array elems ds = bnd (wipe (ret elems) ds) (\<lambda>_. free_block elems)"

lemma alloc_elems_array:
  "alloc_elems1 new prefix n = alloc_array new prefix [n]"
  "alloc_elems2 new prefix m n = alloc_array new prefix [m, n]"
  "alloc_elems3 new prefix m n p = alloc_array new prefix [m, n, p]"
  "alloc_elems4 new prefix m n p q = alloc_array new prefix [m, n, p, q]"
  by (simp_all add: alloc_elems1_def alloc_elems2_def alloc_elems3_def alloc_elems4_def alloc_array_def bnd_assoc_fun)

lemma dealloc_elems_array:
  "dealloc_elems1 elems n = dealloc_array elems [n]"
  "dealloc_elems2 elems m n = dealloc_array elems [m, n]"
  "dealloc_elems3 elems m n p = dealloc_array elems [m, n, p]"
  by (simp_all add: dealloc_elems1_def dealloc_elems2_def dealloc_elems3_def dealloc_array_def bnd_assoc_fun)

section \<open>The fragment of the heap that holds an array\<close>

fun rows :: "(nat \<Rightarrow> nat \<Rightarrow> heap \<Rightarrow> bool) \<Rightarrow> nat \<Rightarrow> nat list \<Rightarrow> heap \<Rightarrow> bool" where
  "rows row i [] G \<longleftrightarrow> G = Map.empty"
| "rows row i (q # qs) G \<longleftrightarrow> (\<exists>R G'. row i q R \<and> rows row (Suc i) qs G' \<and> dom R \<inter> dom G' = {} \<and> G = R ++ G')"

fun holds :: "string \<Rightarrow> nat list \<Rightarrow> nat \<Rightarrow> heap \<Rightarrow> bool" where
  "holds prefix [] p H \<longleftrightarrow> False"
| "holds prefix [n] p H \<longleftrightarrow> p \<noteq> 0 \<and> H = [p \<mapsto> map (\<lambda>i. Object (prefix @ bracket i)) [0..<n]]"
| "holds prefix (n # d # ds) p H \<longleftrightarrow> p \<noteq> 0 \<and> (\<exists>qs G. length qs = n \<and>
     rows (\<lambda>i q R. holds (prefix @ bracket i) (d # ds) q R) 0 qs G \<and> p \<notin> dom G \<and> H = G(p \<mapsto> map Pointer qs))"

text \<open>An allocator that always finds a new block, with room for what is asked for.\<close>

definition fresh_alloc :: "allocator \<Rightarrow> bool" where
  "fresh_alloc new \<longleftrightarrow> (\<forall>h n. finite (dom h) \<longrightarrow> fst (new h n) \<noteq> 0 \<and> fst (new h n) \<notin> dom h \<and> snd (new h n) = n)"

definition leads :: "(heap, nat) prog \<Rightarrow> nat \<Rightarrow> heap \<Rightarrow> bool" where
  "leads at p h \<longleftrightarrow> (\<forall>h'. h \<subseteq>\<^sub>m h' \<longrightarrow> at h' = Ret p h')"

section \<open>Loops over an array\<close>

lemma for_each_append: "for_each (xs @ ys) body = bnd (for_each xs body) (\<lambda>_. for_each ys body)"
  by (induction xs) (simp_all only: for_each.simps append_Nil append_Cons bnd_ret_fun bnd_assoc_fun)

lemma for_each_inv:
  assumes "\<And>i h. i < n \<Longrightarrow> I i h \<Longrightarrow> \<exists>h'. body i h = Ret () h' \<and> I (Suc i) h'" and "I 0 h"
  shows "\<exists>h'. for_each [0..<n] body h = Ret () h' \<and> I n h'"
  using assms
proof (induction n)
  case 0
  then show ?case by simp
next
  case (Suc n)
  then obtain h1 where h1: "for_each [0..<n] body h = Ret () h1" "I n h1" by auto
  then obtain h2 where "body n h1 = Ret () h2" "I (Suc n) h2" using Suc.prems(1) by blast
  with h1 show ?case by (simp add: for_each_append bnd_def)
qed

lemma update_next: "i < n \<Longrightarrow> length xs = i \<Longrightarrow> (xs @ replicate (n - i) c)[i := d] = (xs @ [d]) @ replicate (n - Suc i) c"
  by (cases "n - i") (auto simp: list_update_append)

lemma put_in: "h p = Some cs \<Longrightarrow> i < length cs \<Longrightarrow> put p i c h = Ret () (h(p \<mapsto> cs[i := c]))"
  by (simp add: put_def)

lemma load_in: "h p = Some cs \<Longrightarrow> i < length cs \<Longrightarrow> cs ! i = Pointer q \<Longrightarrow> load p i h = Ret q h"
  by (simp add: load_def)

lemma leads_ret: "leads (ret p) p h"
  by (simp add: leads_def)

lemma leads_upd: "leads at p h \<Longrightarrow> p \<notin> dom h \<Longrightarrow> at (h(p \<mapsto> cs)) = Ret p (h(p \<mapsto> cs))"
  unfolding leads_def by (metis domIff fun_upd_apply map_le_def)

lemma leads_row:
  assumes "leads at p h" and "h \<subseteq>\<^sub>m h'" and "h' p = Some cs" and "i < length cs" and "cs ! i = Pointer q"
  shows "leads (bnd at (\<lambda>e. load e i)) q h'"
  unfolding leads_def
proof (intro allI impI)
  fix h'' assume le: "h' \<subseteq>\<^sub>m h''"
  then have "at h'' = Ret p h''" using assms(1,2) map_le_trans unfolding leads_def by blast
  moreover have "h'' p = Some cs" using le assms(3) by (metis domI map_le_def)
  ultimately show "bnd at (\<lambda>e. load e i) h'' = Ret q h''" using assms(4,5) by (simp add: bnd_def load_in)
qed

lemma rows_snoc:
  assumes "rows row i qs G" and "row (i + length qs) q R" and "dom G \<inter> dom R = {}"
  shows "rows row i (qs @ [q]) (G ++ R)"
  using assms
proof (induction qs arbitrary: i G)
  case Nil
  then show ?case by (auto intro!: exI [of _ R])
next
  case (Cons a qs)
  then obtain R' G' where g: "row i a R'" "rows row (Suc i) qs G'" "dom R' \<inter> dom G' = {}" "G = R' ++ G'" by auto
  have "rows row (Suc i) (qs @ [q]) (G' ++ R)"
    by (rule Cons.IH [OF g(2)]) (use g(4) Cons.prems(2,3) in auto)
  moreover have "dom R' \<inter> dom (G' ++ R) = {}" using g(3,4) Cons.prems(3) by auto
  ultimately show ?case using g(1,4) by simp (intro exI [of _ R'] exI [of _ "G' ++ R"] conjI, auto)
qed

section \<open>Allocation\<close>

lemma fill_objects:
  assumes "leads at p h" and "p \<notin> dom h"
  shows "fill new at prefix [n] (h(p \<mapsto> replicate n Raw)) = Ret () (h(p \<mapsto> map (\<lambda>i. Object (prefix @ bracket i)) [0..<n]))"
proof -
  let ?ob = "\<lambda>i. Object (prefix @ bracket i)"
  let ?I = "\<lambda>i h'. h' = h(p \<mapsto> map ?ob [0..<i] @ replicate (n - i) Raw)"
  have "\<exists>h'. for_each [0..<n] (\<lambda>i. bnd at (\<lambda>e. put e i (?ob i))) (h(p \<mapsto> replicate n Raw)) = Ret () h' \<and> ?I n h'"
  proof (rule for_each_inv [where I = ?I])
    fix i h' assume i: "i < n" and I: "?I i h'"
    have "(map ?ob [0..<i] @ replicate (n - i) Raw)[i := ?ob i] = map ?ob [0..<Suc i] @ replicate (n - Suc i) Raw"
      using update_next [OF i, of "map ?ob [0..<i]"] by simp
    with i show "\<exists>h''. bnd at (\<lambda>e. put e i (?ob i)) h' = Ret () h'' \<and> ?I (Suc i) h''"
      unfolding I using leads_upd [OF assms] by (simp add: bnd_def put_in)
  qed simp
  then show ?thesis by simp
qed

lemma fill_rows:
  assumes new: "fresh_alloc new" and h: "finite (dom h)" "p \<notin> dom h" "leads at p h"
    and inner: "\<And>at' q h' pre. finite (dom h') \<Longrightarrow> q \<noteq> 0 \<Longrightarrow> q \<notin> dom h' \<Longrightarrow> leads at' q h' \<Longrightarrow>
      \<exists>R. fill new at' pre (d # ds) (h'(q \<mapsto> replicate d Raw)) = Ret () (h' ++ R) \<and> holds pre (d # ds) q R \<and>
        dom h' \<inter> dom R = {} \<and> finite (dom R)"
  shows "\<exists>qs G. fill new at prefix (n # d # ds) (h(p \<mapsto> replicate n Raw)) = Ret () ((h ++ G)(p \<mapsto> map Pointer qs)) \<and>
    length qs = n \<and> rows (\<lambda>i q R. holds (prefix @ bracket i) (d # ds) q R) 0 qs G \<and> p \<notin> dom G \<and>
    dom h \<inter> dom G = {} \<and> finite (dom G)"
proof -
  let ?row = "\<lambda>i q R. holds (prefix @ bracket i) (d # ds) q R"
  let ?I = "\<lambda>i h'. \<exists>qs G. h' = (h ++ G)(p \<mapsto> map Pointer qs @ replicate (n - i) Raw) \<and> length qs = i \<and>
    rows ?row 0 qs G \<and> p \<notin> dom G \<and> dom h \<inter> dom G = {} \<and> finite (dom G)"
  have "\<exists>h'. for_each [0..<n] (\<lambda>i. bnd (malloc new d) (\<lambda>q. bnd at (\<lambda>e. bnd (put e i (Pointer q)) (\<lambda>_.
     fill new (bnd at (\<lambda>e. load e i)) (prefix @ bracket i) (d # ds))))) (h(p \<mapsto> replicate n Raw)) = Ret () h' \<and> ?I n h'"
  proof (rule for_each_inv [where I = ?I])
    fix i h1 assume i: "i < n" and "?I i h1"
    then obtain qs G where I: "h1 = (h ++ G)(p \<mapsto> map Pointer qs @ replicate (n - i) Raw)" "length qs = i" "rows ?row 0 qs G"
        "p \<notin> dom G" "dom h \<inter> dom G = {}" "finite (dom G)" by blast
    let ?q = "fst (new h1 d)" and ?cs = "map Pointer (qs @ [fst (new h1 d)]) @ replicate (n - Suc i) Raw"
    let ?f = "(h ++ G)(p \<mapsto> ?cs)" and ?at = "bnd at (\<lambda>e. load e i)"
    have "finite (dom h1)" using h(1) I by simp
    then have q: "?q \<noteq> 0" "?q \<notin> dom h1" and room: "snd (new h1 d) = d" using new by (simp_all add: fresh_alloc_def)
    then have qp: "?q \<noteq> p" "?q \<notin> dom ?f" using I(1) by auto
    have le: "h \<subseteq>\<^sub>m (h ++ G)(p \<mapsto> xs)" for xs using I(5) h(2) by (auto simp: map_le_def map_add_def split: option.split)
    have at: "at ((h ++ G)(p \<mapsto> xs, ?q \<mapsto> ys)) = Ret p ((h ++ G)(p \<mapsto> xs, ?q \<mapsto> ys))" for xs ys
    proof -
      have "h \<subseteq>\<^sub>m (h ++ G)(p \<mapsto> xs, ?q \<mapsto> ys)" using le qp I(1) q(2) by (auto simp: map_le_def)
      then show ?thesis using h(3) by (simp add: leads_def)
    qed
    have cs: "(map Pointer qs @ replicate (n - i) Raw)[i := Pointer ?q] = ?cs"
      using update_next [OF i, of "map Pointer qs"] I(2) by simp
    have lead: "leads ?at ?q ?f"
      by (rule leads_row [OF h(3) le]) (use i I(2) in \<open>auto simp: nth_append\<close>)
    have "finite (dom ?f)" using h(1) I(6) by simp
    then obtain R where R: "fill new ?at (prefix @ bracket i) (d # ds) (?f(?q \<mapsto> replicate d Raw)) = Ret () (?f ++ R)"
        "holds (prefix @ bracket i) (d # ds) ?q R" "dom ?f \<inter> dom R = {}" "finite (dom R)"
      using inner [OF _ q(1) qp(2) lead] by blast
    have "bnd (malloc new d) (\<lambda>q. bnd at (\<lambda>e. bnd (put e i (Pointer q)) (\<lambda>_. fill new ?at (prefix @ bracket i) (d # ds)))) h1
        = Ret () (?f ++ R)"
      using q(1) qp(1) at i I(1,2) cs R(1) room by (simp add: malloc_def bnd_def put_in split_beta fun_upd_twist)
    moreover have "?f ++ R = (h ++ (G ++ R))(p \<mapsto> ?cs)" using R(3) by (auto simp: fun_eq_iff map_add_def split: option.split)
    moreover have "rows ?row 0 (qs @ [?q]) (G ++ R)" using R(2,3) I(2,3) by (intro rows_snoc) auto
    ultimately show "\<exists>h'. bnd (malloc new d) (\<lambda>q. bnd at (\<lambda>e. bnd (put e i (Pointer q)) (\<lambda>_.
        fill new ?at (prefix @ bracket i) (d # ds)))) h1 = Ret () h' \<and> ?I (Suc i) h'"
      using R(3,4) I(2,4-6) by (intro exI [of _ "?f ++ R"] conjI exI [of _ "qs @ [?q]"] exI [of _ "G ++ R"]) auto
  qed (auto intro!: exI [of _ "[]"] exI [of _ Map.empty])
  then show ?thesis by simp blast
qed

lemma fill_objects_ok:
  assumes "leads at p h" and "p \<notin> dom h" and "p \<noteq> 0"
  shows "\<exists>H. fill new at prefix [n] (h(p \<mapsto> replicate n Raw)) = Ret () (h ++ H) \<and> holds prefix [n] p H \<and>
    dom h \<inter> dom H = {} \<and> finite (dom H)"
proof -
  define H where "H = [p \<mapsto> map (\<lambda>i. Object (prefix @ bracket i)) [0..<n]]"
  have "h ++ H = h(p \<mapsto> map (\<lambda>i. Object (prefix @ bracket i)) [0..<n])" "dom H = {p}" by (simp_all add: H_def)
  with fill_objects [OF assms(1,2)] assms(2,3) show ?thesis
    by (intro exI [of _ H]) (simp add: H_def [symmetric] del: fill.simps)
qed

lemma fill_array:
  assumes "fresh_alloc new"
  shows "ds \<noteq> [] \<Longrightarrow> finite (dom h) \<Longrightarrow> p \<noteq> 0 \<Longrightarrow> p \<notin> dom h \<Longrightarrow> leads at p h \<Longrightarrow>
    \<exists>H. fill new at prefix ds (h(p \<mapsto> replicate (hd ds) Raw)) = Ret () (h ++ H) \<and> holds prefix ds p H \<and>
      dom h \<inter> dom H = {} \<and> finite (dom H)"
proof (induction ds arbitrary: at p h prefix rule: induct_list012)
  case 1
  then show ?case by simp
next
  case (2 n)
  show ?case unfolding list.sel by (rule fill_objects_ok [OF 2(5,4,3)])
next
  case (3 n d ds)
  have inner: "\<exists>R. fill new at' pre (d # ds) (h'(q \<mapsto> replicate d Raw)) = Ret () (h' ++ R) \<and> holds pre (d # ds) q R \<and>
      dom h' \<inter> dom R = {} \<and> finite (dom R)"
    if "finite (dom h')" "q \<noteq> 0" "q \<notin> dom h'" "leads at' q h'" for at' q h' pre
    using 3(2) [OF list.distinct(2) that, of pre] unfolding list.sel .
  obtain qs G where G: "fill new at prefix (n # d # ds) (h(p \<mapsto> replicate n Raw)) = Ret () ((h ++ G)(p \<mapsto> map Pointer qs))"
      "length qs = n" "rows (\<lambda>i q R. holds (prefix @ bracket i) (d # ds) q R) 0 qs G" "p \<notin> dom G"
      "dom h \<inter> dom G = {}" "finite (dom G)"
    using fill_rows [OF assms 3(4,6,7) inner, of prefix n] by blast
  let ?H = "G(p \<mapsto> map Pointer qs)"
  show ?case unfolding list.sel
  proof (intro exI [of _ ?H] conjI)
    show "fill new at prefix (n # d # ds) (h(p \<mapsto> replicate n Raw)) = Ret () (h ++ ?H)" using G(1) by (simp only: map_add_upd)
    show "holds prefix (n # d # ds) p ?H" unfolding holds.simps using G(2-4) 3(5) by blast
  qed (use G(5,6) 3(6) in \<open>simp_all only: dom_fun_upd option.distinct if_False Int_insert_right finite_insert\<close>)
qed

lemma alloc_array_ok:
  assumes "fresh_alloc new" and "ds \<noteq> []" and "finite (dom h)"
  shows "\<exists>p H. alloc_array new prefix ds h = Ret p (h ++ H) \<and> holds prefix ds p H \<and> dom h \<inter> dom H = {} \<and> finite (dom H)"
proof -
  let ?p = "fst (new h (hd ds))"
  have p: "?p \<noteq> 0" "?p \<notin> dom h" and room: "snd (new h (hd ds)) = hd ds" using assms(1,3) by (simp_all add: fresh_alloc_def)
  obtain H where "fill new (ret ?p) prefix ds (h(?p \<mapsto> replicate (hd ds) Raw)) = Ret () (h ++ H)" "holds prefix ds ?p H"
      "dom h \<inter> dom H = {}" "finite (dom H)"
    using fill_array [OF assms(1,2,3) p leads_ret] by blast
  with p(1) room show ?thesis by (intro exI [of _ ?p] exI [of _ H]) (simp add: alloc_array_def malloc_def bnd_def split_beta)
qed

section \<open>Deallocation\<close>

lemma no_object [simp]: "\<not> has_object (replicate n Raw)" "\<not> has_object (map Pointer qs)"
  by (auto simp: has_object_def list_ex_iff)

lemma free_block_in:
  assumes "p \<noteq> 0" and "p \<notin> dom h" and "\<not> has_object cs"
  shows "free_block p (h(p \<mapsto> cs)) = Ret () h"
  using assms by (simp add: free_block_def fun_upd_idem domIff)

lemma destroy_in: "h p = Some cs \<Longrightarrow> i < length cs \<Longrightarrow> cs ! i = Object s \<Longrightarrow> destroy p i h = Ret () (h(p \<mapsto> cs[i := Raw]))"
  by (simp add: destroy_def)

lemma holds_facts: "holds prefix ds p H \<Longrightarrow> p \<noteq> 0 \<and> p \<in> dom H"
  by (induction prefix ds p H rule: holds.induct) auto

lemma wipe_objects:
  assumes "leads at p h" and "p \<notin> dom h"
  shows "wipe at [n] (h(p \<mapsto> map (\<lambda>i. Object (f i)) [0..<n])) = Ret () (h(p \<mapsto> replicate n Raw))"
proof -
  let ?I = "\<lambda>i h'. h' = h(p \<mapsto> replicate i Raw @ map (\<lambda>i. Object (f i)) [i..<n])"
  have "\<exists>h'. for_each [0..<n] (\<lambda>i. bnd at (\<lambda>e. destroy e i)) (h(p \<mapsto> map (\<lambda>i. Object (f i)) [0..<n])) = Ret () h' \<and> ?I n h'"
  proof (rule for_each_inv [where I = ?I])
    fix i h' assume i: "i < n" and I: "?I i h'"
    have "(replicate i Raw @ map (\<lambda>i. Object (f i)) [i..<n])[i := Raw] = replicate (Suc i) Raw @ map (\<lambda>i. Object (f i)) [Suc i..<n]"
      using i by (simp add: list_update_append upt_conv_Cons replicate_append_same)
    with i show "\<exists>h''. bnd at (\<lambda>e. destroy e i) h' = Ret () h'' \<and> ?I (Suc i) h''"
      unfolding I using leads_upd [OF assms] by (simp add: bnd_def destroy_in nth_append)
  qed simp
  then show ?thesis by simp
qed

lemma wipe_rows:
  assumes h: "p \<notin> dom h" "leads at p h" and "rows row i qs G" and "dom h \<inter> dom G = {}" and "p \<notin> dom G"
    and "pre @ qs = all" and "length pre = i"
    and inner: "\<And>i at' q R h'. row i q R \<Longrightarrow> dom h' \<inter> dom R = {} \<Longrightarrow> leads at' q h' \<Longrightarrow>
      q \<noteq> 0 \<and> q \<in> dom R \<and> (\<exists>cs. wipe at' ds (h' ++ R) = Ret () (h'(q \<mapsto> cs)) \<and> \<not> has_object cs)"
  shows "for_each [i..<length all] (\<lambda>i. bnd (wipe (bnd at (\<lambda>e. load e i)) ds) (\<lambda>_. bnd (bnd at (\<lambda>e. load e i)) free_block))
    ((h ++ G)(p \<mapsto> map Pointer all)) = Ret () (h(p \<mapsto> map Pointer all))"
  using assms(3-7)
proof (induction qs arbitrary: i G pre)
  case Nil
  then show ?case by simp
next
  case (Cons q qs)
  obtain R G' where G: "row i q R" "rows row (Suc i) qs G'" "dom R \<inter> dom G' = {}" "G = R ++ G'" using Cons.prems(1) by auto
  let ?f = "(h ++ G')(p \<mapsto> map Pointer all)" and ?at = "bnd at (\<lambda>e. load e i)"
  have i: "i < length all" "all ! i = q" using Cons.prems(4,5) by auto
  have le: "h \<subseteq>\<^sub>m ?f" using h(1) Cons.prems(2) G(4) by (auto simp: map_le_def map_add_def split: option.split)
  have lead: "leads ?at q ?f" by (rule leads_row [OF h(2) le]) (use i in auto)
  have pR: "p \<notin> dom R" using Cons.prems(3) G(4) by auto
  have disj: "dom ?f \<inter> dom R = {}" using pR G(3,4) Cons.prems(2) by auto
  obtain cs where cs: "q \<noteq> 0" "q \<in> dom R" "wipe ?at ds (?f ++ R) = Ret () (?f(q \<mapsto> cs))" "\<not> has_object cs"
    using inner [OF G(1) disj lead] by blast
  have state: "(h ++ G)(p \<mapsto> map Pointer all) = ?f ++ R"
    using pR G(3,4) Cons.prems(2) by (auto simp: fun_eq_iff map_add_def split: option.split)
  have q: "q \<notin> dom ?f" using cs(2) disj by blast
  have at: "?at (?f(q \<mapsto> cs)) = Ret q (?f(q \<mapsto> cs))" by (rule leads_upd [OF lead q])
  have gone: "free_block q (?f(q \<mapsto> cs)) = Ret () ?f" by (rule free_block_in [OF cs(1) q cs(4)])
  have step: "bnd (wipe ?at ds) (\<lambda>_. bnd ?at free_block) ((h ++ G)(p \<mapsto> map Pointer all)) = Ret () ?f"
    unfolding state by (simp only: bnd_simps(1) [where m = "wipe _ _", OF cs(3)] bnd_simps(1) [where m = ?at, OF at] gone)
  have "for_each [Suc i..<length all] (\<lambda>i. bnd (wipe (bnd at (\<lambda>e. load e i)) ds) (\<lambda>_. bnd (bnd at (\<lambda>e. load e i)) free_block)) ?f
      = Ret () (h(p \<mapsto> map Pointer all))"
    by (rule Cons.IH [OF G(2), of "pre @ [q]"]) (use Cons.prems G(4) in auto)
  then show ?case unfolding upt_conv_Cons [OF i(1)] for_each.simps by (simp only: bnd_simps(1) [where m = "bnd _ _", OF step])
qed

lemma wipe_array:
  "holds prefix ds p H \<Longrightarrow> dom h \<inter> dom H = {} \<Longrightarrow> leads at p h \<Longrightarrow>
    \<exists>cs. wipe at ds (h ++ H) = Ret () (h(p \<mapsto> cs)) \<and> \<not> has_object cs"
proof (induction ds arbitrary: prefix p H at h rule: induct_list012)
  case 1
  then show ?case by simp
next
  case (2 n)
  have H: "H = [p \<mapsto> map (\<lambda>i. Object (prefix @ bracket i)) [0..<n]]" using 2(1) unfolding holds.simps by blast
  have "p \<notin> dom h" using 2(2) holds_facts [OF 2(1)] by blast
  from wipe_objects [OF 2(3) this, of n "\<lambda>i. prefix @ bracket i"] no_object(1) show ?case unfolding H map_add_upd map_add_empty by blast
next
  case (3 n d ds)
  obtain qs G where G: "length qs = n" "rows (\<lambda>i q R. holds (prefix @ bracket i) (d # ds) q R) 0 qs G" "p \<notin> dom G"
      "H = G(p \<mapsto> map Pointer qs)"
    using 3(3) unfolding holds.simps by blast
  have dom: "dom h \<inter> dom G = {}" "p \<notin> dom h" using 3(4) unfolding G(4) dom_fun_upd by auto
  have "wipe at (n # d # ds) ((h ++ G)(p \<mapsto> map Pointer qs)) = Ret () (h(p \<mapsto> map Pointer qs))"
    unfolding wipe.simps G(1) [symmetric]
  proof (rule wipe_rows [OF dom(2) 3(5) G(2) dom(1) G(3), where pre = "[]"])
    fix i at' q R h'
    assume row: "holds (prefix @ bracket i) (d # ds) q R" and "dom h' \<inter> dom R = {}" "leads at' q h'"
    then show "q \<noteq> 0 \<and> q \<in> dom R \<and> (\<exists>cs. wipe at' (d # ds) (h' ++ R) = Ret () (h'(q \<mapsto> cs)) \<and> \<not> has_object cs)"
      using 3(2) holds_facts [OF row] by blast
  qed simp_all
  then show ?case unfolding G(4) map_add_upd using no_object(2) by blast
qed

lemma dealloc_array_ok:
  assumes "holds prefix ds p H" and "dom h \<inter> dom H = {}"
  shows "dealloc_array p ds (h ++ H) = Ret () h"
proof -
  obtain cs where cs: "wipe (ret p) ds (h ++ H) = Ret () (h(p \<mapsto> cs))" "\<not> has_object cs"
    using wipe_array [OF assms leads_ret] by blast
  have "p \<noteq> 0" "p \<notin> dom h" using holds_facts [OF assms(1)] assms(2) by blast+
  then have "free_block p (h(p \<mapsto> cs)) = Ret () h" using cs(2) by (rule free_block_in)
  then show ?thesis unfolding dealloc_array_def by (simp only: bnd_simps(1) [where m = "wipe _ _", OF cs(1)])
qed

section \<open>The arrays of the bus\<close>

record vgsb_arrays =
  a_vci_counter :: nat
  a_to_target :: nat
  a_to_initiator :: nat

text \<open>The constructor of the bus: the members are initialised in the order of their declarations in the class, so the counters
  are allocated before the routing table is computed, which can throw; the test of the routing table comes last.\<close>

definition vgsb_new :: "allocator \<Rightarrow> mapping_table \<Rightarrow> nat \<Rightarrow> nat \<Rightarrow> (heap, failure + vgsb_arrays \<times> int decoding_table) prog" where
  "vgsb_new new maptab nb_master nb_slave =
     bnd (alloc_elems2 new ''r_vci_counter'' nb_master nb_slave) (\<lambda>counter.
     case andthen (IntTab []) (\<lambda>index. getRoutingTable maptab index 0) of
       Inl e \<Rightarrow> ret (Inl e)
     | Inr routing_table \<Rightarrow>
         bnd (alloc_elems1 new ''p_to_target'' nb_slave) (\<lambda>to_target.
         bnd (alloc_elems1 new ''p_to_initiator'' nb_master) (\<lambda>to_initiator.
         ret (andthen (isAllBelow (int nb_slave) routing_table) (\<lambda>below. check below Exit
           (Inr (\<lparr>a_vci_counter = counter, a_to_target = to_target, a_to_initiator = to_initiator\<rparr>, routing_table)))))))"

definition vgsb_delete :: "vgsb_arrays \<Rightarrow> nat \<Rightarrow> nat \<Rightarrow> (heap, unit) prog" where
  "vgsb_delete b nb_initiator nb_target =
     bnd (dealloc_elems1 (a_to_target b) nb_target) (\<lambda>_.
     bnd (dealloc_elems1 (a_to_initiator b) nb_initiator) (\<lambda>_.
     dealloc_elems2 (a_vci_counter b) nb_initiator nb_target))"

lemma array_roundtrip:
  assumes "fresh_alloc new" and "ds \<noteq> []" and "finite (dom h)"
  shows "\<exists>p H. alloc_array new prefix ds h = Ret p (h ++ H) \<and> holds prefix ds p H \<and> dealloc_array p ds (h ++ H) = Ret () h"
  using alloc_array_ok [OF assms] dealloc_array_ok by metis

section \<open>Properties\<close>

lemma for_each_fails:
  assumes "\<And>i h. i < c \<Longrightarrow> I h \<Longrightarrow> \<exists>h'. body i h = Ret () h' \<and> I h'" and "\<And>h. I h \<Longrightarrow> body c h = Ub h" and "c < n" and "I h"
  shows "\<exists>h'. for_each [0..<n] body h = Ub h'"
proof -
  obtain h1 where h1: "for_each [0..<c] body h = Ret () h1" "I h1"
    using for_each_inv [of c "\<lambda>_. I" body h] assms(1,4) by blast
  have "[0..<n] = [0..<c] @ c # [Suc c..<n]" using assms(3) upt_add_eq_append [of 0 c "n - c"] by (simp add: upt_conv_Cons)
  then show ?thesis using h1 assms(2) by (simp add: for_each_append bnd_def)
qed

lemma alloc_elems1_overflow:
  assumes "new h n = (a, room)" and "a = 0 \<and> 0 < n \<or> room < n" and "0 \<notin> dom h"
  shows "\<exists>h'. alloc_elems1 new prefix n h = Ub h'"
proof (cases "a = 0")
  case True
  then have n: "0 < n" using assms(2) by auto
  have "\<exists>h'. for_each [0..<n] (\<lambda>i. put 0 i (Object (prefix @ bracket i))) h = Ub h'"
    using assms(3) n by (intro for_each_fails [where c = 0 and I = "\<lambda>h'. h' = h"]) (auto simp: put_def split: option.splits)
  then show ?thesis using assms(1) True by (auto simp: alloc_elems1_def malloc_def bnd_def)
next
  case False
  let ?I = "\<lambda>h'. \<exists>cs. h' a = Some cs \<and> length cs = room"
  have "\<exists>h'. for_each [0..<n] (\<lambda>i. put a i (Object (prefix @ bracket i))) (h(a \<mapsto> replicate room Raw)) = Ub h'"
    using assms(2) False by (intro for_each_fails [where c = room and I = ?I]) (auto simp: put_def)
  then show ?thesis using assms(1) False by (auto simp: alloc_elems1_def malloc_def bnd_def)
qed

text \<open>C32. The arrays of named objects: with an allocator that always finds a new block with room for what is asked for, and for
  one, two and three dimensions of any size, \<open>alloc_elems\<close> builds in fresh blocks exactly the array whose element at given
  indices is an object with the prefix and these indices as its name, and \<open>dealloc_elems\<close> then runs the destructor of every
  object before it releases its block, releases every block once, and leaves the heap as it was before; for four dimensions
  \<open>alloc_elems\<close> builds the array. If \<open>malloc\<close> returns the null pointer, or a block with less room because the size in bytes
  has wrapped around, the one-dimensional \<open>alloc_elems\<close> does not notice it and writes outside the block.\<close>

theorem alloc_elems_roundtrip:
  assumes "finite (dom h)" and "0 \<notin> dom h"
  shows "(fresh_alloc new \<longrightarrow>
    (\<exists>e H. alloc_elems1 new prefix m h = Ret e (h ++ H) \<and> holds prefix [m] e H \<and> dealloc_elems1 e m (h ++ H) = Ret () h) \<and>
    (\<exists>e H. alloc_elems2 new prefix m n h = Ret e (h ++ H) \<and> holds prefix [m, n] e H \<and> dealloc_elems2 e m n (h ++ H) = Ret () h) \<and>
    (\<exists>e H. alloc_elems3 new prefix m n p h = Ret e (h ++ H) \<and> holds prefix [m, n, p] e H \<and> dealloc_elems3 e m n p (h ++ H) = Ret () h) \<and>
    (\<exists>e H. alloc_elems4 new prefix m n p q h = Ret e (h ++ H) \<and> holds prefix [m, n, p, q] e H \<and> dom h \<inter> dom H = {})) \<and>
   (fst (new h m) = 0 \<and> 0 < m \<or> snd (new h m) < m \<longrightarrow> (\<exists>h'. alloc_elems1 new prefix m h = Ub h'))"
proof -
  have array: "\<exists>e H. alloc_array new prefix (d # ds) h = Ret e (h ++ H) \<and> holds prefix (d # ds) e H \<and>
      dealloc_array e (d # ds) (h ++ H) = Ret () h" if "fresh_alloc new" for d ds
    by (rule array_roundtrip [OF that list.distinct(2) assms(1)])
  have "\<exists>e H. alloc_array new prefix [m, n, p, q] h = Ret e (h ++ H) \<and> holds prefix [m, n, p, q] e H \<and> dom h \<inter> dom H = {}"
    if "fresh_alloc new"
    using alloc_array_ok [OF that list.distinct(2) assms(1)] by blast
  then show ?thesis
    using alloc_elems1_overflow [of new h m "fst (new h m)" "snd (new h m)" prefix] assms(2)
    unfolding alloc_elems_array dealloc_elems_array by (intro conjI impI array) auto
qed

text \<open>An allocator that always finds a block: the address after the last one in use.\<close>

definition next_block :: allocator where
  "next_block h n = (Suc (Max (insert 0 (dom h))), n)"

lemma fresh_next_block: "fresh_alloc next_block"
  unfolding fresh_alloc_def
proof (intro allI impI conjI)
  fix h :: heap and n assume "finite (dom h)"
  then have "a < fst (next_block h n)" if "a \<in> dom h" for a using that by (simp add: next_block_def less_Suc_eq_le)
  then show "fst (next_block h n) \<notin> dom h" by blast
qed (simp_all add: next_block_def)

theorem alloc_elems_roundtrip_witness:
  "\<exists>e H. alloc_elems2 next_block ''r'' 2 3 Map.empty = Ret e H \<and> holds ''r'' [2, 3] e H \<and> dealloc_elems2 e 2 3 H = Ret () Map.empty"
  using alloc_elems_roundtrip [of Map.empty next_block "''r''" 2 3] fresh_next_block by simp

text \<open>C33. The bus leaves nothing behind: if its constructor accepts the mapping table, the destructor releases what the
  constructor allocated, without an error, and the heap is what it was before. If the routing table cannot be computed,
  the constructor throws and the counters stay allocated.\<close>

theorem vgsb_lifecycle:
  assumes "fresh_alloc new" and "finite (dom h)"
  shows "(vgsb_routing_table maptab nb_slave = Inr rt \<longrightarrow>
      (\<exists>b h'. vgsb_new new maptab nb_master nb_slave h = Ret (Inr (b, rt)) h' \<and> vgsb_delete b nb_master nb_slave h' = Ret () h)) \<and>
    (getRoutingTable maptab (tab []) 0 = Inl e \<longrightarrow>
      (\<exists>p H. vgsb_new new maptab nb_master nb_slave h = Ret (Inl e) (h ++ H) \<and> holds ''r_vci_counter'' [nb_master, nb_slave] p H \<and>
         dom h \<inter> dom H = {}))"
proof -
  obtain c C where c: "alloc_elems2 new ''r_vci_counter'' nb_master nb_slave h = Ret c (h ++ C)"
      "holds ''r_vci_counter'' [nb_master, nb_slave] c C" "dom h \<inter> dom C = {}" "finite (dom C)"
    using alloc_array_ok [OF assms(1) _ assms(2), of "[nb_master, nb_slave]" "''r_vci_counter''"] unfolding alloc_elems_array by blast
  let ?h1 = "h ++ C"
  have "finite (dom ?h1)" using assms(2) c(4) by simp
  then obtain t T where t: "alloc_elems1 new ''p_to_target'' nb_slave ?h1 = Ret t (?h1 ++ T)" "holds ''p_to_target'' [nb_slave] t T"
      "dom ?h1 \<inter> dom T = {}" "finite (dom T)"
    using alloc_array_ok [OF assms(1), of "[nb_slave]" ?h1 "''p_to_target''"] unfolding alloc_elems_array by blast
  let ?h2 = "?h1 ++ T"
  have "finite (dom ?h2)" using assms(2) c(4) t(4) by simp
  then obtain i I where i: "alloc_elems1 new ''p_to_initiator'' nb_master ?h2 = Ret i (?h2 ++ I)" "holds ''p_to_initiator'' [nb_master] i I"
      "dom ?h2 \<inter> dom I = {}" "finite (dom I)"
    using alloc_array_ok [OF assms(1), of "[nb_master]" ?h2 "''p_to_initiator''"] unfolding alloc_elems_array by blast
  let ?b = "\<lparr>a_vci_counter = c, a_to_target = t, a_to_initiator = i\<rparr>"
  have "dom T \<inter> dom I = {}" using i(3) by auto
  then have swap: "?h2 ++ I = (?h1 ++ I) ++ T" using map_add_comm [of T I] by (metis map_add_assoc)
  have "vgsb_delete ?b nb_master nb_slave (?h2 ++ I) = Ret () h"
  proof -
    have "dealloc_elems1 t nb_slave (?h2 ++ I) = Ret () (?h1 ++ I)"
      unfolding swap dealloc_elems_array by (rule dealloc_array_ok [OF t(2)]) (use t(3) i(3) in auto)
    moreover have "dealloc_elems1 i nb_master (?h1 ++ I) = Ret () ?h1"
      unfolding dealloc_elems_array by (rule dealloc_array_ok [OF i(2)]) (use i(3) in auto)
    moreover have "dealloc_elems2 c nb_master nb_slave ?h1 = Ret () h"
      unfolding dealloc_elems_array by (rule dealloc_array_ok [OF c(2,3)])
    ultimately show ?thesis by (simp add: vgsb_delete_def bnd_def)
  qed
  moreover have "vgsb_new new maptab nb_master nb_slave h = Ret (Inr (?b, rt)) (?h2 ++ I)" if "vgsb_routing_table maptab nb_slave = Inr rt"
    using that c(1) t(1) i(1)
    by (auto simp: vgsb_routing_table_def vgsb_new_def bnd_def IntTab_small andthen_def check_def split: sum.splits if_splits)
  moreover have "vgsb_new new maptab nb_master nb_slave h = Ret (Inl e) ?h1" if "getRoutingTable maptab (tab []) 0 = Inl e"
    using that c(1) by (simp add: vgsb_new_def bnd_def IntTab_small)
  ultimately show ?thesis using c(2,3) by blast
qed

theorem vgsb_lifecycle_witness:
  "\<exists>mt rt b h'. tp2_parallel_maptab = Inr mt \<and> vgsb_new next_block mt 3 3 Map.empty = Ret (Inr (b, rt)) h' \<and>
     vgsb_delete b 3 3 h' = Ret () Map.empty"
proof -
  obtain mt where mt: "tp2_parallel_maptab = Inr mt" "mt_ok 24 2 24 mt" "m_segment_list mt = gcd_segs" "m_level_addr_bits mt = tab [8]"
      "m_addr_width mt = 32"
    using tp2_parallel_maptab_eq by blast
  obtain rt where "vgsb_routing_table mt 3 = Inr rt" using tp2_routing [OF mt(2-5)] by blast
  moreover have "finite (dom (Map.empty :: heap))" by simp
  ultimately show ?thesis using vgsb_lifecycle [OF fresh_next_block, of Map.empty mt 3 rt 3] mt(1) by blast
qed

end
