(* ===== verification/Sc_Pq.thy ===== *)
theory Sc_Pq
  imports Prelude "HOL-Library.Multiset"
begin

text \<open>
  The priority queue of the SystemC kernel (\<open>sysc/utils/sc_pq.h\<close>, \<open>sc_pq.cpp\<close>): a binary heap in an array that starts at
  index 1. An element is a pointer, a natural number, and 0 is the null pointer; the comparison function is a parameter,
  and the locale \<open>comparison\<close> states what the queue needs of it. A queue is a multiset, and the top is a greatest element.
  The sizes are natural numbers: the allocation of an array of \<open>2 ^ 31\<close> pointers fails long before a size overflows.
\<close>

section \<open>The queue\<close>

record sc_ppq =
  m_heap :: "nat list"
  m_size_alloc :: nat
  m_heap_size :: nat

text \<open>A cell that \<open>new void*[n]\<close> leaves uninitialised is 0 here; it is written before it is read.\<close>

definition ppq_new :: "nat \<Rightarrow> sc_ppq" where
  "ppq_new sz = (let n = (if sz < 2 then 2 else sz) in \<lparr>m_heap = replicate (n + 1) 0, m_size_alloc = n, m_heap_size = 0\<rparr>)"

definition ppq_top :: "sc_ppq \<Rightarrow> nat" where
  "ppq_top q = m_heap q ! 1"

definition ppq_empty :: "sc_ppq \<Rightarrow> bool" where
  "ppq_empty q \<longleftrightarrow> m_heap_size q = 0"

function heapify :: "(nat \<Rightarrow> nat \<Rightarrow> int) \<Rightarrow> nat \<Rightarrow> nat \<Rightarrow> nat list \<Rightarrow> nat list" where
  "heapify cmp n i h =
     (let l = 2 * i in
      if l \<le> n then
        let largest = (if cmp (h ! l) (h ! i) > 0 then l else i);
            r = 2 * i + 1;
            largest = (if r \<le> n \<and> cmp (h ! r) (h ! largest) > 0 then r else largest)
        in if largest \<noteq> i then heapify cmp n largest (h[i := h ! largest, largest := h ! i]) else h
      else h)"
  by pat_completeness auto
termination by (relation "measure (\<lambda>(cmp, n, i, h). n - i)") (auto simp: Let_def split: if_splits)

declare heapify.simps [simp del]

text \<open>A failed \<open>sc_assert\<close> is \<open>None\<close>.\<close>

definition extract_top :: "(nat \<Rightarrow> nat \<Rightarrow> int) \<Rightarrow> sc_ppq \<Rightarrow> (nat \<times> sc_ppq) option" where
  "extract_top cmp q =
     (if \<not> m_heap_size q > 0 then None
      else let topelem = m_heap q ! 1;
               h = (m_heap q)[1 := m_heap q ! m_heap_size q];
               n = m_heap_size q - 1
           in Some (topelem, q\<lparr>m_heap := heapify cmp n 1 h, m_heap_size := n\<rparr>))"

function sift_up :: "(nat \<Rightarrow> nat \<Rightarrow> int) \<Rightarrow> nat \<Rightarrow> nat \<Rightarrow> nat list \<Rightarrow> nat list" where
  "sift_up cmp elem i h =
     (if i > 1 \<and> cmp (h ! (i div 2)) elem < 0 then sift_up cmp elem (i div 2) (h[i := h ! (i div 2)])
      else h[i := elem])"
  by pat_completeness auto
termination by (relation "measure (\<lambda>(cmp, elem, i, h). i)") auto

declare sift_up.simps [simp del]

definition ppq_insert :: "(nat \<Rightarrow> nat \<Rightarrow> int) \<Rightarrow> nat \<Rightarrow> sc_ppq \<Rightarrow> sc_ppq" where
  "ppq_insert cmp elem q =
     (let size = m_heap_size q + 1;
          grow = size > m_size_alloc q;
          alloc = (if grow then m_size_alloc q + m_size_alloc q div 2 else m_size_alloc q);
          h = (if grow then map (\<lambda>j. if 1 \<le> j \<and> j < size then m_heap q ! j else 0) [0..<alloc + 1] else m_heap q)
      in \<lparr>m_heap = sift_up cmp elem size h, m_size_alloc = alloc, m_heap_size = size\<rparr>)"

section \<open>The abstraction and the invariant\<close>

definition cells :: "nat \<Rightarrow> nat list \<Rightarrow> nat list" where
  "cells n h = take n (tl h)"

definition ppq_elems :: "sc_ppq \<Rightarrow> nat list" where
  "ppq_elems q = cells (m_heap_size q) (m_heap q)"

definition is_heap :: "(nat \<Rightarrow> nat \<Rightarrow> int) \<Rightarrow> nat \<Rightarrow> nat list \<Rightarrow> bool" where
  "is_heap cmp n h \<longleftrightarrow> (\<forall>j \<in> {2..n}. cmp (h ! (j div 2)) (h ! j) \<ge> 0)"

definition ppq_ok :: "(nat \<Rightarrow> nat \<Rightarrow> int) \<Rightarrow> sc_ppq \<Rightarrow> bool" where
  "ppq_ok cmp q \<longleftrightarrow> 2 \<le> m_size_alloc q \<and> length (m_heap q) = m_size_alloc q + 1 \<and> m_heap_size q \<le> m_size_alloc q \<and>
     is_heap cmp (m_heap_size q) (m_heap q)"

lemma length_cells [simp]: "n < length h \<Longrightarrow> length (cells n h) = n"
  by (simp add: cells_def)

lemma nth_cells: "n < length h \<Longrightarrow> j < n \<Longrightarrow> cells n h ! j = h ! Suc j"
  by (cases h) (simp_all add: cells_def)

lemma nth_cells_pred: "n < length h \<Longrightarrow> 1 \<le> j \<Longrightarrow> j \<le> n \<Longrightarrow> cells n h ! (j - 1) = h ! j"
  by (simp add: nth_cells)

lemma set_cells: "n < length h \<Longrightarrow> set (cells n h) = (\<lambda>j. h ! j) ` {1..n}"
proof (intro equalityI subsetI)
  fix x assume h: "n < length h"
  { assume "x \<in> set (cells n h)"
    then obtain j where "j < n" "x = h ! Suc j" using h by (auto simp: in_set_conv_nth nth_cells)
    then show "x \<in> (\<lambda>j. h ! j) ` {1..n}" by (intro image_eqI [of _ _ "Suc j"]) auto }
  { assume "x \<in> (\<lambda>j. h ! j) ` {1..n}"
    then obtain j where j: "1 \<le> j" "j \<le> n" "x = h ! j" by auto
    then have "x = cells n h ! (j - 1)" "j - 1 < length (cells n h)" using h by (simp_all add: nth_cells)
    then show "x \<in> set (cells n h)" by simp }
qed

lemma cells_update: "1 \<le> i \<Longrightarrow> cells n (h[i := x]) = (cells n h)[i - 1 := x]"
  by (cases h; cases i) (simp_all add: cells_def take_update_swap)

lemma mset_cells_swap:
  assumes "n < length h" and "i \<in> {1..n}" and "j \<in> {1..n}"
  shows "mset (cells n (h[i := h ! j, j := h ! i])) = mset (cells n h)"
proof -
  have "cells n (h[i := h ! j, j := h ! i]) = (cells n h)[i - 1 := cells n h ! (j - 1), j - 1 := cells n h ! (i - 1)]"
    using assms by (simp add: cells_update nth_cells_pred [simplified])
  then show ?thesis using assms mset_swap [of "j - 1" "cells n h" "i - 1"] by auto
qed

lemma length_heapify [simp]: "length (heapify cmp n i h) = length h"
  by (induction cmp n i h rule: heapify.induct) (subst heapify.simps, simp add: Let_def)

lemma length_sift_up [simp]: "length (sift_up cmp elem i h) = length h"
  by (induction cmp elem i h rule: sift_up.induct) (subst sift_up.simps, simp)


section \<open>Correctness\<close>

locale comparison =
  fixes cmp :: "nat \<Rightarrow> nat \<Rightarrow> int"
  assumes cmp_swap: "cmp a b > 0 \<longleftrightarrow> cmp b a < 0"
    and cmp_trans: "cmp a b \<ge> 0 \<Longrightarrow> cmp b c \<ge> 0 \<Longrightarrow> cmp a c \<ge> 0"
begin

lemma cmp_refl: "cmp a a \<ge> 0"
  using cmp_swap [of a a] by linarith

lemma cmp_total: "\<not> cmp a b \<ge> 0 \<Longrightarrow> cmp b a \<ge> 0"
  using cmp_swap [of b a] by linarith

text \<open>An array that is a heap but for the position \<open>i\<close> and its parent, or for \<open>i\<close> and its children.\<close>

definition up_hole :: "nat \<Rightarrow> nat \<Rightarrow> nat list \<Rightarrow> bool" where
  "up_hole n i h \<longleftrightarrow> (\<forall>j \<in> {2..n}. j \<noteq> i \<longrightarrow> cmp (h ! (j div 2)) (h ! j) \<ge> 0) \<and>
     (\<forall>j \<in> {2..n}. j div 2 = i \<and> i > 1 \<longrightarrow> cmp (h ! (i div 2)) (h ! j) \<ge> 0)"

definition down_hole :: "nat \<Rightarrow> nat \<Rightarrow> nat list \<Rightarrow> bool" where
  "down_hole n i h \<longleftrightarrow> (\<forall>j \<in> {2..n}. j div 2 \<noteq> i \<longrightarrow> cmp (h ! (j div 2)) (h ! j) \<ge> 0) \<and>
     (\<forall>j \<in> {2..n}. j div 2 = i \<and> i > 1 \<longrightarrow> cmp (h ! (i div 2)) (h ! j) \<ge> 0)"

lemma top_greatest:
  assumes "is_heap cmp n h" and "1 \<le> j" and "j \<le> n"
  shows "cmp (h ! 1) (h ! j) \<ge> 0"
  using assms(2,3)
proof (induction j rule: less_induct)
  case (less j)
  show ?case
  proof (cases "j = 1")
    case True
    then show ?thesis by (simp add: cmp_refl)
  next
    case False
    then have "cmp (h ! (j div 2)) (h ! j) \<ge> 0" using assms(1) less.prems by (simp add: is_heap_def)
    moreover have "cmp (h ! 1) (h ! (j div 2)) \<ge> 0" using less False by simp
    ultimately show ?thesis using cmp_trans by blast
  qed
qed

lemma up_step:
  assumes "up_hole n i h" and "1 < i" and "i \<le> n" and "n < length h" and "cmp (h ! (i div 2)) (h ! i) < 0"
  shows "up_hole n (i div 2) (h[i := h ! (i div 2), i div 2 := h ! i])"
proof -
  let ?p = "i div 2" and ?h = "h[i := h ! (i div 2), i div 2 := h ! i]"
  have p: "?p < i" "1 \<le> ?p" using assms(2) by auto
  have nth: "?h ! k = (if k = ?p then h ! i else if k = i then h ! ?p else h ! k)" if "k \<le> n" for k
    using that assms(3,4) p by (auto simp: nth_list_update)
  have gt: "cmp (h ! i) (h ! ?p) \<ge> 0" using assms(5) cmp_total by fastforce
  have other: "cmp (h ! (j div 2)) (h ! j) \<ge> 0" if "j \<in> {2..n}" "j \<noteq> i" for j using assms(1) that by (simp add: up_hole_def)
  have below: "cmp (h ! ?p) (h ! j) \<ge> 0" if "j \<in> {2..n}" "j div 2 = i" for j using assms(1,2) that by (simp add: up_hole_def)
  show ?thesis unfolding up_hole_def
  proof (intro conjI ballI impI)
    fix j assume j: "j \<in> {2..n}" "j \<noteq> ?p"
    then have jn: "j \<le> n" "j div 2 \<le> n" by auto
    consider "j = i" | "j \<noteq> i" "j div 2 = i" | "j \<noteq> i" "j div 2 = ?p" | "j \<noteq> i" "j div 2 \<noteq> i" "j div 2 \<noteq> ?p" by blast
    then show "cmp (?h ! (j div 2)) (?h ! j) \<ge> 0"
    proof cases
      case 1
      then show ?thesis using gt p nth [of ?p] nth [of i] assms(3) by auto
    next
      case 2
      then show ?thesis using below [OF j(1)] p j(2) nth [OF jn(1)] nth [OF jn(2)] by auto
    next
      case 3
      then have "cmp (h ! ?p) (h ! j) \<ge> 0" using other [OF j(1)] by simp
      then show ?thesis using 3 j(2) cmp_trans [OF gt] nth [OF jn(1)] nth [OF jn(2)] by auto
    next
      case 4
      then show ?thesis using other [OF j(1)] j(2) nth [OF jn(1)] nth [OF jn(2)] by auto
    qed
  next
    fix j assume j: "j \<in> {2..n}" "j div 2 = ?p \<and> 1 < ?p"
    have up: "cmp (h ! (?p div 2)) (h ! ?p) \<ge> 0" using other [of ?p] j p assms(3) by simp
    have "cmp (h ! ?p) (h ! j) \<ge> 0" if "j \<noteq> i" using other [OF j(1) that] j(2) by simp
    moreover have "?h ! (?p div 2) = h ! (?p div 2)" 
    proof -
      have "?p div 2 < ?p" using p(2) by auto
      then show ?thesis using p(1) by simp
    qed
    moreover have "?h ! j = (if j = i then h ! ?p else h ! j)" using nth [of j] j by auto
    ultimately show "cmp (?h ! (?p div 2)) (?h ! j) \<ge> 0" using up cmp_trans [OF up] by metis
  qed
qed

lemma sift_up_ok:
  assumes "up_hole n i (h[i := elem])" and "1 \<le> i" and "i \<le> n" and "n < length h"
  shows "is_heap cmp n (sift_up cmp elem i h) \<and> mset (cells n (sift_up cmp elem i h)) = mset (cells n (h[i := elem]))"
  using assms
proof (induction i arbitrary: h rule: less_induct)
  case (less i)
  let ?p = "i div 2" and ?g = "h[i := elem]"
  show ?case
  proof (cases "i > 1 \<and> cmp (h ! ?p) elem < 0")
    case True
    then have p: "?p < i" "1 \<le> ?p" "?p \<le> n" using less.prems by auto
    have nth: "?g ! ?p = h ! ?p" "?g ! i = elem" using p less.prems by simp_all
    have swap: "(h[i := h ! ?p])[?p := elem] = ?g[i := ?g ! ?p, ?p := ?g ! i]" using nth by simp
    have "up_hole n ?p ((h[i := h ! ?p])[?p := elem])"
      unfolding swap by (rule up_step) (use less.prems True nth in auto)
    moreover have "mset (cells n ((h[i := h ! ?p])[?p := elem])) = mset (cells n ?g)"
      unfolding swap by (rule mset_cells_swap) (use less.prems p in auto)
    moreover have "sift_up cmp elem i h = sift_up cmp elem ?p (h[i := h ! ?p])" using True by (subst sift_up.simps) simp
    ultimately show ?thesis using less.IH [OF p(1), of "h[i := h ! ?p]"] p(2,3) less.prems(4) by simp
  next
    case False
    have "is_heap cmp n ?g" unfolding is_heap_def
    proof
      fix j assume j: "j \<in> {2..n}"
      show "cmp (?g ! (j div 2)) (?g ! j) \<ge> 0"
      proof (cases "j = i")
        case True
        then have "cmp (h ! ?p) elem \<ge> 0" using False j by auto
        then show ?thesis using True j less.prems by simp
      next
        case False
        then show ?thesis using less.prems(1) j by (simp add: up_hole_def)
      qed
    qed
    moreover have "sift_up cmp elem i h = ?g" using False by (subst sift_up.simps) auto
    ultimately show ?thesis by simp
  qed
qed

lemma down_step:
  assumes hole: "down_hole n i h" and "1 \<le> i" and "c \<in> {2..n}" and "c div 2 = i" and "n < length h"
    and c: "\<And>j. j \<in> {2..n} \<Longrightarrow> j div 2 = i \<Longrightarrow> cmp (h ! c) (h ! j) \<ge> 0" "cmp (h ! c) (h ! i) \<ge> 0"
  shows "down_hole n c (h[i := h ! c, c := h ! i])"
proof -
  let ?h = "h[i := h ! c, c := h ! i]"
  have i: "i < c" "i \<le> n" using assms(2-4) by auto
  have nth: "?h ! k = (if k = c then h ! i else if k = i then h ! c else h ! k)" if "k \<le> n" for k
    using that assms(5) by (auto simp: nth_list_update)
  have 1: "cmp (h ! (j div 2)) (h ! j) \<ge> 0" if "j \<in> {2..n}" "j div 2 \<noteq> i" for j using hole that by (simp add: down_hole_def)
  have 2: "cmp (h ! (i div 2)) (h ! j) \<ge> 0" if "j \<in> {2..n}" "j div 2 = i" "i > 1" for j using hole that by (simp add: down_hole_def)
  show ?thesis unfolding down_hole_def
  proof (intro conjI ballI impI)
    fix j assume j: "j \<in> {2..n}" "j div 2 \<noteq> c"
    then have jn: "j \<le> n" "j div 2 \<le> n" by auto
    have "j \<noteq> c \<Longrightarrow> j div 2 = i \<Longrightarrow> j \<noteq> i" "j = i \<Longrightarrow> j div 2 \<noteq> i" using j(1) by auto
    moreover have "c div 2 \<noteq> c" using assms(3) by auto
    ultimately show "cmp (?h ! (j div 2)) (?h ! j) \<ge> 0"
      using 1 [OF j(1)] 2 [OF assms(3,4)] c(1) [OF j(1)] c(2) j assms(4) nth [OF jn(1)] nth [OF jn(2)] by auto
  next
    fix j assume j: "j \<in> {2..n}" "j div 2 = c \<and> 1 < c"
    then have "j \<noteq> c" "j \<noteq> i" "cmp (h ! c) (h ! j) \<ge> 0" using 1 [OF j(1)] i by auto
    then show "cmp (?h ! (c div 2)) (?h ! j) \<ge> 0" using nth [of i] nth [of j] i j(1) assms(4) by auto
  qed
qed

lemma heapify_ok:
  assumes "down_hole n i h" and "1 \<le> i" and "n < length h"
  shows "is_heap cmp n (heapify cmp n i h) \<and> mset (cells n (heapify cmp n i h)) = mset (cells n h)"
  using assms
proof (induction "n - i" arbitrary: i h rule: less_induct)
  case less
  have kids: "j = 2 * i \<or> j = 2 * i + 1" if "j div 2 = i" for j using that by auto
  show ?case
  proof (cases "2 * i \<le> n")
    case False
    then have "j div 2 \<noteq> i" if "j \<in> {2..n}" for j using that by auto
    then have "is_heap cmp n h" using less.prems(1) by (simp add: down_hole_def is_heap_def)
    moreover have "heapify cmp n i h = h" using False by (subst heapify.simps) (simp add: Let_def)
    ultimately show ?thesis by simp
  next
    case True
    define m where "m = (if cmp (h ! (2 * i)) (h ! i) > 0 then 2 * i else i)"
    define c where "c = (if 2 * i + 1 \<le> n \<and> cmp (h ! (2 * i + 1)) (h ! m) > 0 then 2 * i + 1 else m)"
    have unfold: "heapify cmp n i h = (if c \<noteq> i then heapify cmp n c (h[i := h ! c, c := h ! i]) else h)"
      unfolding c_def m_def using True by (subst heapify.simps) (simp only: Let_def if_True)
    have m: "cmp (h ! m) (h ! i) \<ge> 0" "cmp (h ! m) (h ! (2 * i)) \<ge> 0"
      using cmp_refl cmp_swap [of "h ! (2 * i)" "h ! i"] by (auto simp: m_def)
    have cm: "cmp (h ! c) (h ! m) \<ge> 0" by (simp add: c_def cmp_refl)
    have ci: "cmp (h ! c) (h ! i) \<ge> 0" and cl: "cmp (h ! c) (h ! (2 * i)) \<ge> 0" using cmp_trans [OF cm] m by blast+
    have cr: "cmp (h ! c) (h ! (2 * i + 1)) \<ge> 0" if "2 * i + 1 \<le> n"
      using that cmp_refl cmp_swap [of "h ! (2 * i + 1)" "h ! m"] by (auto simp: c_def)
    have ck: "cmp (h ! c) (h ! j) \<ge> 0" if "j \<in> {2..n}" "j div 2 = i" for j
      using kids [OF that(2)] cl cr that(1) by auto
    show ?thesis
    proof (cases "c = i")
      case True
      then have "cmp (h ! (j div 2)) (h ! j) \<ge> 0" if "j \<in> {2..n}" for j
        using ck [OF that] less.prems(1) that by (cases "j div 2 = i") (auto simp: down_hole_def)
      then show ?thesis unfolding unfold using True by (simp add: is_heap_def)
    next
      case False
      then have c: "c = 2 * i \<or> c = 2 * i + 1" "c \<le> n" using True by (auto simp: c_def m_def split: if_splits)
      then have ch: "c \<in> {2..n}" "c div 2 = i" "n - c < n - i" "1 \<le> c" using less.prems(2) by auto
      have "down_hole n c (h[i := h ! c, c := h ! i])"
        by (rule down_step) (use less.prems ch ck ci in auto)
      moreover have "mset (cells n (h[i := h ! c, c := h ! i])) = mset (cells n h)"
        by (rule mset_cells_swap) (use less.prems ch in auto)
      ultimately show ?thesis unfolding unfold using False less.hyps [OF ch(3)] ch less.prems(3) by simp
    qed
  qed
qed

text \<open>The operations of the queue: a new queue is empty, an insertion adds one element, whether the array has to grow or
  not, and an extraction removes a greatest element.\<close>

lemma ppq_new_ok: "ppq_ok cmp (ppq_new sz)" "ppq_elems (ppq_new sz) = []"
  by (simp_all add: ppq_ok_def ppq_new_def is_heap_def ppq_elems_def cells_def Let_def)

lemma insert_at_end:
  assumes "is_heap cmp n h" and "Suc n < length g" and "\<And>j. 1 \<le> j \<Longrightarrow> j \<le> n \<Longrightarrow> g ! j = h ! j"
  shows "up_hole (Suc n) (Suc n) (g[Suc n := elem])"
  unfolding up_hole_def
proof (intro conjI ballI impI)
  fix j assume j: "j \<in> {2..Suc n}" "j \<noteq> Suc n"
  then have "1 \<le> j div 2" "j div 2 \<le> n" by auto
  then show "cmp (g[Suc n := elem] ! (j div 2)) (g[Suc n := elem] ! j) \<ge> 0"
    using j assms(1) assms(3) [of j] assms(3) [of "j div 2"] by (simp add: is_heap_def)
qed auto

lemma cells_snoc:
  assumes "Suc n < length g" and "n < length h" and "\<And>j. 1 \<le> j \<Longrightarrow> j \<le> n \<Longrightarrow> g ! j = h ! j"
  shows "cells (Suc n) (g[Suc n := elem]) = cells n h @ [elem]"
  using assms by (auto intro!: nth_equalityI simp: nth_cells nth_append less_Suc_eq)

lemma ppq_insert_ok:
  assumes "ppq_ok cmp q"
  shows "ppq_ok cmp (ppq_insert cmp elem q)" and "mset (ppq_elems (ppq_insert cmp elem q)) = add_mset elem (mset (ppq_elems q))"
proof -
  let ?n = "m_heap_size q" and ?h = "m_heap q" and ?grow = "m_heap_size q + 1 > m_size_alloc q"
  let ?alloc = "if ?grow then m_size_alloc q + m_size_alloc q div 2 else m_size_alloc q"
  let ?g = "if ?grow then map (\<lambda>j. if 1 \<le> j \<and> j < ?n + 1 then ?h ! j else 0) [0..<?alloc + 1] else ?h"
  have q: "2 \<le> m_size_alloc q" "length ?h = m_size_alloc q + 1" "?n \<le> m_size_alloc q" "is_heap cmp ?n ?h"
    using assms by (simp_all add: ppq_ok_def)
  then have half: "1 \<le> m_size_alloc q div 2" by auto
  have len: "length ?g = ?alloc + 1" "Suc ?n < length ?g" "2 \<le> ?alloc" using q half by auto
  have nth: "?g ! j = ?h ! j" if "1 \<le> j" "j \<le> ?n" for j using that q by (auto simp del: upt_Suc)
  have "is_heap cmp (Suc ?n) (sift_up cmp elem (Suc ?n) ?g)"
    and "mset (cells (Suc ?n) (sift_up cmp elem (Suc ?n) ?g)) = mset (cells (Suc ?n) (?g[Suc ?n := elem]))"
    using sift_up_ok [OF insert_at_end [OF q(4) len(2) nth]] len(2) by auto
  moreover have "cells (Suc ?n) (?g[Suc ?n := elem]) = cells ?n ?h @ [elem]"
    by (rule cells_snoc [OF len(2) _ nth]) (use q in auto)
  moreover have "ppq_insert cmp elem q = \<lparr>m_heap = sift_up cmp elem (Suc ?n) ?g, m_size_alloc = ?alloc, m_heap_size = Suc ?n\<rparr>"
    by (simp add: ppq_insert_def Let_def)
  ultimately show "ppq_ok cmp (ppq_insert cmp elem q)"
      and "mset (ppq_elems (ppq_insert cmp elem q)) = add_mset elem (mset (ppq_elems q))"
    using len by (simp_all add: ppq_ok_def ppq_elems_def)
qed

lemma remove_first:
  assumes "1 \<le> n" and "n < length h"
  shows "mset (cells n h) = add_mset (h ! 1) (mset (cells (n - 1) (h[1 := h ! n])))"
proof (cases "n = 1")
  case True
  then show ?thesis using assms by (cases h; cases "tl h") (auto simp: cells_def)
next
  case False
  have split: "cells n h = h ! 1 # map (\<lambda>j. h ! j) [2..<n] @ [h ! n]"
  proof (rule nth_equalityI)
    fix k assume "k < length (cells n h)"
    then have k: "k < n" using assms by simp
    show "cells n h ! k = (h ! 1 # map (\<lambda>j. h ! j) [2..<n] @ [h ! n]) ! k"
    proof (cases "k = n - 1")
      case True
      then show ?thesis using k assms False by (simp add: nth_cells nth_Cons' nth_append numeral_2_eq_2)
    next
      case False
      then show ?thesis using k assms by (auto simp: nth_cells nth_append nth_Cons split: nat.split)
    qed
  qed (use assms False in simp)
  have "cells (n - 1) (h[1 := h ! n]) = h ! n # map (\<lambda>j. h ! j) [2..<n]"
    using assms False by (intro nth_equalityI) (auto simp: nth_cells nth_Cons split: nat.split)
  then show ?thesis using split by simp
qed

lemma extract_top_ok:
  assumes "ppq_ok cmp q" and "\<not> ppq_empty q"
  shows "\<exists>q'. extract_top cmp q = Some (ppq_top q, q') \<and> ppq_ok cmp q' \<and>
    mset (ppq_elems q) = add_mset (ppq_top q) (mset (ppq_elems q'))"
    and "x \<in> set (ppq_elems q) \<Longrightarrow> cmp (ppq_top q) x \<ge> 0"
proof -
  let ?n = "m_heap_size q" and ?h = "m_heap q"
  let ?g = "?h[1 := ?h ! ?n]"
  have q: "2 \<le> m_size_alloc q" "length ?h = m_size_alloc q + 1" "?n \<le> m_size_alloc q" "is_heap cmp ?n ?h" "1 \<le> ?n"
    using assms by (simp_all add: ppq_ok_def ppq_empty_def)
  then show "x \<in> set (ppq_elems q) \<Longrightarrow> cmp (ppq_top q) x \<ge> 0"
    using top_greatest [OF q(4)] by (auto simp: ppq_top_def ppq_elems_def set_cells)
  have "down_hole (?n - 1) 1 ?g"
    using q by (auto simp: down_hole_def is_heap_def nth_list_update)
  then have "is_heap cmp (?n - 1) (heapify cmp (?n - 1) 1 ?g)" "mset (cells (?n - 1) (heapify cmp (?n - 1) 1 ?g)) = mset (cells (?n - 1) ?g)"
    using heapify_ok q by auto
  with q remove_first [OF q(5), of ?h] show "\<exists>q'. extract_top cmp q = Some (ppq_top q, q') \<and> ppq_ok cmp q' \<and>
      mset (ppq_elems q) = add_mset (ppq_top q) (mset (ppq_elems q'))"
    by (simp add: extract_top_def Let_def ppq_top_def ppq_ok_def ppq_elems_def)
qed

lemma ppq_empty_iff: "ppq_ok cmp q \<Longrightarrow> ppq_empty q \<longleftrightarrow> ppq_elems q = []"
  using length_cells [of "m_heap_size q" "m_heap q"] by (auto simp: ppq_empty_def ppq_elems_def ppq_ok_def simp flip: length_0_conv)

end

lemma is_heap_cong:
  assumes "is_heap cmp n h" and "n < length h" and "\<And>a b. a \<in> set (cells n h) \<Longrightarrow> b \<in> set (cells n h) \<Longrightarrow> cmp a b = cmp' a b"
  shows "is_heap cmp' n h"
proof -
  have "h ! j \<in> set (cells n h)" if "1 \<le> j" "j \<le> n" for j using that assms(2) by (auto simp: set_cells)
  with assms(1,3) show ?thesis unfolding is_heap_def by (metis atLeastAtMost_iff div_le_dividend le_trans one_le_numeral div_greater_zero_iff zero_less_numeral less_eq_Suc_le One_nat_def)
qed

text \<open>The order of the queue depends only on the comparisons between its elements.\<close>

lemma ppq_ok_cong:
  assumes "ppq_ok cmp q" and "\<And>a b. a \<in> set (ppq_elems q) \<Longrightarrow> b \<in> set (ppq_elems q) \<Longrightarrow> cmp a b = cmp' a b"
  shows "ppq_ok cmp' q"
  using assms is_heap_cong [of cmp "m_heap_size q" "m_heap q" cmp'] by (simp add: ppq_ok_def ppq_elems_def)

end
