(* ===== verification/Sc_Event.thy ===== *)
theory Sc_Event
  imports Sc_Pq
begin

text \<open>
  The events of the SystemC kernel (\<open>sysc/kernel/sc_event.h\<close>, \<open>sc_event.cpp\<close>) with the part of the simulation context that
  schedules them (\<open>sc_simcontext.h\<close>, \<open>sc_simcontext.cpp\<close>): the set of delta notifications, where an event knows its index,
  and the queue of timed notifications, whose nodes point to their event and are detached, not removed, when a notification
  is cancelled. Events and processes are numbered, nodes have addresses. The processes are methods with static
  sensitivity, the only ones that the platforms create. The abstract specification gives every event at most one pending
  notification.

  A report of severity error throws and a failed \<open>sc_assert\<close> aborts: both end the simulation (\<open>Halt\<close>). Access to a node
  that is not allocated is undefined. Times are 64-bit words. The phase callbacks of the library are not enabled.
\<close>

section \<open>The state\<close>

type_synonym sc_time = "64 word"

datatype notify_t = NONE | DELTA | TIMED

record sc_event =
  m_trigger_stamp :: "64 word"
  m_notify_type :: notify_t
  m_delta_event_index :: int
  m_timed :: "nat option"
  m_methods_static :: "nat list"

record sc_event_timed =
  m_event :: "nat option"
  m_notify_time :: sc_time

record sc_method_process =
  ps_disabled :: bool
  ps_suspended :: bool
  ps_ready_to_run :: bool
  ps_dont_initialize :: bool
  m_trigger_is_static :: bool

datatype execution_phase = phase_initialize | phase_evaluate | phase_update | phase_notify

record sc_simcontext =
  event_of :: "nat \<Rightarrow> sc_event"
  method_of :: "nat \<Rightarrow> sc_method_process"
  timed_at :: "nat \<rightharpoonup> sc_event_timed"
  free_list :: "nat list"
  malloc_next :: nat
  m_delta_events :: "nat list"
  m_timed_events :: sc_ppq
  m_methods_push :: "nat list"
  m_methods_pop :: "nat list"
  m_curr_proc :: "nat option"
  m_execution_phase :: execution_phase
  m_ready_to_simulate :: bool
  m_curr_time :: sc_time
  m_change_stamp :: "64 word"
  m_delta_count :: "64 word"

definition set_event :: "nat \<Rightarrow> (sc_event \<Rightarrow> sc_event) \<Rightarrow> 'a sc_simcontext_scheme \<Rightarrow> 'a sc_simcontext_scheme" where
  "set_event e f s = s\<lparr>event_of := (event_of s)(e := f (event_of s e))\<rparr>"

section \<open>The set of delta notifications\<close>

definition add_delta_event :: "nat \<Rightarrow> ('a sc_simcontext_scheme, int) prog" where
  "add_delta_event e s = (let ds = m_delta_events s @ [e] in Ret (int (length ds) - 1) (s\<lparr>m_delta_events := ds\<rparr>))"

definition remove_delta_event :: "nat \<Rightarrow> ('a sc_simcontext_scheme, unit) prog" where
  "remove_delta_event e s =
     (let i = m_delta_event_index (event_of s e); ds = m_delta_events s; j = int (length ds) - 1 in
      if \<not> (i \<ge> 0 \<and> i \<le> j) then Halt s
      else let s = (if i \<noteq> j
                    then set_event (last ds) (\<lambda>ev. ev\<lparr>m_delta_event_index := i\<rparr>) (s\<lparr>m_delta_events := ds[nat i := last ds]\<rparr>)
                    else s);
               s = s\<lparr>m_delta_events := butlast (m_delta_events s)\<rparr>
           in Ret () (set_event e (\<lambda>ev. ev\<lparr>m_delta_event_index := -1\<rparr>) s))"

section \<open>The queue of timed notifications\<close>

definition sc_notify_time_compare :: "(nat \<Rightarrow> sc_time) \<Rightarrow> nat \<Rightarrow> nat \<Rightarrow> int" where
  "sc_notify_time_compare time p1 p2 = (let t1 = time p1; t2 = time p2 in if t1 < t2 then 1 else if t1 > t2 then -1 else 0)"

definition time_at :: "'a sc_simcontext_scheme \<Rightarrow> nat \<Rightarrow> sc_time" where
  "time_at s p = (case timed_at s p of Some et \<Rightarrow> m_notify_time et | None \<Rightarrow> 0)"

abbreviation compar :: "'a sc_simcontext_scheme \<Rightarrow> nat \<Rightarrow> nat \<Rightarrow> int" where
  "compar s \<equiv> sc_notify_time_compare (time_at s)"

text \<open>\<open>allocate\<close> takes a node from the free list, which \<open>malloc\<close> fills with 64 nodes at addresses never given before.\<close>

definition timed_allocate :: "('a sc_simcontext_scheme, nat) prog" where
  "timed_allocate s =
     (let s = (if free_list s = []
               then s\<lparr>free_list := [malloc_next s..<malloc_next s + 64], malloc_next := malloc_next s + 64\<rparr> else s)
      in Ret (hd (free_list s)) (s\<lparr>free_list := tl (free_list s)\<rparr>))"

definition timed_deallocate :: "nat \<Rightarrow> ('a sc_simcontext_scheme, unit) prog" where
  "timed_deallocate p s = Ret () (s\<lparr>free_list := p # free_list s\<rparr>)"

definition new_event_timed :: "nat \<Rightarrow> sc_time \<Rightarrow> ('a sc_simcontext_scheme, nat) prog" where
  "new_event_timed e t = bnd timed_allocate (\<lambda>p s. Ret p (s\<lparr>timed_at := (timed_at s)(p \<mapsto> \<lparr>m_event = Some e, m_notify_time = t\<rparr>)\<rparr>))"

definition delete_event_timed :: "nat \<Rightarrow> ('a sc_simcontext_scheme, unit) prog" where
  "delete_event_timed p s = (case timed_at s p of
     None \<Rightarrow> Ub s
   | Some et \<Rightarrow>
       let s = (case m_event et of Some e \<Rightarrow> set_event e (\<lambda>ev. ev\<lparr>m_timed := None\<rparr>) s | None \<Rightarrow> s)
       in timed_deallocate p (s\<lparr>timed_at := (timed_at s)(p := None)\<rparr>))"

definition add_timed_event :: "nat \<Rightarrow> ('a sc_simcontext_scheme, unit) prog" where
  "add_timed_event p s = Ret () (s\<lparr>m_timed_events := ppq_insert (compar s) p (m_timed_events s)\<rparr>)"

definition pop_timed_event :: "('a sc_simcontext_scheme, nat) prog" where
  "pop_timed_event s = (case extract_top (compar s) (m_timed_events s) of
     None \<Rightarrow> Halt s
   | Some (p, q) \<Rightarrow> Ret p (s\<lparr>m_timed_events := q\<rparr>))"

section \<open>Processes\<close>

definition is_runnable :: "nat \<Rightarrow> 'a sc_simcontext_scheme \<Rightarrow> bool" where
  "is_runnable m s \<longleftrightarrow> m \<in> set (m_methods_push s) \<or> m \<in> set (m_methods_pop s)"

definition push_back_method :: "nat \<Rightarrow> 'a sc_simcontext_scheme \<Rightarrow> 'a sc_simcontext_scheme" where
  "push_back_method m s = s\<lparr>m_methods_push := m_methods_push s @ [m]\<rparr>"

definition trigger_static :: "nat \<Rightarrow> 'a sc_simcontext_scheme \<Rightarrow> 'a sc_simcontext_scheme" where
  "trigger_static m s =
     (let p = method_of s m in
      if ps_disabled p \<or> is_runnable m s \<or> \<not> m_trigger_is_static p then s
      else if m_curr_proc s = Some m then s
      else if ps_suspended p then s\<lparr>method_of := (method_of s)(m := p\<lparr>ps_ready_to_run := True\<rparr>)\<rparr>
      else push_back_method m s)"

section \<open>Events\<close>

text \<open>The last method of the list is triggered first.\<close>

definition trigger :: "nat \<Rightarrow> 'a sc_simcontext_scheme \<Rightarrow> 'a sc_simcontext_scheme" where
  "trigger e s =
     (let s = set_event e (\<lambda>ev. ev\<lparr>m_trigger_stamp := m_change_stamp s, m_notify_type := NONE,
                                  m_delta_event_index := -1, m_timed := None\<rparr>) s
      in fold trigger_static (rev (m_methods_static (event_of s e))) s)"

text \<open>Detaching a node from its event: \<open>m_timed->m_event = 0; m_timed = 0\<close>.\<close>

definition detach :: "nat \<Rightarrow> ('a sc_simcontext_scheme, unit) prog" where
  "detach e s = (case m_timed (event_of s e) of
     None \<Rightarrow> Halt s
   | Some p \<Rightarrow> (case timed_at s p of
       None \<Rightarrow> Ub s
     | Some et \<Rightarrow> Ret () (set_event e (\<lambda>ev. ev\<lparr>m_timed := None\<rparr>) (s\<lparr>timed_at := (timed_at s)(p \<mapsto> et\<lparr>m_event := None\<rparr>)\<rparr>))))"

definition cancel :: "nat \<Rightarrow> ('a sc_simcontext_scheme, unit) prog" where
  "cancel e s = (case m_notify_type (event_of s e) of
     DELTA \<Rightarrow> bnd (remove_delta_event e) (\<lambda>_ s. Ret () (set_event e (\<lambda>ev. ev\<lparr>m_notify_type := NONE\<rparr>) s)) s
   | TIMED \<Rightarrow> bnd (detach e) (\<lambda>_ s. Ret () (set_event e (\<lambda>ev. ev\<lparr>m_notify_type := NONE\<rparr>) s)) s
   | NONE \<Rightarrow> Ret () s)"

definition notify_immediate :: "nat \<Rightarrow> ('a sc_simcontext_scheme, unit) prog" where
  "notify_immediate e s =
     (if \<not> (m_execution_phase s = phase_evaluate \<and> m_ready_to_simulate s) then Halt s
      else bnd (cancel e) (\<lambda>_ s. Ret () (trigger e s)) s)"

definition delta_notification :: "nat \<Rightarrow> ('a sc_simcontext_scheme, unit) prog" where
  "delta_notification e =
     bnd (add_delta_event e) (\<lambda>i s. Ret () (set_event e (\<lambda>ev. ev\<lparr>m_delta_event_index := i, m_notify_type := DELTA\<rparr>) s))"

definition timed_notification :: "nat \<Rightarrow> sc_time \<Rightarrow> ('a sc_simcontext_scheme, unit) prog" where
  "timed_notification e t s =
     bnd (new_event_timed e (m_curr_time s + t)) (\<lambda>p. bnd (add_timed_event p) (\<lambda>_ s.
       Ret () (set_event e (\<lambda>ev. ev\<lparr>m_timed := Some p, m_notify_type := TIMED\<rparr>) s))) s"

definition notify :: "nat \<Rightarrow> sc_time \<Rightarrow> ('a sc_simcontext_scheme, unit) prog" where
  "notify e t s =
     (if m_notify_type (event_of s e) = DELTA then Ret () s
      else if t = 0 then
        bnd (if m_notify_type (event_of s e) = TIMED then detach e else ret ()) (\<lambda>_. delta_notification e) s
      else if m_notify_type (event_of s e) = TIMED then
        (case m_timed (event_of s e) of
           None \<Rightarrow> Halt s
         | Some p \<Rightarrow> if p \<notin> dom (timed_at s) then Ub s
             else if time_at s p \<le> m_curr_time s + t then Ret () s
             else bnd (detach e) (\<lambda>_. timed_notification e t) s)
      else timed_notification e t s)"

definition notify_internal :: "nat \<Rightarrow> sc_time \<Rightarrow> ('a sc_simcontext_scheme, unit) prog" where
  "notify_internal e t = (if t = 0 then delta_notification e else timed_notification e t)"

definition notify_next_delta :: "nat \<Rightarrow> ('a sc_simcontext_scheme, unit) prog" where
  "notify_next_delta e s = (if m_notify_type (event_of s e) \<noteq> NONE then Halt s else delta_notification e s)"

section \<open>Taking notifications out\<close>

function next_time :: "('a sc_simcontext_scheme, sc_time option) prog" where
  "next_time s =
     (if m_heap_size (m_timed_events s) = 0 then Ret None s
      else case timed_at s (ppq_top (m_timed_events s)) of
        None \<Rightarrow> Ub s
      | Some et \<Rightarrow>
          if m_event et \<noteq> None then Ret (Some (m_notify_time et)) s
          else (case pop_timed_event s of
              Ret p s' \<Rightarrow> (case delete_event_timed p s' of
                  Ret _ s'' \<Rightarrow> next_time s'' | Ub t \<Rightarrow> Ub t | Halt t \<Rightarrow> Halt t | Diverge \<Rightarrow> Diverge)
            | Ub t \<Rightarrow> Ub t | Halt t \<Rightarrow> Halt t | Diverge \<Rightarrow> Diverge))"
  by pat_completeness auto

lemma delete_keeps_queue: "delete_event_timed p s = Ret u s' \<Longrightarrow> m_timed_events s' = m_timed_events s"
  by (auto simp: delete_event_timed_def timed_deallocate_def set_event_def Let_def split: option.splits)

lemma pop_shrinks: "pop_timed_event s = Ret p s' \<Longrightarrow> m_heap_size (m_timed_events s') < m_heap_size (m_timed_events s)"
  by (auto simp: pop_timed_event_def extract_top_def Let_def split: option.splits if_splits)

termination next_time
proof (relation "measure (\<lambda>s. m_heap_size (m_timed_events s))")
  fix s :: "'a sc_simcontext_scheme" and p s' u s''
  assume "pop_timed_event s = Ret p s'" "delete_event_timed p s' = Ret u s''"
  then show "(s'', s) \<in> measure (\<lambda>s. m_heap_size (m_timed_events s))"
    using pop_shrinks [of s p s'] delete_keeps_queue [of p s' u s''] by simp
qed simp

declare next_time.simps [simp del]

text \<open>The loop of \<open>simulate\<close> that triggers the timed notifications at the current time.\<close>

function timed_triggers :: "sc_time \<Rightarrow> ('a sc_simcontext_scheme, unit) prog" where
  "timed_triggers t s =
     (case pop_timed_event s of
        Ret p s1 \<Rightarrow> (case timed_at s1 p of
            None \<Rightarrow> Ub s1
          | Some et \<Rightarrow> (case delete_event_timed p s1 of
              Ret _ s2 \<Rightarrow>
                let s3 = (case m_event et of Some e \<Rightarrow> trigger e s2 | None \<Rightarrow> s2) in
                if m_heap_size (m_timed_events s3) \<noteq> 0 \<and> time_at s3 (ppq_top (m_timed_events s3)) = t
                then timed_triggers t s3 else Ret () s3
            | Ub t \<Rightarrow> Ub t | Halt t \<Rightarrow> Halt t | Diverge \<Rightarrow> Diverge))
      | Ub t \<Rightarrow> Ub t | Halt t \<Rightarrow> Halt t | Diverge \<Rightarrow> Diverge)"
  by pat_completeness auto

lemma trigger_static_keeps:
  "m_timed_events (trigger_static m s) = m_timed_events s" "timed_at (trigger_static m s) = timed_at s"
  "event_of (trigger_static m s) = event_of s" "free_list (trigger_static m s) = free_list s"
  "malloc_next (trigger_static m s) = malloc_next s" "m_delta_events (trigger_static m s) = m_delta_events s"
  "m_curr_time (trigger_static m s) = m_curr_time s" "m_change_stamp (trigger_static m s) = m_change_stamp s"
  "m_curr_proc (trigger_static m s) = m_curr_proc s" "m_methods_pop (trigger_static m s) = m_methods_pop s"
  by (simp_all add: trigger_static_def push_back_method_def Let_def)

lemma fold_trigger_static_keeps:
  "m_timed_events (fold trigger_static ms s) = m_timed_events s" "timed_at (fold trigger_static ms s) = timed_at s"
  "event_of (fold trigger_static ms s) = event_of s" "free_list (fold trigger_static ms s) = free_list s"
  "malloc_next (fold trigger_static ms s) = malloc_next s" "m_delta_events (fold trigger_static ms s) = m_delta_events s"
  "m_curr_time (fold trigger_static ms s) = m_curr_time s" "m_change_stamp (fold trigger_static ms s) = m_change_stamp s"
  "m_curr_proc (fold trigger_static ms s) = m_curr_proc s" "m_methods_pop (fold trigger_static ms s) = m_methods_pop s"
  by (induction ms arbitrary: s) (simp_all add: trigger_static_keeps)

lemma trigger_keeps:
  "m_timed_events (trigger e s) = m_timed_events s" "timed_at (trigger e s) = timed_at s"
  "event_of (trigger e s) = (event_of s)(e := (event_of s e)\<lparr>m_trigger_stamp := m_change_stamp s, m_notify_type := NONE,
     m_delta_event_index := -1, m_timed := None\<rparr>)"
  "free_list (trigger e s) = free_list s" "malloc_next (trigger e s) = malloc_next s" "m_delta_events (trigger e s) = m_delta_events s"
  "m_curr_time (trigger e s) = m_curr_time s" "m_change_stamp (trigger e s) = m_change_stamp s"
  "m_curr_proc (trigger e s) = m_curr_proc s" "m_methods_pop (trigger e s) = m_methods_pop s"
  by (simp_all add: trigger_def Let_def fold_trigger_static_keeps set_event_def)

termination timed_triggers
proof (relation "measure (\<lambda>(t, s). m_heap_size (m_timed_events s))")
  fix t and s :: "'a sc_simcontext_scheme" and p s1 et u s2 s3
  assume "pop_timed_event s = Ret p s1" "delete_event_timed p s1 = Ret u s2"
    "s3 = (case m_event et of None \<Rightarrow> s2 | Some e \<Rightarrow> trigger e s2)"
  then show "((t, s3), (t, s)) \<in> measure (\<lambda>(t, s). m_heap_size (m_timed_events s))"
    using pop_shrinks [of s p s1] delete_keeps_queue [of p s1 u s2] by (simp add: trigger_keeps split: option.split)
qed simp

declare timed_triggers.simps [simp del]

section \<open>The invariant\<close>

definition timed_ok :: "'a sc_simcontext_scheme \<Rightarrow> bool" where
  "timed_ok s \<longleftrightarrow> ppq_ok (compar s) (m_timed_events s) \<and> distinct (ppq_elems (m_timed_events s)) \<and>
     set (ppq_elems (m_timed_events s)) = dom (timed_at s)"

definition nodes_ok :: "'a sc_simcontext_scheme \<Rightarrow> bool" where
  "nodes_ok s \<longleftrightarrow> distinct (free_list s) \<and> set (free_list s) \<inter> dom (timed_at s) = {} \<and>
     (\<forall>p \<in> set (free_list s) \<union> dom (timed_at s). p < malloc_next s)"

definition delta_ok :: "'a sc_simcontext_scheme \<Rightarrow> bool" where
  "delta_ok s \<longleftrightarrow> distinct (m_delta_events s) \<and> (\<forall>e. m_notify_type (event_of s e) = DELTA \<longleftrightarrow> e \<in> set (m_delta_events s)) \<and>
     (\<forall>i < length (m_delta_events s). m_delta_event_index (event_of s (m_delta_events s ! i)) = int i)"

definition links_ok :: "'a sc_simcontext_scheme \<Rightarrow> bool" where
  "links_ok s \<longleftrightarrow>
     (\<forall>p et e. timed_at s p = Some et \<and> m_event et = Some e \<longrightarrow>
        m_notify_type (event_of s e) = TIMED \<and> m_timed (event_of s e) = Some p) \<and>
     (\<forall>e. m_notify_type (event_of s e) = TIMED \<longrightarrow>
        (\<exists>p et. m_timed (event_of s e) = Some p \<and> timed_at s p = Some et \<and> m_event et = Some e))"

definition sc_ok :: "'a sc_simcontext_scheme \<Rightarrow> bool" where
  "sc_ok s \<longleftrightarrow> timed_ok s \<and> nodes_ok s \<and> delta_ok s \<and> links_ok s"

section \<open>The specification\<close>

text \<open>At most one notification of an event is pending: in the next delta cycle, or at a time.\<close>

datatype notification = Delta | At sc_time

fun earliest :: "notification option \<Rightarrow> notification \<Rightarrow> notification option" where
  "earliest None n = Some n"
| "earliest (Some Delta) n = Some Delta"
| "earliest (Some (At t)) Delta = Some Delta"
| "earliest (Some (At t)) (At u) = Some (At (min t u))"

definition pending :: "'a sc_simcontext_scheme \<Rightarrow> nat \<Rightarrow> notification option" where
  "pending s e = (case m_notify_type (event_of s e) of
     NONE \<Rightarrow> None
   | DELTA \<Rightarrow> Some Delta
   | TIMED \<Rightarrow> Some (At (case m_timed (event_of s e) of Some p \<Rightarrow> time_at s p | None \<Rightarrow> 0)))"

interpretation time_order: comparison "sc_notify_time_compare time" for time
  by unfold_locales (auto simp: sc_notify_time_compare_def Let_def split: if_splits)

lemma compare_ge: "sc_notify_time_compare time p q \<ge> 0 \<longleftrightarrow> time p \<le> time q"
  by (auto simp: sc_notify_time_compare_def Let_def)

lemma set_event_keeps [simp]:
  "event_of (set_event e f s) = (event_of s)(e := f (event_of s e))"
  "timed_at (set_event e f s) = timed_at s" "m_timed_events (set_event e f s) = m_timed_events s"
  "free_list (set_event e f s) = free_list s" "malloc_next (set_event e f s) = malloc_next s"
  "m_delta_events (set_event e f s) = m_delta_events s" "m_curr_time (set_event e f s) = m_curr_time s"
  "m_methods_push (set_event e f s) = m_methods_push s" "m_methods_pop (set_event e f s) = m_methods_pop s"
  by (simp_all add: set_event_def)

lemma time_at_set_event [simp]: "time_at (set_event e f s) = time_at s"
  by (simp add: time_at_def fun_eq_iff)

lemma timed_ok_cong:
  assumes "timed_ok s" and "m_timed_events t = m_timed_events s" and "dom (timed_at t) = dom (timed_at s)"
    and "\<And>p. p \<in> dom (timed_at s) \<Longrightarrow> time_at t p = time_at s p"
  shows "timed_ok t"
proof -
  have "ppq_ok (compar t) (m_timed_events s)"
    by (rule ppq_ok_cong [of "compar s"]) (use assms in \<open>auto simp: timed_ok_def sc_notify_time_compare_def\<close>)
  with assms(1-3) show ?thesis by (simp add: timed_ok_def)
qed

lemma time_at_fun: "time_at s = (\<lambda>p. case timed_at s p of Some et \<Rightarrow> m_notify_time et | None \<Rightarrow> 0)"
  by (simp add: fun_eq_iff time_at_def)

text \<open>A change of events only.\<close>

lemma timed_nodes_set_event: "timed_ok (set_event e f s) = timed_ok s" "nodes_ok (set_event e f s) = nodes_ok s"
  by (simp_all add: timed_ok_def nodes_ok_def)

lemma delta_iff: "sc_ok s \<Longrightarrow> e \<in> set (m_delta_events s) \<longleftrightarrow> m_notify_type (event_of s e) = DELTA"
  by (simp add: sc_ok_def delta_ok_def)

lemma sc_links:
  assumes "sc_ok s"
  shows "timed_at s p = Some et \<Longrightarrow> m_event et = Some e \<Longrightarrow> m_notify_type (event_of s e) = TIMED \<and> m_timed (event_of s e) = Some p"
    and "m_notify_type (event_of s e) = TIMED \<Longrightarrow> (\<exists>p et. m_timed (event_of s e) = Some p \<and> timed_at s p = Some et \<and> m_event et = Some e)"
  using assms unfolding sc_ok_def links_ok_def by blast+

section \<open>Operations on the set of delta notifications\<close>

lemma delta_notification_ok:
  assumes "sc_ok s" and "m_notify_type (event_of s e) = NONE"
  shows "\<exists>s'. delta_notification e s = Ret () s' \<and> sc_ok s' \<and> pending s' = (pending s)(e := Some Delta) \<and> m_curr_time s' = m_curr_time s"
proof -
  define s' where "s' = set_event e (\<lambda>ev. ev\<lparr>m_delta_event_index := int (length (m_delta_events s)), m_notify_type := DELTA\<rparr>)
    (s\<lparr>m_delta_events := m_delta_events s @ [e]\<rparr>)"
  have run: "delta_notification e s = Ret () s'"
    by (simp add: delta_notification_def bnd_def add_delta_event_def s'_def Let_def)
  have e: "e \<notin> set (m_delta_events s)" using assms by (simp add: delta_iff)
  have time: "time_at s' = time_at s" by (simp add: s'_def time_at_def fun_eq_iff)
  have "timed_ok s'" by (rule timed_ok_cong [of s]) (use assms time in \<open>simp_all add: sc_ok_def s'_def\<close>)
  moreover have "nodes_ok s'" using assms by (simp add: sc_ok_def nodes_ok_def s'_def)
  moreover have "delta_ok s'" using assms e by (auto simp: sc_ok_def delta_ok_def s'_def nth_append less_Suc_eq)
  moreover have "links_ok s'" using assms unfolding sc_ok_def links_ok_def s'_def by fastforce
  moreover have "pending s' = (pending s)(e := Some Delta)" unfolding pending_def time by (auto simp: s'_def fun_eq_iff split: notify_t.split)
  moreover have "m_curr_time s' = m_curr_time s" by (simp add: s'_def)
  ultimately show ?thesis using run by (simp add: sc_ok_def)
qed

lemma swap_remove:
  assumes "distinct ds" and "i < length ds" and "k < length ds - 1"
  shows "butlast (ds[i := last ds]) ! k = (if k = i then last ds else ds ! k)"
  using assms by (simp add: nth_butlast nth_list_update)

lemma swap_remove_set:
  assumes "distinct ds" and "i < length ds"
  shows "distinct (butlast (ds[i := last ds])) \<and> set (butlast (ds[i := last ds])) = set ds - {ds ! i}"
proof (cases "i = length ds - 1")
  case True
  then have "ds = butlast ds @ [ds ! i]" using assms(2) by (metis append_butlast_last_id last_conv_nth length_greater_0_conv less_nat_zero_code list.size(3))
  moreover have "ds[i := last ds] = ds" using True assms(2) by (metis last_conv_nth length_0_conv list_update_id not_less_zero)
  ultimately show ?thesis using assms(1) by (metis Diff_insert_absorb distinct_append distinct_butlast insert_is_Un not_distinct_conv_prefix set_append list.simps(15) empty_set sup_commute)
next
  case False
  define cs x where "cs = butlast ds" and "x = last ds"
  have ds: "ds = cs @ [x]" unfolding cs_def x_def using assms(2) append_butlast_last_id [of ds] by fastforce
  then have i: "i < length cs" "ds ! i = cs ! i" using False assms(2) by (auto simp: nth_append)
  have b: "butlast (ds[i := last ds]) = cs[i := x]" using ds i(1) by (simp add: list_update_append)
  have cs: "distinct cs" "x \<notin> set cs" using assms(1) ds by auto
  then have "set (cs[i := x]) = insert x (set cs - {cs ! i})" using i(1) by (simp add: set_update_distinct)
  moreover have "x \<noteq> cs ! i" using cs(2) i(1) nth_mem by metis
  ultimately show ?thesis unfolding b i(2) using cs i(1) ds by (auto intro: distinct_list_update)
qed

lemma cancel_delta_ok:
  assumes "sc_ok s" and "m_notify_type (event_of s e) = DELTA"
  shows "\<exists>s'. cancel e s = Ret () s' \<and> sc_ok s' \<and> pending s' = (pending s)(e := None) \<and> m_notify_type (event_of s' e) = NONE \<and>
    m_curr_time s' = m_curr_time s"
proof -
  let ?ds = "m_delta_events s"
  have d: "distinct ?ds" "\<And>x. m_notify_type (event_of s x) = DELTA \<longleftrightarrow> x \<in> set ?ds"
      "\<And>k. k < length ?ds \<Longrightarrow> m_delta_event_index (event_of s (?ds ! k)) = int k"
    using assms(1) by (auto simp: sc_ok_def delta_ok_def)
  obtain i where i: "i < length ?ds" "?ds ! i = e" using d(2) assms(2) by (metis in_set_conv_nth)
  define ds where "ds = butlast (?ds[i := last ?ds])"
  define f where "f = (if i \<noteq> length ?ds - 1 then (event_of s)(last ?ds := (event_of s (last ?ds))\<lparr>m_delta_event_index := int i\<rparr>) else event_of s)"
  define s' where "s' = s\<lparr>m_delta_events := ds, event_of := f(e := (f e)\<lparr>m_delta_event_index := -1, m_notify_type := NONE\<rparr>)\<rparr>"
  have idx: "m_delta_event_index (event_of s e) = int i" using d(3) [OF i(1)] i(2) by simp
  have stay: "?ds[i := last ?ds] = ?ds" if "i = length ?ds - 1" using that i(1) by (metis last_conv_nth length_0_conv list_update_id not_less_zero)
  have run: "cancel e s = Ret () s'"
  proof (cases "i = length ?ds - 1")
    case True
    then show ?thesis using stay i(1) assms(2) idx
      by (auto simp: cancel_def remove_delta_event_def bnd_def Let_def s'_def f_def ds_def set_event_def)
  next
    case False
    then show ?thesis using i(1) assms(2) idx
      by (simp add: cancel_def remove_delta_event_def bnd_def Let_def s'_def f_def ds_def set_event_def)
  qed
  have time: "time_at s' = time_at s" by (simp add: s'_def time_at_def fun_eq_iff)
  have f: "m_notify_type (f x) = m_notify_type (event_of s x)" "m_timed (f x) = m_timed (event_of s x)" for x by (simp_all add: f_def)
  have ds: "distinct ds" "set ds = set ?ds - {e}" using swap_remove_set [OF d(1) i(1)] i(2) by (simp_all add: ds_def)
  have "timed_ok s'" by (rule timed_ok_cong [of s]) (use assms time in \<open>simp_all add: sc_ok_def s'_def\<close>)
  moreover have "nodes_ok s'" using assms by (simp add: sc_ok_def nodes_ok_def s'_def)
  moreover have "delta_ok s'"
  proof -
    have "m_delta_event_index (event_of s' (ds ! k)) = int k" if "k < length ds" for k
    proof -
      have k: "k < length ?ds - 1" "k < length ?ds" using that by (simp_all add: ds_def)
      have nth: "ds ! k = (if k = i then last ?ds else ?ds ! k)" using swap_remove [OF d(1) i(1) k(1)] by (simp add: ds_def)
      have "ds ! k \<noteq> e" using ds(2) nth_mem [OF that] by blast
      moreover have "?ds ! k \<noteq> last ?ds" using k d(1) by (metis last_conv_nth length_0_conv nat_neq_iff not_less_zero nth_eq_iff_index_eq diff_less zero_less_one length_greater_0_conv)
      ultimately show ?thesis using nth d(3) [OF k(2)] k(1) by (auto simp: s'_def f_def)
    qed
    then show ?thesis using ds d(2) f(1) by (auto simp: delta_ok_def s'_def)
  qed
  moreover have "links_ok s'" using assms f unfolding sc_ok_def links_ok_def s'_def by fastforce
  moreover have "pending s' = (pending s)(e := None)" unfolding pending_def time by (auto simp: s'_def f fun_eq_iff split: notify_t.split)
  moreover have "m_curr_time s' = m_curr_time s" "m_notify_type (event_of s' e) = NONE" by (simp_all add: s'_def)
  ultimately show ?thesis using run by (simp add: sc_ok_def)
qed

section \<open>Operations on the queue of timed notifications\<close>

abbreviation clear_type :: "nat \<Rightarrow> 'a sc_simcontext_scheme \<Rightarrow> 'a sc_simcontext_scheme" where
  "clear_type e \<equiv> set_event e (\<lambda>ev. ev\<lparr>m_notify_type := NONE\<rparr>)"

lemma detach_ok:
  assumes "sc_ok s" and "m_notify_type (event_of s e) = TIMED"
  shows "\<exists>s'. detach e s = Ret () s' \<and> sc_ok (clear_type e s') \<and> pending (clear_type e s') = (pending s)(e := None) \<and>
    m_curr_time s' = m_curr_time s"
proof -
  note links = sc_links [OF assms(1)]
  obtain p et where p: "m_timed (event_of s e) = Some p" "timed_at s p = Some et" "m_event et = Some e" using links(2) [OF assms(2)] by blast
  define s' where "s' = set_event e (\<lambda>ev. ev\<lparr>m_timed := None\<rparr>) (s\<lparr>timed_at := (timed_at s)(p \<mapsto> et\<lparr>m_event := None\<rparr>)\<rparr>)"
  let ?s = "clear_type e s'"
  have run: "detach e s = Ret () s'" using p by (simp add: detach_def s'_def)
  have time: "time_at ?s = time_at s" using p(2) by (simp add: s'_def time_at_def fun_eq_iff)
  have dom: "dom (timed_at ?s) = dom (timed_at s)" using p(2) by (auto simp: s'_def)
  have "timed_ok ?s" by (rule timed_ok_cong [of s]) (use assms time dom in \<open>simp_all add: sc_ok_def s'_def\<close>)
  moreover have "nodes_ok ?s" using assms(1) dom by (simp add: sc_ok_def nodes_ok_def s'_def)
  moreover have "delta_ok ?s" using assms delta_iff [OF assms(1), of e] by (auto simp: sc_ok_def delta_ok_def s'_def)
  moreover have "links_ok ?s" unfolding links_ok_def
  proof (intro conjI allI impI)
    fix q et' x assume q: "timed_at ?s q = Some et' \<and> m_event et' = Some x"
    then have "q \<noteq> p" "timed_at s q = Some et'" "m_event et' = Some x" by (auto simp: s'_def split: if_splits)
    then have "m_notify_type (event_of s x) = TIMED" "m_timed (event_of s x) = Some q" "x \<noteq> e" using links(1) [of q et' x] p(1) by auto
    then show "m_notify_type (event_of ?s x) = TIMED" "m_timed (event_of ?s x) = Some q" by (simp_all add: s'_def)
  next
    fix x assume x: "m_notify_type (event_of ?s x) = TIMED"
    then have "x \<noteq> e" "m_notify_type (event_of s x) = TIMED" by (auto simp: s'_def split: if_splits)
    then obtain q et' where q: "m_timed (event_of s x) = Some q" "timed_at s q = Some et'" "m_event et' = Some x" using links(2) by blast
    then have "q \<noteq> p" using \<open>x \<noteq> e\<close> p(2,3) by auto
    with q \<open>x \<noteq> e\<close> show "\<exists>q et'. m_timed (event_of ?s x) = Some q \<and> timed_at ?s q = Some et' \<and> m_event et' = Some x"
      by (intro exI [of _ q] exI [of _ et']) (simp add: s'_def)
  qed
  moreover have "pending ?s = (pending s)(e := None)" unfolding pending_def time by (auto simp: s'_def fun_eq_iff split: notify_t.split)
  moreover have "m_curr_time s' = m_curr_time s" by (simp add: s'_def)
  ultimately show ?thesis using run by (simp add: sc_ok_def)
qed

lemma cancel_ok:
  assumes "sc_ok s"
  shows "\<exists>s'. cancel e s = Ret () s' \<and> sc_ok s' \<and> pending s' = (pending s)(e := None) \<and> m_notify_type (event_of s' e) = NONE \<and>
    m_curr_time s' = m_curr_time s"
proof (cases "m_notify_type (event_of s e)")
  case NONE
  then show ?thesis using assms by (auto simp: cancel_def pending_def fun_eq_iff)
next
  case DELTA
  then show ?thesis using cancel_delta_ok [OF assms] by blast
next
  case TIMED
  obtain s' where "detach e s = Ret () s'" "sc_ok (clear_type e s')" "pending (clear_type e s') = (pending s)(e := None)"
      "m_curr_time s' = m_curr_time s"
    using detach_ok [OF assms TIMED] by blast
  with TIMED show ?thesis by (intro exI [of _ "clear_type e s'"]) (simp add: cancel_def bnd_def)
qed

lemma timed_allocate_ok:
  assumes "nodes_ok s"
  shows "\<exists>p fl brk. timed_allocate s = Ret p (s\<lparr>free_list := fl, malloc_next := brk\<rparr>) \<and> p \<notin> dom (timed_at s) \<and>
    distinct fl \<and> p \<notin> set fl \<and> set fl \<inter> dom (timed_at s) = {} \<and> p < brk \<and> (\<forall>q \<in> set fl \<union> dom (timed_at s). q < brk)"
proof (cases "free_list s")
  case Nil
  let ?b = "malloc_next s"
  have fl: "[?b..<?b + 64] = ?b # [Suc ?b..<?b + 64]" by (simp add: upt_rec)
  have lt: "q < ?b" if "q \<in> dom (timed_at s)" for q using that assms by (simp add: nodes_ok_def)
  have "timed_allocate s = Ret ?b (s\<lparr>free_list := [Suc ?b..<?b + 64], malloc_next := ?b + 64\<rparr>)"
    using Nil by (simp add: timed_allocate_def Let_def fl)
  moreover have "?b \<notin> dom (timed_at s)" "set [Suc ?b..<?b + 64] \<inter> dom (timed_at s) = {}" using lt by fastforce+
  moreover have "\<forall>q \<in> set [Suc ?b..<?b + 64] \<union> dom (timed_at s). q < ?b + 64" using lt by (fastforce dest: lt)
  ultimately show ?thesis
    by (intro exI [of _ ?b] exI [of _ "[Suc ?b..<?b + 64]"] exI [of _ "?b + 64"]) (simp del: upt_Suc)
next
  case (Cons p fl)
  then show ?thesis using assms
    by (intro exI [of _ p] exI [of _ fl] exI [of _ "malloc_next s"]) (auto simp: timed_allocate_def nodes_ok_def Let_def)
qed

lemma timed_notification_ok:
  assumes "sc_ok s" and "m_notify_type (event_of s e) = NONE"
  shows "\<exists>s'. timed_notification e t s = Ret () s' \<and> sc_ok s' \<and> pending s' = (pending s)(e := Some (At (m_curr_time s + t))) \<and>
    m_curr_time s' = m_curr_time s"
proof -
  obtain p fl brk where p: "timed_allocate s = Ret p (s\<lparr>free_list := fl, malloc_next := brk\<rparr>)" "p \<notin> dom (timed_at s)"
      "distinct fl" "p \<notin> set fl" "set fl \<inter> dom (timed_at s) = {}" "p < brk" "\<forall>q \<in> set fl \<union> dom (timed_at s). q < brk"
    using timed_allocate_ok [of s] assms(1) by (auto simp: sc_ok_def)
  let ?T = "m_curr_time s + t" and ?q = "m_timed_events s"
  define h where "h = (timed_at s)(p \<mapsto> \<lparr>m_event = Some e, m_notify_time = ?T\<rparr>)"
  define s1 where "s1 = s\<lparr>free_list := fl, malloc_next := brk, timed_at := h\<rparr>"
  define s' where "s' = set_event e (\<lambda>ev. ev\<lparr>m_timed := Some p, m_notify_type := TIMED\<rparr>) (s1\<lparr>m_timed_events := ppq_insert (compar s1) p ?q\<rparr>)"
  have run: "timed_notification e t s = Ret () s'"
    using p(1) by (simp add: timed_notification_def new_event_timed_def bnd_def add_timed_event_def s'_def s1_def h_def)
  have time1: "time_at s1 x = (if x = p then ?T else time_at s x)" for x by (simp add: s1_def h_def time_at_def)
  have time: "time_at s' = time_at s1" by (simp add: s'_def time_at_def fun_eq_iff)
  have q: "ppq_ok (compar s) ?q" "distinct (ppq_elems ?q)" "set (ppq_elems ?q) = dom (timed_at s)" using assms(1) by (simp_all add: sc_ok_def timed_ok_def)
  have "ppq_ok (compar s1) ?q"
    by (rule ppq_ok_cong [OF q(1)]) (use q(3) p(2) time1 in \<open>auto simp: sc_notify_time_compare_def\<close>)
  then have q': "ppq_ok (compar s1) (m_timed_events s')" "mset (ppq_elems (m_timed_events s')) = add_mset p (mset (ppq_elems ?q))"
    using time_order.ppq_insert_ok by (simp_all add: s'_def)
  then have "set (ppq_elems (m_timed_events s')) = insert p (dom (timed_at s))" using q(3) by (metis set_mset_add_mset_insert set_mset_mset)
  moreover have "distinct (ppq_elems (m_timed_events s'))" using q'(2) q(2,3) p(2) by (metis distinct.simps(2) mset.simps(2) mset_eq_imp_distinct_iff)
  ultimately have "timed_ok s'" using q'(1) by (simp add: timed_ok_def time) (simp add: s'_def s1_def h_def)
  moreover have "nodes_ok s'" using p(2-7) by (auto simp: nodes_ok_def s'_def s1_def h_def)
  moreover have "delta_ok s'" using assms delta_iff [OF assms(1), of e] by (auto simp: sc_ok_def delta_ok_def s'_def s1_def)
  moreover have "links_ok s'" unfolding links_ok_def
  proof (intro conjI allI impI)
    fix r et x assume r: "timed_at s' r = Some et \<and> m_event et = Some x"
    have "m_notify_type (event_of s x) = TIMED \<and> m_timed (event_of s x) = Some r" if "r \<noteq> p"
      using that r assms(1) by (auto simp: sc_ok_def links_ok_def s'_def s1_def h_def)
    moreover have "x = e" if "r = p" using that r by (simp add: s'_def s1_def h_def) auto
    ultimately show "m_notify_type (event_of s' x) = TIMED" "m_timed (event_of s' x) = Some r"
      using assms(2) by (cases "r = p"; auto simp: s'_def s1_def)+
  next
    fix x assume x: "m_notify_type (event_of s' x) = TIMED"
    show "\<exists>r et. m_timed (event_of s' x) = Some r \<and> timed_at s' r = Some et \<and> m_event et = Some x"
    proof (cases "x = e")
      case True
      then show ?thesis by (simp add: s'_def s1_def h_def)
    next
      case False
      then obtain r et where "m_timed (event_of s x) = Some r" "timed_at s r = Some et" "m_event et = Some x"
        using x assms(1) unfolding sc_ok_def links_ok_def by (auto simp: s'_def s1_def)
      then show ?thesis using False p(2) by (intro exI [of _ r] exI [of _ et]) (auto simp: s'_def s1_def h_def)
    qed
  qed
  moreover have "pending s' = (pending s)(e := Some (At ?T))"
  proof
    fix x
    show "pending s' x = ((pending s)(e := Some (At ?T))) x"
    proof (cases "x = e")
      case True
      have "m_notify_type (event_of s' e) = TIMED" "m_timed (event_of s' e) = Some p" by (simp_all add: s'_def)
      then show ?thesis using True by (simp add: pending_def time time1)
    next
      case False
      have "time_at s r = time_at s1 r" if "m_notify_type (event_of s x) = TIMED" "m_timed (event_of s x) = Some r" for r
      proof -
        have "r \<in> dom (timed_at s)" using that assms(1) unfolding sc_ok_def links_ok_def by fastforce
        then show ?thesis using p(2) time1 by metis
      qed
      moreover have "event_of s' x = event_of s x" using False by (simp add: s'_def s1_def)
      ultimately show ?thesis using False unfolding pending_def time
        by (cases "m_notify_type (event_of s x)"; cases "m_timed (event_of s x)") simp_all
    qed
  qed
  moreover have "m_curr_time s' = m_curr_time s" by (simp add: s'_def s1_def)
  ultimately show ?thesis using run by (simp add: sc_ok_def)
qed

section \<open>Notification\<close>

lemma clear_type_steps:
  "new_event_timed e t (clear_type e s) = (case new_event_timed e t s of Ret p s1 \<Rightarrow> Ret p (clear_type e s1))"
  "add_timed_event p (clear_type e s) = (case add_timed_event p s of Ret u s1 \<Rightarrow> Ret u (clear_type e s1))"
  by (simp_all add: new_event_timed_def bnd_def timed_allocate_def add_timed_event_def Let_def) (simp_all add: set_event_def)

lemma notification_clear_type:
  "delta_notification e (clear_type e s) = delta_notification e s"
  "timed_notification e t (clear_type e s) = timed_notification e t s"
proof -
  show "delta_notification e (clear_type e s) = delta_notification e s"
    by (simp add: delta_notification_def bnd_def add_delta_event_def set_event_def Let_def)
  obtain p s1 where "new_event_timed e (m_curr_time s + t) s = Ret p s1" by (simp add: new_event_timed_def bnd_def timed_allocate_def Let_def)
  then show "timed_notification e t (clear_type e s) = timed_notification e t s"
    by (simp add: timed_notification_def bnd_def clear_type_steps add_timed_event_def) (simp add: set_event_def)
qed

lemma notify_ok:
  assumes "sc_ok s"
  shows "\<exists>s'. notify e t s = Ret () s' \<and> sc_ok s' \<and> m_curr_time s' = m_curr_time s \<and>
    pending s' = (pending s)(e := earliest (pending s e) (if t = 0 then Delta else At (m_curr_time s + t)))"
proof (cases "m_notify_type (event_of s e)")
  case NONE
  then show ?thesis
    using delta_notification_ok [OF assms NONE] timed_notification_ok [OF assms NONE, of t]
    by (auto simp: notify_def pending_def)
next
  case DELTA
  then have "pending s e = Some Delta" by (simp add: pending_def)
  then have "(pending s)(e := earliest (pending s e) n) = pending s" for n by (simp add: fun_upd_idem)
  then show ?thesis using DELTA assms by (simp add: notify_def)
next
  case TIMED
  obtain s' where s': "detach e s = Ret () s'" "sc_ok (clear_type e s')" "pending (clear_type e s') = (pending s)(e := None)"
      "m_curr_time s' = m_curr_time s"
    using detach_ok [OF assms TIMED] by blast
  obtain p et where p: "m_timed (event_of s e) = Some p" "timed_at s p = Some et"
    using assms TIMED unfolding sc_ok_def links_ok_def by blast
  have pend: "pending s e = Some (At (time_at s p))" using TIMED p by (simp add: pending_def)
  show ?thesis
  proof (cases "t = 0")
    case True
    obtain s'' where "delta_notification e s' = Ret () s''" "sc_ok s''" "pending s'' = (pending s)(e := Some Delta)" "m_curr_time s'' = m_curr_time s"
      using delta_notification_ok [OF s'(2), of e] s'(3,4) unfolding notification_clear_type by auto
    with True TIMED s'(1) pend show ?thesis by (simp add: notify_def bnd_def)
  next
    case False
    show ?thesis
    proof (cases "time_at s p \<le> m_curr_time s + t")
      case True
      then have "(pending s)(e := earliest (pending s e) (At (m_curr_time s + t))) = pending s" using pend by (simp add: fun_upd_idem min_absorb1)
      with True False TIMED p assms show ?thesis by (simp add: notify_def domIff)
    next
      case later: False
      obtain s'' where "timed_notification e t s' = Ret () s''" "sc_ok s''" "pending s'' = (pending s)(e := Some (At (m_curr_time s + t)))"
          "m_curr_time s'' = m_curr_time s"
        using timed_notification_ok [OF s'(2), of e t] s'(3,4) unfolding notification_clear_type by auto
      moreover have "min (time_at s p) (m_curr_time s + t) = m_curr_time s + t" using later by (simp add: min_def)
      ultimately show ?thesis using False later TIMED p s'(1) pend by (simp add: notify_def bnd_def domIff)
    qed
  qed
qed

lemma notify_internal_ok:
  assumes "sc_ok s" and "m_notify_type (event_of s e) = NONE"
  shows "\<exists>s'. notify_internal e t s = Ret () s' \<and> sc_ok s' \<and> m_curr_time s' = m_curr_time s \<and>
    pending s' = (pending s)(e := Some (if t = 0 then Delta else At (m_curr_time s + t)))"
  using delta_notification_ok [OF assms] timed_notification_ok [OF assms, of t] by (auto simp: notify_internal_def)

section \<open>Triggering\<close>

lemma time_at_trigger [simp]: "time_at (trigger e s) = time_at s"
  by (simp add: time_at_def trigger_keeps fun_eq_iff)

lemma trigger_none_ok:
  assumes "sc_ok s" and "m_notify_type (event_of s e) = NONE"
  shows "sc_ok (trigger e s)" and "pending (trigger e s) = pending s"
proof -
  have "timed_ok (trigger e s)" by (rule timed_ok_cong [of s]) (use assms in \<open>simp_all add: sc_ok_def trigger_keeps\<close>)
  moreover have "nodes_ok (trigger e s)" using assms by (simp add: sc_ok_def nodes_ok_def trigger_keeps)
  moreover have "delta_ok (trigger e s)" using assms delta_iff [OF assms(1), of e] by (auto simp: sc_ok_def delta_ok_def trigger_keeps)
  moreover have "links_ok (trigger e s)" using assms unfolding sc_ok_def links_ok_def by (fastforce simp: trigger_keeps)
  ultimately show "sc_ok (trigger e s)" by (simp add: sc_ok_def)
  show "pending (trigger e s) = pending s" using assms(2) by (auto simp: pending_def trigger_keeps fun_eq_iff split: notify_t.split option.split)
qed

section \<open>Taking notifications out of the queue\<close>

lemma pop_delete_ok:
  assumes ok: "sc_ok s" and "m_heap_size (m_timed_events s) \<noteq> 0"
  defines "p \<equiv> ppq_top (m_timed_events s)"
  obtains et s1 s2 s3 where "timed_at s p = Some et" and "pop_timed_event s = Ret p s1" and "timed_at s1 p = Some et"
    and "delete_event_timed p s1 = Ret () s2" and "s3 = (case m_event et of Some e \<Rightarrow> trigger e s2 | None \<Rightarrow> s2)"
    and "sc_ok s3" and "pending s3 = (case m_event et of Some e \<Rightarrow> (pending s)(e := None) | None \<Rightarrow> pending s)"
    and "timed_at s3 = (timed_at s)(p := None)" and "m_curr_time s3 = m_curr_time s" and "m_delta_events s3 = m_delta_events s"
    and "m_heap_size (m_timed_events s3) < m_heap_size (m_timed_events s)"
    and "\<And>x. x \<in> dom (timed_at s) \<Longrightarrow> time_at s p \<le> time_at s x"
    and "\<And>e. m_event et = Some e \<Longrightarrow> pending s e = Some (At (time_at s p))"
proof -
  let ?q = "m_timed_events s"
  have q: "ppq_ok (compar s) ?q" "distinct (ppq_elems ?q)" "set (ppq_elems ?q) = dom (timed_at s)" "\<not> ppq_empty ?q"
    using assms(1,2) by (simp_all add: sc_ok_def timed_ok_def ppq_empty_def)
  obtain q' where q': "extract_top (compar s) ?q = Some (p, q')" "ppq_ok (compar s) q'" "mset (ppq_elems ?q) = add_mset p (mset (ppq_elems q'))"
    using time_order.extract_top_ok(1) [OF q(1,4)] by (auto simp: p_def)
  have min: "time_at s p \<le> time_at s x" if "x \<in> dom (timed_at s)" for x
    using time_order.extract_top_ok(2) [OF q(1,4), of x] that q(3) by (simp add: compare_ge p_def)
  have elems: "distinct (p # ppq_elems q')" "set (p # ppq_elems q') = dom (timed_at s)"
    using q'(3) q(2,3) by (metis mset.simps(2) mset_eq_imp_distinct_iff, metis mset.simps(2) mset_eq_setD)
  then have "p \<in> dom (timed_at s)" by auto
  then obtain et where et: "timed_at s p = Some et" by auto
  define s1 where "s1 = s\<lparr>m_timed_events := q'\<rparr>"
  define ev where "ev = (case m_event et of Some e \<Rightarrow> (event_of s)(e := (event_of s e)\<lparr>m_timed := None\<rparr>) | None \<Rightarrow> event_of s)"
  define s2 where "s2 = s1\<lparr>event_of := ev, timed_at := (timed_at s)(p := None), free_list := p # free_list s\<rparr>"
  define s3 where "s3 = (case m_event et of Some e \<Rightarrow> trigger e s2 | None \<Rightarrow> s2)"
  have pop: "pop_timed_event s = Ret p s1" "timed_at s1 p = Some et" using q'(1) et by (simp_all add: pop_timed_event_def s1_def)
  have del: "delete_event_timed p s1 = Ret () s2"
    using pop(2) by (simp add: delete_event_timed_def timed_deallocate_def Let_def s2_def s1_def ev_def set_event_def split: option.split)
  have keeps: "timed_at s3 = (timed_at s)(p := None)" "m_timed_events s3 = q'" "free_list s3 = p # free_list s" "malloc_next s3 = malloc_next s"
      "m_curr_time s3 = m_curr_time s" "m_delta_events s3 = m_delta_events s"
    by (simp_all add: s3_def s2_def s1_def trigger_keeps split: option.split)
  have evs: "event_of s3 x = (if m_event et = Some x then (event_of s x)\<lparr>m_timed := None, m_trigger_stamp := m_change_stamp s, m_notify_type := NONE,
      m_delta_event_index := -1\<rparr> else event_of s x)" for x
    by (simp add: s3_def s2_def s1_def ev_def trigger_keeps split: option.split)
  note links = sc_links [OF ok]
  have time: "time_at s3 x = time_at s x" if "x \<noteq> p" for x using that by (simp add: time_at_def keeps)
  have "timed_ok s3"
  proof -
    have "ppq_ok (compar s3) q'"
    proof (rule ppq_ok_cong [OF q'(2)])
      have "time_at s3 x = time_at s x" if "x \<in> set (ppq_elems q')" for x using that elems(1) time by (metis distinct.simps(2))
      then show "compar s a b = compar s3 a b" if "a \<in> set (ppq_elems q')" "b \<in> set (ppq_elems q')" for a b
        using that by (simp add: sc_notify_time_compare_def)
    qed
    moreover have "set (ppq_elems q') = dom (timed_at s) - {p}" using elems by auto
    ultimately show ?thesis using elems(1) by (simp add: timed_ok_def keeps)
  qed
  moreover have "nodes_ok s3" using ok et by (auto simp: sc_ok_def nodes_ok_def keeps)
  moreover have "delta_ok s3"
  proof -
    have "m_event et \<noteq> Some x" if "x \<in> set (m_delta_events s)" for x using that links(1) [OF et] delta_iff [OF ok] by auto
    then show ?thesis using ok by (auto simp: sc_ok_def delta_ok_def keeps evs)
  qed
  moreover have "links_ok s3" unfolding links_ok_def
  proof (intro conjI allI impI)
    fix r et' x assume r: "timed_at s3 r = Some et' \<and> m_event et' = Some x"
    then have "r \<noteq> p" "timed_at s r = Some et'" by (auto simp: keeps split: if_splits)
    moreover have "m_event et \<noteq> Some x" using links(1) [OF et, of x] links(1) [of r et' x] r calculation by auto
    ultimately show "m_notify_type (event_of s3 x) = TIMED" "m_timed (event_of s3 x) = Some r" using links(1) [of r et' x] r by (simp_all add: evs)
  next
    fix x assume x: "m_notify_type (event_of s3 x) = TIMED"
    then have "m_event et \<noteq> Some x" by (auto simp: evs)
    moreover obtain r et' where "m_timed (event_of s x) = Some r" "timed_at s r = Some et'" "m_event et' = Some x"
      using x links(2) [of x] calculation by (auto simp: evs)
    moreover have "r \<noteq> p" using calculation et by auto
    ultimately show "\<exists>r et'. m_timed (event_of s3 x) = Some r \<and> timed_at s3 r = Some et' \<and> m_event et' = Some x" by (simp add: evs keeps)
  qed
  ultimately have "sc_ok s3" by (simp add: sc_ok_def)
  moreover have "pending s3 = (case m_event et of Some e \<Rightarrow> (pending s)(e := None) | None \<Rightarrow> pending s)"
  proof
    fix x
    have "time_at s3 r = time_at s r" if "m_event et \<noteq> Some x" "m_notify_type (event_of s x) = TIMED" "m_timed (event_of s x) = Some r" for r
      using that links(2) [of x] et time [of r] by force
    then show "pending s3 x = (case m_event et of Some e \<Rightarrow> (pending s)(e := None) | None \<Rightarrow> pending s) x"
      unfolding pending_def evs by (cases "m_event et = Some x"; cases "m_notify_type (event_of s x)"; cases "m_timed (event_of s x)") (auto split: option.split)
  qed
  moreover have "m_heap_size (m_timed_events s3) < m_heap_size ?q" using pop_shrinks [OF pop(1)] by (simp add: keeps s1_def)
  moreover have "pending s e = Some (At (time_at s p))" if "m_event et = Some e" for e using links(1) [OF et that] by (simp add: pending_def)
  ultimately show thesis using that [OF et pop del s3_def] keeps min by blast
qed

text \<open>The nodes of the queue are the pending timed notifications and the cancelled ones.\<close>

lemma pending_At:
  assumes "sc_ok s" and "pending s e = Some (At t)"
  obtains p where "p \<in> dom (timed_at s)" and "time_at s p = t"
proof -
  have "m_notify_type (event_of s e) = TIMED" using assms(2) by (auto simp: pending_def split: notify_t.splits)
  then obtain p et where "m_timed (event_of s e) = Some p" "timed_at s p = Some et" using sc_links(2) [OF assms(1)] by blast
  with assms(2) \<open>m_notify_type (event_of s e) = TIMED\<close> that show ?thesis by (auto simp: pending_def)
qed

lemma queue_empty: "sc_ok s \<Longrightarrow> m_heap_size (m_timed_events s) = 0 \<Longrightarrow> dom (timed_at s) = {}"
  using time_order.ppq_empty_iff [of "time_at s" "m_timed_events s"] by (auto simp: sc_ok_def timed_ok_def ppq_empty_def)

lemma next_time_ok:
  assumes "sc_ok s"
  shows "\<exists>r s'. next_time s = Ret r s' \<and> sc_ok s' \<and> pending s' = pending s \<and> m_curr_time s' = m_curr_time s \<and>
    m_delta_events s' = m_delta_events s \<and>
    (case r of None \<Rightarrow> \<forall>e t. pending s e \<noteq> Some (At t)
     | Some t \<Rightarrow> (\<exists>e. pending s e = Some (At t)) \<and> (\<forall>e u. pending s e = Some (At u) \<longrightarrow> t \<le> u) \<and>
         m_heap_size (m_timed_events s') \<noteq> 0 \<and> time_at s' (ppq_top (m_timed_events s')) = t)"
  using assms
proof (induction "m_heap_size (m_timed_events s)" arbitrary: s rule: less_induct)
  case less
  show ?case
  proof (cases "m_heap_size (m_timed_events s) = 0")
    case True
    then have "pending s e \<noteq> Some (At t)" for e t using pending_At [OF less.prems, of e t] queue_empty [OF less.prems True] by auto
    then show ?thesis using True less.prems by (simp add: next_time.simps)
  next
    case False
    let ?p = "ppq_top (m_timed_events s)"
    obtain et s1 s2 s3 where p: "timed_at s ?p = Some et" "pop_timed_event s = Ret ?p s1" "delete_event_timed ?p s1 = Ret () s2"
        "s3 = (case m_event et of Some e \<Rightarrow> trigger e s2 | None \<Rightarrow> s2)" "sc_ok s3"
        "pending s3 = (case m_event et of Some e \<Rightarrow> (pending s)(e := None) | None \<Rightarrow> pending s)"
        "m_curr_time s3 = m_curr_time s" "m_delta_events s3 = m_delta_events s" "m_heap_size (m_timed_events s3) < m_heap_size (m_timed_events s)"
        "\<And>x. x \<in> dom (timed_at s) \<Longrightarrow> time_at s ?p \<le> time_at s x" "\<And>e. m_event et = Some e \<Longrightarrow> pending s e = Some (At (time_at s ?p))"
      using pop_delete_ok [OF less.prems False] by metis
    show ?thesis
    proof (cases "m_event et")
      case None
      then have "next_time s = next_time s2" using False p(1-3) by (subst next_time.simps) simp
      then have next_time: "next_time s = next_time s3" using None p(4) by simp
      have pend: "pending s3 = pending s" using None p(6) by simp
      show ?thesis using less.hyps [OF p(9,5)] unfolding next_time pend p(7,8) .
    next
      case (Some e)
      have t: "time_at s ?p = m_notify_time et" using p(1) by (simp add: time_at_def)
      have "time_at s ?p \<le> u" if "pending s x = Some (At u)" for x u using pending_At [OF less.prems that] p(10) by metis
      moreover have "next_time s = Ret (Some (time_at s ?p)) s" using False p(1) Some t by (subst next_time.simps) simp
      ultimately show ?thesis using less.prems False p(11) [OF Some] by (intro exI [of _ "Some (time_at s ?p)"] exI [of _ s]) auto
    qed
  qed
qed

lemma timed_triggers_ok:
  assumes "sc_ok s" and "m_heap_size (m_timed_events s) \<noteq> 0" and "time_at s (ppq_top (m_timed_events s)) = t"
  shows "\<exists>s'. timed_triggers t s = Ret () s' \<and> sc_ok s' \<and> m_curr_time s' = m_curr_time s \<and> m_delta_events s' = m_delta_events s \<and>
    pending s' = (\<lambda>e. if pending s e = Some (At t) then None else pending s e)"
  using assms
proof (induction "m_heap_size (m_timed_events s)" arbitrary: s rule: less_induct)
  case less
  let ?p = "ppq_top (m_timed_events s)"
  obtain et s1 s2 s3 where p: "timed_at s ?p = Some et" "pop_timed_event s = Ret ?p s1" "timed_at s1 ?p = Some et" "delete_event_timed ?p s1 = Ret () s2"
      "s3 = (case m_event et of Some e \<Rightarrow> trigger e s2 | None \<Rightarrow> s2)" "sc_ok s3"
      "pending s3 = (case m_event et of Some e \<Rightarrow> (pending s)(e := None) | None \<Rightarrow> pending s)"
      "m_curr_time s3 = m_curr_time s" "m_delta_events s3 = m_delta_events s" "m_heap_size (m_timed_events s3) < m_heap_size (m_timed_events s)"
      "\<And>x. x \<in> dom (timed_at s) \<Longrightarrow> time_at s ?p \<le> time_at s x" "\<And>e. m_event et = Some e \<Longrightarrow> pending s e = Some (At (time_at s ?p))"
      "timed_at s3 = (timed_at s)(?p := None)"
    using pop_delete_ok [OF less.prems(1,2)] by metis
  let ?go = "m_heap_size (m_timed_events s3) \<noteq> 0 \<and> time_at s3 (ppq_top (m_timed_events s3)) = t"
  have step: "timed_triggers t s = (if ?go then timed_triggers t s3 else Ret () s3)"
    using p(2-5) by (subst timed_triggers.simps) (simp add: Let_def)
  have pend: "(\<lambda>e. if pending s3 e = Some (At t) then None else pending s3 e) = (\<lambda>e. if pending s e = Some (At t) then None else pending s e)"
    using p(12) less.prems(3) unfolding p(7) by (cases "m_event et") auto
  show ?case
  proof (cases ?go)
    case True
    then show ?thesis unfolding step using less.hyps [OF p(10,6)] p(8,9) pend by auto
  next
    case False
    have "pending s3 e \<noteq> Some (At t)" for e
    proof
      assume e: "pending s3 e = Some (At t)"
      then obtain r where r: "r \<in> dom (timed_at s3)" "time_at s3 r = t" using pending_At [OF p(6)] by metis
      then have ne: "m_heap_size (m_timed_events s3) \<noteq> 0" using queue_empty [OF p(6)] by blast
      obtain q where q: "q = ppq_top (m_timed_events s3)" "q \<in> dom (timed_at s3)" "\<And>x. x \<in> dom (timed_at s3) \<Longrightarrow> time_at s3 q \<le> time_at s3 x"
        using pop_delete_ok [OF p(6) ne] by (metis domI)
      have "time_at s3 q = time_at s q" "q \<in> dom (timed_at s)" using q(2) p(13) by (auto simp: time_at_def split: if_splits)
      then have "t \<le> time_at s3 q" using p(11) less.prems(3) by metis
      then show False using q(3) [OF r(1)] r(2) False ne q(1) by auto
    qed
    then have "(\<lambda>e. if pending s3 e = Some (At t) then None else pending s3 e) = pending s3" by auto
    then show ?thesis unfolding step using False p(6,8,9) pend by auto
  qed
qed

end
