(* ===== verification/Sc_Kernel.thy ===== *)
theory Sc_Kernel
  imports Sc_Event
begin

unbundle bit_operations_syntax

text \<open>
  The signals and the scheduler of the SystemC kernel: the update requests of \<open>sc_prim_channel\<close>, \<open>sc_signal\<close> with the
  default writer policy, \<open>sc_clock\<close>, and \<open>crunch\<close>, \<open>simulate\<close> and \<open>sc_start\<close> of \<open>sc_simcontext.cpp\<close>. A method process is a
  parameter of the scheduler: a program on the state of the simulation. There are no threads, no asynchronous updates, no
  dynamic sensitivity and no calls of \<open>sc_stop\<close> or \<open>sc_pause\<close>, as in the platforms.
\<close>

section \<open>Signals\<close>

text \<open>The value of a signal is a boolean or an integer. \<open>Log\<close> is for a variable of a single process.\<close>

datatype sc_value = Bool bool | Num int | Log "int list"

text \<open>\<open>m_queued\<close> says that \<open>m_update_next_p\<close> is not null. The three events exist once a process is sensitive to them; the
  edges are those of a signal of type \<open>bool\<close>.\<close>

record sc_signal =
  m_cur_val :: sc_value
  m_new_val :: sc_value
  m_writer :: "nat option"
  m_queued :: bool
  m_change_event :: "nat option"
  m_posedge_event :: "nat option"
  m_negedge_event :: "nat option"
  s_change_stamp :: "64 word"

record sc_sim = sc_simcontext +
  signal_of :: "nat \<Rightarrow> sc_signal"
  m_update_list :: "nat list"

type_synonym 'a sim_prog = "(sc_sim, 'a) prog"

definition set_signal :: "nat \<Rightarrow> (sc_signal \<Rightarrow> sc_signal) \<Rightarrow> sc_sim \<Rightarrow> sc_sim" where
  "set_signal x f s = s\<lparr>signal_of := (signal_of s)(x := f (signal_of s x))\<rparr>"

definition sig_read :: "nat \<Rightarrow> sc_sim \<Rightarrow> sc_value" where
  "sig_read x s = m_cur_val (signal_of s x)"

definition request_update :: "nat \<Rightarrow> sc_sim \<Rightarrow> sc_sim" where
  "request_update x s =
     (if m_queued (signal_of s x) then s
      else set_signal x (\<lambda>sg. sg\<lparr>m_queued := True\<rparr>) (s\<lparr>m_update_list := x # m_update_list s\<rparr>))"

text \<open>The first writer is stored; a write by another process is reported as an error. A write from outside the processes
  has no writer.\<close>

definition check_write :: "nat \<Rightarrow> unit sim_prog" where
  "check_write x s =
     (case m_writer (signal_of s x) of
        None \<Rightarrow> Ret () (set_signal x (\<lambda>sg. sg\<lparr>m_writer := m_curr_proc s\<rparr>) s)
      | Some w \<Rightarrow> if m_curr_proc s \<noteq> Some w \<and> m_curr_proc s \<noteq> None then Halt s else Ret () s)"

definition sig_write :: "nat \<Rightarrow> sc_value \<Rightarrow> unit sim_prog" where
  "sig_write x v s =
     (let value_changed = (m_new_val (signal_of s x) \<noteq> v) in
      bnd (check_write x) (\<lambda>_ s.
        let s = set_signal x (\<lambda>sg. sg\<lparr>m_new_val := v\<rparr>) s
        in Ret () (if value_changed then request_update x s else s)) s)"

definition notify_if :: "nat option \<Rightarrow> unit sim_prog" where
  "notify_if ev = (case ev of None \<Rightarrow> ret () | Some e \<Rightarrow> notify_next_delta e)"

definition do_update :: "nat \<Rightarrow> unit sim_prog" where
  "do_update x s =
     bnd (notify_if (m_change_event (signal_of s x))) (\<lambda>_ s.
       let s = set_signal x (\<lambda>sg. sg\<lparr>s_change_stamp := m_change_stamp s, m_cur_val := m_new_val sg\<rparr>) s
       in case m_cur_val (signal_of s x) of
            Bool b \<Rightarrow> notify_if (if b then m_posedge_event (signal_of s x) else m_negedge_event (signal_of s x)) s
          | _ \<Rightarrow> Ret () s) s"

definition update :: "nat \<Rightarrow> unit sim_prog" where
  "update x s = (if m_new_val (signal_of s x) \<noteq> m_cur_val (signal_of s x) then do_update x s else Ret () s)"

text \<open>The requests are served in the order of the list, the last one first.\<close>

fun update_channels :: "nat list \<Rightarrow> unit sim_prog" where
  "update_channels [] s = Ret () s"
| "update_channels (x # xs) s =
     bnd (update x) (\<lambda>_ s. update_channels xs (set_signal x (\<lambda>sg. sg\<lparr>m_queued := False\<rparr>) s)) s"

definition perform_update :: "unit sim_prog" where
  "perform_update s = update_channels (m_update_list s) (s\<lparr>m_update_list := []\<rparr>)"

section \<open>The clock\<close>

record sc_clock =
  clk_signal :: nat
  m_next_posedge_event :: nat
  m_next_negedge_event :: nat
  m_posedge_time :: sc_time
  m_negedge_time :: sc_time

definition posedge_action :: "sc_clock \<Rightarrow> unit sim_prog" where
  "posedge_action c =
     bnd (notify_internal (m_next_negedge_event c) (m_negedge_time c)) (\<lambda>_ s.
     Ret () (request_update (clk_signal c) (set_signal (clk_signal c) (\<lambda>sg. sg\<lparr>m_new_val := Bool True\<rparr>) s)))"

definition negedge_action :: "sc_clock \<Rightarrow> unit sim_prog" where
  "negedge_action c =
     bnd (notify_internal (m_next_posedge_event c) (m_posedge_time c)) (\<lambda>_ s.
     Ret () (request_update (clk_signal c) (set_signal (clk_signal c) (\<lambda>sg. sg\<lparr>m_new_val := Bool False\<rparr>) s)))"

section \<open>The scheduler\<close>

definition toggle_methods :: "sc_sim \<Rightarrow> sc_sim" where
  "toggle_methods s = (if m_methods_pop s = [] then s\<lparr>m_methods_pop := m_methods_push s, m_methods_push := []\<rparr> else s)"

definition pop_runnable_method :: "nat option sim_prog" where
  "pop_runnable_method s = (case m_methods_pop s of
     [] \<Rightarrow> Ret None (s\<lparr>m_curr_proc := None\<rparr>)
   | m # ms \<Rightarrow> Ret (Some m) (s\<lparr>m_methods_pop := ms, m_curr_proc := Some m\<rparr>))"

definition runnable_is_empty :: "sc_sim \<Rightarrow> bool" where
  "runnable_is_empty s \<longleftrightarrow> m_methods_push s = [] \<and> m_methods_pop s = []"

text \<open>The value of the loops says whether a process has run.\<close>

definition run_methods :: "(nat \<Rightarrow> unit sim_prog) \<Rightarrow> bool \<Rightarrow> bool sim_prog" where
  "run_methods body = loop (\<lambda>some. bnd pop_runnable_method (\<lambda>m. case m of
     None \<Rightarrow> ret (Inr some)
   | Some m \<Rightarrow> bnd (body m) (\<lambda>_. ret (Inl True))))"

definition evaluate :: "(nat \<Rightarrow> unit sim_prog) \<Rightarrow> bool sim_prog" where
  "evaluate body = loop (\<lambda>some. bnd (modify toggle_methods) (\<lambda>_. bnd (run_methods body some) (\<lambda>some.
     bnd (gets runnable_is_empty) (\<lambda>empty. ret (if empty then Inr some else Inl some))))) False"

text \<open>The notification phase: the last event of the set is triggered first.\<close>

definition trigger_delta_events :: "sc_sim \<Rightarrow> sc_sim" where
  "trigger_delta_events s = (fold trigger (rev (m_delta_events s)) s)\<lparr>m_delta_events := []\<rparr>"

text \<open>One turn of the loop of \<open>crunch\<close>, up to the test whether a process is runnable.\<close>

definition update_notify :: "bool \<Rightarrow> unit sim_prog" where
  "update_notify some =
     bnd (modify (\<lambda>s. s\<lparr>m_execution_phase := phase_update, m_change_stamp := m_change_stamp s + (if some then 1 else 0)\<rparr>)) (\<lambda>_.
     bnd perform_update (\<lambda>_.
     bnd (modify (\<lambda>s. s\<lparr>m_execution_phase := phase_notify\<rparr>)) (\<lambda>_.
     bnd (modify trigger_delta_events) (\<lambda>_.
     modify (\<lambda>s. s\<lparr>m_delta_count := m_delta_count s + (if some then 1 else 0)\<rparr>)))))"

definition delta_cycle :: "(nat \<Rightarrow> unit sim_prog) \<Rightarrow> unit sim_prog" where
  "delta_cycle body =
     bnd (modify (\<lambda>s. s\<lparr>m_execution_phase := phase_evaluate\<rparr>)) (\<lambda>_. bnd (evaluate body) update_notify)"

definition crunch :: "(nat \<Rightarrow> unit sim_prog) \<Rightarrow> bool \<Rightarrow> unit sim_prog" where
  "crunch body once =
     bnd (loop (\<lambda>_. bnd (delta_cycle body) (\<lambda>_. bnd (gets runnable_is_empty) (\<lambda>empty.
       ret (if empty \<or> once then Inr () else Inl ())))) ())
     (\<lambda>_. modify (\<lambda>s. s\<lparr>m_curr_proc := None\<rparr>))"

definition do_timestep :: "sc_time \<Rightarrow> unit sim_prog" where
  "do_timestep t s = (if \<not> m_curr_time s < t then Halt s else Ret () (s\<lparr>m_curr_time := t, m_change_stamp := m_change_stamp s + 1\<rparr>))"

text \<open>The inner loop of \<open>simulate\<close>: the notifications of the next times, until a process is runnable or the time is over.
  The result is the time \<open>t\<close> and whether the simulation is left.\<close>

definition advance :: "sc_time \<Rightarrow> sc_time \<Rightarrow> (sc_time \<times> bool) sim_prog" where
  "advance until = loop (\<lambda>t. bnd next_time (\<lambda>r. case r of
     None \<Rightarrow> ret (Inr (t, True))
   | Some t \<Rightarrow>
       if t > until then ret (Inr (t, True))
       else bnd (gets m_curr_time) (\<lambda>now. bnd (if t > now then do_timestep t else ret ()) (\<lambda>_.
            bnd (timed_triggers t) (\<lambda>_.
            bnd (gets runnable_is_empty) (\<lambda>empty. ret (if empty then Inl t else Inr (t, False))))))))"

text \<open>The initialisation of the first call of \<open>simulate\<close>, after the elaboration: the pending updates, the methods of the process
  table that are to be run initially, and the delta notifications.\<close>

definition initialize_method :: "nat \<Rightarrow> sc_sim \<Rightarrow> sc_sim" where
  "initialize_method m s =
     (let p = method_of s m in
      if ps_disabled p \<or> ps_dont_initialize p then s
      else if \<not> ps_suspended p then (if is_runnable m s then s else s\<lparr>m_methods_push := m # m_methods_push s\<rparr>)
      else s\<lparr>method_of := (method_of s)(m := p\<lparr>ps_ready_to_run := True\<rparr>)\<rparr>)"

definition prepare_to_simulate :: "nat list \<Rightarrow> unit sim_prog" where
  "prepare_to_simulate table s =
     (if m_ready_to_simulate s then Ret () s
      else bnd (modify (\<lambda>s. s\<lparr>m_ready_to_simulate := True, m_methods_push := [], m_methods_pop := [], m_execution_phase := phase_update\<rparr>)) (\<lambda>_.
           bnd perform_update (\<lambda>_.
           bnd (modify (\<lambda>s. s\<lparr>m_execution_phase := phase_notify\<rparr>)) (\<lambda>_.
           bnd (modify (fold initialize_method table)) (\<lambda>_.
           modify trigger_delta_events)))) s)"

definition simulate :: "nat list \<Rightarrow> (nat \<Rightarrow> unit sim_prog) \<Rightarrow> sc_time \<Rightarrow> unit sim_prog" where
  "simulate table body duration = bnd (prepare_to_simulate table) (\<lambda>_.
     bnd (gets m_curr_time) (\<lambda>start. let until = start + duration in
     if duration > - 1 - start then halt
     else bnd (if duration = 0 then crunch body True
         else bnd (loop (\<lambda>_. bnd (crunch body False) (\<lambda>_. bnd (gets m_curr_time) (\<lambda>now. bnd (advance until now) (\<lambda>(t, over).
                ret (if over \<or> \<not> t < until then Inr t else Inl ()))))) ())
              (\<lambda>t. bnd (gets m_curr_time) (\<lambda>now. if t > now \<and> t \<le> until then do_timestep t else ret ())))
       (\<lambda>_. modify (\<lambda>s. s\<lparr>m_execution_phase := phase_evaluate\<rparr>))))"

definition sc_start :: "nat list \<Rightarrow> (nat \<Rightarrow> unit sim_prog) \<Rightarrow> sc_time \<Rightarrow> unit sim_prog" where
  "sc_start table body duration =
     bnd (gets m_curr_time) (\<lambda>start. bnd (simulate table body duration) (\<lambda>_.
     bnd (gets m_curr_time) (\<lambda>now. if now < start + duration then do_timestep (start + duration) else ret ())))"

section \<open>Construction\<close>

text \<open>The constructors: an event and the methods that are sensitive to it, a signal with its initial value, a method that is not
  to be run initially (\<open>dont_initialize\<close>), and the simulation context. The objects are those of the elaborated platform.\<close>

definition sc_event_new :: "nat list \<Rightarrow> sc_event" where
  "sc_event_new methods = \<lparr>m_trigger_stamp = NOT 0, m_notify_type = NONE, m_delta_event_index = -1, m_timed = None, m_methods_static = methods\<rparr>"

definition sc_signal_new :: "sc_value \<Rightarrow> nat option \<Rightarrow> nat option \<Rightarrow> sc_signal" where
  "sc_signal_new initial_value posedge negedge =
     \<lparr>m_cur_val = initial_value, m_new_val = initial_value, m_writer = None, m_queued = False, m_change_event = None,
      m_posedge_event = posedge, m_negedge_event = negedge, s_change_stamp = NOT 1\<rparr>"

definition sc_method_new :: sc_method_process where
  "sc_method_new = \<lparr>ps_disabled = False, ps_suspended = False, ps_ready_to_run = False, ps_dont_initialize = True, m_trigger_is_static = True\<rparr>"

definition sc_simcontext_init :: "(nat \<Rightarrow> nat list) \<Rightarrow> (nat \<Rightarrow> sc_signal) \<Rightarrow> sc_sim" where
  "sc_simcontext_init sensitive signals =
     \<lparr>event_of = (\<lambda>e. sc_event_new (sensitive e)), method_of = (\<lambda>_. sc_method_new), timed_at = Map.empty, free_list = [], malloc_next = 1,
      m_delta_events = [], m_timed_events = ppq_new 128, m_methods_push = [], m_methods_pop = [], m_curr_proc = None,
      m_execution_phase = phase_initialize, m_ready_to_simulate = False, m_curr_time = 0, m_change_stamp = 0, m_delta_count = 0,
      signal_of = signals, m_update_list = []\<rparr>"

text \<open>The constructor of a clock that starts with the rising edge at time 0: \<open>init\<close>, which reports a zero time, and the first notification.\<close>

definition sc_clock_new :: "sc_clock \<Rightarrow> unit sim_prog" where
  "sc_clock_new c =
     (if m_negedge_time c = 0 \<or> m_posedge_time c = 0 then halt
      else bnd (modify (set_signal (clk_signal c) (\<lambda>sg. sg\<lparr>m_cur_val := Bool False, m_new_val := Bool False\<rparr>))) (\<lambda>_.
           notify_internal (m_next_posedge_event c) 0))"

end
