(* ===== verification/Sc_Delta.thy ===== *)
theory Sc_Delta
  imports Sc_Kernel
begin

text \<open>
  A delta cycle of the scheduler for methods that read and write signals: what the evaluation, update and notification
  phases do, and that the order of the processes does not matter.
\<close>

section \<open>What an operation leaves alone\<close>

text \<open>\<open>frame\<close> hides what the operations on notifications change, \<open>rest\<close> what the operations on signals change.\<close>

definition frame :: "'a sc_simcontext_scheme \<Rightarrow> 'a sc_simcontext_scheme" where
  "frame s = s\<lparr>event_of := (\<lambda>e. (event_of s e)\<lparr>m_notify_type := NONE, m_delta_event_index := 0, m_timed := None\<rparr>),
     timed_at := Map.empty, free_list := [], malloc_next := 0, m_delta_events := [], m_timed_events := ppq_new 2\<rparr>"

definition rest :: "sc_sim \<Rightarrow> sc_sim" where
  "rest s = s\<lparr>signal_of := (\<lambda>x. (signal_of s x)\<lparr>m_new_val := Num 0, m_writer := None, m_queued := False\<rparr>), m_update_list := []\<rparr>"

lemma frame_set_event:
  assumes "\<And>ev. (f ev)\<lparr>m_notify_type := NONE, m_delta_event_index := 0, m_timed := None\<rparr> =
    ev\<lparr>m_notify_type := NONE, m_delta_event_index := 0, m_timed := None\<rparr>"
  shows "frame (set_event e f s) = frame s"
  using assms by (simp add: frame_def set_event_def fun_eq_iff)

lemma frame_delta_notification: "delta_notification e s = Ret u s' \<Longrightarrow> frame s' = frame s"
  by (auto simp: delta_notification_def bnd_def add_delta_event_def frame_set_event Let_def) (simp add: frame_def)

lemma frame_timed_notification: "timed_notification e t s = Ret u s' \<Longrightarrow> frame s' = frame s"
  by (auto simp: timed_notification_def new_event_timed_def timed_allocate_def add_timed_event_def bnd_def frame_set_event Let_def)
    (simp_all add: frame_def)

lemma frame_notify_internal: "notify_internal e t s = Ret u s' \<Longrightarrow> frame s' = frame s"
  by (auto simp: notify_internal_def frame_delta_notification frame_timed_notification split: if_splits)

lemma frameD:
  assumes "frame s = frame (t :: sc_sim)"
  shows "signal_of s = signal_of t" "m_update_list s = m_update_list t" "m_methods_push s = m_methods_push t" "m_methods_pop s = m_methods_pop t"
    "m_curr_proc s = m_curr_proc t" "method_of s = method_of t" "m_curr_time s = m_curr_time t" "m_change_stamp s = m_change_stamp t"
    "m_execution_phase s = m_execution_phase t" "m_delta_count s = m_delta_count t" "m_ready_to_simulate s = m_ready_to_simulate t"
    "m_methods_static (event_of s e) = m_methods_static (event_of t e)"
proof -
  show "signal_of s = signal_of t" using arg_cong [OF assms, of signal_of] by (simp add: frame_def)
  show "m_update_list s = m_update_list t" using arg_cong [OF assms, of m_update_list] by (simp add: frame_def)
  show "m_methods_push s = m_methods_push t" using arg_cong [OF assms, of m_methods_push] by (simp add: frame_def)
  show "m_methods_pop s = m_methods_pop t" using arg_cong [OF assms, of m_methods_pop] by (simp add: frame_def)
  show "m_curr_proc s = m_curr_proc t" using arg_cong [OF assms, of m_curr_proc] by (simp add: frame_def)
  show "method_of s = method_of t" using arg_cong [OF assms, of method_of] by (simp add: frame_def)
  show "m_curr_time s = m_curr_time t" using arg_cong [OF assms, of m_curr_time] by (simp add: frame_def)
  show "m_change_stamp s = m_change_stamp t" using arg_cong [OF assms, of m_change_stamp] by (simp add: frame_def)
  show "m_execution_phase s = m_execution_phase t" using arg_cong [OF assms, of m_execution_phase] by (simp add: frame_def)
  show "m_delta_count s = m_delta_count t" using arg_cong [OF assms, of m_delta_count] by (simp add: frame_def)
  show "m_ready_to_simulate s = m_ready_to_simulate t" using arg_cong [OF assms, of m_ready_to_simulate] by (simp add: frame_def)
  show "m_methods_static (event_of s e) = m_methods_static (event_of t e)"
    using arg_cong [OF assms, of "\<lambda>s. m_methods_static (event_of s e)"] by (simp add: frame_def)
qed

section \<open>Writing\<close>

definition sigs_ok :: "sc_sim \<Rightarrow> bool" where
  "sigs_ok s \<longleftrightarrow> distinct (m_update_list s) \<and> (\<forall>x. m_queued (signal_of s x) \<longleftrightarrow> x \<in> set (m_update_list s)) \<and>
     (\<forall>x. x \<notin> set (m_update_list s) \<longrightarrow> m_new_val (signal_of s x) = m_cur_val (signal_of s x))"

abbreviation news :: "sc_sim \<Rightarrow> nat \<Rightarrow> sc_value" where
  "news s x \<equiv> m_new_val (signal_of s x)"

abbreviation vals :: "sc_sim \<Rightarrow> nat \<Rightarrow> sc_value" where
  "vals s x \<equiv> m_cur_val (signal_of s x)"

definition writers_ok :: "(nat \<Rightarrow> nat) \<Rightarrow> sc_sim \<Rightarrow> bool" where
  "writers_ok own s \<longleftrightarrow> (\<forall>x. m_writer (signal_of s x) = None \<or> m_writer (signal_of s x) = Some (own x))"

lemma request_update_ok:
  assumes "distinct (m_update_list s)" and "\<And>y. m_queued (signal_of s y) \<longleftrightarrow> y \<in> set (m_update_list s)"
    and "\<And>y. y \<notin> set (m_update_list s) \<Longrightarrow> y \<noteq> x \<Longrightarrow> news s y = vals s y"
  shows "sigs_ok (request_update x s)"
  using assms by (auto simp: sigs_ok_def request_update_def set_signal_def)

lemma request_update_keeps:
  "rest (request_update x s) = rest s" "news (request_update x s) = news s"
  "m_writer (signal_of (request_update x s) y) = m_writer (signal_of s y)"
  by (auto simp: request_update_def rest_def set_signal_def fun_eq_iff)

lemma sig_write_ok:
  assumes "sigs_ok s" and "writers_ok own s" and "m_curr_proc s = Some m" and "own x = m"
  shows "\<exists>s'. sig_write x v s = Ret () s' \<and> sigs_ok s' \<and> writers_ok own s' \<and> rest s' = rest s \<and> news s' = (news s)(x := v)"
proof -
  let ?s1 = "set_signal x (\<lambda>sg. sg\<lparr>m_writer := Some m\<rparr>) s"
  let ?s2 = "set_signal x (\<lambda>sg. sg\<lparr>m_new_val := v\<rparr>) ?s1"
  have "m_writer (signal_of s x) = None \<or> m_writer (signal_of s x) = Some m" using assms(2,4) by (auto simp: writers_ok_def)
  then have "check_write x s = Ret () ?s1"
    using assms(3) by (auto simp: check_write_def set_signal_def fun_upd_idem)
  then have run: "sig_write x v s = Ret () (if news s x \<noteq> v then request_update x ?s2 else ?s2)"
    by (simp add: sig_write_def bnd_def Let_def)
  have s2: "rest ?s2 = rest s" "news ?s2 = (news s)(x := v)" "writers_ok own ?s2" "m_update_list ?s2 = m_update_list s"
      "\<And>y. m_queued (signal_of ?s2 y) = m_queued (signal_of s y)" "\<And>y. vals ?s2 y = vals s y"
    using assms(2,4) by (auto simp: rest_def set_signal_def writers_ok_def fun_eq_iff)
  show ?thesis
  proof (cases "news s x = v")
    case True
    have "news ?s2 y = news s y" for y using fun_cong [OF s2(2), of y] True by simp
    then have "sigs_ok ?s2" using assms(1) s2(4-6) unfolding sigs_ok_def by metis
    then show ?thesis using True run s2 by simp
  next
    case False
    have "distinct (m_update_list ?s2)" "m_queued (signal_of ?s2 y) \<longleftrightarrow> y \<in> set (m_update_list ?s2)" for y
      using assms(1) s2(4,5) unfolding sigs_ok_def by simp_all
    moreover have "news ?s2 y = vals ?s2 y" if "y \<notin> set (m_update_list ?s2)" "y \<noteq> x" for y
      using that assms(1) fun_cong [OF s2(2), of y] s2(4,6) unfolding sigs_ok_def by simp
    ultimately have "sigs_ok (request_update x ?s2)" by (rule request_update_ok)
    then show ?thesis using False run s2(1-3) by (intro exI [of _ "request_update x ?s2"]) (simp add: writers_ok_def request_update_keeps)
  qed
qed

section \<open>Methods that read and write signals\<close>

text \<open>Such a method writes a list of values that it computes from the current values of the signals.\<close>

fun write_all :: "(nat \<times> sc_value) list \<Rightarrow> unit sim_prog" where
  "write_all [] = ret ()"
| "write_all ((x, v) # ws) = bnd (sig_write x v) (\<lambda>_. write_all ws)"

type_synonym methods = "nat \<Rightarrow> (nat \<Rightarrow> sc_value) \<Rightarrow> (nat \<times> sc_value) list"

definition signal_method :: "methods \<Rightarrow> nat \<Rightarrow> unit sim_prog" where
  "signal_method f m s = write_all (f m (vals s)) s"

text \<open>The value of a signal after a list of writes.\<close>

definition written :: "(nat \<times> sc_value) list \<Rightarrow> nat \<Rightarrow> sc_value \<Rightarrow> sc_value" where
  "written ws x v = (case map_of (rev ws) x of Some w \<Rightarrow> w | None \<Rightarrow> v)"

lemma written_simps [simp]: "written [] x v = v" "written ((y, w) # ws) x v = written ws x (if x = y then w else v)"
  by (auto simp: written_def map_add_def split: option.split)

lemma restD:
  assumes "rest s = rest t"
  shows "vals s = vals t" "m_curr_proc s = m_curr_proc t" "m_methods_push s = m_methods_push t" "m_methods_pop s = m_methods_pop t"
proof -
  show "vals s = vals t" using arg_cong [OF assms, of vals] by (simp add: rest_def)
  show "m_curr_proc s = m_curr_proc t" using arg_cong [OF assms, of m_curr_proc] by (simp add: rest_def)
  show "m_methods_push s = m_methods_push t" using arg_cong [OF assms, of m_methods_push] by (simp add: rest_def)
  show "m_methods_pop s = m_methods_pop t" using arg_cong [OF assms, of m_methods_pop] by (simp add: rest_def)
qed

lemma write_all_ok:
  assumes "sigs_ok s" and "writers_ok own s" and "m_curr_proc s = Some m" and "\<forall>(x, v) \<in> set ws. own x = m"
  shows "\<exists>s'. write_all ws s = Ret () s' \<and> sigs_ok s' \<and> writers_ok own s' \<and> rest s' = rest s \<and> news s' = (\<lambda>x. written ws x (news s x))"
  using assms
proof (induction ws arbitrary: s)
  case Nil
  then show ?case by simp
next
  case (Cons w ws)
  obtain x v where w: "w = (x, v)" by force
  obtain s1 where s1: "sig_write x v s = Ret () s1" "sigs_ok s1" "writers_ok own s1" "rest s1 = rest s" "news s1 = (news s)(x := v)"
    using sig_write_ok [OF Cons.prems(1-3), of x v] Cons.prems(4) w by auto
  have "m_curr_proc s1 = Some m" using restD(2) [OF s1(4)] Cons.prems(3) by simp
  then obtain s' where "write_all ws s1 = Ret () s'" "sigs_ok s'" "writers_ok own s'" "rest s' = rest s1" "news s' = (\<lambda>x. written ws x (news s1 x))"
    using Cons.IH [OF s1(2,3)] Cons.prems(4) by auto
  then show ?case using s1(1,4,5) unfolding w by (intro exI [of _ s']) (simp add: bnd_def fun_eq_iff)
qed

text \<open>The next value of a signal when the processes of a set have run.\<close>

definition step_value :: "methods \<Rightarrow> (nat \<Rightarrow> nat) \<Rightarrow> nat set \<Rightarrow> (nat \<Rightarrow> sc_value) \<Rightarrow> nat \<Rightarrow> sc_value \<Rightarrow> sc_value" where
  "step_value f own R vs x v = (if own x \<in> R then written (f (own x) vs) x v else v)"

lemma step_value_run:
  assumes "m \<notin> R" and "\<forall>(x, v) \<in> set (f m vs). own x = m"
  shows "step_value f own R vs x (written (f m vs) x v) = step_value f own (insert m R) vs x v"
proof (cases "own x = m")
  case True
  then show ?thesis using assms(1) by (simp add: step_value_def)
next
  case False
  then have "map_of (rev (f m vs)) x = None" using assms(2) by (auto simp: map_of_eq_None_iff)
  then show ?thesis using False by (simp add: step_value_def written_def)
qed

abbreviation idle :: "sc_sim \<Rightarrow> sc_sim" where
  "idle s \<equiv> (rest s)\<lparr>m_methods_pop := [], m_curr_proc := None\<rparr>"

lemma rest_queue: "rest (s\<lparr>m_methods_pop := a, m_curr_proc := b\<rparr>) = (rest s)\<lparr>m_methods_pop := a, m_curr_proc := b\<rparr>"
  by (cases s) (simp add: rest_def)

lemma rest_curr: "rest (s\<lparr>m_curr_proc := b\<rparr>) = (rest s)\<lparr>m_curr_proc := b\<rparr>"
  by (cases s) (simp add: rest_def)

lemma run_methods_ok:
  assumes "m_methods_pop s = R" and "m_methods_push s = []" and "distinct R" and "sigs_ok s" and "writers_ok own s"
    and "\<And>m. m \<in> set R \<Longrightarrow> body m = signal_method f m" and own: "\<And>m vs. \<forall>(x, v) \<in> set (f m vs). own x = m"
  shows "\<exists>s'. run_methods body some s = Ret (some \<or> R \<noteq> []) s' \<and> m_methods_pop s' = [] \<and> m_methods_push s' = [] \<and> m_curr_proc s' = None \<and>
    idle s' = idle s \<and> sigs_ok s' \<and> writers_ok own s' \<and> news s' = (\<lambda>x. step_value f own (set R) (vals s) x (news s x))"
  using assms(1-6)
proof (induction R arbitrary: s some)
  case Nil
  have "run_methods body some s = Ret some (s\<lparr>m_curr_proc := None\<rparr>)"
    unfolding run_methods_def by (subst loop_unfold) (simp add: bnd_def pop_runnable_method_def Nil.prems(1))
  with Nil.prems show ?case by (simp add: sigs_ok_def writers_ok_def step_value_def rest_curr)
next
  case (Cons m R)
  let ?s1 = "s\<lparr>m_methods_pop := R, m_curr_proc := Some m\<rparr>"
  have s1: "sigs_ok ?s1" "writers_ok own ?s1" using Cons.prems(4,5) by (simp_all add: sigs_ok_def writers_ok_def)
  obtain s2 where s2: "write_all (f m (vals s)) ?s1 = Ret () s2" "sigs_ok s2" "writers_ok own s2" "rest s2 = rest ?s1"
      "news s2 = (\<lambda>x. written (f m (vals s)) x (news s x))"
    using write_all_ok [OF s1, of m "f m (vals s)"] own [of m "vals s"] by auto
  have keep: "m_methods_pop s2 = R" "m_methods_push s2 = []" "vals s2 = vals s" using restD [OF s2(4)] Cons.prems(2) by simp_all
  have "idle s2 = idle s" unfolding s2(4) rest_queue by simp
  moreover have "run_methods body some s = run_methods body True s2"
    unfolding run_methods_def
    by (subst loop_unfold) (simp add: bnd_def pop_runnable_method_def Cons.prems(1,6) signal_method_def s2(1))
  moreover obtain s' where "run_methods body True s2 = Ret True s'" "m_methods_pop s' = []" "m_methods_push s' = []" "m_curr_proc s' = None"
      "idle s' = idle s2" "sigs_ok s'" "writers_ok own s'" "news s' = (\<lambda>x. step_value f own (set R) (vals s2) x (news s2 x))"
    using Cons.IH [OF keep(1,2) _ s2(2,3), of True] Cons.prems(3,6) by auto
  moreover have "step_value f own (set R) (vals s2) x (news s2 x) = step_value f own (set (m # R)) (vals s) x (news s x)" for x
    using step_value_run [of m "set R" f "vals s" own x "news s x"] Cons.prems(3) own fun_cong [OF s2(5), of x] by (simp add: keep(3))
  ultimately show ?case by auto
qed

lemma evaluate_ok:
  assumes "m_methods_push s = R" and "m_methods_pop s = []" and "distinct R" and "sigs_ok s" and "writers_ok own s"
    and "\<And>m. m \<in> set R \<Longrightarrow> body m = signal_method f m" and "\<And>m vs. \<forall>(x, v) \<in> set (f m vs). own x = m"
  shows "\<exists>s'. evaluate body s = Ret (R \<noteq> []) s' \<and> rest s' = rest (s\<lparr>m_methods_push := [], m_methods_pop := [], m_curr_proc := None\<rparr>) \<and>
    sigs_ok s' \<and> writers_ok own s' \<and> news s' = (\<lambda>x. step_value f own (set R) (vals s) x (news s x))"
proof -
  let ?s1 = "s\<lparr>m_methods_pop := R, m_methods_push := []\<rparr>"
  have toggle: "toggle_methods s = ?s1" using assms(1,2) by (simp add: toggle_methods_def)
  have s1: "sigs_ok ?s1" "writers_ok own ?s1" using assms(4,5) by (simp_all add: sigs_ok_def writers_ok_def)
  obtain s' where s': "run_methods body False ?s1 = Ret (R \<noteq> []) s'" "m_methods_pop s' = []" "m_methods_push s' = []" "m_curr_proc s' = None"
      "idle s' = idle ?s1" "sigs_ok s'" "writers_ok own s'" "news s' = (\<lambda>x. step_value f own (set R) (vals s) x (news s x))"
    using run_methods_ok [of ?s1 R own body f False] s1 assms(3,6,7) by auto
  have run: "evaluate body s = Ret (R \<noteq> []) s'"
    unfolding evaluate_def by (subst loop_unfold) (simp add: bnd_def toggle s'(1-3) runnable_is_empty_def)
  have "rest s' = idle s'" using s'(2,4) by (cases s') (simp add: rest_def)
  also note s'(5)
  also have "idle ?s1 = rest (s\<lparr>m_methods_push := [], m_methods_pop := [], m_curr_proc := None\<rparr>)" by (cases s) (simp add: rest_def)
  finally show ?thesis using run s'(5-8) by auto
qed

section \<open>The update phase\<close>

lemma sc_ok_cong:
  assumes "event_of s = event_of t" "timed_at s = timed_at t" "free_list s = free_list t" "malloc_next s = malloc_next t"
    "m_delta_events s = m_delta_events t" "m_timed_events s = m_timed_events t"
  shows "sc_ok s = sc_ok t" "pending s = pending t"
proof -
  show "sc_ok s = sc_ok t" unfolding sc_ok_def timed_ok_def nodes_ok_def delta_ok_def links_ok_def time_at_fun assms ..
  show "pending s = pending t" by (rule ext) (simp only: pending_def time_at_fun assms)
qed

lemma rest_sc_ok:
  assumes "rest s = rest t"
  shows "sc_ok s = sc_ok t" "pending s = pending t"
proof -
  have "sc_ok s = sc_ok (rest s)" "sc_ok t = sc_ok (rest t)" "pending s = pending (rest s)" "pending t = pending (rest t)"
    by (rule sc_ok_cong; simp add: rest_def)+
  then show "sc_ok s = sc_ok t" "pending s = pending t" using assms by simp_all
qed

lemma set_signal_keeps [simp]:
  "event_of (set_signal x f s) = event_of s" "timed_at (set_signal x f s) = timed_at s" "free_list (set_signal x f s) = free_list s"
  "malloc_next (set_signal x f s) = malloc_next s" "m_delta_events (set_signal x f s) = m_delta_events s"
  "m_timed_events (set_signal x f s) = m_timed_events s" "m_change_stamp (set_signal x f s) = m_change_stamp s"
  "signal_of (set_signal x f s) = (signal_of s)(x := f (signal_of s x))" "m_update_list (set_signal x f s) = m_update_list s"
  by (simp_all add: set_signal_def)

lemma set_signal_sc_ok [simp]: "sc_ok (set_signal x f s) = sc_ok s" "pending (set_signal x f s) = pending s"
  by (rule sc_ok_cong; simp)+

lemma frame_set_signal: "frame (set_signal x f s) = set_signal x f (frame s)"
  by (cases s) (simp add: frame_def set_signal_def)

definition opt_list :: "'a option \<Rightarrow> 'a list" where
  "opt_list q = (case q of None \<Rightarrow> [] | Some a \<Rightarrow> [a])"

text \<open>The events that a change of a signal to its new value notifies.\<close>

definition edge :: "sc_signal \<Rightarrow> nat option" where
  "edge sg = (case m_new_val sg of Bool b \<Rightarrow> if b then m_posedge_event sg else m_negedge_event sg | _ \<Rightarrow> None)"

definition fired :: "sc_signal \<Rightarrow> nat list" where
  "fired sg = (if m_new_val sg = m_cur_val sg then [] else opt_list (m_change_event sg) @ opt_list (edge sg))"

definition settle :: "64 word \<Rightarrow> sc_signal \<Rightarrow> sc_signal" where
  "settle stamp sg = (if m_new_val sg = m_cur_val sg then sg else sg\<lparr>s_change_stamp := stamp, m_cur_val := m_new_val sg\<rparr>)"

lemma notify_if_ok:
  assumes "sc_ok s" and "\<forall>e \<in> set (opt_list q). pending s e = None"
  shows "\<exists>s'. notify_if q s = Ret () s' \<and> sc_ok s' \<and> frame s' = frame s \<and>
    pending s' = (\<lambda>e. if e \<in> set (opt_list q) then Some Delta else pending s e)"
proof (cases q)
  case None
  then show ?thesis using assms(1) by (simp add: notify_if_def opt_list_def)
next
  case (Some e)
  have none: "m_notify_type (event_of s e) = NONE" using assms(2) Some by (auto simp: opt_list_def pending_def split: notify_t.splits)
  obtain s' where "delta_notification e s = Ret () s'" "sc_ok s'" "pending s' = (pending s)(e := Some Delta)"
    using delta_notification_ok [OF assms(1) none] by blast
  then show ?thesis using Some none frame_delta_notification
    by (intro exI [of _ s']) (auto simp: notify_if_def notify_next_delta_def opt_list_def)
qed

lemma update_ok:
  assumes "sc_ok s" and "distinct (fired (signal_of s x))" and "\<forall>e \<in> set (fired (signal_of s x)). pending s e = None"
  shows "\<exists>s'. update x s = Ret () s' \<and> sc_ok s' \<and> frame s' = frame (set_signal x (settle (m_change_stamp s)) s) \<and>
    pending s' = (\<lambda>e. if e \<in> set (fired (signal_of s x)) then Some Delta else pending s e)"
proof (cases "news s x = vals s x")
  case True
  then show ?thesis using assms(1) by (simp add: update_def settle_def fired_def set_signal_def)
next
  case False
  let ?sg = "signal_of s x"
  have f: "fired ?sg = opt_list (m_change_event ?sg) @ opt_list (edge ?sg)" using False by (simp add: fired_def)
  obtain s1 where s1: "notify_if (m_change_event ?sg) s = Ret () s1" "sc_ok s1" "frame s1 = frame s"
      "pending s1 = (\<lambda>e. if e \<in> set (opt_list (m_change_event ?sg)) then Some Delta else pending s e)"
    using notify_if_ok [OF assms(1), of "m_change_event ?sg"] assms(3) unfolding f by auto
  let ?s2 = "set_signal x (settle (m_change_stamp s)) s1"
  note keep = frameD(1,8) [OF s1(3)]
  have "\<forall>e \<in> set (opt_list (edge ?sg)). pending ?s2 e = None" using assms(2,3) unfolding f by (auto simp: s1(4))
  then obtain s' where s': "notify_if (edge ?sg) ?s2 = Ret () s'" "sc_ok s'" "frame s' = frame ?s2"
      "pending s' = (\<lambda>e. if e \<in> set (opt_list (edge ?sg)) then Some Delta else pending ?s2 e)"
    using notify_if_ok [of ?s2 "edge ?sg"] s1(2) by auto
  have "set_signal x (\<lambda>sg. sg\<lparr>s_change_stamp := m_change_stamp s1, m_cur_val := m_new_val sg\<rparr>) s1 = ?s2"
    using False by (simp add: set_signal_def settle_def keep)
  then have "update x s = notify_if (edge ?sg) ?s2"
    using False s1(1) keep by (simp add: update_def do_update_def bnd_def Let_def settle_def edge_def notify_if_def split: sc_value.split)
  moreover have "frame s' = frame (set_signal x (settle (m_change_stamp s)) s)" unfolding s'(3) frame_set_signal s1(3) ..
  ultimately show ?thesis using s'(1,2,4) unfolding f by (intro exI [of _ s']) (auto simp: s1(4))
qed

lemma signal_of_self: "s\<lparr>signal_of := signal_of s\<rparr> = s"
  by simp

definition settled :: "64 word \<Rightarrow> (nat \<Rightarrow> sc_signal) \<Rightarrow> nat set \<Rightarrow> nat \<Rightarrow> sc_signal" where
  "settled stamp g X x = (if x \<in> X then (settle stamp (g x))\<lparr>m_queued := False\<rparr> else g x)"

lemma update_channels_ok:
  assumes "sc_ok s" and "distinct xs" and "signal_of s = g" and "m_change_stamp s = stamp" and "distinct (concat (map (\<lambda>x. fired (g x)) xs))"
    and "\<forall>x \<in> set xs. \<forall>e \<in> set (fired (g x)). pending s e = None"
  shows "\<exists>s'. update_channels xs s = Ret () s' \<and> sc_ok s' \<and> frame s' = frame (s\<lparr>signal_of := settled stamp g (set xs)\<rparr>) \<and>
    pending s' = (\<lambda>e. if \<exists>x \<in> set xs. e \<in> set (fired (g x)) then Some Delta else pending s e)"
  using assms
proof (induction xs arbitrary: s g)
  case Nil
  have eq: "settled stamp g (set []) = signal_of s" using Nil.prems(3) by (simp add: settled_def fun_eq_iff)
  show ?case unfolding eq signal_of_self using Nil.prems(1) by simp
next
  case (Cons x xs)
  obtain s1 where s1: "update x s = Ret () s1" "sc_ok s1" "frame s1 = frame (set_signal x (settle stamp) s)"
      "pending s1 = (\<lambda>e. if e \<in> set (fired (g x)) then Some Delta else pending s e)"
    using update_ok [of s x] Cons.prems by auto
  define s2 where "s2 = set_signal x (\<lambda>sg. sg\<lparr>m_queued := False\<rparr>) s1"
  define g2 where "g2 = g(x := (settle stamp (g x))\<lparr>m_queued := False\<rparr>)"
  have sg2: "signal_of s2 = g2" "m_change_stamp s2 = stamp" "sc_ok s2" "pending s2 = pending s1"
    using frameD(1,8) [OF s1(3)] Cons.prems(3,4) s1(2) by (simp_all add: s2_def g2_def)
  have others: "g2 y = g y" if "y \<in> set xs" for y using that Cons.prems(2) by (auto simp: g2_def)
  then have map: "map (\<lambda>x. fired (g2 x)) xs = map (\<lambda>x. fired (g x)) xs" by simp
  have "\<forall>y \<in> set xs. \<forall>e \<in> set (fired (g2 y)). pending s2 e = None"
    using others Cons.prems(5,6) by (auto simp: sg2(4) s1(4))
  then obtain s' where s': "update_channels xs s2 = Ret () s'" "sc_ok s'" "frame s' = frame (s2\<lparr>signal_of := settled stamp g2 (set xs)\<rparr>)"
      "pending s' = (\<lambda>e. if \<exists>y \<in> set xs. e \<in> set (fired (g2 y)) then Some Delta else pending s2 e)"
    using Cons.IH [OF sg2(3) _ sg2(1,2)] Cons.prems(2,5) map by auto
  have g: "settled stamp g2 (set xs) = settled stamp g (set (x # xs))"
    using others Cons.prems(2) by (auto simp: g2_def settled_def fun_eq_iff)
  define G where "G = settled stamp g (set (x # xs))"
  have "frame (s2\<lparr>signal_of := G\<rparr>) = (frame s1)\<lparr>signal_of := G\<rparr>" by (cases s1) (simp add: s2_def frame_def set_signal_def)
  also have "\<dots> = frame (s\<lparr>signal_of := G\<rparr>)" unfolding s1(3) by (cases s) (simp add: frame_def set_signal_def)
  finally have "frame s' = frame (s\<lparr>signal_of := G\<rparr>)" unfolding s'(3) g G_def .
  moreover have "pending s' = (\<lambda>e. if \<exists>y \<in> set (x # xs). e \<in> set (fired (g y)) then Some Delta else pending s e)"
    unfolding s'(4) using others by (auto simp: fun_eq_iff sg2(4) s1(4))
  ultimately show ?case using s1(1) s'(1,2) unfolding G_def by (intro exI [of _ s']) (simp add: bnd_def s2_def)
qed

text \<open>After the update phase every signal has its new value and no request is left.\<close>

definition quiet :: "sc_sim \<Rightarrow> bool" where
  "quiet s \<longleftrightarrow> m_update_list s = [] \<and> (\<forall>x. \<not> m_queued (signal_of s x) \<and> news s x = vals s x)"

definition sig_events :: "sc_signal \<Rightarrow> nat list" where
  "sig_events sg = opt_list (m_change_event sg) @ opt_list (m_posedge_event sg) @ opt_list (m_negedge_event sg)"

definition events_ok :: "sc_sim \<Rightarrow> bool" where
  "events_ok s \<longleftrightarrow> (\<forall>x. distinct (sig_events (signal_of s x))) \<and>
     (\<forall>x y. x \<noteq> y \<longrightarrow> set (sig_events (signal_of s x)) \<inter> set (sig_events (signal_of s y)) = {})"

lemma fired_events: "set (fired sg) \<subseteq> set (sig_events sg)" "distinct (sig_events sg) \<Longrightarrow> distinct (fired sg)"
  by (cases "m_new_val sg"; simp add: fired_def edge_def sig_events_def opt_list_def split: option.split; blast)+

lemma fired_distinct:
  assumes "events_ok s" and "distinct xs"
  shows "distinct (concat (map (\<lambda>x. fired (signal_of s x)) xs))"
proof -
  have one: "distinct (fired (signal_of s x))" for x using assms(1) by (simp add: events_ok_def fired_events)
  have two: "set (fired (signal_of s x)) \<inter> set (fired (signal_of s y)) = {}" if "x \<noteq> y" for x y
    using that assms(1) fired_events(1) [of "signal_of s x"] fired_events(1) [of "signal_of s y"] unfolding events_ok_def by blast
  show ?thesis using assms(2)
  proof (induction xs)
    case (Cons x xs)
    have "set (fired (signal_of s x)) \<inter> set (concat (map (\<lambda>x. fired (signal_of s x)) xs)) = {}" using two [of x] Cons.prems by fastforce
    then show ?case using Cons one by simp
  qed simp
qed

lemma perform_update_ok:
  assumes "sc_ok s" and "sigs_ok s" and "events_ok s" and "\<forall>x. \<forall>e \<in> set (fired (signal_of s x)). pending s e = None"
  shows "\<exists>s'. perform_update s = Ret () s' \<and> sc_ok s' \<and> quiet s' \<and>
    frame s' = frame (s\<lparr>signal_of := settled (m_change_stamp s) (signal_of s) UNIV, m_update_list := []\<rparr>) \<and>
    pending s' = (\<lambda>e. if \<exists>x. e \<in> set (fired (signal_of s x)) then Some Delta else pending s e)"
proof -
  let ?xs = "m_update_list s" and ?g = "signal_of s"
  define s1 where "s1 = s\<lparr>m_update_list := []\<rparr>"
  have s1: "sc_ok s1" "pending s1 = pending s" "signal_of s1 = ?g" "m_change_stamp s1 = m_change_stamp s"
    using assms(1) sc_ok_cong [of s1 s] by (simp_all add: s1_def)
  have xs: "distinct ?xs" "\<And>x. x \<notin> set ?xs \<Longrightarrow> news s x = vals s x \<and> \<not> m_queued (signal_of s x)" using assms(2) by (auto simp: sigs_ok_def)
  have "\<forall>x \<in> set ?xs. \<forall>e \<in> set (fired (?g x)). pending s1 e = None" using assms(4) s1(2) by simp
  from update_channels_ok [OF s1(1) xs(1) s1(3,4) fired_distinct [OF assms(3) xs(1)] this]
  obtain s' where s': "update_channels ?xs s1 = Ret () s'" "sc_ok s'" "frame s' = frame (s1\<lparr>signal_of := settled (m_change_stamp s) ?g (set ?xs)\<rparr>)"
      "pending s' = (\<lambda>e. if \<exists>x \<in> set ?xs. e \<in> set (fired (?g x)) then Some Delta else pending s1 e)" by blast
  define G where "G = settled (m_change_stamp s) ?g UNIV"
  have "settled (m_change_stamp s) ?g (set ?xs) = G" using xs(2) by (auto simp: G_def settled_def settle_def fun_eq_iff)
  then have fr: "frame s' = frame (s\<lparr>signal_of := G, m_update_list := []\<rparr>)" unfolding s'(3) s1_def by (cases s) (simp add: frame_def)
  have "quiet s'" using frameD(1,2) [OF fr] by (auto simp: quiet_def settle_def G_def settled_def)
  moreover have "fired (?g x) = []" if "x \<notin> set ?xs" for x using xs(2) [OF that] by (simp add: fired_def)
  then have "(\<exists>x \<in> set ?xs. e \<in> set (fired (?g x))) \<longleftrightarrow> (\<exists>x. e \<in> set (fired (?g x)))" for e by (metis empty_iff list.set(1))
  ultimately show ?thesis using s'(1,2) s'(4) [unfolded s1(2)] fr unfolding G_def by (intro exI [of _ s']) (simp add: perform_update_def s1_def)
qed

section \<open>The notification phase\<close>

text \<open>All the processes react to static triggers, and none is running.\<close>

definition plain :: "'a sc_simcontext_scheme \<Rightarrow> bool" where
  "plain s \<longleftrightarrow> m_curr_proc s = None \<and> (\<forall>m. \<not> ps_disabled (method_of s m) \<and> \<not> ps_suspended (method_of s m) \<and> m_trigger_is_static (method_of s m))"

text \<open>What triggering changes.\<close>

definition hush :: "'a sc_simcontext_scheme \<Rightarrow> 'a sc_simcontext_scheme" where
  "hush s = s\<lparr>event_of := (\<lambda>e. (event_of s e)\<lparr>m_trigger_stamp := 0, m_notify_type := NONE, m_delta_event_index := 0, m_timed := None\<rparr>), m_methods_push := []\<rparr>"

lemma fold_trigger_static_plain:
  assumes "plain s"
  shows "plain (fold trigger_static ms s) \<and> (fold trigger_static ms s)\<lparr>m_methods_push := []\<rparr> = s\<lparr>m_methods_push := []\<rparr> \<and>
    set (m_methods_push (fold trigger_static ms s)) = set (m_methods_push s) \<union> (set ms - set (m_methods_pop s)) \<and>
    (distinct (m_methods_push s) \<longrightarrow> distinct (m_methods_push (fold trigger_static ms s)))"
  using assms
proof (induction ms arbitrary: s)
  case Nil
  then show ?case by simp
next
  case (Cons m ms)
  define s1 where "s1 = trigger_static m s"
  have s1: "s1 = (if is_runnable m s then s else push_back_method m s)" using Cons.prems by (auto simp: s1_def trigger_static_def plain_def Let_def)
  then have "plain s1" using Cons.prems by (auto simp: plain_def push_back_method_def)
  from Cons.IH [OF this] s1 show ?case
    by (auto simp: s1_def [symmetric] push_back_method_def is_runnable_def split: if_splits)
qed

lemma hush_cong: "s\<lparr>m_methods_push := []\<rparr> = t\<lparr>m_methods_push := []\<rparr> \<Longrightarrow> hush s = hush t"
  by (cases s; cases t) (simp add: hush_def)

lemma fold_trigger_plain:
  assumes "plain s"
  shows "plain (fold trigger es s) \<and> hush (fold trigger es s) = hush s \<and>
    set (m_methods_push (fold trigger es s)) = set (m_methods_push s) \<union> ((\<Union>e \<in> set es. set (m_methods_static (event_of s e))) - set (m_methods_pop s)) \<and>
    (distinct (m_methods_push s) \<longrightarrow> distinct (m_methods_push (fold trigger es s))) \<and>
    (\<forall>e. event_of (fold trigger es s) e = (if e \<in> set es then (event_of s e)\<lparr>m_trigger_stamp := m_change_stamp s, m_notify_type := NONE,
       m_delta_event_index := -1, m_timed := None\<rparr> else event_of s e))"
  using assms
proof (induction es arbitrary: s)
  case Nil
  then show ?case by simp
next
  case (Cons e es)
  define s0 where "s0 = set_event e (\<lambda>ev. ev\<lparr>m_trigger_stamp := m_change_stamp s, m_notify_type := NONE, m_delta_event_index := -1, m_timed := None\<rparr>) s"
  have t: "trigger e s = fold trigger_static (rev (m_methods_static (event_of s e))) s0" by (simp add: trigger_def s0_def Let_def)
  have s0: "plain s0" "hush s0 = hush s" "m_methods_push s0 = m_methods_push s" "m_methods_pop s0 = m_methods_pop s"
    using Cons.prems by (simp_all add: s0_def plain_def set_event_def hush_def fun_eq_iff)
  define s1 where "s1 = trigger e s"
  note st = fold_trigger_static_plain [OF s0(1), of "rev (m_methods_static (event_of s e))", folded t s1_def]
  have s1: "plain s1" "hush s1 = hush s" "set (m_methods_push s1) = set (m_methods_push s) \<union> (set (m_methods_static (event_of s e)) - set (m_methods_pop s))"
      "distinct (m_methods_push s) \<longrightarrow> distinct (m_methods_push s1)"
    using st s0 hush_cong [of s1 s0] by auto
  note keeps = trigger_keeps(3,8,10) [of e s, folded s1_def]
  have static: "m_methods_static (event_of s1 e') = m_methods_static (event_of s e')" for e' by (simp add: keeps(1))
  show ?case using Cons.IH [OF s1(1)] s1(2-4) unfolding static keeps(2,3) by (auto simp: s1_def [symmetric] keeps(1))
qed

lemma hushD:
  assumes "hush s = hush t"
  shows "m_methods_pop s = m_methods_pop t" "m_curr_proc s = m_curr_proc t" "method_of s = method_of t" "m_curr_time s = m_curr_time t"
    "m_change_stamp s = m_change_stamp t" "timed_at s = timed_at t" "m_timed_events s = m_timed_events t" "free_list s = free_list t"
    "malloc_next s = malloc_next t" "m_delta_events s = m_delta_events t"
    "m_methods_static (event_of s e) = m_methods_static (event_of t e)" "m_ready_to_simulate s = m_ready_to_simulate t"
  using arg_cong [OF assms, of m_methods_pop] arg_cong [OF assms, of m_curr_proc] arg_cong [OF assms, of method_of]
    arg_cong [OF assms, of m_curr_time] arg_cong [OF assms, of m_change_stamp] arg_cong [OF assms, of timed_at]
    arg_cong [OF assms, of m_timed_events] arg_cong [OF assms, of free_list] arg_cong [OF assms, of malloc_next]
    arg_cong [OF assms, of m_delta_events] arg_cong [OF assms, of "\<lambda>s. m_methods_static (event_of s e)"] arg_cong [OF assms, of m_ready_to_simulate]
  by (simp_all only: hush_def) simp_all

lemma hush_delta: "hush (s\<lparr>m_delta_events := ds\<rparr>) = (hush s)\<lparr>m_delta_events := ds\<rparr>"
  by (cases s) (simp add: hush_def)

lemma hush_signals: "hush s = hush t \<Longrightarrow> signal_of s = signal_of t" "hush s = hush t \<Longrightarrow> m_update_list s = m_update_list t"
  by (drule arg_cong [of _ _ signal_of]; simp add: hush_def) (drule arg_cong [of _ _ m_update_list]; simp add: hush_def)

lemma trigger_delta_events_ok:
  assumes "sc_ok s" and "plain s"
  defines "s' \<equiv> trigger_delta_events s"
  shows "sc_ok s'" "plain s'" "hush s' = hush (s\<lparr>m_delta_events := []\<rparr>)"
    "pending s' = (\<lambda>e. if pending s e = Some Delta then None else pending s e)"
    "set (m_methods_push s') = set (m_methods_push s) \<union> ({m. \<exists>e. pending s e = Some Delta \<and> m \<in> set (m_methods_static (event_of s e))} - set (m_methods_pop s))"
    "distinct (m_methods_push s) \<Longrightarrow> distinct (m_methods_push s')"
proof -
  let ?es = "rev (m_delta_events s)"
  define t where "t = fold trigger ?es s"
  note t = fold_trigger_plain [OF assms(2), of ?es, folded t_def]
  have s': "s' = t\<lparr>m_delta_events := []\<rparr>" by (simp add: s'_def trigger_delta_events_def t_def)
  have hush: "hush t = hush s" using t by blast
  note keeps = hushD [OF hush]
  have evs: "event_of s' e = (if m_notify_type (event_of s e) = DELTA then (event_of s e)\<lparr>m_trigger_stamp := m_change_stamp s, m_notify_type := NONE,
       m_delta_event_index := -1, m_timed := None\<rparr> else event_of s e)" for e
    using t delta_iff [OF assms(1), of e] by (simp add: s')
  have delta: "pending s e = Some Delta \<longleftrightarrow> m_notify_type (event_of s e) = DELTA" for e by (simp add: pending_def split: notify_t.split)
  have time: "time_at s' = time_at s" by (simp add: time_at_fun s' keeps)
  have "timed_ok s'" by (rule timed_ok_cong [of s]) (use assms(1) time in \<open>simp_all add: sc_ok_def s' keeps\<close>)
  moreover have "nodes_ok s'" using assms(1) by (simp add: sc_ok_def nodes_ok_def s' keeps)
  moreover have "delta_ok s'" by (simp add: delta_ok_def evs) (simp add: s')
  moreover have "links_ok s'"
  proof -
    have "timed_at s' = timed_at s" by (simp add: s' keeps)
    then show ?thesis using assms(1) unfolding sc_ok_def links_ok_def evs by (auto split: if_splits)
  qed
  ultimately show "sc_ok s'" by (simp add: sc_ok_def)
  show "plain s'" using t by (simp add: s' plain_def)
  show "hush s' = hush (s\<lparr>m_delta_events := []\<rparr>)" unfolding s' hush_delta hush ..
  show "pending s' = (\<lambda>e. if pending s e = Some Delta then None else pending s e)"
    unfolding delta by (rule ext) (simp add: pending_def evs time split: notify_t.split option.split)
  have "set ?es = {e. pending s e = Some Delta}" using delta delta_iff [OF assms(1)] by auto
  then show "set (m_methods_push s') = set (m_methods_push s) \<union> ({m. \<exists>e. pending s e = Some Delta \<and> m \<in> set (m_methods_static (event_of s e))} - set (m_methods_pop s))"
    using t by (simp add: s') blast
  show "distinct (m_methods_push s) \<Longrightarrow> distinct (m_methods_push s')" using t by (simp add: s')
qed

section \<open>A delta cycle\<close>

definition kernel_ok :: "(nat \<Rightarrow> nat) \<Rightarrow> sc_sim \<Rightarrow> bool" where
  "kernel_ok own s \<longleftrightarrow> sc_ok s \<and> sigs_ok s \<and> events_ok s \<and> writers_ok own s \<and> plain s \<and> m_methods_pop s = [] \<and> distinct (m_methods_push s) \<and>
     (\<forall>x. \<forall>e \<in> set (sig_events (signal_of s x)). pending s e = None)"

text \<open>The events that are triggered at the end of a delta cycle when the signals get their new values, and the processes
  that are woken by them.\<close>

definition triggered :: "sc_sim \<Rightarrow> (nat \<Rightarrow> sc_value) \<Rightarrow> nat \<Rightarrow> bool" where
  "triggered s vs e \<longleftrightarrow> pending s e = Some Delta \<or> (\<exists>x. e \<in> set (fired ((signal_of s x)\<lparr>m_new_val := vs x\<rparr>)))"

definition woken :: "sc_sim \<Rightarrow> (nat \<Rightarrow> sc_value) \<Rightarrow> nat set" where
  "woken s vs = {m. \<exists>e. triggered s vs e \<and> m \<in> set (m_methods_static (event_of s e))}"

text \<open>What a delta cycle keeps.\<close>

definition same_net :: "sc_sim \<Rightarrow> sc_sim \<Rightarrow> bool" where
  "same_net s t \<longleftrightarrow> m_curr_time s = m_curr_time t \<and> method_of s = method_of t \<and> m_ready_to_simulate s = m_ready_to_simulate t \<and>
     (\<forall>e. m_methods_static (event_of s e) = m_methods_static (event_of t e)) \<and>
     (\<forall>x. m_change_event (signal_of s x) = m_change_event (signal_of t x) \<and> m_posedge_event (signal_of s x) = m_posedge_event (signal_of t x) \<and>
        m_negedge_event (signal_of s x) = m_negedge_event (signal_of t x))"

lemma update_notify_ok:
  assumes "kernel_ok own s" and "m_methods_push s = []"
  shows "\<exists>s'. update_notify some s = Ret () s' \<and> kernel_ok own s' \<and> quiet s' \<and> same_net s' s \<and> vals s' = news s \<and>
    pending s' = (\<lambda>e. if pending s e = Some Delta then None else pending s e) \<and> set (m_methods_push s') = woken s (news s)"
proof -
  define s0 where "s0 = s\<lparr>m_execution_phase := phase_update, m_change_stamp := m_change_stamp s + (if some then 1 else 0)\<rparr>"
  have s0: "sc_ok s0" "pending s0 = pending s" "sigs_ok s0" "events_ok s0" "signal_of s0 = signal_of s" "plain s0"
    using assms(1) sc_ok_cong [of s0 s] by (simp_all add: kernel_ok_def s0_def sigs_ok_def events_ok_def plain_def)
  have none: "\<forall>x. \<forall>e \<in> set (fired (signal_of s0 x)). pending s0 e = None"
    unfolding s0(2,5) using assms(1) fired_events(1) unfolding kernel_ok_def by blast
  obtain s1 where s1: "perform_update s0 = Ret () s1" "sc_ok s1" "quiet s1"
      "frame s1 = frame (s0\<lparr>signal_of := settled (m_change_stamp s0) (signal_of s0) UNIV, m_update_list := []\<rparr>)"
      "pending s1 = (\<lambda>e. if \<exists>x. e \<in> set (fired (signal_of s0 x)) then Some Delta else pending s0 e)"
    using perform_update_ok [OF s0(1,3,4) none] by blast
  note keep1 = frameD [OF s1(4)]
  have trig: "pending s1 e = Some Delta \<longleftrightarrow> triggered s (news s) e" for e by (simp add: s1(5) s0(2,5) triggered_def)
  define s2 where "s2 = s1\<lparr>m_execution_phase := phase_notify\<rparr>"
  have s2: "sc_ok s2" "pending s2 = pending s1" "plain s2" "signal_of s2 = signal_of s1" "m_update_list s2 = m_update_list s1" "m_methods_push s2 = []"
      "m_methods_pop s2 = []" "m_curr_time s2 = m_curr_time s" "method_of s2 = method_of s"
      "\<And>e. m_methods_static (event_of s2 e) = m_methods_static (event_of s e)" "m_ready_to_simulate s2 = m_ready_to_simulate s"
    using s1(2) s0(6) sc_ok_cong [of s2 s1] keep1 assms by (simp_all add: s2_def plain_def s0_def kernel_ok_def)
  define s3 where "s3 = trigger_delta_events s2"
  note t = trigger_delta_events_ok [OF s2(1,3), folded s3_def]
  note keep3 = hushD [OF t(3)] and sig3 = hush_signals [OF t(3)]
  define s' where "s' = s3\<lparr>m_delta_count := m_delta_count s3 + (if some then 1 else 0)\<rparr>"
  have s': "sc_ok s'" "pending s' = pending s3" "signal_of s' = signal_of s1" "m_update_list s' = m_update_list s1" "plain s'"
    using t(1,2) sc_ok_cong [of s' s3] sig3 s2(4,5) by (simp_all add: s'_def plain_def)
  have run: "update_notify some s = Ret () s'"
    using s1(1) by (simp add: update_notify_def bnd_def s0_def [symmetric] s2_def [symmetric] s3_def [symmetric] s'_def)
  have sig: "signal_of s' x = (settle (m_change_stamp s0) (signal_of s x))\<lparr>m_queued := False\<rparr>" for x
    unfolding s'(3) keep1(1) by (simp add: settled_def s0(5))
  have quiet: "quiet s'" using s1(3) s'(3,4) by (simp add: quiet_def)
  have pend: "pending s' e = (if triggered s (news s) e then None else pending s e)" for e
    unfolding s'(2) t(4) s2(2) trig by (simp add: s1(5) s0(2,5) triggered_def)
  have "sigs_ok s'" using quiet by (simp add: quiet_def sigs_ok_def)
  moreover have "sig_events (signal_of s' x) = sig_events (signal_of s x)" for x by (simp add: sig sig_events_def settle_def)
  moreover have "writers_ok own s'" using assms(1) by (simp add: kernel_ok_def writers_ok_def sig settle_def)
  moreover have "m_methods_pop s' = []" "distinct (m_methods_push s')" using keep3(1) t(6) s2(6,7) by (simp_all add: s'_def)
  ultimately have "kernel_ok own s'" using s'(1,5) assms(1) by (simp add: kernel_ok_def events_ok_def pend)
  moreover have "same_net s' s" using keep3 s2(8-11) by (simp add: same_net_def s'_def) (simp add: sig [unfolded s'_def, simplified] settle_def)
  moreover have "vals s' = news s" by (simp add: sig settle_def fun_eq_iff)
  moreover have "pending s' = (\<lambda>e. if pending s e = Some Delta then None else pending s e)"
    using none by (auto simp: pend triggered_def fun_eq_iff s0(2,5))
  moreover have "set (m_methods_push s') = woken s (news s)" using t(5) s2(2,6,7,10) trig by (simp add: s'_def woken_def)
  ultimately show ?thesis using run quiet by blast
qed

lemma rest_net:
  assumes "rest s = rest t"
  shows "event_of s = event_of t" "method_of s = method_of t" "m_curr_time s = m_curr_time t" "m_curr_proc s = m_curr_proc t"
    "m_change_event (signal_of s x) = m_change_event (signal_of t x)" "m_posedge_event (signal_of s x) = m_posedge_event (signal_of t x)"
    "m_negedge_event (signal_of s x) = m_negedge_event (signal_of t x)" "vals s x = vals t x" "m_ready_to_simulate s = m_ready_to_simulate t"
  using arg_cong [OF assms, of m_ready_to_simulate] arg_cong [OF assms, of event_of] arg_cong [OF assms, of method_of] arg_cong [OF assms, of m_curr_time] arg_cong [OF assms, of m_curr_proc]
    arg_cong [OF assms, of "\<lambda>s. m_change_event (signal_of s x)"] arg_cong [OF assms, of "\<lambda>s. m_posedge_event (signal_of s x)"]
    arg_cong [OF assms, of "\<lambda>s. m_negedge_event (signal_of s x)"] arg_cong [OF assms, of "\<lambda>s. vals s x"]
  by (simp_all add: rest_def)

lemma fired_cong:
  assumes "m_change_event a = m_change_event b" "m_posedge_event a = m_posedge_event b" "m_negedge_event a = m_negedge_event b"
    "m_cur_val a = m_cur_val b"
  shows "fired (a\<lparr>m_new_val := v\<rparr>) = fired (b\<lparr>m_new_val := v\<rparr>)"
  using assms by (cases v) (simp_all add: fired_def edge_def)

lemma delta_cycle_ok:
  assumes "kernel_ok own s" and "\<And>m. m \<in> set (m_methods_push s) \<Longrightarrow> body m = signal_method f m"
    and "\<And>m vs. \<forall>(x, v) \<in> set (f m vs). own x = m"
  shows "\<exists>s'. delta_cycle body s = Ret () s' \<and> kernel_ok own s' \<and> quiet s' \<and> same_net s' s \<and>
    vals s' = (\<lambda>x. step_value f own (set (m_methods_push s)) (vals s) x (news s x)) \<and>
    pending s' = (\<lambda>e. if pending s e = Some Delta then None else pending s e) \<and>
    set (m_methods_push s') = woken s (vals s')"
proof -
  let ?R = "m_methods_push s"
  define s0 where "s0 = s\<lparr>m_execution_phase := phase_evaluate\<rparr>"
  have s0: "m_methods_push s0 = ?R" "m_methods_pop s0 = []" "distinct ?R" "sigs_ok s0" "writers_ok own s0"
    using assms(1) by (simp_all add: s0_def kernel_ok_def sigs_ok_def writers_ok_def)
  obtain s1 where s1: "evaluate body s0 = Ret (?R \<noteq> []) s1" "rest s1 = rest (s0\<lparr>m_methods_push := [], m_methods_pop := [], m_curr_proc := None\<rparr>)"
      "sigs_ok s1" "writers_ok own s1" "news s1 = (\<lambda>x. step_value f own (set ?R) (vals s) x (news s x))"
    using evaluate_ok [OF s0, of body f] assms(2,3) by (auto simp: s0_def)
  note net = rest_net [OF s1(2), simplified] and queue = restD(3,4) [OF s1(2), simplified]
  have ok: "sc_ok s1" "pending s1 = pending s"
    using assms(1) rest_sc_ok [OF s1(2)] sc_ok_cong [of "s0\<lparr>m_methods_push := [], m_methods_pop := [], m_curr_proc := None\<rparr>" s]
    by (simp_all add: s0_def kernel_ok_def)
  have evs: "sig_events (signal_of s1 x) = sig_events (signal_of s x)" for x using net(5-7) [of x] by (simp add: sig_events_def s0_def)
  have "kernel_ok own s1"
    using assms(1) ok s1(3,4) queue net(2,4) by (simp add: kernel_ok_def events_ok_def evs plain_def s0_def)
  then obtain s' where s': "update_notify (?R \<noteq> []) s1 = Ret () s'" "kernel_ok own s'" "quiet s'" "same_net s' s1" "vals s' = news s1"
      "pending s' = (\<lambda>e. if pending s1 e = Some Delta then None else pending s1 e)" "set (m_methods_push s') = woken s1 (news s1)"
    using update_notify_ok [of own s1 "?R \<noteq> []"] queue by blast
  have "delta_cycle body s = Ret () s'" using s1(1) s'(1) by (simp add: delta_cycle_def bnd_def s0_def [symmetric])
  moreover have "same_net s' s" using s'(4) net by (simp add: same_net_def s0_def)
  moreover have "woken s1 (news s1) = woken s (vals s')"
  proof -
    have new: "fired ((signal_of s1 x)\<lparr>m_new_val := v\<rparr>) = fired ((signal_of s x)\<lparr>m_new_val := v\<rparr>)" for x v
      by (rule fired_cong) (use net(5-8) [of x] in \<open>simp_all add: s0_def\<close>)
    show ?thesis unfolding woken_def triggered_def s'(5) new by (simp add: ok(2) net(1) s0_def)
  qed
  ultimately show ?thesis using s'(2,3,5,7) s'(6) [unfolded ok(2)] s1(5) by (intro exI [of _ s']) simp
qed

end
