(* ===== verification/Sc_Clock.thy ===== *)
theory Sc_Clock
  imports Sc_Delta
begin

text \<open>
  A period of the clock: \<open>sc_start\<close> for the period of an \<open>sc_clock\<close> runs every method that is sensitive to the rising edge
  once and then every method that is sensitive to the falling edge once. This is the order of the clock edges that the
  models of the platforms rest on.
\<close>

section \<open>Passing time\<close>

lemma frame_simps:
  "frame (s\<lparr>timed_at := a\<rparr>) = frame s" "frame (s\<lparr>free_list := b\<rparr>) = frame s" "frame (s\<lparr>m_timed_events := q\<rparr>) = frame s"
  by (simp_all add: frame_def)

lemma frame_pop_delete:
  assumes "pop_timed_event s = Ret p s1" and "delete_event_timed p s1 = Ret u s2"
  shows "frame s2 = frame s"
proof -
  have 1: "frame s1 = frame s" using assms(1) by (auto simp: pop_timed_event_def frame_simps split: option.splits)
  have clear: "frame (set_event e (\<lambda>ev. ev\<lparr>m_timed := None\<rparr>) s) = frame s" for e s by (rule frame_set_event) simp
  have "frame s2 = frame s1"
    using assms(2) by (auto simp: delete_event_timed_def timed_deallocate_def Let_def frame_simps clear split: option.splits)
  with 1 show ?thesis by simp
qed

lemma frame_next_time: "next_time s = Ret r s' \<Longrightarrow> frame s' = frame s"
proof (induction s rule: next_time.induct)
  case (1 s)
  show ?case
  proof (cases "m_heap_size (m_timed_events s) = 0")
    case True
    then show ?thesis using 1(2) by (simp add: next_time.simps)
  next
    case False
    then obtain et where et: "timed_at s (ppq_top (m_timed_events s)) = Some et" using 1(2) by (subst (asm) next_time.simps) (auto split: option.splits)
    show ?thesis
    proof (cases "m_event et")
      case (Some e)
      then show ?thesis using 1(2) False et by (simp add: next_time.simps)
    next
      case None
      then obtain p s1 u s2 where s2: "pop_timed_event s = Ret p s1" "delete_event_timed p s1 = Ret u s2" "next_time s2 = Ret r s'"
        using 1(2) False et by (subst (asm) next_time.simps) (auto split: outcome.splits)
      have "frame s' = frame s2" using 1(1) [OF False et _ s2(1,2,3)] None by simp
      then show ?thesis using frame_pop_delete [OF s2(1,2)] by simp
    qed
  qed
qed

definition still :: "'a sc_simcontext_scheme \<Rightarrow> 'a sc_simcontext_scheme" where
  "still s = hush (frame s)"

lemma still_frame: "frame s = frame t \<Longrightarrow> still s = still t"
  by (simp add: still_def)

lemma still_hush: "hush s = hush t \<Longrightarrow> still s = still t"
proof -
  have "still s = frame (hush s)" for s :: "'a sc_simcontext_scheme" by (cases s) (simp add: still_def hush_def frame_def ppq_new_def)
  then show "hush s = hush t \<Longrightarrow> still s = still t" by simp
qed

lemma stillD:
  assumes "still s = still t"
  shows "m_methods_pop s = m_methods_pop t" "m_curr_proc s = m_curr_proc t" "method_of s = method_of t" "m_curr_time s = m_curr_time t"
    "m_methods_static (event_of s e) = m_methods_static (event_of t e)" "m_ready_to_simulate s = m_ready_to_simulate t"
  using arg_cong [OF assms, of m_ready_to_simulate] arg_cong [OF assms, of m_methods_pop] arg_cong [OF assms, of m_curr_proc] arg_cong [OF assms, of method_of]
    arg_cong [OF assms, of m_curr_time] arg_cong [OF assms, of "\<lambda>s. m_methods_static (event_of s e)"]
  by (simp_all add: still_def hush_def frame_def)

lemma still_signals: "still s = still t \<Longrightarrow> signal_of s = signal_of t" "still s = still t \<Longrightarrow> m_update_list s = m_update_list t"
  by (drule arg_cong [of _ _ signal_of]; simp add: still_def hush_def frame_def)
    (drule arg_cong [of _ _ m_update_list]; simp add: still_def hush_def frame_def)

lemma plain_cong: "m_curr_proc s = m_curr_proc t \<Longrightarrow> method_of s = method_of t \<Longrightarrow> plain s = plain t"
  by (simp add: plain_def)

lemma trigger_wakes:
  fixes s :: sc_sim
  assumes "plain s"
  shows "plain (trigger e s)" "still (trigger e s) = still s"
    "set (m_methods_push (trigger e s)) = set (m_methods_push s) \<union> (set (m_methods_static (event_of s e)) - set (m_methods_pop s))"
    "distinct (m_methods_push s) \<Longrightarrow> distinct (m_methods_push (trigger e s))"
  using fold_trigger_plain [OF assms, of "[e]"] by (auto intro: still_hush)

lemma timed_triggers_wakes:
  fixes s :: sc_sim
  assumes "sc_ok s" and "plain s" and "m_heap_size (m_timed_events s) \<noteq> 0" and "timed_triggers t s = Ret u s'"
  shows "still s' = still s \<and> (distinct (m_methods_push s) \<longrightarrow> distinct (m_methods_push s')) \<and>
    set (m_methods_push s') = set (m_methods_push s) \<union> ({m. \<exists>e. pending s e \<noteq> pending s' e \<and> m \<in> set (m_methods_static (event_of s e))} - set (m_methods_pop s))"
  using assms
proof (induction "m_heap_size (m_timed_events s)" arbitrary: s rule: less_induct)
  case less
  let ?p = "ppq_top (m_timed_events s)"
  obtain et s1 s2 s3 where p: "pop_timed_event s = Ret ?p s1" "timed_at s1 ?p = Some et" "delete_event_timed ?p s1 = Ret () s2"
      "s3 = (case m_event et of Some e \<Rightarrow> trigger e s2 | None \<Rightarrow> s2)" "sc_ok s3"
      "pending s3 = (case m_event et of Some e \<Rightarrow> (pending s)(e := None) | None \<Rightarrow> pending s)"
      "m_heap_size (m_timed_events s3) < m_heap_size (m_timed_events s)" "\<And>e. m_event et = Some e \<Longrightarrow> pending s e = Some (At (time_at s ?p))"
    using pop_delete_ok [OF less.prems(1,3)] by metis
  have fr: "frame s2 = frame s" by (rule frame_pop_delete [OF p(1,3)])
  note keep2 = frameD(3,4,5,6,12) [OF fr]
  have plain2: "plain s2" using less.prems(2) by (rule plain_cong [THEN iffD1, rotated 2]) (simp_all add: keep2)
  let ?W = "\<lambda>t. {m. \<exists>e. pending s e \<noteq> pending t e \<and> m \<in> set (m_methods_static (event_of s e))} - set (m_methods_pop s)"
  have s3: "plain s3" "still s3 = still s" "set (m_methods_push s3) = set (m_methods_push s) \<union> ?W s3"
      "distinct (m_methods_push s) \<Longrightarrow> distinct (m_methods_push s3)"
  proof -
    have "pending s e \<noteq> pending s3 e \<longleftrightarrow> m_event et = Some e" for e using p(6,8) by (auto split: option.splits)
    then have W: "?W s3 = (case m_event et of Some e \<Rightarrow> set (m_methods_static (event_of s e)) - set (m_methods_pop s) | None \<Rightarrow> {})" by (auto split: option.splits)
    show "plain s3" "still s3 = still s" "set (m_methods_push s3) = set (m_methods_push s) \<union> ?W s3" "distinct (m_methods_push s) \<Longrightarrow> distinct (m_methods_push s3)"
      using p(4) trigger_wakes [OF plain2] still_frame [OF fr] plain2 unfolding W by (auto simp: keep2 split: option.splits)
  qed
  let ?go = "m_heap_size (m_timed_events s3) \<noteq> 0 \<and> time_at s3 (ppq_top (m_timed_events s3)) = t"
  have step: "timed_triggers t s = (if ?go then timed_triggers t s3 else Ret () s3)"
    using p(1-4) by (subst timed_triggers.simps) (simp add: Let_def)
  show ?case
  proof (cases ?go)
    case True
    have run: "timed_triggers t s3 = Ret u s'" using less.prems(4) step True by simp
    then have eq: "pending s' = (\<lambda>e. if pending s3 e = Some (At t) then None else pending s3 e)"
      using timed_triggers_ok [OF p(5) conjunct1 [OF True] conjunct2 [OF True]] by (metis outcome.inject(1))
    have none: "pending s' e = pending s3 e \<or> pending s' e = None" for e unfolding eq by simp
    have down: "pending s3 e = pending s e \<or> pending s3 e = None" for e using p(6) by (simp split: option.split)
    have "pending s e \<noteq> pending s' e \<longleftrightarrow> pending s e \<noteq> pending s3 e \<or> pending s3 e \<noteq> pending s' e" for e using none [of e] down [of e] by metis
    then have "?W s' = ?W s3 \<union> ({m. \<exists>e. pending s3 e \<noteq> pending s' e \<and> m \<in> set (m_methods_static (event_of s3 e))} - set (m_methods_pop s3))"
      unfolding stillD(1,5) [OF s3(2)] by blast
    then show ?thesis using less.hyps [OF p(7,5) s3(1) _ run] True s3 by auto
  next
    case False
    then have "timed_triggers t s = Ret () s3" using step by (simp only: if_not_P if_False)
    then have "s' = s3" using less.prems(4) by simp
    then show ?thesis using s3 by blast
  qed
qed

text \<open>The next pending notification, if it is the only one, is triggered at its time.\<close>

lemma advance_ok:
  assumes "kernel_ok own s" and "m_methods_push s = []" and "pending s = [ev \<mapsto> At t]" and "m_methods_static (event_of s ev) = [m]"
    and "m_curr_time s < t" and "t \<le> until"
  shows "\<exists>s'. advance until t0 s = Ret (t, False) s' \<and> kernel_ok own s' \<and> signal_of s' = signal_of s \<and> m_update_list s' = m_update_list s \<and>
    m_methods_push s' = [m] \<and> pending s' = Map.empty \<and> m_curr_time s' = t \<and>
    (\<forall>e. m_methods_static (event_of s' e) = m_methods_static (event_of s e)) \<and> method_of s' = method_of s \<and>
    m_ready_to_simulate s' = m_ready_to_simulate s"
proof -
  have s: "sc_ok s" "plain s" "m_methods_pop s = []" using assms(1) by (simp_all add: kernel_ok_def)
  obtain r s1 where s1: "next_time s = Ret r s1" "sc_ok s1" "pending s1 = pending s" "m_heap_size (m_timed_events s1) \<noteq> 0"
      "time_at s1 (ppq_top (m_timed_events s1)) = t" "r = Some t"
  proof -
    from next_time_ok [OF s(1)] obtain r s1 where n: "next_time s = Ret r s1" "sc_ok s1" "pending s1 = pending s"
        "case r of None \<Rightarrow> \<forall>e t. pending s e \<noteq> Some (At t) | Some t \<Rightarrow> (\<exists>e. pending s e = Some (At t)) \<and> (\<forall>e u. pending s e = Some (At u) \<longrightarrow> t \<le> u) \<and>
         m_heap_size (m_timed_events s1) \<noteq> 0 \<and> time_at s1 (ppq_top (m_timed_events s1)) = t" by blast
    then show thesis using that assms(3) by (cases r) (auto split: if_splits)
  qed
  note keep1 = frameD [OF frame_next_time [OF s1(1)]]
  define s2 where "s2 = s1\<lparr>m_curr_time := t, m_change_stamp := m_change_stamp s1 + 1\<rparr>"
  have s2: "sc_ok s2" "pending s2 = pending s" "plain s2" "m_heap_size (m_timed_events s2) \<noteq> 0" "time_at s2 (ppq_top (m_timed_events s2)) = t"
    using s1 s(2) sc_ok_cong [of s2 s1] keep1 by (simp_all add: s2_def plain_def time_at_fun)
  obtain s' where s': "timed_triggers t s2 = Ret () s'" "sc_ok s'" "m_curr_time s' = t" "pending s' = Map.empty"
    using timed_triggers_ok [OF s2(1,4,5)] assms(3) s2(2) by (auto simp: s2_def fun_eq_iff split: if_splits)
  note wakes = timed_triggers_wakes [OF s2(1,3,4) s'(1)]
  then have still: "still s' = still s2" by blast
  note keep' = stillD [OF still] still_signals [OF still]
  have "pending s2 e \<noteq> pending s' e \<longleftrightarrow> e = ev" for e using s2(2) assms(3) s'(4) by auto
  then have "{m. \<exists>e. pending s2 e \<noteq> pending s' e \<and> m \<in> set (m_methods_static (event_of s2 e))} = {m}"
    using assms(4) keep1(12) by (auto simp: s2_def)
  then have "set (m_methods_push s') = {m}" "distinct (m_methods_push s')" using wakes keep1(3,4) s(3) assms(2) by (simp_all add: s2_def)
  then have push: "m_methods_push s' = [m]" by (metis distinct_singleton set_empty2 remdups_id_iff_distinct distinct_card length_Suc_conv card.empty card_insert_disjoint finite.emptyI empty_iff length_0_conv list.set_intros(1) singletonD One_nat_def)
  have sig: "signal_of s' = signal_of s" "m_update_list s' = m_update_list s" using keep'(7,8) keep1(1,2) by (simp_all add: s2_def)
  have "kernel_ok own s'"
    using assms(1) s'(2,4) sig push keep'(1-3) keep1(4-6) unfolding kernel_ok_def sigs_ok_def events_ok_def writers_ok_def plain_def by (simp add: s2_def)
  moreover have "advance until t0 s = Ret (t, False) s'"
    unfolding advance_def using s1(1,6) assms(5,6) keep1(7) s'(1) push
    by (subst loop_unfold) (simp add: bnd_def do_timestep_def s2_def runnable_is_empty_def)
  ultimately show ?thesis using sig push s'(3,4) keep'(3,5,6) keep1(6,11,12) by (intro exI [of _ s']) (simp add: s2_def)
qed

section \<open>The actions of the clock\<close>

definition clock_action :: "nat \<Rightarrow> nat \<Rightarrow> sc_time \<Rightarrow> bool \<Rightarrow> unit sim_prog" where
  "clock_action clk ev t b =
     bnd (notify_internal ev t) (\<lambda>_ s. Ret () (request_update clk (set_signal clk (\<lambda>sg. sg\<lparr>m_new_val := Bool b\<rparr>) s)))"

lemma clock_actions:
  "posedge_action c = clock_action (clk_signal c) (m_next_negedge_event c) (m_negedge_time c) True"
  "negedge_action c = clock_action (clk_signal c) (m_next_posedge_event c) (m_posedge_time c) False"
  by (simp_all add: posedge_action_def negedge_action_def clock_action_def)

lemma clock_action_ok:
  assumes "sc_ok s" and "sigs_ok s" and "pending s ev = None" and "t \<noteq> 0"
  shows "\<exists>s'. clock_action clk ev t b s = Ret () s' \<and> sc_ok s' \<and> sigs_ok s' \<and> pending s' = (pending s)(ev \<mapsto> At (m_curr_time s + t)) \<and>
    news s' = (news s)(clk := Bool b) \<and> frame (rest s') = frame (rest s) \<and> (\<forall>x. m_writer (signal_of s' x) = m_writer (signal_of s x))"
proof -
  have "m_notify_type (event_of s ev) = NONE" using assms(3) by (auto simp: pending_def split: notify_t.splits)
  then obtain s1 where s1: "notify_internal ev t s = Ret () s1" "sc_ok s1" "pending s1 = (pending s)(ev \<mapsto> At (m_curr_time s + t))"
    using notify_internal_ok [OF assms(1), of ev t] assms(4) by auto
  have fr: "frame s1 = frame s" by (rule frame_notify_internal [OF s1(1)])
  define s2 where "s2 = set_signal clk (\<lambda>sg. sg\<lparr>m_new_val := Bool b\<rparr>) s1"
  have sig2: "signal_of s2 = (signal_of s)(clk := (signal_of s clk)\<lparr>m_new_val := Bool b\<rparr>)" "m_update_list s2 = m_update_list s"
    using frameD(1,2) [OF fr] by (simp_all add: s2_def)
  have rest: "rest s2 = rest s1" by (simp add: s2_def rest_def set_signal_def fun_eq_iff)
  have comm: "frame (rest s) = rest (frame s)" for s by (cases s) (simp add: frame_def rest_def)
  define s' where "s' = request_update clk s2"
  have run: "clock_action clk ev t b s = Ret () s'" using s1(1) by (simp add: clock_action_def bnd_def s'_def s2_def)
  have "sigs_ok s'"
    unfolding s'_def by (rule request_update_ok) (use assms(2) in \<open>auto simp: sigs_ok_def sig2\<close>)
  moreover have rest': "rest s' = rest s1" unfolding s'_def request_update_keeps(1) by (rule rest)
  have "sc_ok s'" "pending s' = pending s1" using rest_sc_ok [OF rest'] s1(2) by simp_all
  moreover have "frame (rest s') = frame (rest s)" unfolding rest' comm fr ..
  moreover have "news s' = (news s)(clk := Bool b)" by (simp add: s'_def request_update_keeps sig2 fun_eq_iff)
  moreover have "m_writer (signal_of s' x) = m_writer (signal_of s x)" for x by (simp add: s'_def request_update_keeps sig2)
  ultimately show ?thesis using run s1(3) by auto
qed

lemma frame_rest_net:
  assumes "frame (rest s) = frame (rest t)"
  shows "m_methods_push s = m_methods_push t" "m_methods_pop s = m_methods_pop t" "method_of s = method_of t" "m_curr_time s = m_curr_time t" "m_curr_proc s = m_curr_proc t"
    "m_methods_static (event_of s e) = m_methods_static (event_of t e)"
    "m_change_event (signal_of s x) = m_change_event (signal_of t x)" "m_posedge_event (signal_of s x) = m_posedge_event (signal_of t x)"
    "m_negedge_event (signal_of s x) = m_negedge_event (signal_of t x)" "vals s x = vals t x" "m_ready_to_simulate s = m_ready_to_simulate t"
  using frameD(3-7) [OF assms] frameD(12) [OF assms, of e] arg_cong [OF frameD(1) [OF assms], of "\<lambda>g. m_change_event (g x)"]
    arg_cong [OF frameD(1) [OF assms], of "\<lambda>g. m_posedge_event (g x)"] arg_cong [OF frameD(1) [OF assms], of "\<lambda>g. m_negedge_event (g x)"]
    arg_cong [OF frameD(1) [OF assms], of "\<lambda>g. m_cur_val (g x)"] frameD(11) [OF assms]
  by (simp_all add: rest_def)

text \<open>A delta cycle in which only the clock acts.\<close>

lemma clock_cycle_ok:
  assumes "kernel_ok own s" and "m_methods_push s = [m]" and "body m = clock_action clk ev t b" and "t \<noteq> 0" and "pending s ev = None"
    and "\<And>x. ev \<notin> set (sig_events (signal_of s x))"
  shows "\<exists>s'. delta_cycle body s = Ret () s' \<and> kernel_ok own s' \<and> quiet s' \<and> same_net s' s \<and> vals s' = (news s)(clk := Bool b) \<and>
    pending s' = (\<lambda>e. if pending s e = Some Delta then None else pending s e)(ev \<mapsto> At (m_curr_time s + t)) \<and>
    set (m_methods_push s') = woken s (vals s')"
proof -
  define s0 where "s0 = s\<lparr>m_execution_phase := phase_evaluate, m_methods_push := [], m_methods_pop := [], m_curr_proc := Some m\<rparr>"
  have ok: "sc_ok s" "sigs_ok s" "m_methods_pop s = []" using assms(1) by (simp_all add: kernel_ok_def)
  have s0: "sc_ok s0" "pending s0 = pending s" "sigs_ok s0" "m_curr_time s0 = m_curr_time s" "signal_of s0 = signal_of s"
    using ok sc_ok_cong [of s0 s] by (simp_all add: s0_def sigs_ok_def)
  obtain s1 where s1: "clock_action clk ev t b s0 = Ret () s1" "sc_ok s1" "sigs_ok s1" "pending s1 = (pending s)(ev \<mapsto> At (m_curr_time s + t))"
      "news s1 = (news s)(clk := Bool b)" "frame (rest s1) = frame (rest s0)" "\<And>x. m_writer (signal_of s1 x) = m_writer (signal_of s x)"
    using clock_action_ok [OF s0(1,3), of ev t clk b] assms(4,5) unfolding s0(2,4,5) by blast
  note net1 = frame_rest_net [OF s1(6)]
  define s2 where "s2 = s1\<lparr>m_curr_proc := None\<rparr>"
  have s2: "sc_ok s2" "pending s2 = pending s1" "signal_of s2 = signal_of s1" "m_update_list s2 = m_update_list s1" "event_of s2 = event_of s1"
    using s1(2) sc_ok_cong [of s2 s1] by (simp_all add: s2_def)
  have "toggle_methods (s\<lparr>m_execution_phase := phase_evaluate\<rparr>) = s\<lparr>m_execution_phase := phase_evaluate, m_methods_pop := [m], m_methods_push := []\<rparr>"
    using ok(3) assms(2) by (simp add: toggle_methods_def)
  moreover have "run_methods body False (s\<lparr>m_execution_phase := phase_evaluate, m_methods_pop := [m], m_methods_push := []\<rparr>) = Ret True s2"
  proof -
    have "run_methods body True s1 = Ret True s2" unfolding run_methods_def
      by (subst loop_unfold) (use net1(2) in \<open>simp add: bnd_def pop_runnable_method_def s0_def s2_def\<close>)
    then show ?thesis unfolding run_methods_def by (subst loop_unfold) (use s1(1) assms(3) in \<open>simp add: bnd_def pop_runnable_method_def s0_def\<close>)
  qed
  ultimately have eval: "evaluate body (s\<lparr>m_execution_phase := phase_evaluate\<rparr>) = Ret True s2"
    unfolding evaluate_def by (subst loop_unfold) (use net1(1,2) in \<open>simp add: bnd_def runnable_is_empty_def s2_def s0_def\<close>)
  have evs: "sig_events (signal_of s2 x) = sig_events (signal_of s x)" for x using net1(7-9) [of x] by (simp add: sig_events_def s2(3) s0(5))
  have "pending s2 e = None" if "e \<in> set (sig_events (signal_of s x))" for e x
    using that assms(1,6) unfolding kernel_ok_def by (auto simp: s2(2) s1(4))
  moreover have "m_methods_push s2 = []" "m_methods_pop s2 = []" "plain s2" "sigs_ok s2" "writers_ok own s2"
    using assms(1) net1(1-3) s1(3,7) by (simp_all add: s2_def s0_def plain_def sigs_ok_def writers_ok_def kernel_ok_def)
  ultimately have "kernel_ok own s2" using assms(1) s2(1) by (simp add: kernel_ok_def events_ok_def evs)
  then obtain s' where s': "update_notify True s2 = Ret () s'" "kernel_ok own s'" "quiet s'" "same_net s' s2" "vals s' = news s2"
      "pending s' = (\<lambda>e. if pending s2 e = Some Delta then None else pending s2 e)" "set (m_methods_push s') = woken s2 (news s2)"
    using update_notify_ok [of own s2 True] net1(1) by (auto simp: s2_def s0_def)
  have new: "fired ((signal_of s2 x)\<lparr>m_new_val := v\<rparr>) = fired ((signal_of s x)\<lparr>m_new_val := v\<rparr>)" for x v
    by (rule fired_cong) (use net1(7-10) [of x] in \<open>simp_all add: s0_def s2(3)\<close>)
  have delta: "pending s2 e = Some Delta \<longleftrightarrow> pending s e = Some Delta" for e using assms(5) by (simp add: s2(2) s1(4))
  have static: "m_methods_static (event_of s2 e) = m_methods_static (event_of s e)" for e using net1(6) [of e] by (simp add: s2(5) s0_def)
  have "woken s2 (news s2) = woken s (vals s')" unfolding woken_def triggered_def s'(5) new delta static ..
  moreover have "vals s' = (news s)(clk := Bool b)" unfolding s'(5) s2(3) by (rule s1(5))
  moreover have "same_net s' s" using s'(4) net1 by (simp add: same_net_def static s2_def s0_def)
  moreover have "pending s' = (\<lambda>e. if pending s e = Some Delta then None else pending s e)(ev \<mapsto> At (m_curr_time s + t))"
    unfolding s'(6) delta using assms(5) by (auto simp: s2(2) s1(4) fun_eq_iff)
  ultimately show ?thesis using eval s'(1-3,7) by (intro exI [of _ s']) (simp add: delta_cycle_def bnd_def)
qed

section \<open>A clocked platform\<close>

text \<open>The methods \<open>ps\<close> are sensitive to the rising edge of the clock and the methods \<open>ns\<close> to its falling edge; \<open>pa\<close> and \<open>na\<close> are
  the processes of the clock. No process is sensitive to another signal.\<close>

definition wired :: "sc_clock \<Rightarrow> nat \<Rightarrow> nat \<Rightarrow> nat list \<Rightarrow> nat list \<Rightarrow> sc_sim \<Rightarrow> bool" where
  "wired c pa na ps ns s \<longleftrightarrow>
     (let clk = signal_of s (clk_signal c); static = (\<lambda>e. m_methods_static (event_of s e)) in
      m_change_event clk = None \<and>
      (case m_posedge_event clk of Some e \<Rightarrow> static e = ps \<and> e \<noteq> m_next_posedge_event c \<and> e \<noteq> m_next_negedge_event c | None \<Rightarrow> False) \<and>
      (case m_negedge_event clk of Some e \<Rightarrow> static e = ns \<and> e \<noteq> m_next_posedge_event c \<and> e \<noteq> m_next_negedge_event c | None \<Rightarrow> False) \<and>
      static (m_next_posedge_event c) = [pa] \<and> static (m_next_negedge_event c) = [na]) \<and>
     (\<forall>x. x \<noteq> clk_signal c \<longrightarrow> sig_events (signal_of s x) = [])"

text \<open>The methods write their own signals only, and not the clock.\<close>

definition methods_ok :: "(nat \<Rightarrow> nat) \<Rightarrow> nat \<Rightarrow> methods \<Rightarrow> bool" where
  "methods_ok own clk f \<longleftrightarrow> (\<forall>m vs x v. (x, v) \<in> set (f m vs) \<longrightarrow> own x = m \<and> x \<noteq> clk)"

definition step :: "methods \<Rightarrow> (nat \<Rightarrow> nat) \<Rightarrow> nat set \<Rightarrow> (nat \<Rightarrow> sc_value) \<Rightarrow> nat \<Rightarrow> sc_value" where
  "step f own R vs x = step_value f own R vs x (vs x)"

lemma same_net_wired: "same_net s t \<Longrightarrow> wired c pa na ps ns s = wired c pa na ps ns t"
  by (simp add: same_net_def wired_def sig_events_def Let_def)

lemma step_clk: "methods_ok own clk f \<Longrightarrow> step f own R vs clk = vs clk"
proof -
  assume "methods_ok own clk f"
  then have "map_of (rev (f m vs)) clk = None" for m by (force simp: methods_ok_def map_of_eq_None_iff)
  then show ?thesis by (simp add: step_def step_value_def written_def)
qed

lemma woken_clk:
  assumes "\<And>e. pending s e \<noteq> Some Delta" and "m_change_event (signal_of s clk) = None" and "\<And>x. x \<noteq> clk \<Longrightarrow> sig_events (signal_of s x) = []"
  shows "woken s vs = (case edge ((signal_of s clk)\<lparr>m_new_val := vs clk\<rparr>) of
     None \<Rightarrow> {} | Some e \<Rightarrow> if vs clk = vals s clk then {} else set (m_methods_static (event_of s e)))"
proof -
  have "fired ((signal_of s x)\<lparr>m_new_val := vs x\<rparr>) = []" if "x \<noteq> clk" for x
    using fired_events(1) [of "(signal_of s x)\<lparr>m_new_val := vs x\<rparr>"] assms(3) [OF that] by (simp add: sig_events_def)
  then have "triggered s vs e \<longleftrightarrow> e \<in> set (fired ((signal_of s clk)\<lparr>m_new_val := vs clk\<rparr>))" for e
    unfolding triggered_def using assms(1) by (metis empty_iff list.set(1))
  then show ?thesis using assms(2) by (auto simp: woken_def fired_def opt_list_def split: option.splits if_splits)
qed

text \<open>One edge of the clock: its own delta cycle and the one of the processes that it wakes.\<close>

lemma edge_ok:
  assumes "kernel_ok own s" and "m_methods_push s = [m]" and "body m = clock_action clk ev t b" and "t \<noteq> 0" and "pending s = Map.empty"
    and "\<And>x. ev \<notin> set (sig_events (signal_of s x))" and "m_change_event (signal_of s clk) = None"
    and "\<And>x. x \<noteq> clk \<Longrightarrow> sig_events (signal_of s x) = []" and "vals s clk = Bool (\<not> b)"
    and "(if b then m_posedge_event (signal_of s clk) else m_negedge_event (signal_of s clk)) = Some e" and "m_methods_static (event_of s e) = M"
    and "\<And>m. m \<in> set M \<Longrightarrow> body m = signal_method f m" and "methods_ok own clk f"
  defines "vs \<equiv> (news s)(clk := Bool b)"
  shows "\<exists>s'. crunch body False s = Ret () s' \<and> kernel_ok own s' \<and> quiet s' \<and> same_net s' s \<and> m_methods_push s' = [] \<and>
    pending s' = [ev \<mapsto> At (m_curr_time s + t)] \<and> vals s' = step f own (set M) vs"
proof -
  have own: "\<forall>(x, v) \<in> set (f m vs). own x = m" for m vs using assms(13) by (auto simp: methods_ok_def)
  obtain s1 where s1: "delta_cycle body s = Ret () s1" "kernel_ok own s1" "quiet s1" "same_net s1 s" "vals s1 = vs"
      "pending s1 = [ev \<mapsto> At (m_curr_time s + t)]" "set (m_methods_push s1) = woken s (vals s1)"
    using clock_cycle_ok [where own = own and s = s and m = m and body = body and clk = clk and ev = ev and t = t and b = b] assms(1-6)
    unfolding vs_def by auto
  have clk1: "vals s1 clk = Bool b" using fun_cong [OF s1(5), of clk] by (simp add: vs_def)
  then have "edge ((signal_of s clk)\<lparr>m_new_val := vals s1 clk\<rparr>) = Some e" using assms(10) by (simp add: edge_def split: if_splits)
  then have M: "set (m_methods_push s1) = set M"
    unfolding s1(7) using woken_clk [of s clk "vals s1", OF _ assms(7,8)] assms(5,9,11) by (simp add: clk1)
  have finish: "crunch body False s = Ret () s'" if "loop (\<lambda>_. bnd (delta_cycle body) (\<lambda>_. bnd (gets runnable_is_empty) (\<lambda>empty.
       ret (if empty \<or> False then Inr () else Inl ())))) () s = Ret () s'" "kernel_ok own s'" for s'
    using that by (simp add: crunch_def bnd_def kernel_ok_def plain_def)
  show ?thesis
  proof (cases "m_methods_push s1 = []")
    case True
    then have "M = []" using M by simp
    then have "step f own (set M) vs = vs" by (simp add: step_def step_value_def fun_eq_iff)
    moreover have "crunch body False s = Ret () s1"
      using s1(1,2) True by (intro finish) (subst loop_unfold, simp_all add: bnd_def runnable_is_empty_def kernel_ok_def)
    ultimately show ?thesis using s1 True by auto
  next
    case False
    obtain s2 where s2: "delta_cycle body s1 = Ret () s2" "kernel_ok own s2" "quiet s2" "same_net s2 s1"
        "vals s2 = (\<lambda>x. step_value f own (set (m_methods_push s1)) (vals s1) x (news s1 x))"
        "pending s2 = (\<lambda>e. if pending s1 e = Some Delta then None else pending s1 e)" "set (m_methods_push s2) = woken s1 (vals s2)"
    proof -
      have "\<And>m. m \<in> set (m_methods_push s1) \<Longrightarrow> body m = signal_method f m" using assms(12) M by simp
      from delta_cycle_ok [where f = f, OF s1(2) this own] show thesis using that by blast
    qed
    have vals2: "vals s2 = step f own (set M) vs"
      using s1(3) unfolding s2(5) M by (simp add: step_def s1(5) quiet_def fun_eq_iff) (metis s1(5))
    have net: "m_change_event (signal_of s1 clk) = None" using s1(4) assms(7) by (simp add: same_net_def)
    have net': "sig_events (signal_of s1 x) = []" if "x \<noteq> clk" for x using s1(4) assms(8) [OF that] by (simp add: same_net_def sig_events_def)
    have no_delta: "pending s1 e \<noteq> Some Delta" for e by (simp add: s1(6))
    have "vals s2 clk = vals s1 clk" using fun_cong [OF vals2, of clk] fun_cong [OF s1(5), of clk] by (simp add: step_clk [OF assms(13)])
    then have "woken s1 (vals s2) = {}" using woken_clk [where clk = clk, OF no_delta net net', of "vals s2"] by (auto split: option.splits)
    then have push2: "m_methods_push s2 = []" using s2(7) by simp
    have "crunch body False s = Ret () s2"
      using s1(1) s2(1,2) push2 False
      by (intro finish) (subst loop_unfold, simp add: bnd_def runnable_is_empty_def, subst loop_unfold, simp_all add: bnd_def runnable_is_empty_def kernel_ok_def)
    moreover have "same_net s2 s" using s2(4) s1(4) by (simp add: same_net_def)
    moreover have "pending s2 = pending s1" using s2(6) s1(6) by (simp add: fun_eq_iff)
    ultimately show ?thesis using s2(2,3) push2 vals2 s1(6) by auto
  qed
qed

text \<open>The state between two calls of \<open>sc_start\<close>: the clock is low and its rising edge is due, nothing else is.\<close>

definition ready :: "(nat \<Rightarrow> nat) \<Rightarrow> sc_clock \<Rightarrow> nat \<Rightarrow> sc_sim \<Rightarrow> bool" where
  "ready own c pa s \<longleftrightarrow> kernel_ok own s \<and> m_methods_push s = [pa] \<and> pending s = Map.empty \<and> vals s (clk_signal c) = Bool False \<and>
     m_ready_to_simulate s"

lemma wired_event:
  assumes "wired c pa na ps ns s" and "ev = m_next_posedge_event c \<or> ev = m_next_negedge_event c"
  shows "ev \<notin> set (sig_events (signal_of s x))"
  using assms by (cases "x = clk_signal c") (auto simp: wired_def sig_events_def opt_list_def Let_def split: option.splits)

lemma word_times:
  fixes a n p :: "64 word"
  assumes "unat a + unat n + unat p < 2 ^ 64" and "n \<noteq> 0" and "p \<noteq> 0"
  shows "\<not> n + p > - 1 - a" "a < a + n" "a + n < a + (n + p)" "a + n + p = a + (n + p)" "n + p \<noteq> 0"
proof -
  have np: "unat (n + p) = unat n + unat p" using assms(1) unat_add_lem [of n p] by simp
  have an: "unat (a + n) = unat a + unat n" using assms(1) unat_add_lem [of a n] by simp
  have anp: "unat (a + (n + p)) = unat a + unat n + unat p" using assms(1) np unat_add_lem [of a "n + p"] by simp
  have pos: "0 < unat n" "0 < unat p" using assms(2,3) by (simp_all add: unat_gt_0)
  show "a < a + n" "a + n < a + (n + p)" using an anp pos by (simp_all add: word_less_nat_alt)
  show "a + n + p = a + (n + p)" by simp
  show "n + p \<noteq> 0" using np pos by (metis add_is_0 less_numeral_extra(3) unat_0)
  have "unat (- 1 - a) = 2 ^ 64 - 1 - unat a" using unat_sub [of a "- 1"] by (simp add: unsigned_minus_1_eq_mask mask_eq_exp_minus_1)
  then show "\<not> n + p > - 1 - a" using np assms(1) by (simp add: word_less_nat_alt)
qed

definition platform_ok :: "sc_clock \<Rightarrow> nat \<Rightarrow> nat \<Rightarrow> nat list \<Rightarrow> nat list \<Rightarrow> (nat \<Rightarrow> nat) \<Rightarrow> methods \<Rightarrow> (nat \<Rightarrow> unit sim_prog) \<Rightarrow> bool" where
  "platform_ok c pa na ps ns own f body \<longleftrightarrow> methods_ok own (clk_signal c) f \<and> body pa = posedge_action c \<and> body na = negedge_action c \<and>
     (\<forall>m \<in> set ps \<union> set ns. body m = signal_method f m) \<and> m_posedge_time c \<noteq> 0 \<and> m_negedge_time c \<noteq> 0"

text \<open>From the end of the delta cycles of the rising edge to the next rising edge.\<close>

lemma low_half:
  assumes crunch: "crunch body False s = Ret () s1" and "m_curr_time s = T" and "m_ready_to_simulate s" and "same_net s1 s"
    and s1: "kernel_ok own s1" "quiet s1" "m_methods_push s1 = []" "pending s1 = [m_next_negedge_event c \<mapsto> At (T + m_negedge_time c)]"
    and "vals s1 (clk_signal c) = Bool True" and "wired c pa na ps ns s" and p: "platform_ok c pa na ps ns own f body"
    and "unat T + unat (m_negedge_time c) + unat (m_posedge_time c) < 2 ^ 64"
  defines "period \<equiv> m_negedge_time c + m_posedge_time c"
  shows "\<exists>s'. sc_start table body period s = Ret () s' \<and> ready own c pa s' \<and> quiet s' \<and> wired c pa na ps ns s' \<and> m_curr_time s' = T + period \<and>
    vals s' = step f own (set ns) ((vals s1)(clk_signal c := Bool False))"
proof -
  let ?n = "m_negedge_time c" and ?p = "m_posedge_time c" and ?pev = "m_next_posedge_event c" and ?nev = "m_next_negedge_event c"
  let ?clk = "clk_signal c"
  have plat: "methods_ok own ?clk f" "body na = negedge_action c" "\<And>m. m \<in> set ns \<Longrightarrow> body m = signal_method f m" "?p \<noteq> 0" "?n \<noteq> 0"
    using p by (simp_all add: platform_ok_def)
  note times = word_times [OF assms(12) plat(5,4)]
  have wired1: "wired c pa na ps ns s1" and time1: "m_curr_time s1 = T" using same_net_wired [OF assms(4)] assms(2,4,10) by (simp_all add: same_net_def)
  obtain s2 where s2: "advance (T + period) T s1 = Ret (T + ?n, False) s2" "kernel_ok own s2" "signal_of s2 = signal_of s1"
      "m_methods_push s2 = [na]" "pending s2 = Map.empty" "m_curr_time s2 = T + ?n" "\<And>e. m_methods_static (event_of s2 e) = m_methods_static (event_of s1 e)"
      "m_ready_to_simulate s2 = m_ready_to_simulate s1"
  proof -
    have "m_methods_static (event_of s1 ?nev) = [na]" "m_curr_time s1 < T + ?n" "T + ?n \<le> T + period"
      using wired1 time1 times(2,3) by (simp_all add: wired_def Let_def period_def)
    from advance_ok [OF s1(1,3,4) this, of T] show thesis using that by blast
  qed
  have wired2: "wired c pa na ps ns s2" using wired1 s2(3,7) by (simp add: wired_def)
  obtain e where e: "m_negedge_event (signal_of s2 ?clk) = Some e" "m_methods_static (event_of s2 e) = ns"
    using wired2 by (auto simp: wired_def Let_def split: option.splits)
  have w2: "m_change_event (signal_of s2 ?clk) = None" "\<And>x. x \<noteq> ?clk \<Longrightarrow> sig_events (signal_of s2 x) = []" using wired2 by (simp_all add: wired_def Let_def)
  have news2: "news s2 = vals s1" using s1(2) unfolding quiet_def s2(3) by simp
  obtain s3 where s3: "crunch body False s2 = Ret () s3" "kernel_ok own s3" "quiet s3" "same_net s3 s2" "m_methods_push s3 = []"
      "pending s3 = [?pev \<mapsto> At (T + ?n + ?p)]" "vals s3 = step f own (set ns) ((vals s1)(?clk := Bool False))"
    using edge_ok [OF s2(2,4) _ plat(4) s2(5) _ w2, where b = False and ev = ?pev and e = e and f = f and body = body] e plat(1-3) assms(9)
      wired_event [OF wired2] s2(3,6) unfolding news2 by (auto simp: clock_actions)
  have wired3: "wired c pa na ps ns s3" and time3: "m_curr_time s3 = T + ?n" using same_net_wired [OF s3(4)] wired2 s3(4) s2(6) by (simp_all add: same_net_def)
  obtain s4 where s4: "advance (T + period) (T + ?n) s3 = Ret (T + period, False) s4" "kernel_ok own s4" "signal_of s4 = signal_of s3" "m_update_list s4 = m_update_list s3"
      "m_methods_push s4 = [pa]" "pending s4 = Map.empty" "m_curr_time s4 = T + period" "\<And>e. m_methods_static (event_of s4 e) = m_methods_static (event_of s3 e)"
      "m_ready_to_simulate s4 = m_ready_to_simulate s3"
  proof -
    have "m_methods_static (event_of s3 ?pev) = [pa]" "m_curr_time s3 < T + period" "pending s3 = [?pev \<mapsto> At (T + period)]"
      using wired3 time3 times(3,4) s3(6) by (simp_all add: wired_def Let_def period_def add.assoc)
    from advance_ok [OF s3(2,5) this(3,1,2), of "T + period" "T + ?n"] show thesis using that by blast
  qed
  define s' where "s' = s4\<lparr>m_execution_phase := phase_evaluate\<rparr>"
  have "simulate table body period s = Ret () s'"
  proof -
    define U where "U = T + period"
    have lt: "T + ?n < U" using times(3) by (simp add: U_def period_def)
    note a2 = s2(1) [folded U_def] and a4 = s4(1) [folded U_def]
    let ?body = "\<lambda>_ :: unit. bnd (crunch body False) (\<lambda>_. bnd (gets m_curr_time) (\<lambda>now. bnd (advance U now) (\<lambda>(t, over).
                ret (if over \<or> \<not> t < U then Inr t else Inl ()))))"
    have "loop ?body () s2 = Ret U s4"
      by (subst loop_unfold) (simp add: bnd_simps(1) [where m = "crunch _ _", OF s3(1)] bnd_assoc time3 bnd_simps(1) [where m = "advance _ _", OF a4])
    then have "loop ?body () s = Ret U s4"
      by (subst loop_unfold) (simp add: bnd_simps(1) [where m = "crunch _ _", OF crunch] bnd_assoc time1 bnd_simps(1) [where m = "advance _ _", OF a2] lt)
    then show ?thesis using times(1,5) s4(7) assms(2,3)
      by (simp add: simulate_def prepare_to_simulate_def bnd_simps(1) [where m = "prepare_to_simulate _"] Let_def period_def [symmetric] U_def [symmetric] bnd_assoc bnd_simps(1) [where m = "loop _ _"] s'_def)
  qed
  then have "sc_start table body period s = Ret () s'" using assms(2) by (simp add: sc_start_def bnd_def s'_def s4(7))
  moreover have "kernel_ok own s'" using s4(2) sc_ok_cong [of s' s4] by (simp add: kernel_ok_def s'_def sigs_ok_def events_ok_def writers_ok_def plain_def)
  moreover have "pending s' = Map.empty" using s4(6) sc_ok_cong(2) [of s' s4] by (simp add: s'_def)
  moreover have "quiet s'" using s3(3) s4(3,4) by (simp add: quiet_def s'_def)
  moreover have "wired c pa na ps ns s'" using wired3 s4(3,8) by (simp add: wired_def s'_def)
  moreover have vals': "vals s' = step f own (set ns) ((vals s1)(?clk := Bool False))" using s3(7) s4(3) by (simp add: s'_def)
  moreover have "vals s' ?clk = Bool False" using fun_cong [OF vals', of ?clk] step_clk [OF plat(1)] by simp
  moreover have "m_ready_to_simulate s'" using assms(3,4) s2(8) s3(4) s4(9) by (simp add: same_net_def s'_def)
  ultimately show ?thesis using s4(5,7) by (intro exI [of _ s']) (simp add: ready_def s'_def)
qed

lemma period_ok:
  assumes "wired c pa na ps ns s" and "ready own c pa s" and p: "platform_ok c pa na ps ns own f body"
    and "unat (m_curr_time s) + unat (m_negedge_time c) + unat (m_posedge_time c) < 2 ^ 64"
  defines "clk \<equiv> clk_signal c" and "period \<equiv> m_negedge_time c + m_posedge_time c"
  shows "\<exists>s'. sc_start table body period s = Ret () s' \<and> ready own c pa s' \<and> quiet s' \<and> wired c pa na ps ns s' \<and> m_curr_time s' = m_curr_time s + period \<and>
    vals s' = step f own (set ns) ((step f own (set ps) ((news s)(clk := Bool True)))(clk := Bool False))"
proof -
  let ?nev = "m_next_negedge_event c"
  have plat: "methods_ok own clk f" "body pa = posedge_action c" "\<And>m. m \<in> set ps \<Longrightarrow> body m = signal_method f m" "m_negedge_time c \<noteq> 0"
    using p by (simp_all add: platform_ok_def clk_def)
  have s: "kernel_ok own s" "m_methods_push s = [pa]" "pending s = Map.empty" "vals s clk = Bool False" "m_ready_to_simulate s"
    using assms(2) by (simp_all add: ready_def clk_def)
  obtain e where e: "m_posedge_event (signal_of s clk) = Some e" "m_methods_static (event_of s e) = ps"
    using assms(1) by (auto simp: wired_def clk_def Let_def split: option.splits)
  have w: "m_change_event (signal_of s clk) = None" "\<And>x. x \<noteq> clk \<Longrightarrow> sig_events (signal_of s x) = []" using assms(1) by (simp_all add: wired_def clk_def Let_def)
  define v1 where "v1 = step f own (set ps) ((news s)(clk := Bool True))"
  obtain s1 where s1: "crunch body False s = Ret () s1" "kernel_ok own s1" "quiet s1" "same_net s1 s" "m_methods_push s1 = []"
      "pending s1 = [?nev \<mapsto> At (m_curr_time s + m_negedge_time c)]" "vals s1 = v1"
    using edge_ok [OF s(1,2) _ plat(4) s(3) _ w, where b = True and ev = ?nev and e = e and f = f and body = body] e s(4) plat(1-3) wired_event [OF assms(1)]
    unfolding v1_def clk_def by (auto simp: clock_actions)
  have "vals s1 (clk_signal c) = Bool True"
    using fun_cong [OF s1(7), of clk] step_clk [OF plat(1)] by (simp add: v1_def clk_def)
  from low_half [OF s1(1) refl s(5) s1(4,2,3,5,6) this assms(1) p assms(4)] show ?thesis unfolding s1(7) v1_def clk_def period_def .
qed

section \<open>The start of a simulation\<close>

text \<open>A platform after its elaboration: the clock is low, its constructor has notified the rising edge for the first delta
  cycle, and no method of the process table is to be run initially.\<close>

definition built :: "(nat \<Rightarrow> nat) \<Rightarrow> sc_clock \<Rightarrow> nat list \<Rightarrow> sc_sim \<Rightarrow> bool" where
  "built own c table s \<longleftrightarrow> kernel_ok own s \<and> quiet s \<and> pending s = [m_next_posedge_event c \<mapsto> Delta] \<and> vals s (clk_signal c) = Bool False \<and>
     \<not> m_ready_to_simulate s \<and> (\<forall>m \<in> set table. ps_dont_initialize (method_of s m))"

text \<open>The state after \<open>sc_start(0)\<close>: the rising edge has happened and the methods that it wakes are runnable.\<close>

definition started :: "(nat \<Rightarrow> nat) \<Rightarrow> sc_clock \<Rightarrow> nat list \<Rightarrow> sc_sim \<Rightarrow> bool" where
  "started own c ps s \<longleftrightarrow> kernel_ok own s \<and> set (m_methods_push s) = set ps \<and> pending s = [m_next_negedge_event c \<mapsto> At (m_curr_time s + m_negedge_time c)] \<and>
     vals s (clk_signal c) = Bool True \<and> news s (clk_signal c) = Bool True \<and> m_ready_to_simulate s"

lemma crunch_once:
  assumes "delta_cycle body s = Ret () s1" and "plain s1" and "once \<or> runnable_is_empty s1"
  shows "crunch body once s = Ret () s1"
proof -
  have "loop (\<lambda>_. bnd (delta_cycle body) (\<lambda>_. bnd (gets runnable_is_empty) (\<lambda>empty. ret (if empty \<or> once then Inr () else Inl ())))) () s = Ret () s1"
    using assms(1,3) by (subst loop_unfold) (auto simp: bnd_def)
  then show ?thesis using assms(2) by (simp add: crunch_def bnd_def plain_def)
qed

lemma prepare_ok:
  assumes "built own c table s" and "wired c pa na ps ns s"
  shows "\<exists>s'. prepare_to_simulate table s = Ret () s' \<and> kernel_ok own s' \<and> m_methods_push s' = [pa] \<and> pending s' = Map.empty \<and>
    signal_of s' = signal_of s \<and> m_curr_time s' = m_curr_time s \<and> m_ready_to_simulate s' \<and> wired c pa na ps ns s'"
proof -
  let ?pev = "m_next_posedge_event c"
  have b: "kernel_ok own s" "quiet s" "pending s = [?pev \<mapsto> Delta]" "\<not> m_ready_to_simulate s" "\<forall>m \<in> set table. ps_dont_initialize (method_of s m)"
    using assms(1) by (simp_all add: built_def)
  define s1 where "s1 = s\<lparr>m_ready_to_simulate := True, m_methods_push := [], m_methods_pop := [], m_execution_phase := phase_notify\<rparr>"
  have s1: "sc_ok s1" "pending s1 = pending s" "plain s1" "m_methods_push s1 = []" "m_methods_pop s1 = []" "event_of s1 = event_of s" "signal_of s1 = signal_of s"
      "m_curr_time s1 = m_curr_time s" "m_ready_to_simulate s1" "m_update_list s1 = m_update_list s"
    using b(1) sc_ok_cong [of s1 s] by (simp_all add: s1_def kernel_ok_def plain_def)
  define s' where "s' = trigger_delta_events s1"
  have "fold initialize_method table t = t" if "\<forall>m \<in> set table. ps_dont_initialize (method_of t m)" for t
    using that by (induction table) (simp_all add: initialize_method_def Let_def)
  then have "fold initialize_method table s1 = s1" using b(5) by (simp add: s1_def)
  moreover have "perform_update t = Ret () t" if "m_update_list t = []" for t using that by (cases t) (simp add: perform_update_def)
  ultimately have run: "prepare_to_simulate table s = Ret () s'"
    using b(2,4) by (simp add: prepare_to_simulate_def bnd_def quiet_def s1_def s'_def)
  note t = trigger_delta_events_ok [OF s1(1,3), folded s'_def]
  note keep = hushD [OF t(3), simplified] and sig = hush_signals [OF t(3), simplified]
  have pend: "pending s' = Map.empty" unfolding t(4) s1(2) b(3) by (simp add: fun_eq_iff)
  have "pending s1 e = Some Delta \<longleftrightarrow> e = ?pev" for e by (simp add: s1(2) b(3))
  then have "set (m_methods_push s') = {pa}" unfolding t(5) using assms(2) s1(4-6) by (simp add: wired_def Let_def)
  moreover have "distinct (m_methods_push s')" using t(6) s1(4) by simp
  ultimately have push: "m_methods_push s' = [pa]" by (cases "m_methods_push s'"; cases "tl (m_methods_push s')") auto
  have "kernel_ok own s'"
    using b(1) t(1,2) keep(1) s1(5,7,10) sig push pend unfolding kernel_ok_def sigs_ok_def events_ok_def writers_ok_def by simp
  moreover have "wired c pa na ps ns s'" using assms(2) sig(1) s1(6,7) keep(11) by (simp add: wired_def)
  ultimately show ?thesis using run push pend sig(1) s1(7-9) keep(4,12) by auto
qed

lemma start_zero:
  assumes "built own c table s" and "wired c pa na ps ns s" and p: "platform_ok c pa na ps ns own f body"
  shows "\<exists>s'. sc_start table body 0 s = Ret () s' \<and> started own c ps s' \<and> quiet s' \<and> wired c pa na ps ns s' \<and> m_curr_time s' = m_curr_time s \<and>
    vals s' = (vals s)(clk_signal c := Bool True)"
proof -
  let ?clk = "clk_signal c" and ?nev = "m_next_negedge_event c"
  obtain s1 where s1: "prepare_to_simulate table s = Ret () s1" "kernel_ok own s1" "m_methods_push s1 = [pa]" "pending s1 = Map.empty"
      "signal_of s1 = signal_of s" "m_curr_time s1 = m_curr_time s" "m_ready_to_simulate s1" "wired c pa na ps ns s1"
    using prepare_ok [OF assms(1,2)] by blast
  have body: "body pa = clock_action ?clk ?nev (m_negedge_time c) True" "m_negedge_time c \<noteq> 0" using p by (simp_all add: platform_ok_def clock_actions)
  have "news s1 = vals s" using assms(1) by (simp add: built_def quiet_def s1(5))
  then obtain s2 where s2: "delta_cycle body s1 = Ret () s2" "kernel_ok own s2" "quiet s2" "same_net s2 s1" "vals s2 = (vals s)(?clk := Bool True)"
      "pending s2 = [?nev \<mapsto> At (m_curr_time s + m_negedge_time c)]" "set (m_methods_push s2) = woken s1 (vals s2)"
    using clock_cycle_ok [where own = own and s = s1 and m = pa and body = body and clk = ?clk and ev = ?nev and t = "m_negedge_time c" and b = True]
      s1(2-4,6) body wired_event [OF s1(8)] by auto
  have clk: "vals s2 ?clk = Bool True" "vals s1 ?clk = Bool False" using fun_cong [OF s2(5), of ?clk] assms(1) by (simp_all add: built_def s1(5))
  have "woken s1 (vals s2) = set ps"
    using woken_clk [where clk = ?clk and s = s1 and vs = "vals s2"] s1(4,8) clk by (auto simp: wired_def Let_def edge_def split: option.splits)
  then have push: "set (m_methods_push s2) = set ps" using s2(7) by simp
  have "crunch body True s1 = Ret () s2" by (rule crunch_once) (use s2(1,2) in \<open>simp_all add: kernel_ok_def\<close>)
  define s' where "s' = s2\<lparr>m_execution_phase := phase_evaluate\<rparr>"
  have time: "m_curr_time s2 = m_curr_time s" using s2(4) s1(6) by (simp add: same_net_def)
  have "simulate table body 0 s = Ret () s'"
    using s1(1) \<open>crunch body True s1 = Ret () s2\<close> by (simp add: simulate_def bnd_def Let_def s'_def)
  then have "sc_start table body 0 s = Ret () s'" by (simp add: sc_start_def bnd_def s'_def time)
  moreover have "kernel_ok own s'" "pending s' = pending s2"
    using s2(2) sc_ok_cong [of s' s2] by (simp_all add: kernel_ok_def s'_def sigs_ok_def events_ok_def writers_ok_def plain_def)
  moreover have "quiet s'" using s2(3) by (simp add: quiet_def s'_def)
  moreover have "wired c pa na ps ns s'" using same_net_wired [OF s2(4)] s1(8) by (simp add: wired_def s'_def)
  moreover have "m_ready_to_simulate s'" using s2(4) s1(7) by (simp add: same_net_def s'_def)
  ultimately show ?thesis using s2(5,6) push clk time s2(3) by (intro exI [of _ s']) (simp add: started_def s'_def quiet_def)
qed

lemma first_period:
  assumes "started own c ps s" and "wired c pa na ps ns s" and p: "platform_ok c pa na ps ns own f body"
    and "unat (m_curr_time s) + unat (m_negedge_time c) + unat (m_posedge_time c) < 2 ^ 64"
  defines "clk \<equiv> clk_signal c" and "period \<equiv> m_negedge_time c + m_posedge_time c"
  shows "\<exists>s'. sc_start table body period s = Ret () s' \<and> ready own c pa s' \<and> quiet s' \<and> wired c pa na ps ns s' \<and> m_curr_time s' = m_curr_time s + period \<and>
    vals s' = step f own (set ns) ((\<lambda>x. step_value f own (set ps) (vals s) x (news s x))(clk := Bool False))"
proof -
  have s: "kernel_ok own s" "set (m_methods_push s) = set ps" "pending s = [m_next_negedge_event c \<mapsto> At (m_curr_time s + m_negedge_time c)]"
      "vals s clk = Bool True" "news s clk = Bool True" "m_ready_to_simulate s"
    using assms(1) by (simp_all add: started_def clk_def)
  have plat: "methods_ok own clk f" "\<And>m. m \<in> set (m_methods_push s) \<Longrightarrow> body m = signal_method f m" using p s(2) by (simp_all add: platform_ok_def clk_def)
  have own: "\<forall>(x, v) \<in> set (f m vs). own x = m" for m vs using plat(1) by (auto simp: methods_ok_def)
  obtain s1 where s1: "delta_cycle body s = Ret () s1" "kernel_ok own s1" "quiet s1" "same_net s1 s"
      "vals s1 = (\<lambda>x. step_value f own (set ps) (vals s) x (news s x))"
      "pending s1 = (\<lambda>e. if pending s e = Some Delta then None else pending s e)" "set (m_methods_push s1) = woken s (vals s1)"
    using delta_cycle_ok [where f = f, OF s(1) plat(2) own] unfolding s(2) by blast
  have "map_of (rev (f m vs)) clk = None" for m vs using plat(1) by (force simp: methods_ok_def map_of_eq_None_iff)
  then have clk: "vals s1 clk = Bool True" using fun_cong [OF s1(5), of clk] s(5) by (simp add: step_value_def written_def)
  have "woken s (vals s1) = {}"
    using woken_clk [where clk = clk and s = s and vs = "vals s1"] assms(2) clk s(3,4) by (auto simp: wired_def Let_def clk_def split: option.splits)
  then have push: "m_methods_push s1 = []" using s1(7) by simp
  have run: "crunch body False s = Ret () s1" by (rule crunch_once) (use s1(1,2) push in \<open>simp_all add: kernel_ok_def runnable_is_empty_def\<close>)
  have "pending s1 = [m_next_negedge_event c \<mapsto> At (m_curr_time s + m_negedge_time c)]" unfolding s1(6) s(3) by (auto simp: fun_eq_iff)
  from low_half [OF run refl s(6) s1(4,2,3) push this clk [unfolded clk_def] assms(2) p assms(4)] show ?thesis unfolding s1(5) clk_def period_def .
qed

end
