(* ===== verification/Sc_Platform.thy ===== *)
theory Sc_Platform
  imports Sc_Clock
begin

text \<open>
  The simulation of a clocked platform by the SystemC kernel, from the elaboration through the calls of \<open>sc_start\<close> of an
  \<open>sc_main\<close>, and the properties of the kernel with a small platform on which they are tried.
\<close>

section \<open>The simulation loop of a platform\<close>

text \<open>The end of \<open>sc_main\<close>: an initialisation, one cycle with the reset signal low, and \<open>ncycles - 1\<close> cycles with the reset signal high.\<close>

primrec repeat :: "nat \<Rightarrow> unit sim_prog \<Rightarrow> unit sim_prog" where
  "repeat 0 m = ret ()"
| "repeat (Suc n) m = bnd m (\<lambda>_. repeat n m)"

definition main_simulation :: "nat list \<Rightarrow> (nat \<Rightarrow> unit sim_prog) \<Rightarrow> nat \<Rightarrow> sc_time \<Rightarrow> nat \<Rightarrow> unit sim_prog" where
  "main_simulation table body signal_resetn cycle ncycles =
     bnd (sc_start table body 0) (\<lambda>_.
     bnd (sig_write signal_resetn (Bool False)) (\<lambda>_.
     bnd (sc_start table body cycle) (\<lambda>_.
     bnd (sig_write signal_resetn (Bool True)) (\<lambda>_.
     repeat (ncycles - 1) (sc_start table body cycle)))))"

text \<open>A cycle as a function of the values of the signals: the methods of the rising edge, then those of the falling edge.\<close>

definition clock_cycle :: "methods \<Rightarrow> (nat \<Rightarrow> nat) \<Rightarrow> nat \<Rightarrow> nat list \<Rightarrow> nat list \<Rightarrow> (nat \<Rightarrow> sc_value) \<Rightarrow> nat \<Rightarrow> sc_value" where
  "clock_cycle f own clk ps ns vs = step f own (set ns) ((step f own (set ps) (vs(clk := Bool True)))(clk := Bool False))"

lemma outside_write_ok:
  assumes "kernel_ok own s"
  shows "\<exists>s'. sig_write x v s = Ret () s' \<and> kernel_ok own s' \<and> rest s' = rest s \<and> news s' = (news s)(x := v)"
proof -
  have s: "sigs_ok s" "m_curr_proc s = None" using assms by (simp_all add: kernel_ok_def plain_def)
  define s1 where "s1 = set_signal x (\<lambda>sg. sg\<lparr>m_new_val := v\<rparr>) s"
  define s' where "s' = (if news s x \<noteq> v then request_update x s1 else s1)"
  have "check_write x s = Ret () s"
  proof (cases "m_writer (signal_of s x)")
    case None
    then have "(signal_of s x)\<lparr>m_writer := None\<rparr> = signal_of s x" by simp
    then have "set_signal x (\<lambda>sg. sg\<lparr>m_writer := None\<rparr>) s = s" unfolding set_signal_def by (simp only: fun_upd_triv) simp
    then show ?thesis using None s(2) by (simp add: check_write_def)
  next
    case (Some w)
    then show ?thesis using s(2) by (simp add: check_write_def)
  qed
  then have run: "sig_write x v s = Ret () s'" by (simp add: sig_write_def bnd_def Let_def s1_def s'_def)
  have rest1: "rest s1 = rest s" by (simp add: s1_def rest_def set_signal_def fun_eq_iff)
  have rest: "rest s' = rest s" unfolding s'_def using request_update_keeps(1) [of x s1] rest1 by simp
  have news1: "news s1 = (news s)(x := v)" by (simp add: s1_def fun_eq_iff)
  have news: "news s' = (news s)(x := v)" unfolding s'_def using request_update_keeps(2) [of x s1] news1 by simp
  have "sigs_ok s'"
  proof (cases "news s x = v")
    case True
    then have "sigs_ok s1" using s(1) by (simp add: sigs_ok_def s1_def fun_upd_idem)
    then show ?thesis using True by (simp add: s'_def)
  next
    case False
    have "sigs_ok (request_update x s1)" by (rule request_update_ok) (use s(1) in \<open>auto simp: sigs_ok_def s1_def\<close>)
    then show ?thesis using False by (simp add: s'_def)
  qed
  moreover have "m_writer (signal_of s' y) = m_writer (signal_of s y)" for y
    unfolding s'_def using request_update_keeps(3) [of x s1 y] by (simp add: s1_def)
  moreover have "sig_events (signal_of s' y) = sig_events (signal_of s y)" for y using rest_net(5-7) [OF rest, of y] by (simp add: sig_events_def)
  ultimately have "kernel_ok own s'"
    using assms rest_sc_ok [OF rest] restD(3,4) [OF rest] rest_net(2,4) [OF rest] by (simp add: kernel_ok_def events_ok_def writers_ok_def plain_def)
  then show ?thesis using run rest news by blast
qed

lemma rest_wired: "rest s = rest t \<Longrightarrow> wired c pa na ps ns s = wired c pa na ps ns t"
  using rest_net(5-7) [of s t] rest_net(1) [of s t] by (simp add: wired_def sig_events_def Let_def)

lemma cycles_ok:
  assumes "wired c pa na ps ns s" and "ready own c pa s" and "platform_ok c pa na ps ns own f body"
    and "unat (m_curr_time s) + n * (unat (m_negedge_time c) + unat (m_posedge_time c)) < 2 ^ 64" and "0 < n"
  shows "\<exists>s'. repeat n (sc_start table body (m_negedge_time c + m_posedge_time c)) s = Ret () s' \<and> ready own c pa s' \<and> wired c pa na ps ns s' \<and>
    unat (m_curr_time s') = unat (m_curr_time s) + n * (unat (m_negedge_time c) + unat (m_posedge_time c)) \<and>
    vals s' = (clock_cycle f own (clk_signal c) ps ns ^^ n) (news s)"
  using assms
proof (induction n arbitrary: s)
  case (Suc n)
  let ?p = "m_negedge_time c + m_posedge_time c" and ?u = "unat (m_negedge_time c) + unat (m_posedge_time c)"
  have less: "unat (m_curr_time s) + unat (m_negedge_time c) + unat (m_posedge_time c) < 2 ^ 64" using Suc.prems(4) by simp
  obtain s1 where s1: "sc_start table body ?p s = Ret () s1" "ready own c pa s1" "quiet s1" "wired c pa na ps ns s1" "m_curr_time s1 = m_curr_time s + ?p"
      "vals s1 = clock_cycle f own (clk_signal c) ps ns (news s)"
    using period_ok [OF Suc.prems(1-3) less] unfolding clock_cycle_def by blast
  have time: "unat (m_curr_time s1) = unat (m_curr_time s) + ?u"
    using less unat_add_lem [of "m_negedge_time c" "m_posedge_time c"] unat_add_lem [of "m_curr_time s" ?p] by (simp add: s1(5))
  show ?case
  proof (cases "n = 0")
    case True
    then show ?thesis using s1 time by (simp add: bnd_def)
  next
    case False
    have "news s1 = vals s1" using s1(3) by (simp add: quiet_def)
    moreover obtain s' where "repeat n (sc_start table body ?p) s1 = Ret () s'" "ready own c pa s'" "wired c pa na ps ns s'"
        "unat (m_curr_time s') = unat (m_curr_time s1) + n * ?u" "vals s' = (clock_cycle f own (clk_signal c) ps ns ^^ n) (news s1)"
      using Suc.IH [OF s1(4,2) Suc.prems(3)] Suc.prems(4) time False by auto
    ultimately show ?thesis using s1(1,6) time by (intro exI [of _ s']) (simp add: bnd_def funpow_swap1)
  qed
qed simp


lemma outside_write_net:
  assumes "rest s' = rest s" and "kernel_ok own s'"
  shows "ready own c pa s \<Longrightarrow> ready own c pa s'"
    and "started own c ps s \<Longrightarrow> news s' (clk_signal c) = news s (clk_signal c) \<Longrightarrow> started own c ps s'"
  using assms(2) restD(3) [OF assms(1)] rest_net(3,8,9) [OF assms(1)] rest_sc_ok(2) [OF assms(1)] by (simp_all add: ready_def started_def)

lemma sc_simcontext_init_ok:
  "sc_ok (sc_simcontext_init sensitive signals)" "pending (sc_simcontext_init sensitive signals) = Map.empty"
  using time_order.ppq_new_ok
  by (simp_all add: sc_ok_def timed_ok_def nodes_ok_def delta_ok_def links_ok_def sc_simcontext_init_def sc_event_new_def pending_def fun_eq_iff)

text \<open>The constructors build a platform: every signal is new and only the clock has events.\<close>

lemma sc_clock_new_ok:
  assumes "\<And>x. x \<noteq> clk_signal c \<Longrightarrow> signals x = sc_signal_new (initial x) None None"
    and "signals (clk_signal c) = sc_signal_new (Bool False) (Some pe) (Some ne)" and "pe \<noteq> ne"
    and events: "{pe, ne} \<inter> {m_next_posedge_event c, m_next_negedge_event c} = {}"
    and "m_negedge_time c \<noteq> 0" and "m_posedge_time c \<noteq> 0"
    and "sensitive pe = ps" and "sensitive ne = ns" and "sensitive (m_next_posedge_event c) = [pa]" and "sensitive (m_next_negedge_event c) = [na]"
  shows "\<exists>s. sc_clock_new c (sc_simcontext_init sensitive signals) = Ret () s \<and> built own c table s \<and> wired c pa na ps ns s \<and>
    signal_of s = signals \<and> m_curr_time s = 0"
proof -
  let ?s0 = "sc_simcontext_init sensitive signals"
  have "set_signal (clk_signal c) (\<lambda>sg. sg\<lparr>m_cur_val := Bool False, m_new_val := Bool False\<rparr>) ?s0 = ?s0"
    using assms(2) by (simp add: set_signal_def sc_simcontext_init_def sc_signal_new_def fun_upd_idem)
  moreover obtain s where s: "notify_internal (m_next_posedge_event c) 0 ?s0 = Ret () s" "sc_ok s" "pending s = [m_next_posedge_event c \<mapsto> Delta]"
    using notify_internal_ok [OF sc_simcontext_init_ok(1) [of sensitive signals], of "m_next_posedge_event c" 0]
    unfolding sc_simcontext_init_ok(2) by (auto simp: sc_simcontext_init_def sc_event_new_def)
  ultimately have run: "sc_clock_new c ?s0 = Ret () s" using assms(5,6) by (simp add: sc_clock_new_def bnd_def)
  note keep = frameD [OF frame_notify_internal [OF s(1)], unfolded sc_simcontext_init_def, simplified]
  have sig: "sig_events (signals x) = (if x = clk_signal c then [pe, ne] else [])" for x
    using assms(1,2) by (simp add: sig_events_def sc_signal_new_def opt_list_def)
  have new: "\<not> m_queued (signals x) \<and> m_new_val (signals x) = m_cur_val (signals x) \<and> m_writer (signals x) = None" for x
    using assms(1,2) by (cases "x = clk_signal c") (simp_all add: sc_signal_new_def)
  have "quiet s" using new keep(1,2) by (simp add: quiet_def)
  moreover have "kernel_ok own s"
    using s(2) new keep sig assms(3) events
    by (auto simp: kernel_ok_def sigs_ok_def events_ok_def writers_ok_def plain_def s(3) sc_method_new_def)
  moreover have "wired c pa na ps ns s"
    using assms(2,7-10) events keep(1,12) sig by (auto simp: wired_def Let_def sc_signal_new_def sc_event_new_def)
  ultimately show ?thesis using run s(3) keep assms(2) by (intro exI [of _ s]) (auto simp: built_def sc_signal_new_def sc_method_new_def)
qed

lemma main_simulation_ok:
  assumes "built own c table s" and "wired c pa na ps ns s" and "platform_ok c pa na ps ns own f body"
    and "rst \<noteq> clk_signal c" and "vals s rst = Bool False" and "1 < ncycles"
    and "unat (m_curr_time s) + ncycles * (unat (m_negedge_time c) + unat (m_posedge_time c)) < 2 ^ 64"
  defines "cycle \<equiv> clock_cycle f own (clk_signal c) ps ns"
  shows "\<exists>s'. main_simulation table body rst (m_negedge_time c + m_posedge_time c) ncycles s = Ret () s' \<and>
    vals s' = (cycle ^^ (ncycles - 1)) ((cycle (vals s))(rst := Bool True)) \<and>
    unat (m_curr_time s') = unat (m_curr_time s) + ncycles * (unat (m_negedge_time c) + unat (m_posedge_time c))"
proof -
  let ?clk = "clk_signal c" and ?p = "m_negedge_time c + m_posedge_time c" and ?u = "unat (m_negedge_time c) + unat (m_posedge_time c)"
  obtain n where n: "ncycles = Suc n" "0 < n" using assms(6) by (cases ncycles) auto
  obtain s1 where s1: "sc_start table body 0 s = Ret () s1" "started own c ps s1" "quiet s1" "wired c pa na ps ns s1" "m_curr_time s1 = m_curr_time s"
      "vals s1 = (vals s)(?clk := Bool True)" using start_zero [OF assms(1-3)] by blast
  obtain s2 where s2: "sig_write rst (Bool False) s1 = Ret () s2" "kernel_ok own s2" "rest s2 = rest s1" "news s2 = (news s1)(rst := Bool False)"
    using outside_write_ok [of own s1 rst "Bool False"] s1(2) unfolding started_def by blast
  have time2: "m_curr_time s2 = m_curr_time s" using rest_net(3) [OF s2(3)] s1(5) by simp
  have "news s1 = vals s1" using s1(3) by (simp add: quiet_def)
  then have news2: "news s2 = (vals s)(?clk := Bool True)" unfolding s2(4) s1(6) using assms(4,5) by auto
  have vals2: "vals s2 = (vals s)(?clk := Bool True)" using restD(1) [OF s2(3)] s1(6) by simp
  have "started own c ps s2"
    using outside_write_net(2) [OF s2(3,2) s1(2)] fun_cong [OF s2(4), of ?clk] assms(4) by simp
  moreover have "wired c pa na ps ns s2" using rest_wired [OF s2(3)] s1(4) by simp
  moreover have less: "unat (m_curr_time s2) + unat (m_negedge_time c) + unat (m_posedge_time c) < 2 ^ 64" using assms(7) n time2 by simp
  ultimately obtain s3 where s3: "sc_start table body ?p s2 = Ret () s3" "ready own c pa s3" "quiet s3" "wired c pa na ps ns s3" "m_curr_time s3 = m_curr_time s2 + ?p"
      "vals s3 = step f own (set ns) ((\<lambda>x. step_value f own (set ps) (vals s2) x (news s2 x))(?clk := Bool False))"
    using first_period [OF _ _ assms(3)] by blast
  have "(\<lambda>x. step_value f own (set ps) (vals s2) x (news s2 x)) = step f own (set ps) ((vals s)(?clk := Bool True))"
    unfolding vals2 using fun_cong [OF news2] by (simp add: step_def fun_eq_iff)
  then have vals3: "vals s3 = cycle (vals s)" unfolding s3(6) cycle_def clock_cycle_def by (simp only:)
  have time3: "unat (m_curr_time s3) = unat (m_curr_time s) + ?u"
    using less unat_add_lem [of "m_negedge_time c" "m_posedge_time c"] unat_add_lem [of "m_curr_time s2" ?p] by (simp add: s3(5) time2)
  obtain s4 where s4: "sig_write rst (Bool True) s3 = Ret () s4" "kernel_ok own s4" "rest s4 = rest s3" "news s4 = (news s3)(rst := Bool True)"
    using outside_write_ok [of own s3 rst "Bool True"] s3(2) unfolding ready_def by blast
  have "news s3 = vals s3" using s3(3) by (simp add: quiet_def)
  then have news4: "news s4 = (cycle (vals s))(rst := Bool True)" unfolding s4(4) vals3 by simp
  have "wired c pa na ps ns s4" "ready own c pa s4" "unat (m_curr_time s4) = unat (m_curr_time s) + ?u"
    using rest_wired [OF s4(3)] s3(4) outside_write_net(1) [OF s4(3,2) s3(2)] rest_net(3) [OF s4(3)] time3 by simp_all
  then obtain s' where "repeat n (sc_start table body ?p) s4 = Ret () s'" "vals s' = (cycle ^^ n) (news s4)" "unat (m_curr_time s') = unat (m_curr_time s4) + n * ?u"
    using cycles_ok [OF _ _ assms(3), of s4 n table] assms(7) n unfolding cycle_def by auto
  then show ?thesis using s1(1) s2(1) s3(1) s4(1) n news4 \<open>unat (m_curr_time s4) = _\<close>
    by (intro exI [of _ s']) (simp add: main_simulation_def bnd_def)
qed

section \<open>The properties\<close>

text \<open>C4. For every clocked platform of processes that read and write signals, every process being sensitive to one edge of
  the clock and writing its own signals only: the simulation loop of \<open>sc_main\<close> returns, and the values of the signals are those
  of \<open>ncycles\<close> cycles, the first one with the reset signal low, where a cycle lets all processes of the rising edge
  read the same values and write, and then all processes of the falling edge. The order in which the scheduler runs the
  processes has no influence. The time must not overflow 64 bits.\<close>

theorem platform_simulation:
  assumes "built own c table s" and "wired c pa na ps ns s" and "platform_ok c pa na ps ns own f body"
    and "rst \<noteq> clk_signal c" and "vals s rst = Bool False" and "1 < ncycles"
    and "unat (m_curr_time s) + ncycles * (unat (m_negedge_time c) + unat (m_posedge_time c)) < 2 ^ 64"
  defines "cycle \<equiv> clock_cycle f own (clk_signal c) ps ns"
  shows "\<exists>s'. main_simulation table body rst (m_negedge_time c + m_posedge_time c) ncycles s = Ret () s' \<and>
    vals s' = (cycle ^^ (ncycles - 1)) ((cycle (vals s))(rst := Bool True)) \<and>
    unat (m_curr_time s') = unat (m_curr_time s) + ncycles * (unat (m_negedge_time c) + unat (m_posedge_time c))"
  unfolding cycle_def by (rule main_simulation_ok [OF assms(1-7)])

text \<open>A small platform for the witnesses: process 2 increments a register at the rising edge, process 3 copies it at the
  falling edge. The signals are the clock, the reset signal, the register and its copy.\<close>

definition counter_clock :: sc_clock where
  "counter_clock = \<lparr>clk_signal = 0, m_next_posedge_event = 0, m_next_negedge_event = 1, m_posedge_time = 1, m_negedge_time = 1\<rparr>"

fun increment :: "sc_value \<Rightarrow> sc_value" where
  "increment (Num n) = Num (n + 1)"
| "increment v = v"

definition counter_methods :: methods where
  "counter_methods m vs = (if m = 2 then [(2, increment (vs 2))] else if m = 3 then [(3, vs 2)] else [])"

definition counter_body :: "nat \<Rightarrow> unit sim_prog" where
  "counter_body m = (if m = 0 then posedge_action counter_clock else if m = 1 then negedge_action counter_clock else signal_method counter_methods m)"

definition counter_init :: sc_sim where
  "counter_init = sc_simcontext_init (\<lambda>e. if e < 4 then [e] else [])
     (\<lambda>x. sc_signal_new (if x < 2 then Bool False else Num 0) (if x = 0 then Some 2 else None) (if x = 0 then Some 3 else None))"

lemma counter_built:
  "\<exists>s. sc_clock_new counter_clock counter_init = Ret () s \<and> built (\<lambda>x. x) counter_clock [1, 0, 3, 2] s \<and> wired counter_clock 0 1 [2] [3] s \<and>
     signal_of s = signal_of counter_init \<and> m_curr_time s = 0"
  using sc_clock_new_ok [where c = counter_clock and pe = 2 and ne = 3 and initial = "\<lambda>x. if x < 2 then Bool False else Num 0" and sensitive = "\<lambda>e. if e < 4 then [e] else []"
    and signals = "signal_of counter_init" and ps = "[2]" and ns = "[3]" and pa = 0 and na = 1 and own = "\<lambda>x. x" and table = "[1, 0, 3, 2]"]
  by (simp add: counter_init_def counter_clock_def sc_simcontext_init_def)

lemma counter_platform_ok: "platform_ok counter_clock 0 1 [2] [3] (\<lambda>x. x) counter_methods counter_body"
  by (simp add: platform_ok_def methods_ok_def counter_methods_def counter_body_def counter_clock_def)

theorem platform_simulation_witness:
  "\<exists>s s'. sc_clock_new counter_clock counter_init = Ret () s \<and> main_simulation [1, 0, 3, 2] counter_body 1 2 3 s = Ret () s' \<and>
     sig_read 2 s' = Num 3 \<and> sig_read 3 s' = Num 3 \<and> unat (m_curr_time s') = 6"
proof -
  obtain s where s: "sc_clock_new counter_clock counter_init = Ret () s" "built (\<lambda>x. x) counter_clock [1, 0, 3, 2] s" "wired counter_clock 0 1 [2] [3] s"
      "signal_of s = signal_of counter_init" "m_curr_time s = 0" using counter_built by blast
  have vals: "vals s = (\<lambda>x. if x < 2 then Bool False else Num 0)" by (simp add: s(4) counter_init_def sc_simcontext_init_def sc_signal_new_def)
  obtain s' where s': "main_simulation [1, 0, 3, 2] counter_body 1 2 3 s = Ret () s'" "unat (m_curr_time s') = 6"
      "vals s' = ((clock_cycle counter_methods (\<lambda>x. x) 0 [2] [3]) ^^ 2)
         ((clock_cycle counter_methods (\<lambda>x. x) 0 [2] [3] (\<lambda>x. if x < 2 then Bool False else Num 0))(1 := Bool True))"
    using platform_simulation [OF s(2,3) counter_platform_ok, of 1 3] fun_cong [OF vals, of 1] unfolding vals by (auto simp: counter_clock_def s(5))
  have "vals s' 2 = Num 3" "vals s' 3 = Num 3"
    using fun_cong [OF s'(3), of 2] fun_cong [OF s'(3), of 3]
    by (simp_all add: numeral_2_eq_2 clock_cycle_def step_def step_value_def counter_methods_def)
  then show ?thesis using s(1) s'(1,2) by (auto simp: sig_read_def)
qed

text \<open>C18. The order in which the scheduler runs the processes of a delta cycle does not matter: for methods that read and write
  signals, every order of the runnable processes gives the same values of the signals, the same pending notifications and the same
  set of runnable processes, and the values are those that every process computes from the values at the beginning.\<close>

theorem delta_cycle_order:
  assumes "kernel_ok own s" and "\<And>m. m \<in> set (m_methods_push s) \<Longrightarrow> body m = signal_method f m"
    and "\<And>m vs. \<forall>(x, v) \<in> set (f m vs). own x = m" and "distinct ms" and "set ms = set (m_methods_push s)"
  shows "\<exists>s1 s2. crunch body True s = Ret () s1 \<and> crunch body True (s\<lparr>m_methods_push := ms\<rparr>) = Ret () s2 \<and>
    (\<forall>x. sig_read x s1 = (if own x \<in> set ms then written (f (own x) (\<lambda>y. sig_read y s)) x (m_new_val (signal_of s x)) else m_new_val (signal_of s x))) \<and>
    (\<forall>x. sig_read x s1 = sig_read x s2) \<and> pending s1 = pending s2 \<and> set (m_methods_push s1) = set (m_methods_push s2)"
proof -
  let ?t = "s\<lparr>m_methods_push := ms\<rparr>"
  have t: "pending ?t = pending s" "sc_ok ?t = sc_ok s" by (rule sc_ok_cong; simp)+
  have ok: "kernel_ok own ?t" using assms(1,4) by (simp add: kernel_ok_def t sigs_ok_def events_ok_def writers_ok_def plain_def)
  have woken: "woken ?t vs = woken s vs" for vs by (simp add: woken_def triggered_def t(1))
  obtain s1 where s1: "delta_cycle body s = Ret () s1" "kernel_ok own s1" "vals s1 = (\<lambda>x. step_value f own (set ms) (vals s) x (news s x))"
      "pending s1 = (\<lambda>e. if pending s e = Some Delta then None else pending s e)" "set (m_methods_push s1) = woken s (vals s1)"
    using delta_cycle_ok [where f = f, OF assms(1-3)] unfolding assms(5) by blast
  obtain s2 where s2: "delta_cycle body ?t = Ret () s2" "kernel_ok own s2" "vals s2 = (\<lambda>x. step_value f own (set ms) (vals s) x (news s x))"
      "pending s2 = (\<lambda>e. if pending s e = Some Delta then None else pending s e)" "set (m_methods_push s2) = woken s (vals s2)"
    using delta_cycle_ok [where f = f and s = ?t, OF ok _ assms(3), of body] assms(2,5) unfolding t(1) woken by auto
  have "crunch body True s = Ret () s1" "crunch body True ?t = Ret () s2"
    by (rule crunch_once; use s1(1,2) s2(1,2) in \<open>simp add: kernel_ok_def\<close>)+
  moreover have "vals s1 = vals s2" unfolding s1(3) s2(3) ..
  moreover have "pending s1 = pending s2" unfolding s1(4) s2(4) ..
  moreover have "set (m_methods_push s1) = set (m_methods_push s2)" unfolding s1(5) s2(5) \<open>vals s1 = vals s2\<close> ..
  ultimately show ?thesis using fun_cong [OF s1(3)] fun_cong [OF \<open>vals s1 = vals s2\<close>]
    by (intro exI [of _ s1] exI [of _ s2]) (simp add: sig_read_def step_value_def)
qed

theorem delta_cycle_order_witness:
  "\<exists>s1 s2. crunch (signal_method counter_methods) True (counter_init\<lparr>m_methods_push := [2, 3]\<rparr>) = Ret () s1 \<and>
     crunch (signal_method counter_methods) True (counter_init\<lparr>m_methods_push := [3, 2]\<rparr>) = Ret () s2 \<and>
     sig_read 2 s1 = Num 1 \<and> sig_read 3 s1 = Num 0 \<and> sig_read 2 s2 = Num 1 \<and> sig_read 3 s2 = Num 0"
proof -
  let ?s = "counter_init\<lparr>m_methods_push := [2, 3]\<rparr>"
  have "sc_ok ?s = sc_ok counter_init" "pending ?s = pending counter_init" by (rule sc_ok_cong; simp)+
  then have "kernel_ok (\<lambda>x. x) ?s"
    by (simp add: counter_init_def sc_simcontext_init_ok) (simp add: kernel_ok_def counter_init_def sigs_ok_def events_ok_def writers_ok_def plain_def sig_events_def opt_list_def
        sc_simcontext_init_ok sc_simcontext_init_def sc_signal_new_def sc_method_new_def)
  moreover have "\<forall>(x, v) \<in> set (counter_methods m vs). x = m" for m vs by (simp add: counter_methods_def)
  ultimately obtain s1 s2 where run: "crunch (signal_method counter_methods) True ?s = Ret () s1"
      "crunch (signal_method counter_methods) True (counter_init\<lparr>m_methods_push := [3, 2]\<rparr>) = Ret () s2"
    and s1: "\<And>x. sig_read x s1 = (if x \<in> set [3, 2] then written (counter_methods x (\<lambda>y. sig_read y ?s)) x (m_new_val (signal_of ?s x)) else m_new_val (signal_of ?s x))"
    and s2: "\<And>x. sig_read x s1 = sig_read x s2"
    using delta_cycle_order [of "\<lambda>x. x" ?s "signal_method counter_methods" counter_methods "[3, 2]"] by force
  have "sig_read 2 s1 = Num 1" "sig_read 3 s1 = Num 0"
    unfolding s1 by (simp_all add: counter_methods_def counter_init_def sc_simcontext_init_def sc_signal_new_def sig_read_def)
  then show ?thesis using run s2 by metis
qed

text \<open>C17. The operations on an event refine the specification, in which every event has at most one pending notification, in the next
  delta cycle or at a time: \<open>notify\<close> keeps the earliest notification, \<open>cancel\<close> removes it, and an immediate notification
  in the evaluation phase removes it as well. They never fail, and the queue of timed notifications, the set of delta
  notifications and the links between events and nodes stay consistent.\<close>

theorem events_refine:
  assumes "sc_ok s"
  shows "(\<exists>s'. notify e t s = Ret () s' \<and> sc_ok s' \<and>
       pending s' = (pending s)(e := earliest (pending s e) (if t = 0 then Delta else At (m_curr_time s + t)))) \<and>
     (\<exists>s'. cancel e s = Ret () s' \<and> sc_ok s' \<and> pending s' = (pending s)(e := None)) \<and>
     (m_execution_phase s = phase_evaluate \<and> m_ready_to_simulate s \<longrightarrow>
       (\<exists>s'. notify_immediate e s = Ret () s' \<and> sc_ok s' \<and> pending s' = (pending s)(e := None)))"
proof (intro conjI impI)
  show "\<exists>s'. notify e t s = Ret () s' \<and> sc_ok s' \<and> pending s' = (pending s)(e := earliest (pending s e) (if t = 0 then Delta else At (m_curr_time s + t)))"
    using notify_ok [OF assms] by blast
  obtain s1 where s1: "cancel e s = Ret () s1" "sc_ok s1" "pending s1 = (pending s)(e := None)" "m_notify_type (event_of s1 e) = NONE"
    using cancel_ok [OF assms] by blast
  then show "\<exists>s'. cancel e s = Ret () s' \<and> sc_ok s' \<and> pending s' = (pending s)(e := None)" by blast
  assume "m_execution_phase s = phase_evaluate \<and> m_ready_to_simulate s"
  then have "notify_immediate e s = Ret () (trigger e s1)" using s1(1) by (simp add: notify_immediate_def bnd_def)
  then show "\<exists>s'. notify_immediate e s = Ret () s' \<and> sc_ok s' \<and> pending s' = (pending s)(e := None)"
    using trigger_none_ok [OF s1(2,4)] s1(3) by metis
qed

theorem events_refine_witness:
  "\<exists>s1 s2. notify 7 5 (counter_init\<lparr>m_execution_phase := phase_evaluate, m_ready_to_simulate := True\<rparr>) = Ret () s1 \<and> pending s1 7 = Some (At 5) \<and>
     notify 7 3 s1 = Ret () s2 \<and> pending s2 7 = Some (At 3)"
proof -
  let ?s = "counter_init\<lparr>m_execution_phase := phase_evaluate, m_ready_to_simulate := True\<rparr>"
  have "sc_ok ?s = sc_ok counter_init" "pending ?s = pending counter_init" by (rule sc_ok_cong; simp)+
  then have s: "sc_ok ?s" "pending ?s = Map.empty" "m_curr_time ?s = 0" by (simp_all add: counter_init_def sc_simcontext_init_ok) (simp add: sc_simcontext_init_def)
  obtain s1 where s1: "notify 7 5 ?s = Ret () s1" "sc_ok s1" "pending s1 = [7 \<mapsto> At 5]" using events_refine [OF s(1), of 7 5] unfolding s(2,3) by auto
  have "m_curr_time s1 = 0" using notify_ok [OF s(1), of 7 5] s1(1) s(3) by auto
  then obtain s2 where "notify 7 3 s1 = Ret () s2" "pending s2 7 = Some (At 3)" using events_refine [OF s1(2), of 7 3] s1(3) by (auto simp: min_def)
  with s1 show ?thesis by auto
qed

text \<open>C19. Time passes to the next notification: \<open>next_time\<close> finds the earliest time at which a notification is pending, or that there
  is none, whatever notifications have been cancelled, and the loop of \<open>simulate\<close> that follows triggers exactly the notifications
  of that time. Both loops end and no node is used after it was freed.\<close>

theorem timed_queue_correct:
  assumes "sc_ok s"
  shows "\<exists>r s1. next_time s = Ret r s1 \<and> sc_ok s1 \<and> pending s1 = pending s \<and>
    (case r of
       None \<Rightarrow> \<forall>e t. pending s e \<noteq> Some (At t)
     | Some t \<Rightarrow> (\<exists>e. pending s e = Some (At t)) \<and> (\<forall>e u. pending s e = Some (At u) \<longrightarrow> t \<le> u) \<and>
         (\<exists>s2. timed_triggers t s1 = Ret () s2 \<and> sc_ok s2 \<and> pending s2 = (\<lambda>e. if pending s e = Some (At t) then None else pending s e)))"
proof -
  obtain r s1 where s1: "next_time s = Ret r s1" "sc_ok s1" "pending s1 = pending s"
      "case r of None \<Rightarrow> \<forall>e t. pending s e \<noteq> Some (At t)
       | Some t \<Rightarrow> (\<exists>e. pending s e = Some (At t)) \<and> (\<forall>e u. pending s e = Some (At u) \<longrightarrow> t \<le> u) \<and>
           m_heap_size (m_timed_events s1) \<noteq> 0 \<and> time_at s1 (ppq_top (m_timed_events s1)) = t"
    using next_time_ok [OF assms] by blast
  show ?thesis
  proof (cases r)
    case None
    then show ?thesis using s1 by (intro exI [of _ r] exI [of _ s1]) simp
  next
    case (Some t)
    then have "m_heap_size (m_timed_events s1) \<noteq> 0" "time_at s1 (ppq_top (m_timed_events s1)) = t" using s1(4) by simp_all
    from timed_triggers_ok [OF s1(2) this] obtain s2 where "timed_triggers t s1 = Ret () s2" "sc_ok s2"
      "pending s2 = (\<lambda>e. if pending s e = Some (At t) then None else pending s e)" unfolding s1(3) by blast
    then show ?thesis using s1 Some by (intro exI [of _ r] exI [of _ s1]) auto
  qed
qed

theorem timed_queue_correct_witness:
  "\<exists>(s :: sc_sim) s1 s2. sc_ok s \<and> pending s = [7 \<mapsto> At 5, 8 \<mapsto> At 3] \<and> next_time s = Ret (Some 3) s1 \<and> timed_triggers 3 s1 = Ret () s2 \<and> pending s2 = [7 \<mapsto> At 5]"
proof -
  have init: "sc_ok counter_init" "pending counter_init = Map.empty" "m_curr_time counter_init = 0"
    by (simp_all add: counter_init_def sc_simcontext_init_ok) (simp add: sc_simcontext_init_def)
  obtain s0 where s0: "notify 7 5 counter_init = Ret () s0" "sc_ok s0" "pending s0 = [7 \<mapsto> At 5]" "m_curr_time s0 = 0" using notify_ok [OF init(1), of 7 5] unfolding init(2,3) by auto
  obtain s where s: "notify 8 3 s0 = Ret () s" "sc_ok s" "pending s = [7 \<mapsto> At 5, 8 \<mapsto> At 3]" using notify_ok [OF s0(2), of 8 3] unfolding s0(3,4) by auto
  obtain r s1 where r: "next_time s = Ret r s1"
    "case r of None \<Rightarrow> \<forall>e t. pending s e \<noteq> Some (At t)
     | Some t \<Rightarrow> (\<exists>e. pending s e = Some (At t)) \<and> (\<forall>e u. pending s e = Some (At u) \<longrightarrow> t \<le> u) \<and>
         (\<exists>s2. timed_triggers t s1 = Ret () s2 \<and> sc_ok s2 \<and> pending s2 = (\<lambda>e. if pending s e = Some (At t) then None else pending s e))"
    using timed_queue_correct [OF s(2)] by blast
  have "pending s 8 = Some (At 3)" by (simp add: s(3))
  with r(2) obtain t where "r = Some t" by (cases r) auto
  with r(2) have t: "\<exists>e. pending s e = Some (At t)" "t \<le> 3" "\<exists>s2. timed_triggers t s1 = Ret () s2 \<and> pending s2 = (\<lambda>e. if pending s e = Some (At t) then None else pending s e)"
    using \<open>pending s 8 = _\<close> by auto
  from t(1) have "t = 5 \<or> t = 3" unfolding s(3) by (auto split: if_splits)
  with t(2) have "t = 3" by auto
  moreover have "(\<lambda>e. if pending s e = Some (At 3) then None else pending s e) = [7 \<mapsto> At 5]" unfolding s(3) by (auto simp: fun_eq_iff)
  ultimately show ?thesis using s(2,3) r(1) \<open>r = Some t\<close> t(3) by auto
qed

end
