(* ===== verification/Sc_Tp1.thy ===== *)
theory Sc_Tp1
  imports Sc_Platform Fifo_Gcd
begin

text \<open>
  The platform of TP1 on the SystemC kernel: the signals and the registers of \<open>tp1_top.cpp\<close> are signals of the kernel, the
  methods of the components are the method processes of the scheduler, and the clock has a period of 1 ns, that is 1000 units of
  time, with a duty cycle of 0.5. The simulation computes the platform model of \<open>Fifo_Gcd\<close>.

  The state of the random generator and the text that was printed are variables that only \<open>transition\<close> of the master uses,
  once in a delta cycle; they are kept as signals of this process.
\<close>

section \<open>Signals and processes\<close>

abbreviation "signal_clk \<equiv> 0 :: nat"
abbreviation "signal_resetn \<equiv> 1 :: nat"
abbreviation "m2c_data \<equiv> 2 :: nat"
abbreviation "m2c_r_wok \<equiv> 3 :: nat"
abbreviation "m2c_w_rok \<equiv> 4 :: nat"
abbreviation "c2m_data \<equiv> 5 :: nat"
abbreviation "c2m_r_wok \<equiv> 6 :: nat"
abbreviation "c2m_w_rok \<equiv> 7 :: nat"
abbreviation "master_fsm \<equiv> 8 :: nat"
abbreviation "master_opa \<equiv> 9 :: nat"
abbreviation "master_opb \<equiv> 10 :: nat"
abbreviation "master_res \<equiv> 11 :: nat"
abbreviation "master_cyclecount \<equiv> 12 :: nat"
abbreviation "master_iterationcount \<equiv> 13 :: nat"
abbreviation "master_rng \<equiv> 14 :: nat"
abbreviation "master_cout \<equiv> 15 :: nat"
abbreviation "coproc_fsm \<equiv> 16 :: nat"
abbreviation "coproc_opa \<equiv> 17 :: nat"
abbreviation "coproc_opb \<equiv> 18 :: nat"

fun the_bool :: "sc_value \<Rightarrow> bool" where
  "the_bool (Bool b) = b"
| "the_bool _ = False"

fun the_int :: "sc_value \<Rightarrow> int" where
  "the_int (Num n) = n"
| "the_int _ = 0"

fun the_log :: "sc_value \<Rightarrow> int list" where
  "the_log (Log ns) = ns"
| "the_log _ = []"

definition the_u32 :: "sc_value \<Rightarrow> u32" where
  "the_u32 v = word_of_int (the_int v)"

abbreviation U32 :: "u32 \<Rightarrow> sc_value" where
  "U32 w \<equiv> Num (uint w)"

text \<open>The codes of the enumerations.\<close>

definition master_code :: "master_fsm_state \<Rightarrow> int" where
  "master_code st = (case st of RANDOM \<Rightarrow> 0 | WRITE_OPA \<Rightarrow> 1 | WRITE_OPB \<Rightarrow> 2 | READ_RES \<Rightarrow> 3 | DISPLAY \<Rightarrow> 4)"

definition coproc_code :: "coprocessor_fsm_state \<Rightarrow> int" where
  "coproc_code st = (case st of READ_OPA \<Rightarrow> 0 | READ_OPB \<Rightarrow> 1 | COMPARE \<Rightarrow> 2 | DECR_A \<Rightarrow> 3 | DECR_B \<Rightarrow> 4 | WRITE_RES \<Rightarrow> 5)"

section \<open>The methods\<close>

text \<open>The assignments that a method does, in their order, for the current values of the signals. A \<open>switch\<close> on another value than
  those of the enumeration does nothing.\<close>

definition master_transition_writes :: "(int \<Rightarrow> u32 \<times> int) \<Rightarrow> (nat \<Rightarrow> sc_value) \<Rightarrow> (nat \<times> sc_value) list" where
  "master_transition_writes rnd vs =
     (if \<not> the_bool (vs signal_resetn) then [(master_fsm, Num 0), (master_cyclecount, U32 0), (master_iterationcount, U32 0)]
      else (let fsm = the_int (vs master_fsm) in
            if fsm = 0 then
              let (a, r1) = rnd (the_int (vs master_rng)); (b, r2) = rnd r1
              in [(master_iterationcount, U32 (the_u32 (vs master_iterationcount) + 1)), (master_opa, U32 (a + 1)), (master_opb, U32 (b + 1)),
                  (master_rng, Num r2), (master_fsm, Num 1)]
            else if fsm = 1 then (if the_bool (vs m2c_r_wok) then [(master_fsm, Num 2)] else [])
            else if fsm = 2 then (if the_bool (vs m2c_r_wok) then [(master_fsm, Num 3)] else [])
            else if fsm = 3 then (if the_bool (vs c2m_w_rok) then [(master_res, U32 (the_u32 (vs c2m_data))), (master_fsm, Num 4)] else [])
            else if fsm = 4 then
              [(master_fsm, Num 0),
               (master_cout, Log (the_log (vs master_cout) @ map (\<lambda>x. uint (the_u32 (vs x)))
                  [master_iterationcount, master_cyclecount, master_opa, master_opb, master_res]))]
            else []) @ [(master_cyclecount, U32 (the_u32 (vs master_cyclecount) + 1))])"

definition master_genMoore_writes :: "(nat \<Rightarrow> sc_value) \<Rightarrow> (nat \<times> sc_value) list" where
  "master_genMoore_writes vs =
     (let fsm = the_int (vs master_fsm) in
      if fsm = 0 \<or> fsm = 4 then [(c2m_r_wok, Bool False), (m2c_w_rok, Bool False), (m2c_data, U32 0)]
      else if fsm = 1 then [(c2m_r_wok, Bool False), (m2c_w_rok, Bool True), (m2c_data, U32 (the_u32 (vs master_opa)))]
      else if fsm = 2 then [(c2m_r_wok, Bool False), (m2c_w_rok, Bool True), (m2c_data, U32 (the_u32 (vs master_opb)))]
      else if fsm = 3 then [(c2m_r_wok, Bool True), (m2c_w_rok, Bool False), (m2c_data, U32 0)]
      else [])"

definition coproc_transition_writes :: "(nat \<Rightarrow> sc_value) \<Rightarrow> (nat \<times> sc_value) list" where
  "coproc_transition_writes vs =
     (if \<not> the_bool (vs signal_resetn) then [(coproc_fsm, Num 0)]
      else let fsm = the_int (vs coproc_fsm); opa = the_u32 (vs coproc_opa); opb = the_u32 (vs coproc_opb) in
        if fsm = 0 then (if the_bool (vs m2c_w_rok) then [(coproc_opa, U32 (the_u32 (vs m2c_data))), (coproc_fsm, Num 1)] else [])
        else if fsm = 1 then (if the_bool (vs m2c_w_rok) then [(coproc_opb, U32 (the_u32 (vs m2c_data))), (coproc_fsm, Num 2)] else [])
        else if fsm = 2 then (if opa < opb then [(coproc_fsm, Num 4)] else if opa > opb then [(coproc_fsm, Num 3)] else [(coproc_fsm, Num 5)])
        else if fsm = 3 then [(coproc_opa, U32 (opa - opb)), (coproc_fsm, Num 2)]
        else if fsm = 4 then [(coproc_opb, U32 (opb - opa)), (coproc_fsm, Num 2)]
        else if fsm = 5 then (if the_bool (vs c2m_r_wok) then [(coproc_fsm, Num 0)] else [])
        else [])"

definition coproc_genMoore_writes :: "(nat \<Rightarrow> sc_value) \<Rightarrow> (nat \<times> sc_value) list" where
  "coproc_genMoore_writes vs =
     (let fsm = the_int (vs coproc_fsm) in
      if fsm = 0 \<or> fsm = 1 then [(m2c_r_wok, Bool True), (c2m_w_rok, Bool False), (c2m_data, U32 0)]
      else if fsm = 2 \<or> fsm = 3 \<or> fsm = 4 then [(m2c_r_wok, Bool False), (c2m_w_rok, Bool False), (c2m_data, U32 0)]
      else if fsm = 5 then [(m2c_r_wok, Bool False), (c2m_w_rok, Bool True), (c2m_data, U32 (the_u32 (vs coproc_opa)))]
      else [])"

text \<open>The processes 0 and 1 are those of the clock.\<close>

definition tp1_methods :: "(int \<Rightarrow> u32 \<times> int) \<Rightarrow> methods" where
  "tp1_methods rnd m vs =
     (if m = 2 then master_transition_writes rnd vs else if m = 3 then master_genMoore_writes vs
      else if m = 4 then coproc_transition_writes vs else if m = 5 then coproc_genMoore_writes vs else [])"

definition tp1_clock :: sc_clock where
  "tp1_clock = \<lparr>clk_signal = signal_clk, m_next_posedge_event = 0, m_next_negedge_event = 1, m_posedge_time = 500, m_negedge_time = 500\<rparr>"

definition tp1_body :: "(int \<Rightarrow> u32 \<times> int) \<Rightarrow> nat \<Rightarrow> unit sim_prog" where
  "tp1_body rnd m =
     (if m = 0 then posedge_action tp1_clock else if m = 1 then negedge_action tp1_clock else signal_method (tp1_methods rnd) m)"

text \<open>The methods that are sensitive to an event: 2 and 3 are the edges of the clock signal.\<close>

definition tp1_sensitive :: "nat \<Rightarrow> nat list" where
  "tp1_sensitive e = (if e = 0 then [0] else if e = 1 then [1] else if e = 2 then [2, 4] else if e = 3 then [3, 5] else [])"

definition tp1_initial_value :: "int \<Rightarrow> nat \<Rightarrow> sc_value" where
  "tp1_initial_value seed x =
     (if x \<in> {signal_clk, signal_resetn, m2c_r_wok, m2c_w_rok, c2m_r_wok, c2m_w_rok} then Bool False
      else if x = master_rng then Num seed else if x = master_cout then Log [] else Num 0)"

definition tp1_signals :: "int \<Rightarrow> nat \<Rightarrow> sc_signal" where
  "tp1_signals seed x = sc_signal_new (tp1_initial_value seed x) (if x = signal_clk then Some 2 else None) (if x = signal_clk then Some 3 else None)"

text \<open>The elaboration and the simulation of \<open>sc_main\<close>. The process table holds the last method first.\<close>

definition tp1_sc_main :: "(int \<Rightarrow> u32 \<times> int) \<Rightarrow> nat \<Rightarrow> unit sim_prog" where
  "tp1_sc_main rnd ncycles =
     bnd (sc_clock_new tp1_clock) (\<lambda>_. main_simulation [1, 0, 5, 4, 3, 2] (tp1_body rnd) signal_resetn 1000 ncycles)"

section \<open>The platform of the model\<close>

definition display_log :: "display \<Rightarrow> int list" where
  "display_log d = map uint [d_iteration d, d_cycle d, d_opa d, d_opb d, d_pgcd d]"

text \<open>The values of the signals for a state of the model.\<close>

definition tp1_encode :: "int tp1 \<Rightarrow> nat \<Rightarrow> sc_value" where
  "tp1_encode t x =
     (let m2c = signal_fifo_m2c t; c2m = signal_fifo_c2m t; ma = tp1_master t; co = tp1_coproc t in
      if x = m2c_data then U32 (f_data m2c) else if x = m2c_r_wok then Bool (r_wok m2c) else if x = m2c_w_rok then Bool (w_rok m2c)
      else if x = c2m_data then U32 (f_data c2m) else if x = c2m_r_wok then Bool (r_wok c2m) else if x = c2m_w_rok then Bool (w_rok c2m)
      else if x = master_fsm then Num (master_code (ma_fsm ma)) else if x = master_opa then U32 (ma_opa ma)
      else if x = master_opb then U32 (ma_opb ma) else if x = master_res then U32 (ma_res ma)
      else if x = master_cyclecount then U32 (ma_cyclecount ma) else if x = master_iterationcount then U32 (ma_iterationcount ma)
      else if x = master_rng then Num (ma_rng ma) else if x = master_cout then Log (concat (map display_log (ma_cout ma)))
      else if x = coproc_fsm then Num (coproc_code (co_fsm co)) else if x = coproc_opa then U32 (co_opa co)
      else U32 (co_opb co))"

definition encodes :: "(nat \<Rightarrow> sc_value) \<Rightarrow> int tp1 \<Rightarrow> bool" where
  "encodes vs t \<longleftrightarrow> (\<forall>x \<in> {2..18}. vs x = tp1_encode t x)"

definition tp1_owner :: "nat \<Rightarrow> nat" where
  "tp1_owner x = (if x \<in> {m2c_data, m2c_w_rok, c2m_r_wok} then 3 else if x \<in> {m2c_r_wok, c2m_data, c2m_w_rok} then 5
     else if x \<in> {coproc_fsm, coproc_opa, coproc_opb} then 4 else 2)"

lemma tp1_encode_simps:
  "tp1_encode t m2c_data = U32 (f_data (signal_fifo_m2c t))" "tp1_encode t m2c_r_wok = Bool (r_wok (signal_fifo_m2c t))"
  "tp1_encode t m2c_w_rok = Bool (w_rok (signal_fifo_m2c t))"
  "tp1_encode t c2m_data = U32 (f_data (signal_fifo_c2m t))" "tp1_encode t c2m_r_wok = Bool (r_wok (signal_fifo_c2m t))"
  "tp1_encode t c2m_w_rok = Bool (w_rok (signal_fifo_c2m t))"
  "tp1_encode t master_fsm = Num (master_code (ma_fsm (tp1_master t)))" "tp1_encode t master_opa = U32 (ma_opa (tp1_master t))"
  "tp1_encode t master_opb = U32 (ma_opb (tp1_master t))" "tp1_encode t master_res = U32 (ma_res (tp1_master t))"
  "tp1_encode t master_cyclecount = U32 (ma_cyclecount (tp1_master t))" "tp1_encode t master_iterationcount = U32 (ma_iterationcount (tp1_master t))"
  "tp1_encode t master_rng = Num (ma_rng (tp1_master t))" "tp1_encode t master_cout = Log (concat (map display_log (ma_cout (tp1_master t))))"
  "tp1_encode t coproc_fsm = Num (coproc_code (co_fsm (tp1_coproc t)))" "tp1_encode t coproc_opa = U32 (co_opa (tp1_coproc t))"
  "tp1_encode t coproc_opb = U32 (co_opb (tp1_coproc t))"
  by (simp_all add: tp1_encode_def Let_def)

lemma encodesD: "encodes vs t \<Longrightarrow> 2 \<le> x \<Longrightarrow> x \<le> 18 \<Longrightarrow> vs x = tp1_encode t x"
  by (simp add: encodes_def)

lemma written_append: "written (ws @ us) x v = written us x (written ws x v)"
  by (simp add: written_def map_add_def split: option.split)

lemma the_u32_uint [simp]: "the_u32 (U32 w) = w"
  by (simp add: the_u32_def)

lemma master_range: "x \<in> {8..15} \<longleftrightarrow> x = 8 \<or> x = 9 \<or> x = 10 \<or> x = 11 \<or> x = 12 \<or> x = 13 \<or> x = 14 \<or> x = (15 :: nat)"
  by auto

lemma coproc_range: "x \<in> {16..18} \<longleftrightarrow> x = 16 \<or> x = 17 \<or> x = (18 :: nat)"
  by auto

lemma coproc_transition_ok:
  assumes "encodes vs t" and "vs signal_resetn = Bool b" and "x \<in> {16..18}"
  shows "written (coproc_transition_writes vs) x (vs x) = tp1_encode (tp1_posedge rnd b t) x"
proof -
  note v = encodesD [OF assms(1)] tp1_encode_simps
  show ?thesis using assms(2,3) unfolding coproc_range
    by (cases "co_fsm (tp1_coproc t)"; elim disjE; simp add: coproc_transition_writes_def v coproc_code_def tp1_posedge_def
      coprocessor_transition_def fifo_port_defs)
qed

lemma master_transition_ok:
  assumes "encodes vs t" and "vs signal_resetn = Bool b" and "x \<in> {8..15}"
  shows "written (master_transition_writes rnd vs) x (vs x) = tp1_encode (tp1_posedge rnd b t) x"
proof -
  note v = encodesD [OF assms(1)] tp1_encode_simps
  obtain a r1 b' r2 where r: "rnd (ma_rng (tp1_master t)) = (a, r1)" "rnd r1 = (b', r2)" by fastforce
  show ?thesis
  proof (cases b)
    case False
    then show ?thesis using assms(2,3) unfolding master_range
      by (elim disjE; simp add: master_transition_writes_def v master_code_def tp1_posedge_def master_transition_def)
  next
    case True
    then show ?thesis using assms(2,3) unfolding master_range
      by (cases "ma_fsm (tp1_master t)"; elim disjE; simp add: master_transition_writes_def v master_code_def tp1_posedge_def r
        master_transition_def fifo_port_defs written_append display_log_def)
  qed
qed

lemma tp1_negedge_data:
  "f_data (signal_fifo_m2c (tp1_negedge t)) = (case ma_fsm (tp1_master t) of WRITE_OPA \<Rightarrow> ma_opa (tp1_master t) | WRITE_OPB \<Rightarrow> ma_opb (tp1_master t) | _ \<Rightarrow> 0)"
  "f_data (signal_fifo_c2m (tp1_negedge t)) = (if co_fsm (tp1_coproc t) = WRITE_RES then co_opa (tp1_coproc t) else 0)"
  by (simp_all add: tp1_negedge_def master_genMoore_def coprocessor_genMoore_def fifo_port_defs split: coprocessor_fsm_state.splits master_fsm_state.splits)

lemma master_genMoore_ok:
  assumes "encodes vs t" and "x \<in> {m2c_data, m2c_w_rok, c2m_r_wok}"
  shows "written (master_genMoore_writes vs) x (vs x) = tp1_encode (tp1_negedge t) x"
proof -
  note v = encodesD [OF assms(1)] tp1_encode_simps
  show ?thesis using assms(2)
    by (cases "ma_fsm (tp1_master t)") (auto simp: master_genMoore_writes_def v master_code_def negedge_signals tp1_negedge_data)
qed

lemma coproc_genMoore_ok:
  assumes "encodes vs t" and "x \<in> {m2c_r_wok, c2m_data, c2m_w_rok}"
  shows "written (coproc_genMoore_writes vs) x (vs x) = tp1_encode (tp1_negedge t) x"
proof -
  note v = encodesD [OF assms(1)] tp1_encode_simps
  show ?thesis using assms(2)
    by (cases "co_fsm (tp1_coproc t)") (auto simp: coproc_genMoore_writes_def v coproc_code_def negedge_signals tp1_negedge_data)
qed

section \<open>A cycle\<close>

lemma tp1_posedge_rest: "signal_fifo_m2c (tp1_posedge rnd b t) = signal_fifo_m2c t" "signal_fifo_c2m (tp1_posedge rnd b t) = signal_fifo_c2m t"
  by (simp_all add: tp1_posedge_def)

lemma tp1_negedge_rest: "tp1_master (tp1_negedge t) = tp1_master t" "tp1_coproc (tp1_negedge t) = tp1_coproc t"
  by (simp_all add: tp1_negedge_def split: prod.split)

lemma tp1_step_posedge:
  assumes "encodes vs t" and "vs signal_resetn = Bool b"
  shows "encodes (step (tp1_methods rnd) tp1_owner (set [2, 4]) vs) (tp1_posedge rnd b t)"
  unfolding encodes_def
proof
  fix x :: nat assume x: "x \<in> {2..18}"
  then consider "x \<in> {8..15}" | "x \<in> {16..18}" | "x = 2 \<or> x = 3 \<or> x = 4 \<or> x = 5 \<or> x = 6 \<or> x = 7" by fastforce
  then show "step (tp1_methods rnd) tp1_owner (set [2, 4]) vs x = tp1_encode (tp1_posedge rnd b t) x"
  proof cases
    case 1
    then show ?thesis using master_transition_ok [OF assms 1, of rnd] by (auto simp: step_def step_value_def tp1_owner_def tp1_methods_def)
  next
    case 2
    then show ?thesis using coproc_transition_ok [OF assms 2, of rnd] by (auto simp: step_def step_value_def tp1_owner_def tp1_methods_def coproc_range)
  next
    case 3
    then show ?thesis using encodesD [OF assms(1)]
      by (elim disjE) (simp_all add: step_def step_value_def tp1_owner_def tp1_encode_simps tp1_posedge_rest)
  qed
qed

lemma tp1_step_negedge:
  assumes "encodes vs t"
  shows "encodes (step (tp1_methods rnd) tp1_owner (set [3, 5]) vs) (tp1_negedge t)"
  unfolding encodes_def
proof
  fix x :: nat assume x: "x \<in> {2..18}"
  then consider "x \<in> {m2c_data, m2c_w_rok, c2m_r_wok}" | "x \<in> {m2c_r_wok, c2m_data, c2m_w_rok}" | "x \<in> {8..15} \<or> x \<in> {16..18}" by fastforce
  then show "step (tp1_methods rnd) tp1_owner (set [3, 5]) vs x = tp1_encode (tp1_negedge t) x"
  proof cases
    case 1
    then show ?thesis using master_genMoore_ok [OF assms 1] by (auto simp: step_def step_value_def tp1_owner_def tp1_methods_def)
  next
    case 2
    then show ?thesis using coproc_genMoore_ok [OF assms 2] by (auto simp: step_def step_value_def tp1_owner_def tp1_methods_def)
  next
    case 3
    then show ?thesis using encodesD [OF assms] unfolding master_range coproc_range
      by (elim disjE) (simp_all add: step_def step_value_def tp1_owner_def tp1_encode_simps tp1_negedge_rest)
  qed
qed

lemma tp1_step_resetn:
  "step (tp1_methods rnd) tp1_owner (set [2, 4]) vs signal_resetn = vs signal_resetn"
  "step (tp1_methods rnd) tp1_owner (set [3, 5]) vs signal_resetn = vs signal_resetn"
proof -
  obtain a r1 b r2 where "rnd (the_int (vs master_rng)) = (a, r1)" "rnd r1 = (b, r2)" by fastforce
  then show "step (tp1_methods rnd) tp1_owner (set [2, 4]) vs signal_resetn = vs signal_resetn"
    by (simp add: step_def step_value_def tp1_owner_def tp1_methods_def master_transition_writes_def written_append Let_def)
qed (simp add: step_def step_value_def tp1_owner_def)

lemma encodes_clk: "encodes (vs(signal_clk := v)) t = encodes vs t" "encodes (vs(signal_resetn := v)) t = encodes vs t"
  by (auto simp: encodes_def)

abbreviation tp1_clock_cycle :: "(int \<Rightarrow> u32 \<times> int) \<Rightarrow> (nat \<Rightarrow> sc_value) \<Rightarrow> nat \<Rightarrow> sc_value" where
  "tp1_clock_cycle rnd \<equiv> clock_cycle (tp1_methods rnd) tp1_owner signal_clk [2, 4] [3, 5]"

lemma tp1_clock_cycle_ok:
  assumes "encodes vs t" and "vs signal_resetn = Bool b"
  shows "encodes (tp1_clock_cycle rnd vs) (tp1_cycle rnd b t)" and "tp1_clock_cycle rnd vs signal_resetn = Bool b"
  unfolding clock_cycle_def tp1_cycle_def
  using assms by (simp_all only: tp1_step_negedge tp1_step_posedge encodes_clk tp1_step_resetn fun_upd_apply if_False if_True zero_neq_one one_neq_zero)

lemma tp1_clock_cycles_ok:
  assumes "encodes vs t" and "vs signal_resetn = Bool True"
  shows "encodes ((tp1_clock_cycle rnd ^^ n) vs) ((tp1_cycle rnd True ^^ n) t) \<and> (tp1_clock_cycle rnd ^^ n) vs signal_resetn = Bool True"
proof (induction n)
  case (Suc n)
  then show ?case using tp1_clock_cycle_ok [of "(tp1_clock_cycle rnd ^^ n) vs" "(tp1_cycle rnd True ^^ n) t" True rnd] unfolding funpow.simps comp_apply by blast
qed (use assms in simp)

section \<open>The simulation\<close>

lemma tp1_methods_ok: "methods_ok tp1_owner signal_clk (tp1_methods rnd)"
  unfolding methods_ok_def
proof (intro allI impI)
  fix m vs x v assume "(x, v) \<in> set (tp1_methods rnd m vs)"
  then consider "m = 2" "x \<in> {8..15}" | "m = 3" "x \<in> {2, 4, 6}" | "m = 4" "x \<in> {16..18}" | "m = 5" "x \<in> {3, 5, 7}"
    by (auto simp: tp1_methods_def master_transition_writes_def master_genMoore_writes_def coproc_transition_writes_def coproc_genMoore_writes_def Let_def
        split: if_splits prod.splits)
  then show "tp1_owner x = m \<and> x \<noteq> signal_clk" by cases (auto simp: tp1_owner_def coproc_range)
qed

lemma tp1_platform_ok: "platform_ok tp1_clock 0 1 [2, 4] [3, 5] tp1_owner (tp1_methods rnd) (tp1_body rnd)"
  using tp1_methods_ok [of rnd] by (simp add: platform_ok_def tp1_clock_def tp1_body_def)

lemma tp1_built:
  "\<exists>s. sc_clock_new tp1_clock (sc_simcontext_init tp1_sensitive (tp1_signals seed)) = Ret () s \<and> built tp1_owner tp1_clock table s \<and>
     wired tp1_clock 0 1 [2, 4] [3, 5] s \<and> signal_of s = tp1_signals seed \<and> m_curr_time s = 0"
  by (rule sc_clock_new_ok [where pe = 2 and ne = 3 and initial = "tp1_initial_value seed"])
    (simp_all add: tp1_clock_def tp1_signals_def tp1_sensitive_def tp1_initial_value_def)

definition tp1_initial :: "int \<Rightarrow> int tp1" where
  "tp1_initial seed =
     (let sig = \<lparr>f_data = 0, r_wok = False, w_rok = False\<rparr> in
      \<lparr>signal_fifo_m2c = sig, signal_fifo_c2m = sig,
       tp1_master = \<lparr>ma_fsm = RANDOM, ma_opa = 0, ma_opb = 0, ma_res = 0, ma_cyclecount = 0, ma_iterationcount = 0, ma_rng = seed, ma_cout = []\<rparr>,
       tp1_coproc = \<lparr>co_fsm = READ_OPA, co_opa = 0, co_opb = 0\<rparr>\<rparr>)"

lemma tp1_initial_encodes: "encodes (tp1_initial_value seed) (tp1_initial seed)"
  by (auto simp: encodes_def tp1_encode_def tp1_initial_value_def tp1_initial_def master_code_def coproc_code_def Let_def)

text \<open>C3. The simulation of TP1 by the SystemC kernel: constructors, \<open>sc_start(0)\<close>, reset and \<open>ncycles - 1\<close> cycles, through the event
  queue, the delta cycles and the updates of the scheduler, with the methods of the components as processes. It ends, and all
  signals, registers and printed results are those of the model of the platform, on which its correctness is proved.
  The number of cycles is an \<open>int\<close> of the program.\<close>

theorem tp1_on_systemc:
  assumes "1 < ncycles" and "ncycles < 2 ^ 31"
  shows "\<exists>s. tp1_sc_main rnd ncycles (sc_simcontext_init tp1_sensitive (tp1_signals seed)) = Ret () s \<and>
    (\<forall>x \<in> {2..18}. sig_read x s = tp1_encode (tp1_main rnd (ncycles - 1) (tp1_initial seed)) x) \<and> unat (m_curr_time s) = ncycles * 1000"
proof -
  let ?table = "[1, 0, 5, 4, 3, 2]"
  obtain s0 where s0: "sc_clock_new tp1_clock (sc_simcontext_init tp1_sensitive (tp1_signals seed)) = Ret () s0" "built tp1_owner tp1_clock ?table s0"
      "wired tp1_clock 0 1 [2, 4] [3, 5] s0" "signal_of s0 = tp1_signals seed" "m_curr_time s0 = 0" using tp1_built [of seed ?table] by blast
  have clk: "clk_signal tp1_clock = signal_clk" "m_negedge_time tp1_clock + m_posedge_time tp1_clock = 1000"
      "unat (m_negedge_time tp1_clock) + unat (m_posedge_time tp1_clock) = 1000" by (simp_all add: tp1_clock_def)
  have vals: "vals s0 = tp1_initial_value seed" by (simp add: s0(4) tp1_signals_def sc_signal_new_def)
  let ?cycle = "tp1_clock_cycle rnd"
  have rst: "vals s0 signal_resetn = Bool False" using fun_cong [OF vals, of signal_resetn] by (simp add: tp1_initial_value_def)
  obtain s where s: "main_simulation ?table (tp1_body rnd) signal_resetn 1000 ncycles s0 = Ret () s"
      "vals s = (?cycle ^^ (ncycles - 1)) ((?cycle (vals s0))(signal_resetn := Bool True))" "unat (m_curr_time s) = ncycles * 1000"
    using main_simulation_ok [OF s0(2,3) tp1_platform_ok [of rnd], of signal_resetn ncycles] rst assms unfolding clk s0(5) by auto
  have "encodes (vals s0) (tp1_initial seed)" "vals s0 signal_resetn = Bool False"
    using tp1_initial_encodes [of seed] rst unfolding vals by simp_all
  then have "encodes ((?cycle (vals s0))(signal_resetn := Bool True)) (tp1_cycle rnd False (tp1_initial seed))"
    unfolding encodes_clk by (rule tp1_clock_cycle_ok(1))
  from tp1_clock_cycles_ok [OF this, where rnd = rnd and n = "ncycles - 1"]
  have "encodes (vals s) (tp1_main rnd (ncycles - 1) (tp1_initial seed))" unfolding s(2) tp1_main_def by simp
  then have "\<forall>x \<in> {2..18}. sig_read x s = tp1_encode (tp1_main rnd (ncycles - 1) (tp1_initial seed)) x" by (simp add: encodes_def sig_read_def)
  moreover have "tp1_sc_main rnd ncycles (sc_simcontext_init tp1_sensitive (tp1_signals seed)) = Ret () s"
    using s0(1) s(1) by (simp add: tp1_sc_main_def bnd_def)
  ultimately show ?thesis using s(3) by blast
qed

theorem tp1_on_systemc_witness:
  "\<exists>s. tp1_sc_main (\<lambda>r. (word_of_int r, r + 1)) 3 (sc_simcontext_init tp1_sensitive (tp1_signals 5)) = Ret () s \<and>
     sig_read master_opa s = Num 6 \<and> sig_read master_opb s = Num 7 \<and> sig_read master_fsm s = Num 2 \<and> unat (m_curr_time s) = 3000"
proof -
  let ?rnd = "\<lambda>r. (word_of_int r, r + 1) :: u32 \<times> int"
  let ?t = "tp1_main ?rnd 2 (tp1_initial 5)"
  have t: "ma_fsm (tp1_master ?t) = WRITE_OPB" "ma_opa (tp1_master ?t) = 6" "ma_opb (tp1_master ?t) = 7"
    by (simp_all add: tp1_main_def numeral_2_eq_2 tp1_initial_def tp1_cycle_def tp1_defs Let_def)
  obtain s where s: "tp1_sc_main ?rnd 3 (sc_simcontext_init tp1_sensitive (tp1_signals 5)) = Ret () s"
      "\<forall>x \<in> {2..18}. sig_read x s = tp1_encode (tp1_main ?rnd (3 - 1) (tp1_initial 5)) x" "unat (m_curr_time s) = 3 * 1000"
    using tp1_on_systemc [of 3 ?rnd 5] by auto
  have "sig_read x s = tp1_encode ?t x" if "x \<in> {2..18}" for x using s(2) that by simp
  then have "sig_read master_opa s = Num 6" "sig_read master_opb s = Num 7" "sig_read master_fsm s = Num 2"
    by (simp_all add: tp1_encode_simps t master_code_def)
  then show ?thesis using s(1,3) by auto
qed

end
