(* ===== verification/Spec2Isabelle.thy ===== *)
theory Spec2Isabelle
  imports Itoa Memcpy Tp3 Fifo_Gcd Tp2_Progress Alloc Sc_Tp1
begin

text \<open>
  Verification of the programs of the repository: the GIET, a small kernel for MIPS32 multiprocessors with
  its user library (\<open>giet_2011\<close>), and the hardware models of the lab sessions TP1 and TP2, which are SystemC
  components simulated cycle by cycle (\<open>TP1/TP1_etudiant\<close>, \<open>TP2/TP2_etudiant\<close>); TP3 runs a program on the kernel on
  such a platform (\<open>TP3/TP3_etudiant\<close>).

  \<^bold>\<open>The kernel.\<close> A C function is a program on the state of the machine (\<open>Machine\<close>): byte-addressed memory, the
  registers of the processor, the global variables of the kernel, the devices and the trace of the accesses to
  them. Its outcome (\<open>Prelude\<close>) is a value with a state, undefined behaviour, a stop of the processor or an endless
  loop, so a theorem that a function returns excludes the other three. Devices are parameters: a platform gives
  the base addresses, the configuration and the answers of the devices, and, for the assembly code, the addresses that the linker gives to
  symbols (\<open>label\<close>) and the values that compiled C code leaves in the registers (\<open>clobbers\<close>, of which the theorems use the calling convention
  only). Unsigned integers are 32-bit words.

  \<^item> \<open>Prelude\<close>, \<open>Positional\<close>, \<open>Machine\<close>, \<open>Output\<close>: the shared lemmas, the locale \<open>transition_system\<close> of reachable
    states, the locale \<open>positional\<close> of number notations (interpreted for the decimal and hexadecimal digits of the
    kernel), the machine, and what it means that a task prints a text.
  \<^item> \<open>Drivers\<close> (\<open>drivers.c\<close>, first half): \<open>_procid\<close>, timers, terminals, ICU, GCD. \<open>_tty_write\<close> and \<open>_tty_config\<close> are
    correct for every device that answers a status.
  \<^item> \<open>Block\<close> (\<open>drivers.c\<close>, second half, and \<open>_dcache_buf_invalidate\<close>): the block device, the frame buffer and its DMA.
    Round trip of the frame buffer, exact conditions of the user space check and of the cache invalidation.
  \<^item> \<open>Itoa\<close>, \<open>Memcpy\<close> (\<open>common.c\<close>, \<open>common.h\<close>): number conversions and the word by word copy, equal to a byte copy.
  \<^item> \<open>Context\<close> (\<open>ctx_handler.c\<close>, \<open>_task_switch\<close> of \<open>giet.s\<close>): one switch, with everything it changes, and a whole round of the
    scheduler.
  \<^item> \<open>Irq\<close> (\<open>irq_handler.c\<close>): the service routines and \<open>_int_demux\<close>. The locale \<open>completion\<close> is the contract between a
    driver that waits, the device that meanwhile writes the memory of the transfer, and the routine that wakes the driver; it is
    interpreted for the block device and for the DMA.
  \<^item> \<open>Exc\<close> (\<open>exc_handler.c\<close>, \<open>_giet\<close>): the report of a fatal exception.
  \<^item> \<open>Barrier\<close> (\<open>common.c\<close>): the barriers, instruction by instruction for several tasks, as a step relation; one use
    is safe and never deadlocks, a second use can deadlock.
  \<^item> \<open>Sys\<close> (\<open>sys_handler.c\<close>, \<open>_sys_handler\<close> and \<open>_int_handler\<close> of \<open>giet.s\<close>): the handlers instruction by instruction, with HI,
    LO and the system registers \<open>$26\<close> and \<open>$27\<close>. After an interrupt the task has its registers back; after a system call, those that the calling
    convention preserves.
  \<^item> \<open>Stdio\<close>, \<open>Printf\<close> (\<open>app/stdio.c\<close>): the user library on top of the system calls; \<open>tty_printf\<close> and \<open>tty_putw\<close>
    print the text that the format and the arguments denote.
  \<^item> \<open>Input\<close>: \<open>tty_gets_irq\<close> and \<open>tty_getw_irq\<close> read the characters that their polls get. The locale \<open>polled_read\<close> is the contract of a reading
    system call, interpreted for the read from the kernel buffer that the interrupt routine fills and for the read
    from the terminal. The inductive predicate \<open>typing\<close> describes the characters that arrive in time to be read and what the rest of the
    system may do while the task waits (a character that arrives before the previous one was read replaces it in the
    one-character buffer, lemma \<open>tty_overrun\<close>); the line editor and the number dialogue are functions on the text read.
  \<^item> \<open>Tp3\<close> (\<open>TP3/TP3_etudiant\<close>): \<open>soft/reset.s\<close>, the program \<open>soft/main.c\<close> down to the accesses to the terminal, the command
    line and the mapping table of \<open>tp3_top.cpp\<close> with the routing of the addresses that the drivers use.

  \<^bold>\<open>The hardware models.\<close> A component is a record of its registers; \<open>transition\<close> (rising edge) is a function of the
  old registers and of the signals, since a register written with \<open>sc_signal\<close> changes after the edge; \<open>genMoore\<close> and
  \<open>genMealy\<close> (falling edge) drive the signals. A platform is the composition that \<open>sc_main\<close> builds, and a
  simulation is a number of cycles after one cycle of reset. A failed assertion, \<open>exit\<close>, an exception, an access out
  of range, an undefined operation and an endless loop are values of the model. \<open>rand()\<close> is a parameter, of
  which only its documented range is used (\<open>rand_range\<close>); the counters of the masters are modulo \<open>2 ^ 32\<close>.

  \<^item> \<open>Gcd_Engine\<close>: the locale \<open>gcd_engine\<close>, a subtractive computation with a measure, interpreted for the coprocessors of
    TP1 and TP2, and the locale \<open>gcd_platform\<close>, interpreted for the two platforms with one master: what is displayed
    is at every cycle a beginning of a \<open>session\<close>, the abstract specification, and every length is reached.
  \<^item> \<open>Fifo_Gcd\<close>: TP1, \<open>fifo_gcd_master\<close>, \<open>fifo_gcd_coprocessor\<close>, their ports and \<open>tp1_top\<close>.
  \<^item> \<open>Int_Tab\<close>, \<open>Tables\<close>, \<open>Mapping_Table\<close>: \<open>int_tab.h\<close>, \<open>address_masking_table\<close>, \<open>address_decoding_table\<close>, \<open>segment\<close> and
    \<open>mapping_table\<close> of TP2. \<open>Mapping_Props\<close>: \<open>add\<close> decides exactly and keeps the table consistent, or never returns, exactly
    for some segments that reach from the first block of the address space to the last; the routing and
    cacheability tables give the target and the attribute of every address, identifiers decode.
  \<^item> \<open>Vci\<close>, \<open>Vci_Gcd\<close>: the VCI signals and ports, \<open>vci_gcd_coprocessor\<close> and \<open>vci_gcd_master\<close>.
  \<^item> \<open>Tp2_Simple\<close>: \<open>tp2_simple_top\<close>; the two protocols fit.
  \<^item> \<open>Vgsb\<close>: the bus \<open>vci_vgsb\<close> with checked accesses to its arrays: when it stays in range, the history of every transaction
    from the election of an initiator to its response, and the starvation that its arbitration allows.
  \<^item> \<open>Tp2_Map\<close>, \<open>Tp2_Parallel\<close>: \<open>tp2_parallel_top\<close>; mapping table, routing table, bus, three masters and three
    coprocessors together. The invariant relates the state of the bus to the protocol states of every pair and to
    the operands and results in flight.
  \<^item> \<open>Tp2_Progress\<close>: the same platform never stalls. In the order of the stages of the protocol, of the polls of the
    status register and of the work left in the engines, some master advances within every bounded wait, so every
    number of displayed results is reached.
  \<^item> \<open>Alloc\<close>: \<open>alloc_elems.h\<close> and the constructor and destructor of the bus, on an explicit heap of blocks with \<open>malloc\<close> as
    a parameter, which gives the address of a block, possibly null, and the number of elements it has room for. A block can be released only
    after the destructors of its objects. All the functions are instances of one for any number of dimensions; what is allocated is released
    once, and the counters of the bus stay allocated when its routing table throws.

  \<^bold>\<open>The SystemC kernel.\<close> The order of the clock edges and the delayed change of registers, on which the hardware models rest, are
  properties of the scheduler of SystemC (\<open>systemc-2.3.3\<close>), which is modelled as far as the platforms use it: methods with static
  sensitivity, signals with one writer, a clock and \<open>sc_start\<close>. Events, processes and signals are numbered, times are
  64-bit words, an error report or a failed assertion ends the simulation. \<open>sc_start(0)\<close> of the platforms stands for
  \<open>sc_start(SC_ZERO_TIME)\<close>, the form that this version of the library has.

  \<^item> \<open>Sc_Pq\<close> (\<open>sc_pq.cpp\<close>): the priority queue in an array. The locale \<open>comparison\<close> states what it needs of a comparison function
    and is interpreted for the comparison of notification times; insertion and extraction are those of a multiset.
  \<^item> \<open>Sc_Event\<close> (\<open>sc_event.cpp\<close>, parts of \<open>sc_simcontext.cpp\<close>): notifications. The detailed state, a set of delta
    notifications with back indices and a heap of nodes with links to their events, refines the specification \<open>pending\<close>, which
    gives every event at most one notification; cancelled nodes stay in the queue and are skipped.
  \<^item> \<open>Sc_Kernel\<close> (\<open>sc_signal\<close>, \<open>sc_prim_channel\<close>, \<open>sc_clock\<close>, \<open>sc_runnable\<close>, \<open>sc_simcontext.cpp\<close>): the definitions of signals, clock
    and scheduler, and the constructors.
  \<^item> \<open>Sc_Delta\<close>: one delta cycle; the result does not depend on the order of the processes.
  \<^item> \<open>Sc_Clock\<close>: \<open>sc_start\<close> for one period lets the methods of the rising edge run and then those of the falling edge.
  \<^item> \<open>Sc_Platform\<close>: the whole simulation loop of \<open>sc_main\<close> for any clocked platform, and the properties of the kernel.
  \<^item> \<open>Sc_Tp1\<close>: the platform of TP1 on this kernel, its methods as the assignments to signals that they do; the simulation
    computes the model of \<open>Fifo_Gcd\<close>.

  \<^bold>\<open>Loops.\<close> Loops are recursive functions with a measure, or \<open>while_option\<close> where they may not end (then not ending is
  a value and every theorem that a result is returned shows that they end). The only numbers of steps are the
  cycles of a simulation, over which the theorems quantify.

  \<^bold>\<open>Not modelled.\<close> Of the SystemC library: threads, dynamic sensitivity, \<open>sc_stop\<close> and \<open>sc_pause\<close>, asynchronous updates, phase
  callbacks, reset signals, ports and elaboration, the data types, TLM, tracing and reports, most of which the programs do not use, and the
  \<open>double\<close> arithmetic that splits the period of a clock. The theorem on clocked platforms covers processes that are sensitive to one
  edge of the clock, as in TP1; the Mealy functions of the bus of TP2 are also sensitive to other signals, so for TP2 the order rising edge,
  Moore functions, Mealy functions is part of the platform model (the masters of one platform draw their random numbers in the order of
  construction). Further: printing and tracing functions, the other destructors, the
  placement of sections by the linker scripts, and the components of the TP3 platform (processor, caches, memories, terminal) and hence its
  netlist and simulation: they belong to SoCLib and are not in the repository.
\<close>

end
